(* ===== verification/Prelude.thy ===== *)
theory Prelude
  imports Main "HOL-Library.Word" "HOL-Library.Multiset"
begin

text \<open>
  Shared vocabulary of the development: the machine integers of the 32-bit ARM target
  (\<open>unsigned int\<close> and \<open>unsigned long\<close> are 32 bits wide, \<open>sector_t\<close> is 64 bits wide
  because the firmware's configuration sets \<open>CONFIG_LBD\<close>), the kernel's error numbers,
  C's \<open>memcpy\<close> with its bounds made explicit, and the generic lemmas on words, lists and
  transition systems that the component theories use.
\<close>

unbundle bit_operations_syntax

type_synonym u8 = "8 word"
type_synonym u16 = "16 word"
type_synonym u32 = "32 word"
type_synonym u64 = "64 word"

text \<open>The error numbers that the modelled code returns (negated), and the kernel's
  assertion failure \<open>BUG()\<close>, an access outside an object, a null dereference and a division by zero. A call that
  may fail returns \<open>fault + 'a\<close>.\<close>

datatype errno = EPERM | ESRCH | EINTR | E2BIG | EAGAIN | ENOMEM | EACCES | EFAULT | EBUSY
  | EINVAL | EFBIG | ENOSPC | ERANGE | EIDRM | EROFS | EOPNOTSUPP | EIO | ENOENT | EEXIST | ENODEV | ENXIO

datatype fault = Errno errno | BUG | OutOfBounds | NullPointer | DivByZero

type_synonym 'a res = "fault + 'a"

text \<open>The second call is made when the first one succeeds.\<close>

definition bind_res :: "'a res \<Rightarrow> ('a \<Rightarrow> 'b res) \<Rightarrow> 'b res" where
  "bind_res r f = (case r of Inl e \<Rightarrow> Inl e | Inr x \<Rightarrow> f x)"

lemma bind_res_cong [fundef_cong]:
  "r = r' \<Longrightarrow> (\<And>x. r' = Inr x \<Longrightarrow> f x = f' x) \<Longrightarrow> bind_res r f = bind_res r' f'"
  by (simp add: bind_res_def split: sum.split)

lemma bind_res_simps [simp]: "bind_res (Inr x) f = f x" "bind_res (Inl e) f = Inl e"
  by (simp_all add: bind_res_def)

lemma bind_res_Inr: "bind_res r f = Inr y \<longleftrightarrow> (\<exists>x. r = Inr x \<and> f x = Inr y)"
  by (cases r) auto

named_theorems nowrap \<open>word arithmetic that does not wrap, read as arithmetic on naturals\<close>

subsection \<open>Words read as natural numbers\<close>

lemma unat_add_nowrap [nowrap]:
  fixes a b :: "'a::len word"
  shows "unat a + unat b < 2 ^ LENGTH('a) \<Longrightarrow> unat (a + b) = unat a + unat b"
  by (simp add: unat_word_ariths)

lemma unat_sub_nowrap [nowrap]:
  fixes a b :: "'a::len word"
  shows "unat b \<le> unat a \<Longrightarrow> unat (a - b) = unat a - unat b"
  by (simp add: unat_sub word_le_nat_alt)

lemma unat_mult_nowrap [nowrap]:
  fixes a b :: "'a::len word"
  shows "unat a * unat b < 2 ^ LENGTH('a) \<Longrightarrow> unat (a * b) = unat a * unat b"
  by (simp add: unat_word_ariths)

lemma unat_push_bit_nowrap [nowrap]:
  fixes a :: "'a::len word"
  shows "unat a * 2 ^ n < 2 ^ LENGTH('a) \<Longrightarrow> unat (push_bit n a) = unat a * 2 ^ n"
  by (simp add: unsigned_push_bit_eq take_bit_nat_eq_self push_bit_nat_def)

lemma unat_ucast_small [nowrap]:
  fixes w :: "'a::len word"
  shows "unat w < 2 ^ LENGTH('b) \<Longrightarrow> unat (ucast w :: 'b::len word) = unat w"
  by (simp add: unsigned_ucast_eq take_bit_nat_eq_self)

lemma unat_scast_nonneg [nowrap]:
  fixes w :: "'a::len word"
  assumes "unat w < 2 ^ (LENGTH('a) - 1)" "unat w < 2 ^ LENGTH('b)"
  shows "unat (scast w :: 'b::len word) = unat w"
proof -
  have "int (unat w) < int (2 ^ (LENGTH('a) - 1))" using assms(1) by (simp only: of_nat_less_iff)
  then have "uint w < 2 ^ (LENGTH('a) - 1)" by simp
  then have "signed_take_bit (LENGTH('a) - 1) (uint w) = uint w"
    using order_trans [of "- (2 ^ (LENGTH('a) - Suc 0))" 0 "uint w"]
    by (simp add: signed_take_bit_int_eq_self_iff)
  then have "sint w = uint w" by (simp add: sint_uint)
  then have "scast w = (ucast w :: 'b word)" by (simp only: scast_eq ucast_eq)
  then show ?thesis using assms(2) by (simp add: unat_ucast_small)
qed

lemma unat_drop_bit: "unat (drop_bit n w) = unat w div 2 ^ n"
  by (simp add: unsigned_drop_bit_eq drop_bit_nat_def take_bit_nat_eq_self)

lemma sint_negative_iff: "sint (w :: u32) < 0 \<longleftrightarrow> 2 ^ 31 \<le> unat w"
proof -
  have b: "0 \<le> uint w" "uint w < 4294967296" using uint_bounded [of w] by simp_all
  have "sint w = take_bit 32 (uint w + 2147483648) - 2147483648"
    by (simp add: sint_uint signed_take_bit_eq_take_bit_shift)
  then have "sint w < 0 \<longleftrightarrow> (uint w + 2147483648) mod 4294967296 < 2147483648" by (simp add: take_bit_int_def)
  also have "\<dots> \<longleftrightarrow> 2147483648 \<le> uint w" 
  proof (cases "2147483648 \<le> uint w")
    case True
    then have "(uint w - 2147483648 + 4294967296) mod 4294967296 = uint w - 2147483648"
      using b unfolding mod_add_self2 by (intro mod_pos_pos_trivial) simp_all
    then show ?thesis using True b by (simp add: add.commute)
  next
    case False
    then have "(uint w + 2147483648) mod 4294967296 = uint w + 2147483648" using b by (intro mod_pos_pos_trivial) simp_all
    then show ?thesis using False b by simp
  qed
  also have "\<dots> \<longleftrightarrow> int (2 ^ 31) \<le> int (unat w)" by simp
  also have "\<dots> \<longleftrightarrow> 2 ^ 31 \<le> unat w" by (simp only: of_nat_le_iff)
  finally show ?thesis .
qed

lemma sint_small:
  assumes "unat (x :: u64) < 2 ^ 31"
  shows "sint (ucast x :: u32) = int (unat x)" "scast (ucast x :: u32) = x" "ucast (ucast x :: u32) = x"
proof -
  have u: "unat (ucast x :: u32) = unat x" using assms by (simp add: unat_ucast_small)
  have "0 \<le> sint (ucast x :: u32)" using sint_negative_iff [of "ucast x"] u assms by simp
  then have "sint (ucast x :: u32) = take_bit 32 (sint (ucast x :: u32))" using sint_lt [of "ucast x :: u32"] by (simp add: take_bit_int_eq_self)
  also have "\<dots> = uint (ucast x :: u32)" using uint_sint [of "ucast x :: u32"] by simp
  also have "\<dots> = int (unat x)" using u by (simp only: uint_nat)
  finally show s: "sint (ucast x :: u32) = int (unat x)" .
  show "scast (ucast x :: u32) = x" unfolding scast_eq s by simp
  show "ucast (ucast x :: u32) = x" by (simp only: word_unat_eq_iff) (use u assms in \<open>subst unat_ucast_small; simp\<close>)
qed

lemma filter_update:
  "k < length xs \<Longrightarrow> int (length (filter P (xs[k := y]))) = int (length (filter P xs)) - of_bool (P (xs ! k)) + of_bool (P y)"
proof (induction xs arbitrary: k)
  case (Cons x xs)
  then show ?case by (cases k) auto
qed simp

lemma unat_min: "unat (min a b) = min (unat a) (unat b)"
  by (simp add: min_def word_le_nat_alt)

lemma unat_less_exp: "unat (a :: 'a::len word) < 2 ^ LENGTH('a)"
  by (rule unsigned_less)

lemma align_down:
  fixes w a :: "u32"
  assumes "unat a = 2 ^ k" "k < 32"
  shows "unat (w AND NOT (a - 1)) = unat w div 2 ^ k * 2 ^ k"
proof -
  have "a = of_nat (unat a)" by simp
  then have "a = 2 ^ k" by (simp add: assms(1))
  then have "a - 1 = mask k" by (simp add: mask_eq_exp_minus_1)
  moreover have "w AND NOT (mask k) = push_bit k (drop_bit k w)"
    by (rule bit_eqI) (auto simp: bit_simps)
  moreover have "unat w div 2 ^ k * 2 ^ k < 2 ^ 32"
    using le_less_trans [OF div_times_less_eq_dividend unat_less_exp [of w]] by simp
  ultimately show ?thesis by (simp add: unat_push_bit_nowrap unat_drop_bit)
qed

lemma and_pow2_minus_1:
  fixes w s :: "'a::len word"
  assumes "unat s = 2 ^ k"
  shows "unat (w AND (s - 1)) = unat w mod 2 ^ k"
proof -
  have "s = of_nat (unat s)" by simp
  then have "s = 2 ^ k" by (simp add: assms)
  then have "w AND (s - 1) = take_bit k w"
    by (simp add: take_bit_eq_mask mask_eq_exp_minus_1)
  then show ?thesis
    by (simp add: unsigned_take_bit_eq) (simp add: take_bit_nat_def)
qed

subsection \<open>Copying memory\<close>

text \<open>\<open>memcpy(dst + doff, src + soff, n)\<close>. A range that leaves an object is undefined
  behaviour in C: the model returns \<open>OutOfBounds\<close>, so that a theorem which says that a call
  returns \<open>Inr\<close> says that it stays inside its buffers.\<close>

definition memcpy :: "'a list \<Rightarrow> nat \<Rightarrow> 'a list \<Rightarrow> nat \<Rightarrow> nat \<Rightarrow> 'a list res" where
  "memcpy dst doff src soff n =
     (if doff + n \<le> length dst \<and> soff + n \<le> length src
      then Inr (take doff dst @ take n (drop soff src) @ drop (doff + n) dst)
      else Inl OutOfBounds)"

lemma memcpy_Inr:
  "doff + n \<le> length dst \<Longrightarrow> soff + n \<le> length src \<Longrightarrow>
   \<exists>d. memcpy dst doff src soff n = Inr d \<and> length d = length dst \<and>
       (\<forall>j < length dst. d ! j = (if doff \<le> j \<and> j < doff + n then src ! (soff + (j - doff)) else dst ! j))"
  by (auto simp: memcpy_def nth_append min_absorb2)

subsection \<open>Positions on a ring\<close>

lemma mod_add_small:
  fixes a i n :: nat
  assumes "i \<le> n" "0 < n"
  shows "(a + i) mod n = (if a mod n + i < n then a mod n + i else a mod n + i - n)"
proof -
  have lt: "a mod n < n" using assms by simp
  have "(a + i) mod n = (a mod n + i) mod n" by (simp add: mod_simps)
  also have "\<dots> = (if a mod n + i < n then a mod n + i else a mod n + i - n)"
    using assms lt by (auto simp: le_mod_geq)
  finally show ?thesis .
qed

lemma mod_add_inj:
  fixes a i j n :: nat
  assumes "(a + i) mod n = (a + j) mod n" "i < n" "j < n"
  shows "i = j"
  using assms mod_less_divisor [of n a] by (simp add: mod_add_small split: if_splits)

subsection \<open>Pieces laid end to end\<close>

text \<open>Where piece \<open>i\<close> starts when pieces of sizes \<open>f x\<close> are laid end to end.\<close>

definition prefix_sum :: "('a \<Rightarrow> nat) \<Rightarrow> 'a list \<Rightarrow> nat \<Rightarrow> nat" where
  "prefix_sum f xs i = sum_list (map f (take i xs))"

lemma prefix_sum_0 [simp]: "prefix_sum f xs 0 = 0"
  by (simp add: prefix_sum_def)

lemma prefix_sum_Suc: "i < length xs \<Longrightarrow> prefix_sum f xs (Suc i) = prefix_sum f xs i + f (xs ! i)"
  by (simp add: prefix_sum_def take_Suc_conv_app_nth)

lemma prefix_sum_mono: "i \<le> j \<Longrightarrow> prefix_sum f xs i \<le> prefix_sum f xs j"
  by (auto simp: prefix_sum_def take_add le_iff_add)

lemma prefix_sum_le_total: "prefix_sum f xs i \<le> prefix_sum f xs (length xs)"
proof (cases "i \<le> length xs")
  case True
  then show ?thesis by (rule prefix_sum_mono)
next
  case False
  then show ?thesis by (simp add: prefix_sum_def)
qed

lemma prefix_sum_cong:
  assumes "length ys = length xs" "\<forall>j < length xs. f (ys ! j) = f (xs ! j)"
  shows "prefix_sum f ys i = prefix_sum f xs i"
proof -
  have "map f ys = map f xs" using assms by (intro nth_equalityI) auto
  then show ?thesis unfolding prefix_sum_def by (metis take_map)
qed

text \<open>Every position below the total lies in exactly one piece.\<close>

lemma prefix_sum_find:
  "p < prefix_sum f xs n \<Longrightarrow> n \<le> length xs \<Longrightarrow>
   \<exists>i < n. prefix_sum f xs i \<le> p \<and> p < prefix_sum f xs i + f (xs ! i)"
proof (induction n)
  case 0
  then show ?case by simp
next
  case (Suc n)
  show ?case
  proof (cases "p < prefix_sum f xs n")
    case True
    with Suc show ?thesis by (meson Suc_leD less_SucI)
  next
    case False
    with Suc.prems show ?thesis by (intro exI [of _ n]) (auto simp: prefix_sum_Suc)
  qed
qed

lemma ceil_div_ge:
  fixes d t :: nat
  assumes "0 < d"
  shows "t \<le> (t div d + (if t mod d \<noteq> 0 then 1 else 0)) * d"
proof -
  obtain q r where qr: "t div d = q" "t mod d = r" by simp
  have "q * d + r = t" using div_mult_mod_eq [of t d] by (simp only: qr)
  moreover have "r < d" using assms qr(2) by auto
  ultimately show ?thesis unfolding qr by auto
qed

subsection \<open>Transition systems\<close>

text \<open>Several components are state machines. What they share: an invariant that holds at the
  start and that every step keeps holds in every state that a run reaches.\<close>

locale transition_system =
  fixes initial :: "'s \<Rightarrow> bool"
    and step :: "'s \<Rightarrow> 's \<Rightarrow> bool"
    and inv :: "'s \<Rightarrow> bool"
  assumes initial_inv: "initial s \<Longrightarrow> inv s"
    and step_inv: "inv s \<Longrightarrow> step s t \<Longrightarrow> inv t"
begin

lemma run_inv: "step\<^sup>*\<^sup>* s t \<Longrightarrow> inv s \<Longrightarrow> inv t"
  by (induction rule: rtranclp_induct) (auto intro: step_inv)

lemma reachable_inv: "initial s \<Longrightarrow> step\<^sup>*\<^sup>* s t \<Longrightarrow> inv t"
  by (blast intro: run_inv initial_inv)

end

end
