(* ===== verification/Bitops.thy ===== *)
theory Bitops
  imports Prelude
begin

text \<open>
  The generic bit operations of \<open>include/linux/bitops.h\<close> that the firmware's ARMv5 core
  uses (\<open>fls\<close> is \<open>generic_fls\<close> there) and \<open>roundup_pow_of_two\<close> of
  \<open>include/linux/kernel.h\<close>. The lemmas show that the shift cascade of \<open>generic_fls\<close>
  computes the position of the highest set bit, and that rounding up gives the least power
  of two that is not below its argument.
\<close>

text \<open>One stage of the cascade: \<open>if (!(x & mask)) { x <<= k; r -= k; }\<close>.\<close>

definition fls_stage :: "u32 \<Rightarrow> nat \<Rightarrow> u32 \<times> int \<Rightarrow> u32 \<times> int" where
  "fls_stage m k xr = (let (x, r) = xr in if x AND m = 0 then (push_bit k x, r - int k) else (x, r))"

definition generic_fls :: "u32 \<Rightarrow> int" where
  "generic_fls x =
     (if x = 0 then 0
      else snd (fls_stage 0x80000000 1 (fls_stage 0xc0000000 2 (fls_stage 0xf0000000 4
             (fls_stage 0xff000000 8 (fls_stage 0xffff0000 16 (x, 32)))))))"

text \<open>\<open>1UL << fls(x - 1)\<close>; a shift by 32 yields 0 on ARM, as \<open>push_bit\<close> does.\<close>

definition roundup_pow_of_two :: "u32 \<Rightarrow> u32" where
  "roundup_pow_of_two x = push_bit (nat (generic_fls (x - 1))) 1"

text \<open>The ARMv5 forms of \<open>include/asm-arm/bitops.h\<close>: \<open>ffs\<close> through \<open>fls\<close> of the isolated
  lowest bit, \<open>ffz\<close> through \<open>ffs\<close> of the complement (\<open>fls\<close> is the \<open>clz\<close> instruction there,
  which computes what \<open>generic_fls\<close> computes).\<close>

definition ffs :: "u32 \<Rightarrow> int" where
  "ffs x = generic_fls (x AND - x)"

definition u_ffs :: "u32 \<Rightarrow> int" where
  "u_ffs x = ffs x - 1"

definition ffz :: "u32 \<Rightarrow> int" where
  "ffz x = u_ffs (NOT x)"

subsection \<open>The cascade finds the highest set bit\<close>

lemma and_high_mask_zero:
  fixes x :: "'a::len word"
  shows "x AND NOT (mask m) = 0 \<longleftrightarrow> unat x < 2 ^ m"
proof -
  have "x AND NOT (mask m) = 0 \<longleftrightarrow> x AND mask m = x"
    by (auto simp: bit_eq_iff bit_simps)
  also have "\<dots> \<longleftrightarrow> take_bit m x = x" by (simp add: take_bit_eq_mask)
  also have "\<dots> \<longleftrightarrow> unat x < 2 ^ m"
    by (metis unsigned_take_bit_eq take_bit_nat_eq_self_iff word_unat_eq_iff)
  finally show ?thesis .
qed

text \<open>What every stage keeps: the shifted word is the original one moved up by the bits
  already subtracted from \<open>r\<close>.\<close>

definition fls_inv :: "u32 \<Rightarrow> nat \<Rightarrow> u32 \<times> int \<Rightarrow> bool" where
  "fls_inv x0 lo xr \<longleftrightarrow>
     (let (x, r) = xr in \<exists>s \<le> 31. r = 32 - int s \<and> unat x = unat x0 * 2 ^ s \<and> 2 ^ lo \<le> unat x)"

lemma fls_stage_inv:
  assumes inv: "fls_inv x0 lo xr"
    and m: "m = NOT (mask (32 - k))" and lo: "lo + 2 * k = 32" and k: "0 < k"
  shows "fls_inv x0 (lo + k) (fls_stage m k xr)"
proof -
  obtain x r where xr: "xr = (x, r)" by force
  from inv xr obtain s where s: "s \<le> 31" "r = 32 - int s" "unat x = unat x0 * 2 ^ s" "2 ^ lo \<le> unat x"
    by (auto simp: fls_inv_def)
  have lok: "32 - k = lo + k" using lo by simp
  show ?thesis
  proof (cases "x AND m = 0")
    case True
    then have lt: "unat x < 2 ^ (lo + k)" by (simp add: m and_high_mask_zero lok)
    have "unat x * 2 ^ k < 2 ^ (lo + k) * 2 ^ k" using lt by simp
    also have "\<dots> = 2 ^ (lo + 2 * k)" by (simp add: power_add power2_eq_square mult_2)
    also have "\<dots> = 2 ^ 32" by (simp only: lo)
    finally have sh: "unat (push_bit k x) = unat x * 2 ^ k" by (intro unat_push_bit_nowrap) simp
    have "2 ^ lo * 2 ^ k \<le> unat x * 2 ^ k" using s(4) by simp
    then have ge: "2 ^ (lo + k) \<le> unat (push_bit k x)" by (simp add: sh power_add)
    have "unat (push_bit k x) = unat x0 * 2 ^ (s + k)" by (simp add: sh s(3) power_add)
    moreover have "s + k \<le> 31"
    proof (rule ccontr)
      assume "\<not> s + k \<le> 31"
      then have "(2::nat) ^ 32 \<le> 2 ^ (s + k)" by (intro power_increasing) auto
      moreover have "1 \<le> unat x0" using s(3,4) by (cases "unat x0") auto
      ultimately have "1 * 2 ^ 32 \<le> unat x0 * 2 ^ (s + k)" by (intro mult_le_mono)
      then have "2 ^ 32 \<le> unat (push_bit k x)"
        using \<open>unat (push_bit k x) = unat x0 * 2 ^ (s + k)\<close> by simp
      with unat_less_exp [of "push_bit k x"] show False by simp
    qed
    ultimately show ?thesis using True ge s(2)
      by (auto simp: fls_inv_def fls_stage_def xr intro!: exI [of _ "s + k"])
  next
    case False
    then have "2 ^ (lo + k) \<le> unat x" by (simp add: m and_high_mask_zero lok)
    with False s show ?thesis by (auto simp: fls_inv_def fls_stage_def xr)
  qed
qed

lemma generic_fls_bounds:
  assumes "x \<noteq> 0"
  shows "\<exists>r. generic_fls x = int r \<and> 1 \<le> r \<and> r \<le> 32 \<and> 2 ^ (r - 1) \<le> unat x \<and> unat x < 2 ^ r"
proof -
  let ?s1 = "fls_stage 0xffff0000 16 (x, 32)"
  let ?s2 = "fls_stage 0xff000000 8 ?s1"
  let ?s3 = "fls_stage 0xf0000000 4 ?s2"
  let ?s4 = "fls_stage 0xc0000000 2 ?s3"
  let ?s5 = "fls_stage 0x80000000 1 ?s4"
  have "0 < unat x" using assms by (simp add: unat_gt_0)
  then have "fls_inv x 0 (x, 32)" by (auto simp: fls_inv_def)
  then have "fls_inv x 16 ?s1" using fls_stage_inv [of x 0 "(x, 32)" "0xffff0000" 16]
    by (simp add: mask_eq_exp_minus_1)
  then have "fls_inv x 24 ?s2" using fls_stage_inv [of x 16 ?s1 "0xff000000" 8]
    by (simp add: mask_eq_exp_minus_1)
  then have "fls_inv x 28 ?s3" using fls_stage_inv [of x 24 ?s2 "0xf0000000" 4]
    by (simp add: mask_eq_exp_minus_1)
  then have "fls_inv x 30 ?s4" using fls_stage_inv [of x 28 ?s3 "0xc0000000" 2]
    by (simp add: mask_eq_exp_minus_1)
  then have "fls_inv x 31 ?s5" using fls_stage_inv [of x 30 ?s4 "0x80000000" 1]
    by (simp add: mask_eq_exp_minus_1)
  moreover obtain y r where yr: "?s5 = (y, r)" by force
  ultimately obtain s where s: "s \<le> 31" "r = 32 - int s" "unat y = unat x * 2 ^ s" "2 ^ 31 \<le> unat y"
    by (auto simp: fls_inv_def)
  have fls: "generic_fls x = int (32 - s)"
    using assms yr s(1,2) by (simp add: generic_fls_def)
  have pow: "(2::nat) ^ 31 = 2 ^ (31 - s) * 2 ^ s" "(2::nat) ^ 32 = 2 ^ (32 - s) * 2 ^ s"
    using s(1) by (simp_all flip: power_add)
  have "2 ^ (31 - s) * 2 ^ s \<le> unat x * 2 ^ s" using s(3,4) pow by simp
  then have "2 ^ (31 - s) \<le> unat x" by simp
  moreover have "unat x * 2 ^ s < 2 ^ (32 - s) * 2 ^ s"
    using unat_less_exp [of y] s(3) pow by simp
  then have "unat x < 2 ^ (32 - s)" by simp
  ultimately show ?thesis using s(1) by (intro exI [of _ "32 - s"]) (auto simp: fls)
qed

lemma roundup_pow_of_two_spec:
  assumes "1 \<le> unat x" "unat x \<le> 2 ^ 31"
  shows "\<exists>k \<le> 31. unat (roundup_pow_of_two x) = 2 ^ k \<and> unat x \<le> 2 ^ k \<and> 2 ^ k < 2 * unat x"
proof (cases "x = 1")
  case True
  then show ?thesis
    by (intro exI [of _ 0]) (simp add: roundup_pow_of_two_def generic_fls_def)
next
  case False
  from assms have sub: "unat (x - 1) = unat x - 1" by (simp add: unat_sub_nowrap)
  have "x - 1 \<noteq> 0" using False by simp
  then obtain r where r: "generic_fls (x - 1) = int r" "1 \<le> r" "r \<le> 32"
    "2 ^ (r - 1) \<le> unat (x - 1)" "unat (x - 1) < 2 ^ r"
    using generic_fls_bounds by blast
  have "(2::nat) ^ (r - 1) < 2 ^ 31" using r(4) sub assms by linarith
  then have r31: "r \<le> 31" by (subst (asm) power_strict_increasing_iff) auto
  have "(2::nat) ^ r < 2 ^ 32" using r31 by (intro power_strict_increasing) auto
  then have "unat (push_bit r (1::u32)) = 2 ^ r" by (subst unat_push_bit_nowrap) auto
  moreover have "(2::nat) ^ r = 2 * 2 ^ (r - 1)" using r(2) by (cases r) auto
  ultimately show ?thesis using r r31 sub assms
    by (intro exI [of _ r]) (auto simp: roundup_pow_of_two_def)
qed

lemma top_bit_set:
  fixes y :: "'a::len word"
  assumes "2 ^ n \<le> unat y" "unat y < 2 ^ Suc n"
  shows "bit y n"
proof -
  have "unat y div 2 ^ n = 1" using assms by (auto intro!: div_nat_eqI)
  then have "bit (unat y) n" by (simp add: bit_iff_odd)
  then show ?thesis by (simp add: bit_unsigned_iff)
qed

text \<open>The test \<open>size & (size - 1)\<close> tells the powers of two from the other positive numbers.\<close>

lemma and_pred_zero_pow2:
  fixes x :: u32
  assumes "x \<noteq> 0" "x AND (x - 1) = 0"
  shows "\<exists>k \<le> 31. unat x = 2 ^ k"
proof -
  obtain r where r: "1 \<le> r" "r \<le> 32" "2 ^ (r - 1) \<le> unat x" "unat x < 2 ^ r"
    using generic_fls_bounds [OF assms(1)] by blast
  have "unat x = 2 ^ (r - 1)"
  proof (rule ccontr)
    assume "unat x \<noteq> 2 ^ (r - 1)"
    then have gt: "2 ^ (r - 1) < unat x" using r by simp
    then have sub: "unat (x - 1) = unat x - 1" by (simp add: unat_sub_nowrap)
    have "Suc (r - 1) = r" using r by simp
    then have "bit x (r - 1)" "bit (x - 1) (r - 1)"
      using gt r sub by (auto intro!: top_bit_set)
    then have "bit (x AND (x - 1)) (r - 1)" by (simp add: bit_and_iff)
    with assms(2) show False by simp
  qed
  then show ?thesis using r by (intro exI [of _ "r - 1"]) auto
qed

lemma generic_fls_pow2: "k \<le> 31 \<Longrightarrow> unat x = 2 ^ k \<Longrightarrow> generic_fls x = int (Suc k)"
proof -
  assume k: "k \<le> 31" "unat x = 2 ^ k"
  then have "x \<noteq> 0" by auto
  then obtain r where r: "generic_fls x = int r" "1 \<le> r" "2 ^ (r - 1) \<le> unat x" "unat x < 2 ^ r"
    using generic_fls_bounds by blast
  have "(2::nat) ^ (r - 1) \<le> 2 ^ k" "(2::nat) ^ k < 2 ^ r" using r k by auto
  then have "r - 1 \<le> k" "k < r" by simp_all
  then show ?thesis using r(1,2) by auto
qed

lemma and_minus_pow2:
  fixes x :: u32
  assumes "unat x = 2 ^ k" "k \<le> 31"
  shows "x AND - x = x"
proof -
  have "x = of_nat (unat x)" by simp
  then have x: "x = 2 ^ k" by (simp add: assms(1))
  have "- x = NOT (x - 1)" by (simp add: minus_eq_not_minus_1)
  then have "x AND - x = 2 ^ k AND NOT (mask k)" by (simp add: x mask_eq_exp_minus_1)
  also have "\<dots> = 2 ^ k" by (rule bit_word_eqI) (auto simp: bit_simps)
  finally show ?thesis by (simp add: x)
qed

text \<open>The lowest zero of the complement of a power of two is its exponent.\<close>

lemma ffz_not_pow2: "k \<le> 31 \<Longrightarrow> unat x = 2 ^ k \<Longrightarrow> ffz (NOT x) = int k"
  by (simp add: ffz_def u_ffs_def ffs_def and_minus_pow2 generic_fls_pow2)

end
