(* ===== verification/Kfifo.thy ===== *)
theory Kfifo
  imports Bitops
begin

text \<open>
  The kernel's byte FIFO: \<open>kernel/kfifo.c\<close> and the inline wrappers of
  \<open>include/linux/kfifo.h\<close>. The ring is a byte array whose length is a power of two; \<open>in\<close> and
  \<open>out\<close> are free-running 32-bit counters that wrap, and their difference is the fill level.
  The spinlock that the wrappers take serialises the calls, so each call is one step.

  The lemmas refine the code to a bounded queue of bytes (the interface \<open>fifo_channel\<close>):
  every call stays inside its buffers, and what is taken out is exactly what was put in, in
  order, also across the wrap-around of the counters.
\<close>

subsection \<open>The interface: a bounded FIFO channel\<close>

datatype 'a channel_op = ChanPut "'a list" | ChanGet nat

text \<open>Run a sequence of operations, collecting what the channel accepted and what it
  delivered.\<close>

fun channel_run :: "('q \<Rightarrow> 'a list \<Rightarrow> ('q \<times> nat) res) \<Rightarrow> ('q \<Rightarrow> nat \<Rightarrow> ('q \<times> 'a list) res) \<Rightarrow>
    'q \<Rightarrow> 'a channel_op list \<Rightarrow> ('q \<times> 'a list \<times> 'a list) res" where
  "channel_run put get q [] = Inr (q, [], [])"
| "channel_run put get q (ChanPut xs # ops) =
     (case put q xs of Inl e \<Rightarrow> Inl e
      | Inr (q', n) \<Rightarrow> map_sum id (\<lambda>(q'', a, r). (q'', take n xs @ a, r)) (channel_run put get q' ops))"
| "channel_run put get q (ChanGet n # ops) =
     (case get q n of Inl e \<Rightarrow> Inl e
      | Inr (q', ys) \<Rightarrow> map_sum id (\<lambda>(q'', a, r). (q'', a, ys @ r)) (channel_run put get q' ops))"

primrec op_len :: "'a channel_op \<Rightarrow> nat" where
  "op_len (ChanPut xs) = length xs"
| "op_len (ChanGet n) = n"

locale fifo_channel =
  fixes contents :: "'q \<Rightarrow> 'a list"
    and wf :: "'q \<Rightarrow> bool"
    and capacity :: "'q \<Rightarrow> nat"
    and put :: "'q \<Rightarrow> 'a list \<Rightarrow> ('q \<times> nat) res"
    and get :: "'q \<Rightarrow> nat \<Rightarrow> ('q \<times> 'a list) res"
    and max_len :: nat
  assumes put_spec: "wf q \<Longrightarrow> length xs < max_len \<Longrightarrow>
      \<exists>q'. put q xs = Inr (q', min (length xs) (capacity q - length (contents q))) \<and> wf q' \<and>
        capacity q' = capacity q \<and>
        contents q' = contents q @ take (capacity q - length (contents q)) xs"
    and get_spec: "wf q \<Longrightarrow> n < max_len \<Longrightarrow>
      \<exists>q'. get q n = Inr (q', take n (contents q)) \<and> wf q' \<and> capacity q' = capacity q \<and>
        contents q' = drop n (contents q)"
    and bounded: "wf q \<Longrightarrow> length (contents q) \<le> capacity q"
begin

lemma run_fifo:
  assumes "wf q" "\<forall>p \<in> set ops. op_len p < max_len"
  shows "\<exists>q' a r. channel_run put get q ops = Inr (q', a, r) \<and> wf q' \<and>
    capacity q' = capacity q \<and> contents q @ a = r @ contents q'"
  using assms
proof (induction ops arbitrary: q)
  case Nil
  then show ?case by simp
next
  case (Cons p ops)
  show ?case
  proof (cases p)
    case (ChanPut xs)
    let ?room = "capacity q - length (contents q)"
    obtain q1 where q1: "put q xs = Inr (q1, min (length xs) ?room)" "wf q1"
      "capacity q1 = capacity q" "contents q1 = contents q @ take ?room xs"
      using put_spec [of q xs] Cons.prems ChanPut by auto
    obtain q' a r where "channel_run put get q1 ops = Inr (q', a, r)" "wf q'"
      "capacity q' = capacity q1" "contents q1 @ a = r @ contents q'"
      using Cons.IH [OF q1(2)] Cons.prems by auto
    with q1 ChanPut show ?thesis by (auto simp: min_def)
  next
    case (ChanGet n)
    obtain q1 where q1: "get q n = Inr (q1, take n (contents q))" "wf q1"
      "capacity q1 = capacity q" "contents q1 = drop n (contents q)"
      using get_spec [of q n] Cons.prems ChanGet by auto
    obtain q' a r where r: "channel_run put get q1 ops = Inr (q', a, r)" "wf q'"
      "capacity q' = capacity q1" "contents q1 @ a = r @ contents q'"
      using Cons.IH [OF q1(2)] Cons.prems by auto
    have "contents q @ a = take n (contents q) @ r @ contents q'"
      using r(4) q1(4) by (metis append.assoc append_take_drop_id)
    with q1 r ChanGet show ?thesis by auto
  qed
qed

end

subsection \<open>The code\<close>

record kfifo =
  kf_buffer :: "u8 list"
  kf_size :: u32
  kf_in :: u32
  kf_out :: u32

text \<open>\<open>kmalloc_ok\<close> is whether \<open>kmalloc(sizeof(struct kfifo))\<close> returned memory.\<close>

definition kfifo_init :: "bool \<Rightarrow> u8 list \<Rightarrow> u32 \<Rightarrow> kfifo res" where
  "kfifo_init kmalloc_ok buffer sz =
     (if sz AND (sz - 1) \<noteq> 0 then Inl BUG
      else if \<not> kmalloc_ok then Inl (Errno ENOMEM)
      else Inr \<lparr>kf_buffer = buffer, kf_size = sz, kf_in = 0, kf_out = 0\<rparr>)"

text \<open>\<open>kmalloc\<close> stands for the allocator's answer to the request for the buffer.\<close>

definition kfifo_alloc :: "(u32 \<Rightarrow> u8 list option) \<Rightarrow> bool \<Rightarrow> u32 \<Rightarrow> kfifo res" where
  "kfifo_alloc kmalloc kmalloc_ok sz =
     (if sz AND (sz - 1) \<noteq> 0 \<and> sz > 0x80000000 then Inl BUG
      else
        let sz = (if sz AND (sz - 1) \<noteq> 0 then roundup_pow_of_two sz else sz)
        in case kmalloc sz of
             None \<Rightarrow> Inl (Errno ENOMEM)
           | Some buffer \<Rightarrow> kfifo_init kmalloc_ok buffer sz)"

definition u_kfifo_put :: "kfifo \<Rightarrow> u8 list \<Rightarrow> u32 \<Rightarrow> (kfifo \<times> u32) res" where
  "u_kfifo_put f buffer len =
     (let len = min len (kf_size f - kf_in f + kf_out f);
          l = min len (kf_size f - (kf_in f AND (kf_size f - 1)))
      in case memcpy (kf_buffer f) (unat (kf_in f AND (kf_size f - 1))) buffer 0 (unat l) of
           Inl e \<Rightarrow> Inl e
         | Inr b \<Rightarrow>
             (case memcpy b 0 buffer (unat l) (unat (len - l)) of
                Inl e \<Rightarrow> Inl e
              | Inr b' \<Rightarrow> Inr (f\<lparr>kf_buffer := b', kf_in := kf_in f + len\<rparr>, len)))"

text \<open>The destination buffer is returned beside the FIFO.\<close>

definition u_kfifo_get :: "kfifo \<Rightarrow> u8 list \<Rightarrow> u32 \<Rightarrow> (kfifo \<times> u8 list \<times> u32) res" where
  "u_kfifo_get f buffer len =
     (let len = min len (kf_in f - kf_out f);
          l = min len (kf_size f - (kf_out f AND (kf_size f - 1)))
      in case memcpy buffer 0 (kf_buffer f) (unat (kf_out f AND (kf_size f - 1))) (unat l) of
           Inl e \<Rightarrow> Inl e
         | Inr d \<Rightarrow>
             (case memcpy d (unat l) (kf_buffer f) 0 (unat (len - l)) of
                Inl e \<Rightarrow> Inl e
              | Inr d' \<Rightarrow> Inr (f\<lparr>kf_out := kf_out f + len\<rparr>, d', len)))"

definition u_kfifo_reset :: "kfifo \<Rightarrow> kfifo" where
  "u_kfifo_reset f = f\<lparr>kf_in := 0, kf_out := 0\<rparr>"

definition kfifo_reset :: "kfifo \<Rightarrow> kfifo" where
  "kfifo_reset f = u_kfifo_reset f"

definition kfifo_put :: "kfifo \<Rightarrow> u8 list \<Rightarrow> u32 \<Rightarrow> (kfifo \<times> u32) res" where
  "kfifo_put f buffer len = u_kfifo_put f buffer len"

definition kfifo_get :: "kfifo \<Rightarrow> u8 list \<Rightarrow> u32 \<Rightarrow> (kfifo \<times> u8 list \<times> u32) res" where
  "kfifo_get f buffer len =
     (case u_kfifo_get f buffer len of
        Inl e \<Rightarrow> Inl e
      | Inr (f', d, ret) \<Rightarrow>
          Inr (if kf_in f' = kf_out f' then f'\<lparr>kf_in := 0, kf_out := 0\<rparr> else f', d, ret))"

definition u_kfifo_len :: "kfifo \<Rightarrow> u32" where
  "u_kfifo_len f = kf_in f - kf_out f"

definition kfifo_len :: "kfifo \<Rightarrow> u32" where
  "kfifo_len f = u_kfifo_len f"

subsection \<open>Well-formed FIFOs and their contents\<close>

definition kfifo_wf :: "kfifo \<Rightarrow> bool" where
  "kfifo_wf f \<longleftrightarrow> (\<exists>k \<le> 31. unat (kf_size f) = 2 ^ k) \<and>
     length (kf_buffer f) = unat (kf_size f) \<and> unat (kf_in f - kf_out f) \<le> unat (kf_size f)"

definition kfifo_contents :: "kfifo \<Rightarrow> u8 list" where
  "kfifo_contents f =
     map (\<lambda>i. kf_buffer f ! ((unat (kf_out f) + i) mod length (kf_buffer f)))
       [0..<unat (kf_in f - kf_out f)]"

lemma length_kfifo_contents [simp]: "length (kfifo_contents f) = unat (kf_in f - kf_out f)"
  by (simp add: kfifo_contents_def)

text \<open>A FIFO's counters split: the write position is the read position moved by the fill
  level.\<close>

lemma kfifo_in_mod:
  assumes "kfifo_wf f"
  shows "unat (kf_in f) mod unat (kf_size f) =
    (unat (kf_out f) + unat (kf_in f - kf_out f)) mod unat (kf_size f)"
proof -
  from assms obtain k where k: "k \<le> 31" "unat (kf_size f) = 2 ^ k" by (auto simp: kfifo_wf_def)
  have "(2::nat) ^ k dvd 2 ^ 32" using k(1) by (intro le_imp_power_dvd) simp
  then have dvd: "unat (kf_size f) dvd 2 ^ 32" by (simp only: k(2))
  have "unat (kf_in f) = (unat (kf_out f) + unat (kf_in f - kf_out f)) mod 2 ^ 32"
    using unat_word_ariths(1) [of "kf_out f" "kf_in f - kf_out f"] by simp
  then show ?thesis using dvd by (simp add: mod_mod_cancel)
qed


text \<open>The nat-level reading of the two counters' arithmetic.\<close>

lemma kfifo_arith:
  assumes "kfifo_wf f"
  defines "n \<equiv> unat (kf_size f)" and "cnt \<equiv> unat (kf_in f - kf_out f)"
  shows "0 < n" "n \<le> 2 ^ 31" "length (kf_buffer f) = n" "cnt \<le> n"
    "unat (kf_size f - kf_in f + kf_out f) = n - cnt"
    "unat (w AND (kf_size f - 1)) = unat w mod n"
    "unat (kf_size f - (w AND (kf_size f - 1))) = n - unat w mod n"
proof -
  from assms obtain k where k: "k \<le> 31" "n = 2 ^ k" and len: "length (kf_buffer f) = n"
    and cnt: "cnt \<le> n" by (auto simp: kfifo_wf_def)
  show "0 < n" using k by simp
  show "n \<le> 2 ^ 31" using k by (metis one_le_numeral power_increasing)
  show "length (kf_buffer f) = n" "cnt \<le> n" by fact+
  have "kf_size f - kf_in f + kf_out f = kf_size f - (kf_in f - kf_out f)" by simp
  then show "unat (kf_size f - kf_in f + kf_out f) = n - cnt"
    using cnt unat_sub_nowrap [of "kf_in f - kf_out f" "kf_size f"] by (simp only: n_def cnt_def)
  show mask: "unat (w AND (kf_size f - 1)) = unat w mod n"
    using and_pow2_minus_1 [of "kf_size f" k w] k by (simp add: n_def)
  show "unat (kf_size f - (w AND (kf_size f - 1))) = n - unat w mod n"
    using mask \<open>0 < n\<close> by (simp add: unat_sub_nowrap n_def less_imp_le)
qed

subsection \<open>Putting and getting\<close>

text \<open>Writing \<open>L\<close> items to a ring from position \<open>m\<close>, in two pieces of which the first reaches
  at most to the end of the array, appends them to what the ring already holds.\<close>

lemma ring_write:
  fixes b b' :: "'a list"
  assumes n: "0 < n" "cnt + L \<le> n" and m: "m = (p + cnt) mod n" and l: "l = min L (n - m)"
    and b': "\<forall>j < n. b' ! j = (if j < L - l then src ! (l + j)
                 else if m \<le> j \<and> j < m + l then src ! (j - m) else b ! j)"
    and i: "i < cnt + L"
  shows "b' ! ((p + i) mod n) = (if i < cnt then b ! ((p + i) mod n) else src ! (i - cnt))"
proof -
  have mn: "m < n" using n m by simp
  have pos: "(p + (cnt + t)) mod n = (if m + t < n then m + t else m + t - n)" if "t \<le> n" for t
    using mod_add_small [OF that n(1), of "p + cnt"] m by (simp add: add.assoc)
  show ?thesis
  proof (cases "i < cnt")
    case True
    let ?j = "(p + i) mod n"
    have jn: "?j < n" using n by simp
    have out: "?j \<noteq> (p + (cnt + t)) mod n" if "t < L" for t
      using mod_add_inj [of p i n "cnt + t"] that True n by auto
    have "\<not> ?j < L - l"
    proof
      assume j: "?j < L - l"
      then have "m + (l + ?j) = n + ?j" using l mn by (auto simp: min_def split: if_splits)
      moreover have "l + ?j < L" using j by simp
      ultimately show False using out [of "l + ?j"] pos [of "l + ?j"] n by simp
    qed
    moreover have "\<not> (m \<le> ?j \<and> ?j < m + l)"
    proof
      assume j: "m \<le> ?j \<and> ?j < m + l"
      then have "m + (?j - m) = ?j" "?j - m < L" using l by (auto simp: less_diff_conv2)
      then show False using out [of "?j - m"] pos [of "?j - m"] jn n by simp
    qed
    ultimately show ?thesis using b' jn True by auto
  next
    case False
    then obtain t where t: "i = cnt + t" by (metis le_add_diff_inverse not_less)
    then have tL: "t < L" using i by simp
    show ?thesis
    proof (cases "t < l")
      case True
      then have "(p + i) mod n = m + t" using pos [of t] l tL n by (auto simp: t)
      moreover have "\<not> m + t < L - l" using l mn n True by (auto simp: min_def split: if_splits)
      ultimately show ?thesis using b' True t l mn by (auto simp: min_def split: if_splits)
    next
      case ge: False
      then have ln: "l = n - m" using l tL by (auto simp: min_def split: if_splits)
      then have "(p + i) mod n = t - l" using pos [of t] ge tL n mn by (auto simp: t)
      moreover have "t - l < L - l" "t - l < n" using ge tL n by auto
      ultimately show ?thesis using b' ge t by simp
    qed
  qed
qed

lemma u_kfifo_put_spec:
  assumes wf: "kfifo_wf f" and len: "unat len \<le> length buf"
  defines "room \<equiv> unat (kf_size f) - length (kfifo_contents f)"
  shows "\<exists>f' r. u_kfifo_put f buf len = Inr (f', r) \<and> kfifo_wf f' \<and>
    unat r = min (unat len) room \<and> kf_size f' = kf_size f \<and> kf_out f' = kf_out f \<and>
    kfifo_contents f' = kfifo_contents f @ take (min (unat len) room) buf"
proof -
  let ?n = "unat (kf_size f)" and ?cnt = "unat (kf_in f - kf_out f)"
  let ?len = "min len (kf_size f - kf_in f + kf_out f)"
  let ?l = "min ?len (kf_size f - (kf_in f AND (kf_size f - 1)))"
  let ?m = "unat (kf_in f) mod ?n"
  note ar = kfifo_arith [OF wf]
  define L where "L = min (unat len) (?n - ?cnt)"
  define l where "l = min L (?n - ?m)"
  have uL: "unat ?len = L" by (simp add: unat_min ar L_def)
  have ul: "unat ?l = l" using uL by (simp add: unat_min ar l_def del: min.assoc)
  have uLl: "unat (?len - ?l) = L - l"
    using uL ul by (subst unat_sub_nowrap) (auto simp: l_def)
  have cL: "?cnt + L \<le> ?n" using ar by (auto simp: L_def)
  have mn: "?m < ?n" using ar by simp
  have "l \<le> L" unfolding l_def by simp
  have "L \<le> unat len" by (simp add: L_def)
  have fit: "?m + l \<le> ?n" "l \<le> length buf" "l + (L - l) \<le> length buf" "L - l \<le> ?n"
    using mn len cL \<open>l \<le> L\<close> \<open>L \<le> unat len\<close> by (auto simp: l_def)
  obtain b1 where b1: "memcpy (kf_buffer f) ?m buf 0 l = Inr b1" "length b1 = ?n"
    "\<forall>j < ?n. b1 ! j = (if ?m \<le> j \<and> j < ?m + l then buf ! (j - ?m) else kf_buffer f ! j)"
    using memcpy_Inr [of ?m l "kf_buffer f" 0 buf] ar(3) fit by auto
  obtain b2 where b2: "memcpy b1 0 buf l (L - l) = Inr b2" "length b2 = ?n"
    "\<forall>j < ?n. b2 ! j = (if j < L - l then buf ! (l + j) else b1 ! j)"
    using memcpy_Inr [of 0 "L - l" b1 l buf] b1(2) fit by auto
  let ?f' = "f\<lparr>kf_buffer := b2, kf_in := kf_in f + ?len\<rparr>"
  have put: "u_kfifo_put f buf len = Inr (?f', ?len)"
    by (simp add: u_kfifo_put_def Let_def uL ul uLl ar(6) b1(1) b2(1))
  have "kf_in f + ?len - kf_out f = (kf_in f - kf_out f) + ?len" by simp
  moreover have "unat ((kf_in f - kf_out f) + ?len) = ?cnt + L"
    using cL ar(2) uL unat_add_nowrap [of "kf_in f - kf_out f" ?len] by simp
  ultimately have cnt': "unat (kf_in f + ?len - kf_out f) = ?cnt + L" by (simp only:)
  have wf': "kfifo_wf ?f'" using wf cnt' cL b2(2) by (simp add: kfifo_wf_def)
  have b2': "\<forall>j < ?n. b2 ! j = (if j < L - l then buf ! (l + j)
      else if ?m \<le> j \<and> j < ?m + l then buf ! (j - ?m) else kf_buffer f ! j)"
    using b1(3) b2(3) by simp
  have "kfifo_contents ?f' = kfifo_contents f @ take L buf"
  proof (rule nth_equalityI)
    show "length (kfifo_contents ?f') = length (kfifo_contents f @ take L buf)"
      using cnt' len by (simp add: L_def)
  next
    fix i assume "i < length (kfifo_contents ?f')"
    then have i: "i < ?cnt + L" using cnt' by simp
    show "kfifo_contents ?f' ! i = (kfifo_contents f @ take L buf) ! i"
      using ring_write [OF ar(1) cL kfifo_in_mod [OF wf] l_def b2' i] i b2(2) ar(3) cnt'
      by (simp add: kfifo_contents_def nth_append)
  qed
  with put wf' uL show ?thesis by (auto simp: room_def L_def)
qed

lemma u_kfifo_get_spec:
  assumes wf: "kfifo_wf f" and len: "unat len \<le> length buf"
  defines "L \<equiv> min (unat len) (length (kfifo_contents f))"
  shows "\<exists>f' d r. u_kfifo_get f buf len = Inr (f', d, r) \<and> kfifo_wf f' \<and> unat r = L \<and>
    kf_size f' = kf_size f \<and> kf_in f' = kf_in f \<and>
    d = take L (kfifo_contents f) @ drop L buf \<and> kfifo_contents f' = drop L (kfifo_contents f)"
proof -
  let ?n = "unat (kf_size f)" and ?cnt = "unat (kf_in f - kf_out f)"
  let ?len = "min len (kf_in f - kf_out f)"
  let ?l = "min ?len (kf_size f - (kf_out f AND (kf_size f - 1)))"
  let ?p = "unat (kf_out f)"
  note ar = kfifo_arith [OF wf]
  define l where "l = min L (?n - ?p mod ?n)"
  have uL: "unat ?len = L" by (simp add: unat_min L_def)
  have ul: "unat ?l = l" using uL by (simp add: unat_min ar l_def del: min.assoc)
  have uLl: "unat (?len - ?l) = L - l"
    using uL ul by (subst unat_sub_nowrap) (auto simp: l_def)
  have lL: "l \<le> L" "L \<le> unat len" "L \<le> ?cnt" by (auto simp: l_def L_def)
  have pn: "?p mod ?n < ?n" using ar by simp
  have fit: "?p mod ?n + l \<le> ?n" "L - l \<le> ?n" using pn lL ar(4) by (auto simp: l_def)
  obtain d1 where d1: "memcpy buf 0 (kf_buffer f) (?p mod ?n) l = Inr d1" "length d1 = length buf"
    "\<forall>j < length buf. d1 ! j = (if j < l then kf_buffer f ! (?p mod ?n + j) else buf ! j)"
    using memcpy_Inr [of 0 l buf "?p mod ?n" "kf_buffer f"] ar(3) fit lL len by auto
  obtain d2 where d2: "memcpy d1 l (kf_buffer f) 0 (L - l) = Inr d2" "length d2 = length buf"
    "\<forall>j < length buf. d2 ! j = (if l \<le> j \<and> j < L then kf_buffer f ! (j - l) else d1 ! j)"
    using memcpy_Inr [of l "L - l" d1 0 "kf_buffer f"] d1(2) ar(3) fit lL len by auto
  let ?f' = "f\<lparr>kf_out := kf_out f + ?len\<rparr>"
  have get: "u_kfifo_get f buf len = Inr (?f', d2, ?len)"
    by (simp add: u_kfifo_get_def Let_def uL ul uLl ar(6) d1(1) d2(1))
  have "kf_in f - (kf_out f + ?len) = (kf_in f - kf_out f) - ?len" by simp
  moreover have "unat ((kf_in f - kf_out f) - ?len) = ?cnt - L"
    using unat_sub_nowrap [of ?len "kf_in f - kf_out f"] uL lL by simp
  ultimately have cnt': "unat (kf_in f - (kf_out f + ?len)) = ?cnt - L" by (simp only:)
  have wf': "kfifo_wf ?f'" using wf cnt' by (auto simp: kfifo_wf_def)
  have pos: "(?p + i) mod ?n = (if i < l then ?p mod ?n + i else i - l)" if "i < L" for i
    using mod_add_small [of i ?n ?p] that lL ar(1,4) pn by (auto simp: l_def min_def split: if_splits)
  have d: "d2 = take L (kfifo_contents f) @ drop L buf"
    using d2 d1(3) pos lL len by (intro nth_equalityI) (auto simp: kfifo_contents_def nth_append ar(3))
  have dvd: "?n dvd 2 ^ 32" using wf le_imp_power_dvd [of _ 32 "2::nat"]
    by (auto simp: kfifo_wf_def simp del: power_numeral)
  have "unat (kf_out f + ?len) = (?p + L) mod 2 ^ 32"
    using unat_word_ariths(1) [of "kf_out f" ?len] uL by simp
  then have "(unat (kf_out f + ?len) + i) mod ?n = (?p + (L + i)) mod ?n" for i
    using dvd by (metis add.assoc mod_add_left_eq mod_mod_cancel)
  then have "kfifo_contents ?f' = drop L (kfifo_contents f)"
    using cnt' lL by (intro nth_equalityI) (auto simp: kfifo_contents_def ar(3))
  with get wf' uL d show ?thesis by auto
qed

lemma kfifo_wf_rewind: "kfifo_wf f \<Longrightarrow> kf_in f = kf_out f \<Longrightarrow>
    kfifo_wf (f\<lparr>kf_in := 0, kf_out := 0\<rparr>) \<and> kfifo_contents (f\<lparr>kf_in := 0, kf_out := 0\<rparr>) = []"
  by (simp add: kfifo_wf_def kfifo_contents_def)

lemma kfifo_get_spec:
  assumes wf: "kfifo_wf f" and len: "unat len \<le> length buf"
  defines "L \<equiv> min (unat len) (length (kfifo_contents f))"
  shows "\<exists>f' d r. kfifo_get f buf len = Inr (f', d, r) \<and> kfifo_wf f' \<and> unat r = L \<and>
    kf_size f' = kf_size f \<and>
    d = take L (kfifo_contents f) @ drop L buf \<and> kfifo_contents f' = drop L (kfifo_contents f)"
proof -
  obtain f' d r where g: "u_kfifo_get f buf len = Inr (f', d, r)" "kfifo_wf f'" "unat r = L"
    "kf_size f' = kf_size f" "d = take L (kfifo_contents f) @ drop L buf"
    "kfifo_contents f' = drop L (kfifo_contents f)"
    using u_kfifo_get_spec [OF wf len] L_def by auto
  show ?thesis
  proof (cases "kf_in f' = kf_out f'")
    case True
    then have "kfifo_contents f' = []" by (simp add: kfifo_contents_def)
    with True g kfifo_wf_rewind [OF g(2) True] show ?thesis by (auto simp: kfifo_get_def)
  next
    case False
    with g show ?thesis by (auto simp: kfifo_get_def)
  qed
qed

subsection \<open>The FIFO implements the channel\<close>

text \<open>A client that puts a whole byte string, and one that gets into a fresh buffer of the
  length it asks for.\<close>

definition kfifo_send :: "kfifo \<Rightarrow> u8 list \<Rightarrow> (kfifo \<times> nat) res" where
  "kfifo_send f xs = map_sum id (\<lambda>(f', r). (f', unat r)) (kfifo_put f xs (of_nat (length xs)))"

definition kfifo_recv :: "kfifo \<Rightarrow> nat \<Rightarrow> (kfifo \<times> u8 list) res" where
  "kfifo_recv f n = map_sum id (\<lambda>(f', d, r). (f', take (unat r) d)) (kfifo_get f (replicate n 0) (of_nat n))"

interpretation kf: fifo_channel kfifo_contents kfifo_wf "\<lambda>f. unat (kf_size f)" kfifo_send kfifo_recv
  "2 ^ 32"
proof (unfold_locales, goal_cases)
  case (1 f xs)
  then have "unat (of_nat (length xs) :: u32) = length xs" by (simp add: unat_of_nat)
  with u_kfifo_put_spec [OF 1(1), of "of_nat (length xs)" xs] show ?case
    by (auto simp: kfifo_send_def kfifo_put_def min_def)
next
  case (2 f n)
  then have "unat (of_nat n :: u32) = n" by (simp add: unat_of_nat)
  with kfifo_get_spec [OF 2(1), of "of_nat n" "replicate n 0"] show ?case
    by (auto simp: kfifo_recv_def min_def)
next
  case (3 f)
  then show ?case by (simp add: kfifo_wf_def)
qed

subsection \<open>Properties\<close>

text \<open>C15. Any sequence of \<open>kfifo_put\<close> and \<open>kfifo_get\<close> calls on a well-formed FIFO runs without
  leaving a buffer, keeps the FIFO well formed, and is first-in-first-out without loss or
  duplication: what was in the FIFO followed by everything the puts accepted is everything
  the gets delivered followed by what is still in the FIFO. The 32-bit counters may wrap on
  the way.\<close>

theorem kfifo_run_fifo:
  assumes "kfifo_wf f" "\<forall>p \<in> set ops. op_len p < 2 ^ 32"
  shows "\<exists>f' acc del. channel_run kfifo_send kfifo_recv f ops = Inr (f', acc, del) \<and>
    kfifo_wf f' \<and> kf_size f' = kf_size f \<and> kfifo_contents f @ acc = del @ kfifo_contents f'"
  using kf.run_fifo [OF assms] by (metis word_unat_eq_iff)

theorem kfifo_run_fifo_witness:
  "\<exists>f' acc del. channel_run kfifo_send kfifo_recv
      \<lparr>kf_buffer = [1, 2, 3, 4], kf_size = 4, kf_in = 1, kf_out = 0xFFFFFFFE\<rparr>
      [ChanPut [7, 8], ChanGet 2, ChanPut [9]] = Inr (f', acc, del) \<and>
    kfifo_wf f' \<and> kf_size f' = 4 \<and>
    kfifo_contents \<lparr>kf_buffer = [1, 2, 3, 4], kf_size = 4, kf_in = 1, kf_out = 0xFFFFFFFE\<rparr> @ acc =
      del @ kfifo_contents f'"
proof -
  let ?f = "\<lparr>kf_buffer = [1, 2, 3, 4], kf_size = 4, kf_in = 1, kf_out = 0xFFFFFFFE\<rparr> :: kfifo"
  have "kfifo_wf ?f" by (auto simp: kfifo_wf_def intro!: exI [of _ 2])
  from kfifo_run_fifo [OF this, of "[ChanPut [7, 8], ChanGet 2, ChanPut [9]]"]
  show ?thesis by simp
qed

text \<open>\<open>kfifo_alloc\<close>, given an allocator that returns blocks of the requested length: for a
  size from 1 to \<open>2\<^sup>3\<^sup>1\<close> it fails only when an allocation fails, and otherwise returns an empty
  well-formed FIFO whose size is the least power of two not below the request; above
  \<open>2\<^sup>3\<^sup>1\<close> a size that is no power of two is a \<open>BUG\<close>.\<close>

lemma kfifo_alloc_rounds_up:
  assumes kmalloc: "\<And>n b. kmalloc n = Some b \<Longrightarrow> length b = unat n"
    and sz: "1 \<le> unat sz" "unat sz \<le> 2 ^ 31"
  shows "kfifo_alloc kmalloc ok sz = Inl (Errno ENOMEM) \<or>
    (\<exists>f k. kfifo_alloc kmalloc ok sz = Inr f \<and> kfifo_wf f \<and> kfifo_contents f = [] \<and>
       unat (kf_size f) = 2 ^ k \<and> unat sz \<le> 2 ^ k \<and> 2 ^ k < 2 * unat sz)"
proof -
  let ?sz = "if sz AND (sz - 1) \<noteq> 0 then roundup_pow_of_two sz else sz"
  obtain k where k: "k \<le> 31" "unat ?sz = 2 ^ k" "unat sz \<le> 2 ^ k" "2 ^ k < 2 * unat sz"
  proof (cases "sz AND (sz - 1) = 0")
    case True
    moreover have "sz \<noteq> 0" using sz by auto
    ultimately show thesis using and_pred_zero_pow2 [of sz] that by auto
  next
    case False
    then show thesis using roundup_pow_of_two_spec [OF sz] that by auto
  qed
  have "unat (?sz AND (?sz - 1)) = 0" using k(2) by (simp only: and_pow2_minus_1) simp
  then have "?sz AND (?sz - 1) = 0" by (simp only: unat_0_iff)
  moreover have "\<not> sz > 0x80000000" using sz(2) by (simp add: word_less_nat_alt)
  ultimately have "kfifo_alloc kmalloc ok sz =
      (case kmalloc ?sz of None \<Rightarrow> Inl (Errno ENOMEM)
       | Some b \<Rightarrow> if \<not> ok then Inl (Errno ENOMEM)
           else Inr \<lparr>kf_buffer = b, kf_size = ?sz, kf_in = 0, kf_out = 0\<rparr>)"
    unfolding kfifo_alloc_def kfifo_init_def Let_def
    by (cases "sz AND (sz - 1) = 0") (auto split: option.split)
  with k kmalloc [of ?sz] show ?thesis
    by (cases "kmalloc ?sz") (auto simp: kfifo_wf_def kfifo_contents_def)
qed

end
