(* ===== verification/Block.thy ===== *)
theory Block
  imports Prelude
begin

text \<open>
  The part of the block layer that the RAID personalities call: request-queue limits
  (\<open>drivers/block/ll_rw_blk.c\<close>), the 64-by-32-bit division \<open>sector_div\<close>
  (\<open>include/asm-arm/div64.h\<close>, whose divisor register is 32 bits wide) and the splitting of a
  one-page request (\<open>bio_split\<close> of \<open>fs/bio.c\<close>). The interface \<open>array_map\<close> states what
  a striping or concatenating driver owes its client: logical sectors have distinct places
  inside the member devices.
\<close>

type_synonym sector_t = u64

definition PAGE_SHIFT :: nat where "PAGE_SHIFT = 12"
definition PAGE_SIZE :: u32 where "PAGE_SIZE = 4096"

subsection \<open>Division\<close>

text \<open>\<open>do_div(n, base)\<close> returns the remainder and sets \<open>n\<close> to the quotient; the divisor is
  truncated to 32 bits. The assembly helper answers a zero divisor with zeros.\<close>

definition do_div :: "u64 \<Rightarrow> u64 \<Rightarrow> u64 \<times> u32" where
  "do_div n base =
     (let b = ucast base :: u32
      in if b = 0 then (0, 0) else (n div ucast b, ucast (n mod ucast b)))"

abbreviation sector_div :: "sector_t \<Rightarrow> u64 \<Rightarrow> sector_t \<times> u32" where
  "sector_div \<equiv> do_div"

lemma do_div_unat:
  assumes "0 < unat base" "unat base < 2 ^ 32"
  shows "unat (fst (do_div n base)) = unat n div unat base"
    "unat (snd (do_div n base)) = unat n mod unat base"
proof -
  define b where "b = (ucast base :: u32)"
  have b: "unat b = unat base"
    using assms by (simp add: b_def unsigned_ucast_eq take_bit_nat_eq_self)
  then have nz: "b \<noteq> 0" using assms by (metis unat_0 less_irrefl)
  have bb: "unat (ucast b :: u64) = unat base"
    using assms b by (simp add: unsigned_ucast_eq take_bit_nat_eq_self)
  have dd: "do_div n base = (n div ucast b, ucast (n mod ucast b))"
    using nz by (simp add: do_div_def b_def [symmetric])
  show "unat (fst (do_div n base)) = unat n div unat base" using bb by (simp add: dd unat_div)
  have "unat n mod unat base < 2 ^ 32"
    using assms mod_less_divisor [of "unat base" "unat n"] by linarith
  then show "unat (snd (do_div n base)) = unat n mod unat base"
    using bb by (simp add: dd unsigned_ucast_eq unat_mod take_bit_nat_eq_self)
qed

subsection \<open>Queue limits\<close>

record queue =
  max_sectors :: u16
  max_hw_sectors :: u16
  max_phys_segments :: u16
  max_hw_segments :: u16
  max_segment_size :: u32
  hardsect_size :: u16
  seg_boundary_mask :: u32
  has_merge_bvec :: bool
  ra_pages :: u32

definition min_not_zero :: "u16 \<Rightarrow> u16 \<Rightarrow> u16" where
  "min_not_zero l r = (if l = 0 then r else if r = 0 then l else min l r)"

definition blk_queue_max_sectors :: "queue \<Rightarrow> u16 \<Rightarrow> queue" where
  "blk_queue_max_sectors q m =
     (let m = (if push_bit 9 (ucast m :: u32) < PAGE_SIZE then 8 else m)
      in q\<lparr>max_sectors := m, max_hw_sectors := m\<rparr>)"

definition blk_queue_stack_limits :: "queue \<Rightarrow> queue \<Rightarrow> queue" where
  "blk_queue_stack_limits t b =
     (let m = min_not_zero (max_sectors t) (max_sectors b)
      in t\<lparr>max_sectors := m, max_hw_sectors := m,
           max_phys_segments := min (max_phys_segments t) (max_phys_segments b),
           max_hw_segments := min (max_hw_segments t) (max_hw_segments b),
           max_segment_size := min (max_segment_size t) (max_segment_size b),
           hardsect_size := max (hardsect_size t) (hardsect_size b)\<rparr>)"

definition blk_queue_segment_boundary :: "queue \<Rightarrow> u32 \<Rightarrow> queue" where
  "blk_queue_segment_boundary q m =
     q\<lparr>seg_boundary_mask := (if m < PAGE_SIZE - 1 then PAGE_SIZE - 1 else m)\<rparr>"

definition blk_queue_merge_bvec :: "queue \<Rightarrow> queue" where
  "blk_queue_merge_bvec q = q\<lparr>has_merge_bvec := True\<rparr>"

subsection \<open>Requests\<close>

record bio_vec =
  bv_len :: u32
  bv_offset :: u32

record bio =
  bi_sector :: sector_t
  bi_bdev :: nat
  bi_write :: bool
  bi_vcnt :: u16
  bi_idx :: u16
  bi_size :: u32
  bi_io_vec :: "bio_vec list"

definition bio_sectors :: "bio \<Rightarrow> u32" where
  "bio_sectors b = drop_bit 9 (bi_size b)"

text \<open>\<open>bio_split(bi, pool, first_sectors)\<close>: the completion callbacks and the reference count
  of the pair are not modelled; the mempool allocation does not fail under \<open>GFP_NOIO\<close>.\<close>

definition bio_split :: "bio \<Rightarrow> u32 \<Rightarrow> (bio \<times> bio) res" where
  "bio_split bi first_sectors =
     (if bi_vcnt bi \<noteq> 1 \<or> bi_idx bi \<noteq> 0 then Inl BUG
      else case bi_io_vec bi of
        [] \<Rightarrow> Inl OutOfBounds
      | bv # _ \<Rightarrow>
          let n = push_bit 9 first_sectors;
              bv1 = bv\<lparr>bv_len := n\<rparr>;
              bv2 = bv\<lparr>bv_offset := bv_offset bv + n, bv_len := bv_len bv - n\<rparr>
          in Inr (bi\<lparr>bi_size := n, bi_io_vec := [bv1]\<rparr>,
                  bi\<lparr>bi_sector := bi_sector bi + scast first_sectors, bi_size := bi_size bi - n,
                     bi_io_vec := [bv2]\<rparr>))"

text \<open>The cells (device, sector) that a request covers, and those of the requests that were
  handed on.\<close>

definition bio_cells :: "bio \<Rightarrow> (nat \<times> nat) list" where
  "bio_cells b = map (\<lambda>k. (bi_bdev b, unat (bi_sector b) + k)) [0..<unat (bi_size b) div 512]"

text \<open>Splitting a one-page request of \<open>n\<close> sectors after its first \<open>k\<close>.\<close>

definition page_bio :: "bio \<Rightarrow> nat \<Rightarrow> bool" where
  "page_bio b n \<longleftrightarrow> unat (bi_size b) = 512 * n \<and> bi_vcnt b = 1 \<and> bi_idx b = 0 \<and> bi_io_vec b \<noteq> []"

lemma bio_split_spec:
  assumes b: "page_bio b n" and k: "unat k < n" and s: "unat (bi_sector b) + n < 2 ^ 64"
  shows "\<exists>b1 b2. bio_split b k = Inr (b1, b2) \<and> page_bio b1 (unat k) \<and> page_bio b2 (n - unat k) \<and>
    bi_sector b1 = bi_sector b \<and> unat (bi_sector b2) = unat (bi_sector b) + unat k"
proof -
  have n: "512 * n < 2 ^ 32" using b unat_less_exp [of "bi_size b"] by (simp add: page_bio_def)
  then have sh: "unat (push_bit 9 k) = 512 * unat k" using k by (subst unat_push_bit_nowrap) auto
  have sc: "unat (scast k :: u64) = unat k" using k n by (intro unat_scast_nonneg) auto
  have "unat (bi_sector b + scast k) = unat (bi_sector b) + unat k"
    using s k sc by (subst unat_add_nowrap) auto
  moreover have "unat (bi_size b - push_bit 9 k) = 512 * (n - unat k)"
    using b sh k by (subst unat_sub_nowrap) (auto simp: page_bio_def diff_mult_distrib2)
  ultimately show ?thesis using b sh
    by (auto simp: bio_split_def page_bio_def Let_def split: list.splits)
qed

text \<open>Per-disk statistics of the array's \<open>gendisk\<close>.\<close>

record disk_stats =
  ds_reads :: u32
  ds_writes :: u32
  ds_read_sectors :: u32
  ds_write_sectors :: u32

definition disk_stat_account :: "disk_stats \<Rightarrow> bio \<Rightarrow> disk_stats" where
  "disk_stat_account s b =
     (if bi_write b
      then s\<lparr>ds_writes := ds_writes s + 1, ds_write_sectors := ds_write_sectors s + bio_sectors b\<rparr>
      else s\<lparr>ds_reads := ds_reads s + 1, ds_read_sectors := ds_read_sectors s + bio_sectors b\<rparr>)"

text \<open>What a \<open>make_request\<close> function does beside its return value: requests it hands to
  \<open>generic_make_request\<close>, and requests it ends with \<open>bio_io_error\<close>.\<close>

datatype blk_event = Submit bio | IoError bio

primrec event_cells :: "blk_event \<Rightarrow> (nat \<times> nat) list" where
  "event_cells (Submit b) = bio_cells b"
| "event_cells (IoError b) = []"

text \<open>The cells that a call of \<open>make_request\<close> reached: those of the requests it submitted,
  and, when it returns 1, those of the request that its caller submits.\<close>

definition reached :: "bool \<Rightarrow> bio \<Rightarrow> blk_event list \<Rightarrow> (nat \<times> nat) list" where
  "reached ret bio evs = concat (map event_cells (evs @ (if ret then [Submit bio] else [])))"

lemma reached_simps [simp]:
  "reached True b evs = concat (map event_cells evs) @ bio_cells b"
  "reached False b evs = concat (map event_cells evs)"
  by (simp_all add: reached_def)

subsection \<open>What an array owes its client\<close>

text \<open>Contents of the member devices, by device and sector, and a write and a read of one
  logical sector through a placement.\<close>

definition array_write :: "(nat \<Rightarrow> nat \<times> nat) \<Rightarrow> (nat \<times> nat \<Rightarrow> 'v) \<Rightarrow> nat \<Rightarrow> 'v \<Rightarrow> nat \<times> nat \<Rightarrow> 'v" where
  "array_write loc d s v = d(loc s := v)"

definition array_read :: "(nat \<Rightarrow> nat \<times> nat) \<Rightarrow> (nat \<times> nat \<Rightarrow> 'v) \<Rightarrow> nat \<Rightarrow> 'v" where
  "array_read loc d s = d (loc s)"

fun array_writes :: "(nat \<Rightarrow> nat \<times> nat) \<Rightarrow> (nat \<times> nat \<Rightarrow> 'v) \<Rightarrow> (nat \<times> 'v) list \<Rightarrow> nat \<times> nat \<Rightarrow> 'v" where
  "array_writes loc d [] = d"
| "array_writes loc d ((s, v) # ws) = array_writes loc (array_write loc d s v) ws"

locale array_map =
  fixes wf :: "'c \<Rightarrow> bool"
    and sectors :: "'c \<Rightarrow> nat"
    and loc :: "'c \<Rightarrow> nat \<Rightarrow> nat \<times> nat"
    and extent :: "'c \<Rightarrow> nat \<Rightarrow> nat set"
  assumes loc_inj: "wf c \<Longrightarrow> s < sectors c \<Longrightarrow> t < sectors c \<Longrightarrow> loc c s = loc c t \<Longrightarrow> s = t"
    and loc_extent: "wf c \<Longrightarrow> s < sectors c \<Longrightarrow> snd (loc c s) \<in> extent c (fst (loc c s))"
begin

lemma read_writes:
  assumes "wf c" "s < sectors c" "\<forall>(t, v) \<in> set ws. t < sectors c"
  shows "array_read (loc c) (array_writes (loc c) d ws) s =
    (case map_of (rev ws) s of Some v \<Rightarrow> v | None \<Rightarrow> array_read (loc c) d s)"
  using assms
proof (induction ws arbitrary: d)
  case Nil
  then show ?case by simp
next
  case (Cons w ws)
  obtain t v where w: "w = (t, v)" by force
  have "array_read (loc c) (array_write (loc c) d t v) s = (if s = t then v else array_read (loc c) d s)"
    using Cons.prems loc_inj [of c s t] by (auto simp: array_read_def array_write_def w)
  with Cons show ?case by (auto simp: w map_add_def split: option.splits)
qed

lemma writes_stay_inside:
  assumes "wf c" "\<forall>(t, v) \<in> set ws. t < sectors c" "x \<notin> extent c dev"
  shows "array_writes (loc c) d ws (dev, x) = d (dev, x)"
  using assms
proof (induction ws arbitrary: d)
  case Nil
  then show ?case by simp
next
  case (Cons w ws)
  obtain t v where w: "w = (t, v)" by force
  have "loc c t \<noteq> (dev, x)" using Cons.prems loc_extent [of c t] by (auto simp: w)
  with Cons show ?case by (auto simp: w array_write_def)
qed

end

text \<open>A driver that serves requests by splitting them. \<open>room c s\<close> is the number of sectors
  from \<open>s\<close> to the next boundary: a request that stays before it is sent on whole, one that
  crosses it is cut there and both parts go through the driver again, the second with one
  level of recursion less.\<close>

locale splitting_driver = array_map wf sectors loc extent
  for wf :: "'c \<Rightarrow> bool" and sectors loc extent +
  fixes make_request :: "nat \<Rightarrow> 'c \<Rightarrow> disk_stats \<Rightarrow> bio \<Rightarrow> (disk_stats \<times> bool \<times> bio \<times> blk_event list) res option"
    and room :: "'c \<Rightarrow> nat \<Rightarrow> nat"
  assumes sectors_bound: "wf c \<Longrightarrow> sectors c < 2 ^ 63"
    and room_pos: "wf c \<Longrightarrow> s < sectors c \<Longrightarrow> 0 < room c s"
    and inside: "wf c \<Longrightarrow> page_bio b n \<Longrightarrow> 0 < n \<Longrightarrow> unat (bi_sector b) + n \<le> sectors c \<Longrightarrow>
      n \<le> room c (unat (bi_sector b)) \<Longrightarrow>
      \<exists>b'. make_request (Suc f) c st b = Some (Inr (disk_stat_account st b, True, b', [])) \<and>
        bio_cells b' = map (loc c) [unat (bi_sector b)..<unat (bi_sector b) + n]"
    and crossing: "wf c \<Longrightarrow> page_bio b n \<Longrightarrow> unat (bi_sector b) + n \<le> sectors c \<Longrightarrow>
      room c (unat (bi_sector b)) < n \<Longrightarrow> unat k = room c (unat (bi_sector b)) \<Longrightarrow>
      bio_split b k = Inr (b1, b2) \<Longrightarrow>
      make_request f c (disk_stat_account st b) b1 = Some (Inr (st1, ret1, b1', ev1)) \<Longrightarrow>
      make_request f c st1 b2 = Some (Inr (st2, ret2, b2', ev2)) \<Longrightarrow>
      make_request (Suc f) c st b = Some (Inr (st2, False, b,
        ev1 @ (if ret1 then [Submit b1'] else []) @ ev2 @ (if ret2 then [Submit b2'] else [])))"
begin

lemma request_reaches:
  assumes wf: "wf c"
  shows "page_bio b n \<Longrightarrow> 0 < n \<Longrightarrow> n \<le> fuel \<Longrightarrow> unat (bi_sector b) + n \<le> sectors c \<Longrightarrow>
    \<exists>st' ret b' evs. make_request fuel c st b = Some (Inr (st', ret, b', evs)) \<and>
      reached ret b' evs = map (loc c) [unat (bi_sector b)..<unat (bi_sector b) + n]"
proof (induction fuel arbitrary: b n st)
  case 0
  then show ?case by simp
next
  case (Suc fuel)
  let ?s = "unat (bi_sector b)"
  let ?k = "room c ?s"
  show ?case
  proof (cases "n \<le> ?k")
    case True
    from inside [OF wf Suc.prems(1,2,4) True, of fuel st] show ?thesis
      by (metis reached_simps(1) concat.simps(1) list.map(1) append_Nil)
  next
    case False
    have k: "0 < ?k" "?k < n" using room_pos [OF wf] Suc.prems False by auto
    have n: "512 * n < 2 ^ 32"
      using Suc.prems(1) unat_less_exp [of "bi_size b"] by (simp add: page_bio_def)
    define w where "w = (of_nat ?k :: u32)"
    have w: "unat w = ?k" using k n by (simp add: w_def unat_of_nat)
    have "?s + n < 2 ^ 64" using sectors_bound [OF wf] Suc.prems(4) by simp
    then obtain b1 b2 where sp: "bio_split b w = Inr (b1, b2)" "page_bio b1 ?k" "page_bio b2 (n - ?k)"
      "bi_sector b1 = bi_sector b" "unat (bi_sector b2) = ?s + ?k"
      using bio_split_spec [OF Suc.prems(1), of w] w k by auto
    obtain f where f: "fuel = Suc f" using k Suc.prems(3) by (cases fuel) auto
    obtain st1 b1' where r1: "make_request fuel c (disk_stat_account st b) b1 = Some (Inr (st1, True, b1', []))"
      "bio_cells b1' = map (loc c) [?s..<?s + ?k]"
      using inside [OF wf sp(2) k(1), of f "disk_stat_account st b"] sp(4) f k Suc.prems(4) by auto
    obtain st2 ret2 b2' ev2 where r2: "make_request fuel c st1 b2 = Some (Inr (st2, ret2, b2', ev2))"
      "reached ret2 b2' ev2 = map (loc c) [?s + ?k..<?s + ?k + (n - ?k)]"
      using Suc.IH [OF sp(3)] sp(5) k Suc.prems(3,4) by fastforce
    have "make_request (Suc fuel) c st b = Some (Inr (st2, False, b,
        [Submit b1'] @ ev2 @ (if ret2 then [Submit b2'] else [])))"
      using crossing [OF wf Suc.prems(1,4) k(2) w sp(1) r1(1) r2(1)] by simp
    moreover have "reached False b ([Submit b1'] @ ev2 @ (if ret2 then [Submit b2'] else [])) =
        map (loc c) ([?s..<?s + ?k] @ [?s + ?k..<?s + ?k + (n - ?k)])"
      using r1(2) r2(2) by (simp add: reached_def)
    moreover have "[?s..<?s + ?k] @ [?s + ?k..<?s + ?k + (n - ?k)] = [?s..<?s + n]"
      using k upt_add_eq_append [of ?s "?s + ?k" "n - ?k"] by (simp add: add.commute)
    ultimately show ?thesis by metis
  qed
qed

end

end
