(* ===== verification/Md_Linear.thy ===== *)
theory Md_Linear
  imports Block
begin

text \<open>
  The md driver's \<^emph>\<open>linear\<close> personality, \<open>drivers/md/linear.c\<close> (the firmware's
  concatenated-disk mode). \<open>linear_run\<close> numbers the members, lays them end to end and
  builds a hash table from zones of the size of the smallest member to the member in which
  the zone starts; \<open>which_dev\<close> looks a sector up in it; \<open>linear_make_request\<close> moves a request
  to its member and splits one that crosses a member's end. Sizes are 64-bit counts of
  1 KiB blocks, as in the code.

  The lemmas show that \<open>linear_run\<close> establishes the configuration invariant
  \<open>linear_wf\<close>, that under it the lookup finds the one member that holds the block, that a
  request is placed sector by sector where the concatenation says, and that the array
  behaves as one disk (interpretation of \<open>array_map\<close>).
\<close>

subsection \<open>Members and the array\<close>

record rdev =
  rd_bdev :: nat
  rd_size :: sector_t
  rd_raid_disk :: int
  rd_data_offset :: sector_t
  rd_queue :: queue

record mddev =
  md_disks :: "rdev list"
  md_raid_disks :: int
  md_chunk_size :: u32
  md_array_size :: sector_t
  md_queue :: queue

record dev_info =
  di_rdev :: "rdev option"
  di_size :: sector_t
  di_offset :: sector_t

text \<open>Pointers into \<open>conf->disks\<close> are indices.\<close>

record linear_conf =
  lc_hash_table :: "nat list"
  lc_smallest :: nat
  lc_nr_zones :: u32
  lc_disks :: "dev_info list"

subsection \<open>Looking a sector up\<close>

text \<open>\<open>while ((sector>>1) >= (hash->size + hash->offset)) hash++;\<close> stepping past the array of
  members is an access outside it.\<close>

function which_dev_loop :: "dev_info list \<Rightarrow> sector_t \<Rightarrow> nat \<Rightarrow> nat res" where
  "which_dev_loop disks block h =
     (if length disks \<le> h then Inl OutOfBounds
      else if di_size (disks ! h) + di_offset (disks ! h) \<le> block
      then which_dev_loop disks block (Suc h)
      else Inr h)"
  by pat_completeness auto
termination
  by (relation "measure (\<lambda>(disks, block, h). length disks - h)") auto

declare which_dev_loop.simps [simp del]

definition which_dev :: "linear_conf \<Rightarrow> sector_t \<Rightarrow> nat res" where
  "which_dev conf sector =
     (if length (lc_disks conf) \<le> lc_smallest conf then Inl OutOfBounds
      else
        let block = drop_bit 1 sector;
            z = unat (fst (sector_div block (di_size (lc_disks conf ! lc_smallest conf))))
        in if length (lc_hash_table conf) \<le> z then Inl OutOfBounds
           else which_dev_loop (lc_disks conf) (drop_bit 1 sector) (lc_hash_table conf ! z))"

subsection \<open>Setting the array up\<close>

record linear_scan_state =
  ls_disks :: "dev_info list"
  ls_smallest :: "nat option"
  ls_array_size :: sector_t
  ls_queue :: queue
  ls_cnt :: nat

text \<open>The loop over the members; the flag says whether it ran to its end (\<open>True\<close>) or took
  \<open>goto out\<close>. The array \<open>conf->disks\<close> has \<open>raid_disks\<close> elements.\<close>

fun linear_scan :: "int \<Rightarrow> rdev list \<Rightarrow> linear_scan_state \<Rightarrow> (bool \<times> linear_scan_state) res" where
  "linear_scan n [] st = Inr (True, st)"
| "linear_scan n (rdev # rs) st =
     (let j = rd_raid_disk rdev in
      if j < 0 \<or> n < j then Inr (False, st)
      else if length (ls_disks st) \<le> nat j then Inl OutOfBounds
      else if di_rdev (ls_disks st ! nat j) \<noteq> None then Inr (False, st)
      else
        let q = blk_queue_stack_limits (ls_queue st) (rd_queue rdev);
            q = (if has_merge_bvec (rd_queue rdev) \<and> 8 < max_sectors q
                 then blk_queue_max_sectors q 8 else q);
            disks = (ls_disks st)[nat j := (ls_disks st ! nat j)
                      \<lparr>di_rdev := Some rdev, di_size := rd_size rdev\<rparr>];
            smallest = (case ls_smallest st of
                          None \<Rightarrow> nat j
                        | Some k \<Rightarrow> if rd_size rdev < di_size (disks ! k) then nat j else k)
        in linear_scan n rs
             \<lparr>ls_disks = disks, ls_smallest = Some smallest,
              ls_array_size = ls_array_size st + rd_size rdev,
              ls_queue = q, ls_cnt = Suc (ls_cnt st)\<rparr>)"

text \<open>\<open>while (start < curr_offset) { *table++ = disk; start += smallest->size; }\<close> with
  \<open>cap\<close> table slots allocated.\<close>

function linear_fill :: "nat \<Rightarrow> sector_t \<Rightarrow> sector_t \<Rightarrow> nat \<Rightarrow> sector_t \<Rightarrow> nat list \<Rightarrow>
    (sector_t \<times> nat list) res" where
  "linear_fill cap sm curr_offset i start tbl =
     (if start < curr_offset
      then if cap \<le> length tbl then Inl OutOfBounds
           else linear_fill cap sm curr_offset i (start + sm) (tbl @ [i])
      else Inr (start, tbl))"
  by pat_completeness auto
termination
  by (relation "measure (\<lambda>(cap, sm, c, i, s, tbl). cap - length tbl)") auto

declare linear_fill.simps [simp del]

fun linear_build :: "nat \<Rightarrow> sector_t \<Rightarrow> nat \<Rightarrow> dev_info list \<Rightarrow> sector_t \<Rightarrow> sector_t \<Rightarrow> nat list \<Rightarrow>
    (dev_info list \<times> nat list) res" where
  "linear_build cap sm i [] start curr_offset tbl = Inr ([], tbl)"
| "linear_build cap sm i (d # ds) start curr_offset tbl =
     (case linear_fill cap sm (curr_offset + di_size d) i start tbl of
        Inl e \<Rightarrow> Inl e
      | Inr (start', tbl') \<Rightarrow>
          (case linear_build cap sm (Suc i) ds start' (curr_offset + di_size d) tbl' of
             Inl e \<Rightarrow> Inl e
           | Inr (ds', t) \<Rightarrow> Inr (d\<lparr>di_offset := curr_offset\<rparr> # ds', t)))"

text \<open>\<open>kmalloc_conf\<close> and \<open>kmalloc_hash\<close> are the answers of the two allocations (the second
  by its size in bytes). The result is the return value, the array and the private data.
  \<open>nb_zone\<close> is truncated to 32 bits and the size of the table is computed in 32 bits.\<close>

definition linear_run :: "bool \<Rightarrow> (u32 \<Rightarrow> bool) \<Rightarrow> mddev \<Rightarrow> (int \<times> mddev \<times> linear_conf option) res" where
  "linear_run kmalloc_conf kmalloc_hash mddev =
     (if \<not> kmalloc_conf then Inr (1, mddev, None)
      else
        case linear_scan (md_raid_disks mddev) (md_disks mddev)
               \<lparr>ls_disks = replicate (nat (md_raid_disks mddev))
                             \<lparr>di_rdev = None, di_size = 0, di_offset = 0\<rparr>,
                ls_smallest = None, ls_array_size = 0, ls_queue = md_queue mddev, ls_cnt = 0\<rparr> of
          Inl e \<Rightarrow> Inl e
        | Inr (ok, st) \<Rightarrow>
            let mddev = mddev\<lparr>md_array_size := ls_array_size st, md_queue := ls_queue st\<rparr>
            in if \<not> ok \<or> int (ls_cnt st) \<noteq> md_raid_disks mddev then Inr (1, mddev, None)
               else case ls_smallest st of
                 None \<Rightarrow> Inl NullPointer
               | Some k \<Rightarrow>
                   let sm = di_size (ls_disks st ! k);
                       (sz, round) = sector_div (md_array_size mddev) sm;
                       nb_zone = ucast (sz + (if round \<noteq> 0 then 1 else 0)) :: u32
                   in if \<not> kmalloc_hash (4 * nb_zone) then Inr (1, mddev, None)
                      else case linear_build (unat (4 * nb_zone) div 4) sm 0 (ls_disks st) 0 0 [] of
                        Inl e \<Rightarrow> Inl e
                      | Inr (disks, tbl) \<Rightarrow>
                          if length tbl \<noteq> unat nb_zone then Inl BUG
                          else Inr (0, mddev\<lparr>md_queue := blk_queue_merge_bvec (md_queue mddev)\<rparr>,
                                 Some \<lparr>lc_hash_table = tbl, lc_smallest = k,
                                       lc_nr_zones = nb_zone, lc_disks = disks\<rparr>))"

subsection \<open>Requests\<close>

text \<open>How many bytes may be added to a request without crossing a member's end. The
  function returns \<open>int\<close>: \<open>1<<31\<close> is its most negative value. \<open>start_sect\<close> is
  \<open>get_start_sect(bio->bi_bdev)\<close>; \<open>maxsectors\<close> is an \<open>unsigned long\<close>.\<close>

definition linear_mergeable_bvec :: "linear_conf \<Rightarrow> sector_t \<Rightarrow> bio \<Rightarrow> bio_vec \<Rightarrow> int res" where
  "linear_mergeable_bvec conf start_sect bio biovec =
     (let bio_sectors = drop_bit 9 (bi_size bio);
          sector = bi_sector bio + start_sect
      in case which_dev conf sector of
           Inl e \<Rightarrow> Inl e
         | Inr i \<Rightarrow>
             let dev0 = lc_disks conf ! i;
                 maxsectors = ucast (push_bit 1 (di_size dev0) -
                                     (sector - push_bit 1 (di_offset dev0))) :: u32;
                 maxsectors = (if maxsectors < bio_sectors then 0 else maxsectors - bio_sectors)
             in if maxsectors \<le> drop_bit 9 PAGE_SIZE \<and> bio_sectors = 0
                then Inr (sint (bv_len biovec))
                else if maxsectors > push_bit 22 1 then Inr (sint (push_bit 31 1 :: u32))
                else Inr (sint (push_bit 9 maxsectors)))"

text \<open>The return value 1 (\<open>True\<close>) tells the caller to submit the remapped request. Each
  recursive call handles one half of a split request; \<open>fuel\<close> bounds the depth and \<open>None\<close>
  is running out of it.\<close>

fun linear_make_request :: "nat \<Rightarrow> linear_conf \<Rightarrow> disk_stats \<Rightarrow> bio \<Rightarrow>
    (disk_stats \<times> bool \<times> bio \<times> blk_event list) res option" where
  "linear_make_request 0 conf stats bio = None"
| "linear_make_request (Suc fuel) conf stats bio =
     (let stats = disk_stat_account stats bio
      in case which_dev conf (bi_sector bio) of
           Inl e \<Rightarrow> Some (Inl e)
         | Inr i \<Rightarrow>
             let tmp_dev = lc_disks conf ! i;
                 block = drop_bit 1 (bi_sector bio);
                 end_sect = push_bit 1 (di_offset tmp_dev + di_size tmp_dev)
             in if di_size tmp_dev + di_offset tmp_dev \<le> block \<or> block < di_offset tmp_dev
                then Some (Inr (stats, False, bio, [IoError bio]))
                else if end_sect < bi_sector bio + ucast (drop_bit 9 (bi_size bio))
                then case bio_split bio (ucast (end_sect - bi_sector bio)) of
                       Inl e \<Rightarrow> Some (Inl e)
                     | Inr (bio1, bio2) \<Rightarrow>
                         case linear_make_request fuel conf stats bio1 of
                           None \<Rightarrow> None
                         | Some (Inl e) \<Rightarrow> Some (Inl e)
                         | Some (Inr (stats1, ret1, bio1', ev1)) \<Rightarrow>
                             case linear_make_request fuel conf stats1 bio2 of
                               None \<Rightarrow> None
                             | Some (Inl e) \<Rightarrow> Some (Inl e)
                             | Some (Inr (stats2, ret2, bio2', ev2)) \<Rightarrow>
                                 Some (Inr (stats2, False, bio,
                                   ev1 @ (if ret1 then [Submit bio1'] else []) @
                                   ev2 @ (if ret2 then [Submit bio2'] else [])))
                else case di_rdev tmp_dev of
                       None \<Rightarrow> Some (Inl NullPointer)
                     | Some rdev \<Rightarrow>
                         Some (Inr (stats, True,
                           bio\<lparr>bi_bdev := rd_bdev rdev,
                               bi_sector := bi_sector bio - push_bit 1 (di_offset tmp_dev)
                                            + rd_data_offset rdev\<rparr>, [])))"

declare linear_make_request.simps [simp del]

subsection \<open>The configuration invariant\<close>

abbreviation lin_off :: "dev_info list \<Rightarrow> nat \<Rightarrow> nat" where
  "lin_off \<equiv> prefix_sum (\<lambda>d. unat (di_size d))"

abbreviation lin_total :: "dev_info list \<Rightarrow> nat" where
  "lin_total ds \<equiv> lin_off ds (length ds)"

lemmas lin_off_Suc = prefix_sum_Suc [of _ _ "\<lambda>d. unat (di_size d)"]
  and lin_off_le_total = prefix_sum_le_total [of "\<lambda>d. unat (di_size d)"]
  and lin_off_mono = prefix_sum_mono [of _ _ "\<lambda>d. unat (di_size d)"]

definition linear_wf :: "linear_conf \<Rightarrow> bool" where
  "linear_wf c \<longleftrightarrow>
     (let ds = lc_disks c; sm = unat (di_size (ds ! lc_smallest c)) in
      lc_smallest c < length ds \<and> 0 < sm \<and> sm < 2 ^ 32 \<and> lin_total ds < 2 ^ 62 \<and>
      (\<forall>i < length ds. unat (di_offset (ds ! i)) = lin_off ds i \<and>
         (case di_rdev (ds ! i) of None \<Rightarrow> False
          | Some r \<Rightarrow> unat (rd_data_offset r) + 2 * unat (di_size (ds ! i)) < 2 ^ 64)) \<and>
      distinct (map (\<lambda>d. map_option rd_bdev (di_rdev d)) ds) \<and>
      (\<forall>z. z * sm < lin_total ds \<longrightarrow>
         z < length (lc_hash_table c) \<and> lc_hash_table c ! z < length ds \<and>
         lin_off ds (lc_hash_table c ! z) \<le> z * sm))"

lemma linear_wfD:
  assumes "linear_wf c" "i < length (lc_disks c)"
  shows "unat (di_offset (lc_disks c ! i)) = lin_off (lc_disks c) i"
    "unat (di_offset (lc_disks c ! i) + di_size (lc_disks c ! i)) = lin_off (lc_disks c) (Suc i)"
    "unat (push_bit 1 (di_offset (lc_disks c ! i) + di_size (lc_disks c ! i))) =
       2 * lin_off (lc_disks c) (Suc i)"
    "unat (push_bit 1 (di_offset (lc_disks c ! i))) = 2 * lin_off (lc_disks c) i"
    "lin_off (lc_disks c) (Suc i) < 2 ^ 62"
proof -
  show off: "unat (di_offset (lc_disks c ! i)) = lin_off (lc_disks c) i"
    using assms by (auto simp: linear_wf_def Let_def)
  have "lin_off (lc_disks c) (Suc i) \<le> lin_total (lc_disks c)"
    using assms(2) by (intro prefix_sum_mono) simp
  moreover have "lin_total (lc_disks c) < 2 ^ 62" using assms(1) by (simp add: linear_wf_def Let_def)
  ultimately show bnd: "lin_off (lc_disks c) (Suc i) < 2 ^ 62" by linarith
  then show sum: "unat (di_offset (lc_disks c ! i) + di_size (lc_disks c ! i)) =
      lin_off (lc_disks c) (Suc i)"
    using off assms(2) by (subst unat_add_nowrap) (simp_all add: lin_off_Suc)
  show "unat (push_bit 1 (di_offset (lc_disks c ! i) + di_size (lc_disks c ! i))) =
       2 * lin_off (lc_disks c) (Suc i)"
    using bnd sum by (subst unat_push_bit_nowrap) simp_all
  have "lin_off (lc_disks c) i < 2 ^ 62" using bnd assms(2) by (simp add: lin_off_Suc)
  then show "unat (push_bit 1 (di_offset (lc_disks c ! i))) = 2 * lin_off (lc_disks c) i"
    using off by (subst unat_push_bit_nowrap) simp_all
qed

subsection \<open>The lookup finds the member\<close>

lemma which_dev_loop_finds:
  assumes wf: "linear_wf c" and i: "i < length (lc_disks c)"
    and blk: "lin_off (lc_disks c) i \<le> unat block" "unat block < lin_off (lc_disks c) (Suc i)"
  shows "h \<le> i \<Longrightarrow> which_dev_loop (lc_disks c) block h = Inr i"
proof (induction "i - h" arbitrary: h)
  case 0
  with i blk linear_wfD(2) [OF wf i] show ?case
    by (simp add: which_dev_loop.simps [of _ _ h] word_le_nat_alt add.commute)
next
  case (Suc n)
  then have h: "h < i" by simp
  then have "lin_off (lc_disks c) (Suc h) \<le> lin_off (lc_disks c) i" by (intro prefix_sum_mono) simp
  with h i blk linear_wfD(2) [OF wf, of h] Suc.hyps show ?case
    by (simp add: which_dev_loop.simps [of _ _ h] word_le_nat_alt add.commute)
qed

lemma which_dev_finds:
  assumes wf: "linear_wf c" and i: "i < length (lc_disks c)"
    and blk: "lin_off (lc_disks c) i \<le> unat sector div 2"
      "unat sector div 2 < lin_off (lc_disks c) (Suc i)"
  shows "which_dev c sector = Inr i"
proof -
  let ?ds = "lc_disks c" and ?sm = "di_size (lc_disks c ! lc_smallest c)"
  let ?z = "unat sector div 2 div unat ?sm"
  have sm: "0 < unat ?sm" "unat ?sm < 2 ^ 32" using wf by (simp_all add: linear_wf_def Let_def)
  have z: "unat (fst (sector_div (drop_bit 1 sector) ?sm)) = ?z"
    using do_div_unat(1) [OF sm] by (simp add: unat_drop_bit)
  have zsm: "?z * unat ?sm \<le> unat sector div 2" by (rule div_times_less_eq_dividend)
  have "unat sector div 2 < lin_total ?ds"
    using blk(2) lin_off_le_total [of ?ds "Suc i"] by simp
  with zsm have "?z * unat ?sm < lin_total ?ds" by (rule le_less_trans)
  then have tbl: "?z < length (lc_hash_table c)" "lc_hash_table c ! ?z < length ?ds"
    "lin_off ?ds (lc_hash_table c ! ?z) \<le> ?z * unat ?sm"
    using wf by (simp_all add: linear_wf_def Let_def)
  have "lc_hash_table c ! ?z \<le> i"
  proof (rule ccontr)
    assume "\<not> lc_hash_table c ! ?z \<le> i"
    then have "lin_off ?ds (Suc i) \<le> lin_off ?ds (lc_hash_table c ! ?z)"
      by (intro prefix_sum_mono) simp
    with tbl(3) zsm blk(2) show False by linarith
  qed
  then have "which_dev_loop ?ds (drop_bit 1 sector) (lc_hash_table c ! ?z) = Inr i"
    using which_dev_loop_finds [OF wf i, of "drop_bit 1 sector"] blk by (simp add: unat_drop_bit)
  with wf tbl z show ?thesis by (simp add: which_dev_def Let_def linear_wf_def)
qed

subsection \<open>Setting up establishes the invariant\<close>

lemma linear_fill_spec:
  assumes "0 < unat sm" "unat co \<le> cap * unat sm" "unat co + unat sm < 2 ^ 64"
    and "unat start = length tbl * unat sm"
  shows "\<exists>m start'. linear_fill cap sm co i start tbl = Inr (start', tbl @ replicate m i) \<and>
    unat start' = (length tbl + m) * unat sm \<and> unat co \<le> unat start' \<and>
    (\<forall>z < length tbl + m. length tbl \<le> z \<longrightarrow> z * unat sm < unat co)"
  using assms
proof (induction cap sm co i start tbl rule: linear_fill.induct)
  case (1 cap sm co i start tbl)
  show ?case
  proof (cases "start < co")
    case True
    then have lt: "length tbl * unat sm < unat co" using "1.prems" by (simp add: word_less_nat_alt)
    then have "length tbl * unat sm < cap * unat sm" using "1.prems"(2) by linarith
    then have cap: "\<not> cap \<le> length tbl" by simp
    have "unat (start + sm) = length (tbl @ [i]) * unat sm"
      using "1.prems" lt by (subst unat_add_nowrap) auto
    then obtain m start' where m:
      "linear_fill cap sm co i (start + sm) (tbl @ [i]) = Inr (start', (tbl @ [i]) @ replicate m i)"
      "unat start' = (length (tbl @ [i]) + m) * unat sm" "unat co \<le> unat start'"
      "\<forall>z < length (tbl @ [i]) + m. length (tbl @ [i]) \<le> z \<longrightarrow> z * unat sm < unat co"
      using "1.IH" [OF True cap] "1.prems" by blast
    have "\<forall>z < length tbl + Suc m. length tbl \<le> z \<longrightarrow> z * unat sm < unat co"
      using m(4) lt by (auto simp: le_less Suc_le_eq)
    with m True cap show ?thesis
      by (intro exI [of _ "Suc m"] exI [of _ start'])
        (simp add: linear_fill.simps [of cap sm co i start tbl])
  next
    case False
    then show ?thesis using "1.prems"
      by (intro exI [of _ 0] exI [of _ start])
        (simp add: linear_fill.simps [of cap sm co i start tbl] word_less_nat_alt)
  qed
qed

text \<open>What holds of the table while the members are laid out: it covers all zones that
  start before the current offset, and each entry's member starts no later than its zone.\<close>

definition tbl_inv :: "dev_info list \<Rightarrow> nat \<Rightarrow> nat list \<Rightarrow> nat \<Rightarrow> bool" where
  "tbl_inv ds sm tbl i \<longleftrightarrow> lin_off ds i \<le> length tbl * sm \<and>
     (\<forall>z < length tbl. tbl ! z < length ds \<and> lin_off ds (tbl ! z) \<le> z * sm \<and> z * sm < lin_off ds i)"

lemma linear_build_spec:
  assumes "0 < unat sm" "lin_total ds \<le> cap * unat sm" "lin_total ds + unat sm < 2 ^ 64"
    and "unat start = length tbl * unat sm" "unat co = lin_off ds i" "tbl_inv ds (unat sm) tbl i"
    and "i + length rest = length ds" "rest = drop i ds"
  shows "\<exists>rest' tbl'. linear_build cap sm i rest start co tbl = Inr (rest', tbl') \<and>
    tbl_inv ds (unat sm) tbl' (length ds) \<and> length rest' = length rest \<and>
    (\<forall>j < length rest. \<exists>off. rest' ! j = (rest ! j)\<lparr>di_offset := off\<rparr> \<and> unat off = lin_off ds (i + j))"
  using assms
proof (induction rest arbitrary: i start co tbl)
  case Nil
  then show ?case by simp
next
  case (Cons d rest)
  have i: "i < length ds" using Cons.prems(8) by (metis drop_all list.distinct(1) not_less)
  then have d: "ds ! i = d" and rest: "rest = drop (Suc i) ds"
    using Cons.prems(8) by (metis Cons_nth_drop_Suc list.inject)+
  have le: "lin_off ds (Suc i) \<le> lin_total ds" by (rule prefix_sum_le_total)
  have co: "unat (co + di_size d) = lin_off ds (Suc i)"
    using Cons.prems le d i by (subst unat_add_nowrap) (auto simp: lin_off_Suc)
  obtain m start' where m:
    "linear_fill cap sm (co + di_size d) i start tbl = Inr (start', tbl @ replicate m i)"
    "unat start' = (length tbl + m) * unat sm" "lin_off ds (Suc i) \<le> unat start'"
    "\<forall>z < length tbl + m. length tbl \<le> z \<longrightarrow> z * unat sm < lin_off ds (Suc i)"
    using linear_fill_spec [of sm "co + di_size d" cap start tbl i] Cons.prems le co by auto
  let ?tbl = "tbl @ replicate m i"
  have "lin_off ds i \<le> z * unat sm" if "length tbl \<le> z" for z
    using Cons.prems(6) mult_le_mono1 [OF that, of "unat sm"] unfolding tbl_inv_def by linarith
  then have inv: "tbl_inv ds (unat sm) ?tbl (Suc i)"
    using Cons.prems(6) m(2,3,4) i lin_off_mono [of i "Suc i" ds]
    by (fastforce simp: tbl_inv_def nth_append)
  have "\<exists>rest' tbl'. linear_build cap sm (Suc i) rest start' (co + di_size d) ?tbl = Inr (rest', tbl') \<and>
    tbl_inv ds (unat sm) tbl' (length ds) \<and> length rest' = length rest \<and>
    (\<forall>j < length rest. \<exists>off. rest' ! j = (rest ! j)\<lparr>di_offset := off\<rparr> \<and>
       unat off = lin_off ds (Suc i + j))"
    using Cons.prems m(2) co inv rest by (intro Cons.IH) auto
  then obtain rest' tbl' where r:
    "linear_build cap sm (Suc i) rest start' (co + di_size d) ?tbl = Inr (rest', tbl')"
    "tbl_inv ds (unat sm) tbl' (length ds)" "length rest' = length rest"
    "\<forall>j < length rest. \<exists>off. rest' ! j = (rest ! j)\<lparr>di_offset := off\<rparr> \<and>
       unat off = lin_off ds (Suc i + j)" by blast
  have "\<exists>off. (d\<lparr>di_offset := co\<rparr> # rest') ! j = ((d # rest) ! j)\<lparr>di_offset := off\<rparr> \<and>
      unat off = lin_off ds (i + j)" if "j < length (d # rest)" for j
    using that r(4) Cons.prems(5) by (cases j) auto
  with m(1) r show ?case by simp
qed

text \<open>What the scan keeps: filled slots hold members of the array numbered by the slot, empty
  ones have size 0, and the counters are the number and the total size of the filled
  ones.\<close>

definition slot_ok :: "rdev list \<Rightarrow> dev_info \<Rightarrow> nat \<Rightarrow> bool" where
  "slot_ok prev d j \<longleftrightarrow> (case di_rdev d of
       None \<Rightarrow> di_size d = 0
     | Some r \<Rightarrow> r \<in> set prev \<and> rd_raid_disk r = int j \<and> di_size d = rd_size r)"

definition scan_inv :: "rdev list \<Rightarrow> linear_scan_state \<Rightarrow> bool" where
  "scan_inv prev st \<longleftrightarrow>
     (\<forall>j < length (ls_disks st). slot_ok prev (ls_disks st ! j) j) \<and>
     length (filter (\<lambda>d. di_rdev d \<noteq> None) (ls_disks st)) = length prev \<and>
     lin_total (ls_disks st) = sum_list (map (\<lambda>r. unat (rd_size r)) prev) \<and>
     unat (ls_array_size st) = sum_list (map (\<lambda>r. unat (rd_size r)) prev) \<and>
     ls_cnt st = length prev \<and>
     (case ls_smallest st of None \<Rightarrow> prev = []
      | Some k \<Rightarrow> k < length (ls_disks st) \<and> di_rdev (ls_disks st ! k) \<noteq> None)"

lemma scan_inv_slot:
  assumes "scan_inv prev st" "j < length (ls_disks st)"
  shows "di_rdev (ls_disks st ! j) = None \<Longrightarrow> di_size (ls_disks st ! j) = 0"
    "di_rdev (ls_disks st ! j) = Some r \<Longrightarrow>
       r \<in> set prev \<and> rd_raid_disk r = int j \<and> di_size (ls_disks st ! j) = rd_size r"
  using assms by (auto simp: scan_inv_def slot_ok_def)

lemma filled_update:
  "j < length ds \<Longrightarrow> di_rdev (ds ! j) = None \<Longrightarrow> di_rdev d \<noteq> None \<Longrightarrow>
   length (filter (\<lambda>d. di_rdev d \<noteq> None) (ds[j := d])) =
     Suc (length (filter (\<lambda>d. di_rdev d \<noteq> None) ds))"
proof (induction ds arbitrary: j)
  case Nil
  then show ?case by simp
next
  case (Cons a ds)
  then show ?case by (cases j) auto
qed

lemma lin_total_update:
  assumes "j < length ds" "di_size (ds ! j) = 0"
  shows "lin_total (ds[j := d]) = lin_total ds + unat (di_size d)"
  using assms by (simp add: prefix_sum_def map_update sum_list_update)

lemma linear_scan_spec:
  assumes "scan_inv prev st" "length (ls_disks st) = nat n"
    and "distinct (map rd_raid_disk (prev @ rs))" "\<forall>r \<in> set rs. 0 \<le> rd_raid_disk r \<and> rd_raid_disk r < n"
    and "sum_list (map (\<lambda>r. unat (rd_size r)) (prev @ rs)) < 2 ^ 62"
  shows "\<exists>st'. linear_scan n rs st = Inr (True, st') \<and> scan_inv (prev @ rs) st' \<and>
    length (ls_disks st') = nat n"
  using assms
proof (induction rs arbitrary: "prev" st)
  case Nil
  then show ?case by simp
next
  case (Cons r rs)
  let ?j = "nat (rd_raid_disk r)"
  let ?disks = "(ls_disks st)[?j := (ls_disks st ! ?j)\<lparr>di_rdev := Some r, di_size := rd_size r\<rparr>]"
  have j: "0 \<le> rd_raid_disk r" "rd_raid_disk r < n" "?j < length (ls_disks st)"
    using Cons.prems by auto
  have fresh: "rd_raid_disk r \<notin> rd_raid_disk ` set prev" using Cons.prems(3) by auto
  have none: "di_rdev (ls_disks st ! ?j) = None"
  proof (rule ccontr)
    assume "di_rdev (ls_disks st ! ?j) \<noteq> None"
    then obtain q where "di_rdev (ls_disks st ! ?j) = Some q" by blast
    from scan_inv_slot(2) [OF Cons.prems(1) j(3) this] j(1)
    have "q \<in> set prev" "rd_raid_disk r = rd_raid_disk q" by simp_all
    with fresh show False by blast
  qed
  note free = none scan_inv_slot(1) [OF Cons.prems(1) j(3) none]
  obtain st' where st': "linear_scan n (r # rs) st = linear_scan n rs st'" "ls_disks st' = ?disks"
    "ls_array_size st' = ls_array_size st + rd_size r" "ls_cnt st' = Suc (ls_cnt st)"
    "\<exists>k. ls_smallest st' = Some k \<and> (k = ?j \<or> ls_smallest st = Some k)"
    using j free by (auto simp: Let_def split: option.splits if_splits)
  have "unat (ls_array_size st') = sum_list (map (\<lambda>r. unat (rd_size r)) (prev @ [r]))"
    using Cons.prems(1,5) by (subst st'(3), subst unat_add_nowrap) (auto simp: scan_inv_def)
  moreover have "lin_total ?disks = lin_total (ls_disks st) + unat (rd_size r)"
    using j free by (subst lin_total_update) simp_all
  moreover have "slot_ok (prev @ [r]) (?disks ! i) i" if "i < length (ls_disks st)" for i
  proof (cases "i = ?j")
    case True
    then show ?thesis using j by (simp add: slot_ok_def)
  next
    case False
    then have "?disks ! i = ls_disks st ! i" by simp
    then show ?thesis using Cons.prems(1) that by (auto simp: scan_inv_def slot_ok_def split: option.splits)
  qed
  moreover have "length (filter (\<lambda>d. di_rdev d \<noteq> None) ?disks) = length (prev @ [r])"
    using Cons.prems(1) j(3) none by (subst filled_update) (auto simp: scan_inv_def)
  moreover obtain k where "ls_smallest st' = Some k" "k < length ?disks" "di_rdev (?disks ! k) \<noteq> None"
    using st'(5) Cons.prems(1) j(3) by (auto simp: scan_inv_def nth_list_update)
  ultimately have "scan_inv (prev @ [r]) st'"
    using Cons.prems(1) st'(2,4) by (simp add: scan_inv_def del: nth_list_update)
  then show ?case using Cons.IH [of "prev @ [r]" st'] Cons.prems st'(1,2) by simp
qed

text \<open>Members that \<open>md.c\<close> can hand over: numbered \<open>0, \<dots>, raid_disks - 1\<close>, none empty, each
  below \<open>2\<^sup>3\<^sup>2\<close> blocks (the divisor of \<open>sector_div\<close>), on distinct block devices, and of sizes
  for which the hash table has fewer than \<open>2\<^sup>3\<^sup>0\<close> entries.\<close>

definition linear_members :: "mddev \<Rightarrow> bool" where
  "linear_members md \<longleftrightarrow>
     (let rs = md_disks md; total = sum_list (map (\<lambda>r. unat (rd_size r)) rs) in
      rs \<noteq> [] \<and> md_raid_disks md = int (length rs) \<and> distinct (map rd_raid_disk rs) \<and>
      distinct (map rd_bdev rs) \<and> total < 2 ^ 62 \<and>
      (\<forall>r \<in> set rs. 0 \<le> rd_raid_disk r \<and> rd_raid_disk r < md_raid_disks md \<and>
         0 < unat (rd_size r) \<and> unat (rd_size r) < 2 ^ 32 \<and> total div unat (rd_size r) < 2 ^ 30 - 1 \<and>
         unat (rd_data_offset r) + 2 * unat (rd_size r) < 2 ^ 64))"

lemma ceil_div_unique:
  fixes L sm T :: nat
  assumes "0 < sm" "T \<le> L * sm" "\<forall>z < L. z * sm < T"
  shows "L = T div sm + (if T mod sm \<noteq> 0 then 1 else 0)"
proof (cases L)
  case 0
  with assms show ?thesis by simp
next
  case (Suc l)
  with assms have lt: "l * sm < T" and le: "T \<le> Suc l * sm" by auto
  show ?thesis
  proof (cases "T = Suc l * sm")
    case True
    with Suc assms(1) show ?thesis by (metis add.right_neutral mod_mult_self2_is_0 nonzero_mult_div_cancel_right less_numeral_extra(3))
  next
    case False
    then have div: "T div sm = l" using lt le assms(1) by (intro div_nat_eqI) (auto simp: mult.commute)
    moreover have "T mod sm \<noteq> 0" using lt div by (metis div_mult_mod_eq add.right_neutral less_irrefl)
    ultimately show ?thesis using Suc by simp
  qed
qed

lemma nb_zone_unat:
  assumes "0 < unat sm" "unat sm < 2 ^ 32" "unat T div unat sm < 2 ^ 30 - 1"
  defines "nb \<equiv> unat T div unat sm + (if unat T mod unat sm \<noteq> 0 then 1 else 0)"
  shows "unat (ucast (fst (sector_div T sm) + (if snd (sector_div T sm) \<noteq> 0 then 1 else 0)) :: u32) = nb"
    "nb < 2 ^ 30"
proof -
  note dd = do_div_unat [OF assms(1,2), of T]
  have r0: "snd (sector_div T sm) = 0 \<longleftrightarrow> unat T mod unat sm = 0"
    using dd(2) by (metis unat_0_iff)
  show nb: "nb < 2 ^ 30" using assms(3) by (simp add: nb_def)
  have "unat (fst (sector_div T sm) + (if snd (sector_div T sm) \<noteq> 0 then 1 else 0)) = nb"
    using dd(1) r0 assms(3) by (subst unat_add_nowrap) (auto simp: nb_def)
  then show "unat (ucast (fst (sector_div T sm) + (if snd (sector_div T sm) \<noteq> 0 then 1 else 0)) :: u32) = nb"
    using nb by (simp add: unsigned_ucast_eq take_bit_nat_eq_self)
qed

lemma slots_distinct:
  assumes "distinct (map rd_bdev rs)" "\<forall>j < length ds. \<exists>r. di_rdev (ds ! j) = Some r \<and> r \<in> set rs \<and> rd_raid_disk r = int j"
  shows "distinct (map (\<lambda>d. map_option rd_bdev (di_rdev d)) ds)"
  unfolding distinct_conv_nth
proof (intro allI impI)
  fix i j assume ij: "i < length (map (\<lambda>d. map_option rd_bdev (di_rdev d)) ds)"
    "j < length (map (\<lambda>d. map_option rd_bdev (di_rdev d)) ds)" "i \<noteq> j"
  obtain r q where r: "di_rdev (ds ! i) = Some r" "r \<in> set rs" "rd_raid_disk r = int i"
    and q: "di_rdev (ds ! j) = Some q" "q \<in> set rs" "rd_raid_disk q = int j"
    using assms(2) ij(1,2) by (metis length_map)
  have "r \<noteq> q" using r(3) q(3) ij(3) by auto
  then have "rd_bdev r \<noteq> rd_bdev q"
    using assms(1) r(2) q(2) by (auto simp: distinct_map dest: inj_onD)
  with ij r q show "map (\<lambda>d. map_option rd_bdev (di_rdev d)) ds ! i \<noteq>
      map (\<lambda>d. map_option rd_bdev (di_rdev d)) ds ! j" by simp
qed

lemma linear_scan_all:
  assumes "linear_members md"
  shows "\<exists>st k. linear_scan (md_raid_disks md) (md_disks md)
      \<lparr>ls_disks = replicate (nat (md_raid_disks md)) \<lparr>di_rdev = None, di_size = 0, di_offset = 0\<rparr>,
       ls_smallest = None, ls_array_size = 0, ls_queue = md_queue md, ls_cnt = 0\<rparr> = Inr (True, st) \<and>
    ls_smallest st = Some k \<and> k < length (ls_disks st) \<and> ls_cnt st = length (md_disks md) \<and>
    length (ls_disks st) = length (md_disks md) \<and>
    unat (ls_array_size st) = sum_list (map (\<lambda>r. unat (rd_size r)) (md_disks md)) \<and>
    lin_total (ls_disks st) = unat (ls_array_size st) \<and>
    (\<forall>j < length (ls_disks st). \<exists>r. di_rdev (ls_disks st ! j) = Some r \<and> r \<in> set (md_disks md) \<and>
       rd_raid_disk r = int j \<and> di_size (ls_disks st ! j) = rd_size r)"
proof -
  let ?rs = "md_disks md" and ?n = "md_raid_disks md"
  let ?st0 = "\<lparr>ls_disks = replicate (nat ?n) \<lparr>di_rdev = None, di_size = 0, di_offset = 0\<rparr>,
       ls_smallest = None, ls_array_size = 0, ls_queue = md_queue md, ls_cnt = 0\<rparr>"
  have "scan_inv [] ?st0" by (simp add: scan_inv_def slot_ok_def prefix_sum_def)
  then obtain st where st: "linear_scan ?n ?rs ?st0 = Inr (True, st)" "scan_inv ?rs st"
    "length (ls_disks st) = nat ?n"
    using linear_scan_spec [of "[]" ?st0 ?n ?rs] assms by (auto simp: linear_members_def Let_def)
  have len: "length (ls_disks st) = length ?rs" using st(3) assms by (simp add: linear_members_def Let_def)
  then have "length (filter (\<lambda>d. di_rdev d \<noteq> None) (ls_disks st)) = length (ls_disks st)"
    using st(2) by (simp add: scan_inv_def)
  then have full: "\<forall>d \<in> set (ls_disks st). di_rdev d \<noteq> None"
    using length_filter_less [of _ "ls_disks st" "\<lambda>d. di_rdev d \<noteq> None"] by fastforce
  have "\<exists>r. di_rdev (ls_disks st ! j) = Some r \<and> r \<in> set ?rs \<and> rd_raid_disk r = int j \<and>
      di_size (ls_disks st ! j) = rd_size r" if "j < length (ls_disks st)" for j
    using scan_inv_slot(2) [OF st(2) that] full nth_mem [OF that] by (metis not_Some_eq)
  moreover obtain k where "ls_smallest st = Some k" "k < length (ls_disks st)"
    using st(2) assms by (auto simp: scan_inv_def linear_members_def Let_def split: option.splits)
  ultimately show ?thesis using st len by (auto simp: scan_inv_def)
qed

lemma linear_run_wf:
  assumes mem: "linear_members md"
  shows "\<exists>md' c. linear_run True (\<lambda>_. True) md = Inr (0, md', Some c) \<and> linear_wf c \<and>
    unat (md_array_size md') = sum_list (map (\<lambda>r. unat (rd_size r)) (md_disks md)) \<and>
    lin_total (lc_disks c) = unat (md_array_size md') \<and>
    length (lc_disks c) = length (md_disks md) \<and>
    (\<forall>j < length (lc_disks c). \<exists>r \<in> set (md_disks md). rd_raid_disk r = int j \<and>
       di_rdev (lc_disks c ! j) = Some r \<and> di_size (lc_disks c ! j) = rd_size r)"
proof -
  let ?rs = "md_disks md"
  obtain st k where st: "linear_scan (md_raid_disks md) ?rs
      \<lparr>ls_disks = replicate (nat (md_raid_disks md)) \<lparr>di_rdev = None, di_size = 0, di_offset = 0\<rparr>,
       ls_smallest = None, ls_array_size = 0, ls_queue = md_queue md, ls_cnt = 0\<rparr> = Inr (True, st)"
    "ls_smallest st = Some k" "k < length (ls_disks st)" "ls_cnt st = length ?rs"
    "length (ls_disks st) = length ?rs"
    "unat (ls_array_size st) = sum_list (map (\<lambda>r. unat (rd_size r)) ?rs)"
    "lin_total (ls_disks st) = unat (ls_array_size st)"
    and slots: "\<forall>j < length (ls_disks st). \<exists>r. di_rdev (ls_disks st ! j) = Some r \<and> r \<in> set ?rs \<and>
       rd_raid_disk r = int j \<and> di_size (ls_disks st ! j) = rd_size r"
    using linear_scan_all [OF mem] by blast
  define ds where "ds = ls_disks st"
  define T where "T = ls_array_size st"
  define sm where "sm = di_size (ds ! k)"
  define nb where "nb = unat T div unat sm + (if unat T mod unat sm \<noteq> 0 then 1 else 0)"
  define w where "w = (ucast (fst (sector_div T sm) + (if snd (sector_div T sm) \<noteq> 0 then 1 else 0)) :: u32)"
  obtain r where r: "r \<in> set ?rs" "sm = rd_size r" using slots st(3) by (auto simp: sm_def ds_def)
  have T62: "unat T < 2 ^ 62" using mem st(6) by (simp add: T_def linear_members_def Let_def)
  have sm: "0 < unat sm" "unat sm < 2 ^ 32" "unat T div unat sm < 2 ^ 30 - 1"
    using mem r st(6) by (auto simp: T_def linear_members_def Let_def)
  have w: "unat w = nb" "nb < 2 ^ 30" using nb_zone_unat [OF sm] by (simp_all add: w_def nb_def)
  have w4: "unat (4 * w) div 4 = nb" using w by (simp add: unat_mult_nowrap)
  have Tnb: "lin_total ds \<le> nb * unat sm"
    using st(7) ceil_div_ge [OF sm(1), of "unat T"] by (simp only: nb_def ds_def T_def)
  obtain ds' tbl where b: "linear_build nb sm 0 ds 0 0 [] = Inr (ds', tbl)"
    "tbl_inv ds (unat sm) tbl (length ds)" "length ds' = length ds"
    "\<forall>j < length ds. \<exists>off. ds' ! j = (ds ! j)\<lparr>di_offset := off\<rparr> \<and> unat off = lin_off ds j"
    using linear_build_spec [of sm ds nb 0 "[]" 0 0 ds] sm Tnb T62 st(7)
    by (auto simp: tbl_inv_def ds_def T_def)
  have "length tbl = nb"
    using ceil_div_unique [of "unat sm" "unat T" "length tbl"] sm(1) b(2) st(7)
    by (auto simp: tbl_inv_def nb_def ds_def T_def)
  then have run: "linear_run True (\<lambda>_. True) md = Inr (0,
      md\<lparr>md_array_size := T, md_queue := blk_queue_merge_bvec (ls_queue st)\<rparr>,
      Some \<lparr>lc_hash_table = tbl, lc_smallest = k, lc_nr_zones = w, lc_disks = ds'\<rparr>)"
    using mem st(1,2,4) b(1) w(1) w4 sm(1)
    by (simp add: linear_run_def linear_members_def Let_def case_prod_unfold T_def [symmetric]
        ds_def [symmetric] sm_def [symmetric] w_def [symmetric])
  have off: "lin_off ds' = lin_off ds"
    using b(3,4) by (intro ext prefix_sum_cong) (fastforce simp: prefix_sum_def)+
  have slots': "\<forall>j < length ds'. \<exists>r. di_rdev (ds' ! j) = Some r \<and> r \<in> set ?rs \<and> rd_raid_disk r = int j \<and>
      di_size (ds' ! j) = rd_size r \<and> unat (di_offset (ds' ! j)) = lin_off ds j"
    using slots b(3,4) by (fastforce simp: ds_def)
  have "distinct (map (\<lambda>d. map_option rd_bdev (di_rdev d)) ds')"
    using mem slots' by (intro slots_distinct [of ?rs]) (auto simp: linear_members_def Let_def)
  moreover have "di_size (ds' ! k) = sm" using b(3,4) st(3) by (fastforce simp: sm_def ds_def)
  moreover have "z < length tbl" if "z * unat sm < lin_total ds" for z
  proof -
    have "lin_total ds \<le> length tbl * unat sm" using b(2) by (simp add: tbl_inv_def)
    with that have "z * unat sm < length tbl * unat sm" by linarith
    then show ?thesis by simp
  qed
  ultimately have "linear_wf \<lparr>lc_hash_table = tbl, lc_smallest = k, lc_nr_zones = w, lc_disks = ds'\<rparr>"
    using st(3,7) sm T62 b(2,3) slots' off mem
    by (fastforce simp: linear_wf_def Let_def tbl_inv_def linear_members_def ds_def T_def)
  with run st(5,6,7) off b(3) slots' show ?thesis by (fastforce simp: ds_def T_def)
qed

subsection \<open>Requests reach their sectors\<close>

text \<open>Where the concatenation puts logical sector \<open>s\<close>, read off a one-sector request that goes
  through the code.\<close>

definition one_sector :: "nat \<Rightarrow> bio" where
  "one_sector s = \<lparr>bi_sector = of_nat s, bi_bdev = 0, bi_write = False, bi_vcnt = 1, bi_idx = 0,
     bi_size = 512, bi_io_vec = [\<lparr>bv_len = 512, bv_offset = 0\<rparr>]\<rparr>"

definition no_stats :: disk_stats where
  "no_stats = \<lparr>ds_reads = 0, ds_writes = 0, ds_read_sectors = 0, ds_write_sectors = 0\<rparr>"

definition linear_loc :: "linear_conf \<Rightarrow> nat \<Rightarrow> nat \<times> nat" where
  "linear_loc c s = (case linear_make_request 1 c no_stats (one_sector s) of
     Some (Inr (_, True, b, _)) \<Rightarrow> (bi_bdev b, unat (bi_sector b)) | _ \<Rightarrow> (0, 0))"

definition linear_member :: "linear_conf \<Rightarrow> nat \<Rightarrow> rdev" where
  "linear_member c i = the (di_rdev (lc_disks c ! i))"

lemma linear_memberD:
  assumes "linear_wf c" "i < length (lc_disks c)"
  shows "di_rdev (lc_disks c ! i) = Some (linear_member c i)"
    "unat (rd_data_offset (linear_member c i)) + 2 * unat (di_size (lc_disks c ! i)) < 2 ^ 64"
  using assms by (auto simp: linear_wf_def Let_def linear_member_def split: option.splits)

lemma request_head:
  assumes wf: "linear_wf c" and i: "i < length (lc_disks c)"
    and s: "2 * lin_off (lc_disks c) i \<le> unat s" "unat s < 2 * lin_off (lc_disks c) (Suc i)"
  shows "which_dev c s = Inr i"
    "\<not> di_size (lc_disks c ! i) + di_offset (lc_disks c ! i) \<le> drop_bit 1 s"
    "\<not> drop_bit 1 s < di_offset (lc_disks c ! i)"
proof -
  note D = linear_wfD [OF wf i]
  have half: "unat (drop_bit 1 s) = unat s div 2" by (simp add: unat_drop_bit)
  show "which_dev c s = Inr i" using which_dev_finds [OF wf i, of s] s by linarith
  have "unat (di_size (lc_disks c ! i) + di_offset (lc_disks c ! i)) = lin_off (lc_disks c) (Suc i)"
    using D(2) by (simp only: add.commute)
  then show "\<not> di_size (lc_disks c ! i) + di_offset (lc_disks c ! i) \<le> drop_bit 1 s"
    using s half unfolding word_le_nat_alt by linarith
  show "\<not> drop_bit 1 s < di_offset (lc_disks c ! i)"
    using s half D(1) unfolding word_less_nat_alt by linarith
qed

lemma unat_bio_sectors: "unat (ucast (drop_bit 9 w :: u32) :: u64) = unat w div 512"
proof -
  have "unat w div 512 < 2 ^ 64"
    using unat_less_exp [of w] div_le_dividend [of "unat w" 512] by simp
  then show ?thesis by (subst unat_ucast_small) (simp_all add: unat_drop_bit)
qed

lemma request_inside:
  assumes wf: "linear_wf c" and i: "i < length (lc_disks c)"
    and n: "unat (bi_size b) div 512 = n" "0 < n"
    and s: "2 * lin_off (lc_disks c) i \<le> unat (bi_sector b)"
      "unat (bi_sector b) + n \<le> 2 * lin_off (lc_disks c) (Suc i)"
  shows "\<exists>b'. linear_make_request (Suc fuel) c stats b = Some (Inr (disk_stat_account stats b, True, b', [])) \<and>
    bio_cells b' = map (\<lambda>k. (rd_bdev (linear_member c i),
        unat (bi_sector b) + k - 2 * lin_off (lc_disks c) i + unat (rd_data_offset (linear_member c i)))) [0..<n]"
proof -
  let ?d = "lc_disks c ! i" and ?r = "linear_member c i"
  note D = linear_wfD [OF wf i] and M = linear_memberD [OF wf i]
  note head = request_head [OF wf i, of "bi_sector b"]
  have cnt: "unat (ucast (drop_bit 9 (bi_size b)) :: u64) = n"
    using n by (simp only: unat_bio_sectors)
  have nocross: "\<not> push_bit 1 (di_offset ?d + di_size ?d) < bi_sector b + ucast (drop_bit 9 (bi_size b))"
    using s D(3,5) cnt unat_add_nowrap [of "bi_sector b" "ucast (drop_bit 9 (bi_size b)) :: u64"]
    by (simp add: word_less_nat_alt)
  have sub: "unat (bi_sector b - push_bit 1 (di_offset ?d)) = unat (bi_sector b) - 2 * lin_off (lc_disks c) i"
    using s D(4) by (subst unat_sub_nowrap) simp_all
  have "unat (bi_sector b - push_bit 1 (di_offset ?d) + rd_data_offset ?r) =
      unat (bi_sector b) - 2 * lin_off (lc_disks c) i + unat (rd_data_offset ?r)"
    using s sub M(2) i by (subst unat_add_nowrap) (auto simp: lin_off_Suc)
  with head nocross M(1) n s show ?thesis
    by (auto simp: linear_make_request.simps(2) Let_def bio_cells_def)
qed

lemma linear_loc_eq:
  assumes wf: "linear_wf c" and i: "i < length (lc_disks c)"
    and s: "2 * lin_off (lc_disks c) i \<le> s" "s < 2 * lin_off (lc_disks c) (Suc i)"
  shows "linear_loc c s = (rd_bdev (linear_member c i),
    s - 2 * lin_off (lc_disks c) i + unat (rd_data_offset (linear_member c i)))"
proof -
  have "s < 2 ^ 64" using s linear_wfD(5) [OF wf i] by simp
  then have us: "unat (bi_sector (one_sector s)) = s" by (simp add: one_sector_def unat_of_nat)
  have "unat (bi_size (one_sector s)) div 512 = 1" by (simp add: one_sector_def)
  from request_inside [OF wf i this, of 0 no_stats] s us
  show ?thesis
    by (auto simp: linear_loc_def bio_cells_def one_sector_def upt_eq_Cons_conv split: if_splits)
qed

lemma linear_find:
  assumes "linear_wf c" "s < 2 * lin_total (lc_disks c)"
  obtains i where "i < length (lc_disks c)" "2 * lin_off (lc_disks c) i \<le> s"
    "s < 2 * lin_off (lc_disks c) (Suc i)"
proof -
  have "s div 2 < lin_total (lc_disks c)" using assms(2) by simp
  from prefix_sum_find [OF this order_refl] show thesis using that by (auto simp: lin_off_Suc)
qed

subsection \<open>The array as one disk\<close>

definition linear_extent :: "linear_conf \<Rightarrow> nat \<Rightarrow> nat set" where
  "linear_extent c dev = (\<Union>i \<in> {i. i < length (lc_disks c) \<and> rd_bdev (linear_member c i) = dev}.
     {unat (rd_data_offset (linear_member c i)) ..<
      unat (rd_data_offset (linear_member c i)) + 2 * unat (di_size (lc_disks c ! i))})"

lemma linear_member_inj:
  assumes "linear_wf c" "i < length (lc_disks c)" "j < length (lc_disks c)"
    "rd_bdev (linear_member c i) = rd_bdev (linear_member c j)"
  shows "i = j"
proof -
  have "distinct (map (\<lambda>d. map_option rd_bdev (di_rdev d)) (lc_disks c))"
    using assms(1) by (simp add: linear_wf_def Let_def)
  then show ?thesis
    using assms linear_memberD(1) by (auto simp: distinct_conv_nth)
qed

interpretation linear: array_map linear_wf "\<lambda>c. 2 * lin_total (lc_disks c)" linear_loc linear_extent
proof (unfold_locales, goal_cases)
  case (1 c s t)
  obtain i where i: "i < length (lc_disks c)" "2 * lin_off (lc_disks c) i \<le> s"
    "s < 2 * lin_off (lc_disks c) (Suc i)" using linear_find [OF 1(1,2)] .
  obtain j where j: "j < length (lc_disks c)" "2 * lin_off (lc_disks c) j \<le> t"
    "t < 2 * lin_off (lc_disks c) (Suc j)" using linear_find [OF 1(1,3)] .
  have "i = j" using linear_member_inj [OF 1(1) i(1) j(1)] 1(4)
    by (simp add: linear_loc_eq [OF 1(1) i] linear_loc_eq [OF 1(1) j])
  then show ?case using 1(4) i j
    by (simp add: linear_loc_eq [OF 1(1) i] linear_loc_eq [OF 1(1) j])
next
  case (2 c s)
  obtain i where i: "i < length (lc_disks c)" "2 * lin_off (lc_disks c) i \<le> s"
    "s < 2 * lin_off (lc_disks c) (Suc i)" using linear_find [OF 2(1,2)] .
  then show ?case
    by (auto simp: linear_loc_eq [OF 2(1) i] linear_extent_def lin_off_Suc intro!: exI [of _ i])
qed

text \<open>The driver splits at the end of a member.\<close>

definition linear_room :: "linear_conf \<Rightarrow> nat \<Rightarrow> nat" where
  "linear_room c s = (case which_dev c (of_nat s) of
     Inl _ \<Rightarrow> 0 | Inr i \<Rightarrow> 2 * lin_off (lc_disks c) (Suc i) - s)"

lemma linear_room_eq:
  assumes wf: "linear_wf c" and i: "i < length (lc_disks c)"
    and s: "2 * lin_off (lc_disks c) i \<le> s" "s < 2 * lin_off (lc_disks c) (Suc i)"
  shows "linear_room c s = 2 * lin_off (lc_disks c) (Suc i) - s"
proof -
  have "s < 2 ^ 64" using s linear_wfD(4,5) [OF wf i] by simp
  then have "unat (of_nat s :: sector_t) = s" by (simp add: unat_of_nat)
  with request_head(1) [OF wf i, of "of_nat s"] s show ?thesis by (simp add: linear_room_def)
qed

interpretation linear: splitting_driver linear_wf "\<lambda>c. 2 * lin_total (lc_disks c)" linear_loc linear_extent
  linear_make_request linear_room
proof (unfold_locales, goal_cases)
  case (1 c)
  then show ?case by (simp add: linear_wf_def Let_def)
next
  case (2 c s)
  obtain i where i: "i < length (lc_disks c)" "2 * lin_off (lc_disks c) i \<le> s"
    "s < 2 * lin_off (lc_disks c) (Suc i)" using linear_find [OF 2] .
  then show ?case by (simp add: linear_room_eq [OF 2(1) i])
next
  case (3 c b n f st)
  let ?s = "unat (bi_sector b)"
  obtain i where i: "i < length (lc_disks c)" "2 * lin_off (lc_disks c) i \<le> ?s"
    "?s < 2 * lin_off (lc_disks c) (Suc i)" using linear_find [OF 3(1), of ?s] 3(3,4) by auto
  have room: "?s + n \<le> 2 * lin_off (lc_disks c) (Suc i)"
    using 3(5) i by (simp add: linear_room_eq [OF 3(1) i])
  have "unat (bi_size b) div 512 = n" using 3(2) by (simp add: page_bio_def)
  from request_inside [OF 3(1) i(1) this 3(3), of f st] i(2) room
  obtain b' where b': "linear_make_request (Suc f) c st b = Some (Inr (disk_stat_account st b, True, b', []))"
    "bio_cells b' = map (\<lambda>k. (rd_bdev (linear_member c i),
      ?s + k - 2 * lin_off (lc_disks c) i + unat (rd_data_offset (linear_member c i)))) [0..<n]" by auto
  have "bio_cells b' = map (\<lambda>k. linear_loc c (?s + k)) [0..<n]"
    using b'(2) linear_loc_eq [OF 3(1) i(1)] i room by auto
  also have "\<dots> = map (linear_loc c) [?s..<?s + n]"
    by (intro nth_equalityI) auto
  finally show ?case using b'(1) by blast
next
  case (4 c b n k b1 b2 f st st1 ret1 b1' ev1 st2 ret2 b2' ev2)
  let ?s = "unat (bi_sector b)"
  have n: "0 < n" using 4(4) by simp
  obtain i where i: "i < length (lc_disks c)" "2 * lin_off (lc_disks c) i \<le> ?s"
    "?s < 2 * lin_off (lc_disks c) (Suc i)" using linear_find [OF 4(1), of ?s] 4(3) n by auto
  let ?d = "lc_disks c ! i"
  let ?lim = "push_bit 1 (di_offset ?d + di_size ?d)"
  note D = linear_wfD [OF 4(1) i(1)] and room = linear_room_eq [OF 4(1) i]
  have "unat (?lim - bi_sector b) = linear_room c ?s" using D(3) i room by (subst unat_sub_nowrap) auto
  moreover have "unat k < 2 ^ 32" using unat_less_exp [of k] by simp
  ultimately have k: "ucast (?lim - bi_sector b) = k"
    using 4(5) by (simp add: word_unat_eq_iff unat_ucast_small)
  have tot: "lin_total (lc_disks c) < 2 ^ 62" using 4(1) by (simp add: linear_wf_def Let_def)
  have cond: "?lim < bi_sector b + ucast (drop_bit 9 (bi_size b))"
    using D(3) 4(2,3,4) room i tot unat_bio_sectors [of "bi_size b"]
      unat_add_nowrap [of "bi_sector b" "ucast (drop_bit 9 (bi_size b)) :: u64"]
    by (simp add: word_less_nat_alt page_bio_def)
  show ?case
    using request_head [OF 4(1) i(1), of "bi_sector b"] i cond 4(2,6,7,8) k
    by (simp add: linear_make_request.simps(2) Let_def page_bio_def)
qed

subsection \<open>Properties\<close>

text \<open>C22. For members that are numbered properly, non-empty and not too large, \<open>linear_run\<close>
  succeeds (return value 0) when its allocations do: it leaves slot \<open>j\<close> to the member
  numbered \<open>j\<close>, sets the array size to the sum of the members' sizes, never writes past the
  hash table, does not hit its \<open>BUG()\<close>, and its table satisfies the lookup invariant.\<close>

theorem linear_run_establishes:
  assumes "linear_members md"
  shows "\<exists>md' c. linear_run True (\<lambda>_. True) md = Inr (0, md', Some c) \<and> linear_wf c \<and>
    unat (md_array_size md') = sum_list (map (\<lambda>r. unat (rd_size r)) (md_disks md)) \<and>
    lin_total (lc_disks c) = unat (md_array_size md') \<and>
    length (lc_disks c) = length (md_disks md) \<and>
    (\<forall>j < length (lc_disks c). \<exists>r \<in> set (md_disks md). rd_raid_disk r = int j \<and>
       di_rdev (lc_disks c ! j) = Some r \<and> di_size (lc_disks c ! j) = rd_size r)"
  using assms by (rule linear_run_wf)

text \<open>An example array: two members of 5 and 3 blocks, listed in reverse order.\<close>

definition ex_queue :: queue where
  "ex_queue = \<lparr>max_sectors = 255, max_hw_sectors = 255, max_phys_segments = 128,
     max_hw_segments = 128, max_segment_size = 65536, hardsect_size = 512,
     seg_boundary_mask = 0xFFFFFFFF, has_merge_bvec = False, ra_pages = 32\<rparr>"

definition ex_rdev :: "nat \<Rightarrow> u64 \<Rightarrow> int \<Rightarrow> rdev" where
  "ex_rdev dev sz j = \<lparr>rd_bdev = dev, rd_size = sz, rd_raid_disk = j, rd_data_offset = 0,
     rd_queue = ex_queue\<rparr>"

definition ex_mddev :: "rdev list \<Rightarrow> mddev" where
  "ex_mddev rs = \<lparr>md_disks = rs, md_raid_disks = int (length rs), md_chunk_size = 65536,
     md_array_size = 0, md_queue = ex_queue\<rparr>"

lemma ex_members: "linear_members (ex_mddev [ex_rdev 7 3 1, ex_rdev 6 5 0])"
  by (simp add: linear_members_def ex_mddev_def ex_rdev_def Let_def)

theorem linear_run_establishes_witness:
  "\<exists>md' c. linear_run True (\<lambda>_. True) (ex_mddev [ex_rdev 7 3 1, ex_rdev 6 5 0]) = Inr (0, md', Some c) \<and>
    linear_wf c \<and> unat (md_array_size md') = 8"
  using linear_run_establishes [OF ex_members] by (auto simp: ex_mddev_def ex_rdev_def)

text \<open>A one-page request that lies inside the array is served completely, whatever
  members it spans: the requests that \<open>linear_make_request\<close> submits (and the one it returns
  to be submitted) cover exactly the places of the request's sectors, in order, and nothing
  else; none ends in an I/O error, and the recursion is no deeper than the number of
  sectors.\<close>

lemma linear_make_request_places:
  assumes "linear_wf c" "page_bio b n" "0 < n"
    "unat (bi_sector b) + n \<le> 2 * lin_total (lc_disks c)"
  shows "\<exists>stats' ret b' evs. linear_make_request n c stats b = Some (Inr (stats', ret, b', evs)) \<and>
    reached ret b' evs = map (linear_loc c) [unat (bi_sector b)..<unat (bi_sector b) + n]"
  by (rule linear.request_reaches [OF assms(1-3) order_refl assms(4)])

definition ex_conf :: linear_conf where
  "ex_conf = \<lparr>lc_hash_table = [0, 0, 1], lc_smallest = 1, lc_nr_zones = 3,
     lc_disks = [\<lparr>di_rdev = Some (ex_rdev 6 5 0), di_size = 5, di_offset = 0\<rparr>,
                 \<lparr>di_rdev = Some (ex_rdev 7 3 1), di_size = 3, di_offset = 5\<rparr>]\<rparr>"

lemma ex_conf_wf: "linear_wf ex_conf"
proof -
  have z: "z < 3" if "z * 3 < 8" for z :: nat using that by simp
  have "unat (di_offset (lc_disks ex_conf ! i)) = lin_off (lc_disks ex_conf) i \<and>
     (case di_rdev (lc_disks ex_conf ! i) of None \<Rightarrow> False
      | Some r \<Rightarrow> unat (rd_data_offset r) + 2 * unat (di_size (lc_disks ex_conf ! i)) < 2 ^ 64)"
    if "i < 2" for i
  proof -
    have "i = 0 \<or> i = 1" using that by auto
    then show ?thesis by (elim disjE) (simp_all add: ex_conf_def ex_rdev_def prefix_sum_def)
  qed
  moreover have "\<forall>z. z * 3 < (8::nat) \<longrightarrow> z < 3 \<and> lc_hash_table ex_conf ! z < 2 \<and>
      lin_off (lc_disks ex_conf) (lc_hash_table ex_conf ! z) \<le> z * 3"
  proof (intro allI impI)
    fix z :: nat assume "z * 3 < 8"
    then have "z = 0 \<or> z = 1 \<or> z = 2" using z [of z] by linarith
    then show "z < 3 \<and> lc_hash_table ex_conf ! z < 2 \<and>
        lin_off (lc_disks ex_conf) (lc_hash_table ex_conf ! z) \<le> z * 3"
      by (auto simp: ex_conf_def prefix_sum_def)
  qed
  moreover have "length (lc_disks ex_conf) = 2" "lc_smallest ex_conf = 1"
    "unat (di_size (lc_disks ex_conf ! 1)) = 3" "lin_off (lc_disks ex_conf) 2 = 8"
    "distinct (map (\<lambda>d. map_option rd_bdev (di_rdev d)) (lc_disks ex_conf))"
    "length (lc_hash_table ex_conf) = 3"
    by (simp_all add: ex_conf_def ex_rdev_def prefix_sum_def)
  ultimately show ?thesis by (simp add: linear_wf_def)
qed

lemma linear_make_request_places_example:
  "\<exists>stats' ret b' evs. linear_make_request 4 ex_conf no_stats
      ((one_sector 8)\<lparr>bi_size := 2048\<rparr>) = Some (Inr (stats', ret, b', evs)) \<and>
    reached ret b' evs = map (linear_loc ex_conf) [8..<12]"
  using linear_make_request_places [OF ex_conf_wf, of "(one_sector 8)\<lparr>bi_size := 2048\<rparr>" 4 no_stats]
  by (simp add: page_bio_def one_sector_def ex_conf_def ex_rdev_def prefix_sum_def)

text \<open>C6. Through the code's placement the array is one disk: after any writes to logical
  sectors, a sector reads as the last value written to it, or as it was before.\<close>

theorem linear_array_is_a_disk:
  assumes "linear_wf c" "s < 2 * lin_total (lc_disks c)"
    "\<forall>(t, v) \<in> set ws. t < 2 * lin_total (lc_disks c)"
  shows "array_read (linear_loc c) (array_writes (linear_loc c) d ws) s =
    (case map_of (rev ws) s of Some v \<Rightarrow> v | None \<Rightarrow> array_read (linear_loc c) d s)"
  using assms by (rule linear.read_writes)

theorem linear_array_is_a_disk_witness:
  "array_read (linear_loc ex_conf) (array_writes (linear_loc ex_conf) (\<lambda>_. 0) [(9, 1), (10, 2::nat)]) 9 = 1"
  using linear_array_is_a_disk [OF ex_conf_wf, of 9 "[(9, 1), (10, 2::nat)]" "\<lambda>_. 0"]
  by (simp add: ex_conf_def ex_rdev_def prefix_sum_def)

text \<open>The numbering check of \<open>linear_run\<close> is off by one (\<open>j > raid_disks\<close>): a member whose
  number equals \<open>raid_disks\<close> passes it and the code accesses \<open>conf->disks\<close> one element past
  its end, while larger and negative numbers are refused.\<close>

lemma linear_run_number_off_by_one:
  assumes "md_disks md = r # rs" "0 \<le> md_raid_disks md"
  shows "(rd_raid_disk r = md_raid_disks md \<longrightarrow> linear_run True hash md = Inl OutOfBounds) \<and>
    (rd_raid_disk r > md_raid_disks md \<or> rd_raid_disk r < 0 \<longrightarrow>
      (\<exists>md'. linear_run True hash md = Inr (1, md', None)))"
  using assms by (auto simp: linear_run_def Let_def)

lemma linear_run_number_off_by_one_example:
  "linear_run True (\<lambda>_. True) (ex_mddev [ex_rdev 6 5 1]) = Inl OutOfBounds"
  using linear_run_number_off_by_one [of "ex_mddev [ex_rdev 6 5 1]" "ex_rdev 6 5 1" "[]"]
  by (simp add: ex_mddev_def ex_rdev_def)

end
