(* ===== verification/Md_Raid0.thy ===== *)
theory Md_Raid0
  imports Md_Linear Bitops
begin

text \<open>
  The md driver's \<^emph>\<open>raid0\<close> personality, \<open>drivers/md/raid0.c\<close>. \<open>create_strip_zones\<close> slices
  members of different sizes into zones: zone \<open>i\<close> stripes over the members that are longer
  than the zones below it. \<open>raid0_run\<close> builds a hash table from equal steps of the array to
  zones, and \<open>raid0_make_request\<close> finds a request's zone, its member and its sector there.

  The hash loop of \<open>raid0_run\<close> reads \<open>strip_zone[cur].size\<close> past the end of the zones in its
  last turn. The parameter \<open>oob\<close> is what such a read yields: \<open>None\<close> for a trap, \<open>Some v\<close> for
  the value that happens to lie there. The lemmas show both what goes wrong (the read always
  happens) and that the table is right whenever the loop ends.
\<close>

record strip_zone =
  zone_offset :: sector_t
  dev_offset :: sector_t
  zone_size :: sector_t
  nb_dev :: u32
  zone_dev :: "rdev option list"

record raid0_conf =
  r0_hash_table :: "nat list"
  r0_strip_zone :: "strip_zone list"
  r0_hash_spacing :: sector_t
  r0_preshift :: nat

subsection \<open>Cutting the members into zones\<close>

text \<open>The number of members whose size differs from every earlier member's: the outer loop
  over \<open>rdev1\<close> with the inner one over the members before it.\<close>

fun size_seen :: "rdev list \<Rightarrow> rdev \<Rightarrow> bool" where
  "size_seen [] r = False"
| "size_seen (q # qs) r = (if rd_size q = rd_size r then True else size_seen qs r)"

fun count_zones :: "rdev list \<Rightarrow> rdev list \<Rightarrow> nat" where
  "count_zones prev [] = 0"
| "count_zones prev (r # rs) =
     (if size_seen prev r then count_zones (prev @ [r]) rs else Suc (count_zones (prev @ [r]) rs))"

definition smaller_dev :: "rdev option \<Rightarrow> rdev \<Rightarrow> rdev" where
  "smaller_dev smallest r =
     (case smallest of None \<Rightarrow> r | Some q \<Rightarrow> if rd_size r < rd_size q then r else q)"

record raid0_scan_state =
  rs_dev :: "rdev option list"
  rs_smallest :: "rdev option"
  rs_queue :: queue
  rs_cnt :: nat

text \<open>The first zone takes every member; the flag is \<open>False\<close> after \<open>goto abort\<close>.\<close>

fun raid0_scan :: "int \<Rightarrow> rdev list \<Rightarrow> raid0_scan_state \<Rightarrow> (bool \<times> raid0_scan_state)" where
  "raid0_scan n [] st = (True, st)"
| "raid0_scan n (r # rs) st =
     (let j = rd_raid_disk r in
      if j < 0 \<or> n \<le> j then (False, st)
      else if rs_dev st ! nat j \<noteq> None then (False, st)
      else
        let q = blk_queue_stack_limits (rs_queue st) (rd_queue r);
            q = (if has_merge_bvec (rd_queue r) \<and> 8 < max_sectors q
                 then blk_queue_max_sectors q 8 else q)
        in raid0_scan n rs
             \<lparr>rs_dev = (rs_dev st)[nat j := Some r],
              rs_smallest = Some (smaller_dev (rs_smallest st) r),
              rs_queue = q, rs_cnt = Suc (rs_cnt st)\<rparr>)"

text \<open>The members of a later zone, and the smallest of them; \<open>rdev->size\<close> of an empty slot is
  a null dereference.\<close>

fun zone_members :: "rdev option list \<Rightarrow> sector_t \<Rightarrow> rdev option \<Rightarrow> (rdev list \<times> rdev option) res" where
  "zone_members [] cur smallest = Inr ([], smallest)"
| "zone_members (None # ds) cur smallest = Inl NullPointer"
| "zone_members (Some r # ds) cur smallest =
     (if cur < rd_size r
      then map_sum id (\<lambda>(ms, s). (r # ms, s)) (zone_members ds cur (Some (smaller_dev smallest r)))
      else zone_members ds cur smallest)"

fun later_zones :: "nat \<Rightarrow> rdev option list \<Rightarrow> sector_t \<Rightarrow> sector_t \<Rightarrow> (strip_zone list \<times> sector_t) res" where
  "later_zones 0 dev current_offset curr_zone_offset = Inr ([], curr_zone_offset)"
| "later_zones (Suc k) dev current_offset curr_zone_offset =
     (case zone_members dev current_offset None of
        Inl e \<Rightarrow> Inl e
      | Inr (ms, None) \<Rightarrow> Inl NullPointer
      | Inr (ms, Some smallest) \<Rightarrow>
          let c = of_nat (length ms) :: u32;
              zs = (rd_size smallest - current_offset) * scast c
          in map_sum id (\<lambda>(zones, tot).
               (\<lparr>zone_offset = curr_zone_offset, dev_offset = current_offset, zone_size = zs,
                 nb_dev = c,
                 zone_dev = map Some ms @ replicate (length dev - length ms) None\<rparr> # zones, tot))
               (later_zones k dev (rd_size smallest) (curr_zone_offset + zs)))"

text \<open>The hash spacing: the smallest run of zones, the last one excepted, of at least
  \<open>min_spacing\<close> blocks.\<close>

fun spacing_sum :: "sector_t \<Rightarrow> strip_zone list \<Rightarrow> sector_t \<Rightarrow> sector_t" where
  "spacing_sum m [] sz = sz"
| "spacing_sum m (z # zs) sz = (if sz < m then spacing_sum m zs (sz + zone_size z) else sz)"

fun hash_spacing :: "sector_t \<Rightarrow> strip_zone list \<Rightarrow> sector_t \<Rightarrow> sector_t" where
  "hash_spacing m [] sp = sp"
| "hash_spacing m (z # zs) sp =
     (let sz = spacing_sum m (z # zs) 0
      in hash_spacing m zs (if m \<le> sz \<and> sz < sp then sz else sp))"

text \<open>\<open>create_strip_zones\<close>: the queue, and the zones with the hash spacing; \<open>None\<close> is the
  return value 1. \<open>PAGE_SIZE/sizeof(struct strip_zone*)\<close> is 1024.\<close>

definition create_strip_zones :: "bool \<Rightarrow> bool \<Rightarrow> mddev \<Rightarrow>
    (queue \<times> (strip_zone list \<times> sector_t) option) res" where
  "create_strip_zones kmalloc_zones kmalloc_devlist mddev =
     (let nr = count_zones [] (md_disks mddev) in
      if \<not> kmalloc_zones \<or> \<not> kmalloc_devlist then Inr (md_queue mddev, None)
      else
        let (ok, st) = raid0_scan (md_raid_disks mddev) (md_disks mddev)
              \<lparr>rs_dev = replicate (nat (md_raid_disks mddev)) None, rs_smallest = None,
               rs_queue = md_queue mddev, rs_cnt = 0\<rparr>
        in if \<not> ok \<or> int (rs_cnt st) \<noteq> md_raid_disks mddev then Inr (rs_queue st, None)
           else case rs_smallest st of
             None \<Rightarrow> Inl NullPointer
           | Some smallest \<Rightarrow>
               let cnt = of_nat (rs_cnt st) :: u32;
                   z0 = \<lparr>zone_offset = 0, dev_offset = 0, zone_size = rd_size smallest * scast cnt,
                         nb_dev = cnt, zone_dev = rs_dev st\<rparr>
               in case later_zones (nr - 1) (rs_dev st) (rd_size smallest) (zone_size z0) of
                    Inl e \<Rightarrow> Inl e
                  | Inr (zones, tot) \<Rightarrow>
                      let min_spacing = fst (sector_div tot 1024)
                      in Inr (rs_queue st,
                              Some (z0 # zones,
                                    hash_spacing min_spacing (butlast (z0 # zones)) tot)))"

subsection \<open>Starting the array\<close>

text \<open>Shift \<open>space\<close> and \<open>s\<close> down until the divisor fits 32 bits.\<close>

function raid0_preshift :: "sector_t \<Rightarrow> sector_t \<Rightarrow> nat \<Rightarrow> sector_t \<times> sector_t \<times> nat" where
  "raid0_preshift s space k =
     (if space > 0xFFFFFFFF then raid0_preshift (drop_bit 1 s + 1) (drop_bit 1 space) (Suc k)
      else (s, space, k))"
  by pat_completeness auto
termination
proof (relation "measure (\<lambda>(s, space, k). unat space)", simp, goal_cases)
  case (1 s space k)
  then have "0 < unat space" by (simp add: word_less_nat_alt)
  then show ?case by (simp add: unat_drop_bit)
qed

declare raid0_preshift.simps [simp del]

text \<open>\<open>while (size <= hash_spacing) { cur++; size += strip_zone[cur].size; }\<close>; \<open>None\<close> is
  running out of \<open>fuel\<close>.\<close>

fun raid0_advance :: "nat \<Rightarrow> (nat \<Rightarrow> u64 option) \<Rightarrow> strip_zone list \<Rightarrow> sector_t \<Rightarrow> nat \<Rightarrow> u64 \<Rightarrow>
    (nat \<times> u64) res option" where
  "raid0_advance 0 oob zones spacing cur sz = None"
| "raid0_advance (Suc fuel) oob zones spacing cur sz =
     (if sz \<le> spacing
      then case (if Suc cur < length zones then Some (zone_size (zones ! Suc cur)) else oob (Suc cur)) of
             None \<Rightarrow> Some (Inl OutOfBounds)
           | Some v \<Rightarrow> raid0_advance fuel oob zones spacing (Suc cur) (sz + v)
      else Some (Inr (cur, sz)))"

fun raid0_hash :: "nat \<Rightarrow> (nat \<Rightarrow> u64 option) \<Rightarrow> strip_zone list \<Rightarrow> sector_t \<Rightarrow> nat \<Rightarrow> nat \<Rightarrow> u64 \<Rightarrow>
    nat list res option" where
  "raid0_hash fuel oob zones spacing 0 cur sz = Some (Inr [])"
| "raid0_hash fuel oob zones spacing (Suc k) cur sz =
     (case raid0_advance fuel oob zones spacing cur sz of
        None \<Rightarrow> None
      | Some (Inl e) \<Rightarrow> Some (Inl e)
      | Some (Inr (cur', sz')) \<Rightarrow>
          (case raid0_hash fuel oob zones spacing k cur' (sz' - spacing) of
             None \<Rightarrow> None
           | Some (Inl e) \<Rightarrow> Some (Inl e)
           | Some (Inr t) \<Rightarrow> Some (Inr (cur # t))))"

definition raid0_ra_pages :: "mddev \<Rightarrow> queue \<Rightarrow> queue" where
  "raid0_ra_pages mddev q =
     (let stripe = (of_int (md_raid_disks mddev) * md_chunk_size mddev) div PAGE_SIZE
      in if ra_pages q < 2 * stripe then q\<lparr>ra_pages := 2 * stripe\<rparr> else q)"

text \<open>The four flags are the answers of \<open>kmalloc\<close> for the configuration, the zones, the
  device lists and the hash table. The result is the return value, the array and its private
  data.\<close>

definition raid0_run :: "nat \<Rightarrow> (nat \<Rightarrow> u64 option) \<Rightarrow> bool \<times> bool \<times> bool \<times> bool \<Rightarrow> mddev \<Rightarrow>
    (int \<times> mddev \<times> raid0_conf option) res option" where
  "raid0_run fuel oob kmalloc mddev =
     (let (ok_conf, ok_zones, ok_devlist, ok_hash) = kmalloc;
          q = blk_queue_max_sectors (md_queue mddev) (ucast (drop_bit 9 (md_chunk_size mddev)));
          q = blk_queue_segment_boundary q (drop_bit 1 (md_chunk_size mddev) - 1);
          mddev = mddev\<lparr>md_queue := q\<rparr>
      in if \<not> ok_conf then Some (Inr (1, mddev, None))
         else case create_strip_zones ok_zones ok_devlist mddev of
           Inl e \<Rightarrow> Some (Inl e)
         | Inr (q, None) \<Rightarrow> Some (Inr (1, mddev\<lparr>md_queue := q\<rparr>, None))
         | Inr (q, Some (zones, spacing)) \<Rightarrow>
             let mddev = mddev\<lparr>md_queue := q,
                   md_array_size := foldl (\<lambda>a r. a + rd_size r) 0 (md_disks mddev)\<rparr>;
                 (s, space, preshift) = raid0_preshift (md_array_size mddev) spacing 0;
                 (s', round) = sector_div s space;
                 nb_zone = ucast s' + (if round \<noteq> 0 then 1 else 0) :: u32
             in if \<not> ok_hash then Some (Inr (1, mddev, None))
                else case raid0_hash fuel oob zones spacing (unat nb_zone) 0 (zone_size (zones ! 0)) of
                  None \<Rightarrow> None
                | Some (Inl e) \<Rightarrow> Some (Inl e)
                | Some (Inr tbl) \<Rightarrow>
                    let spacing = (if preshift \<noteq> 0 then drop_bit preshift spacing + 1 else spacing);
                        q = blk_queue_merge_bvec (raid0_ra_pages mddev (md_queue mddev))
                    in Some (Inr (0, mddev\<lparr>md_queue := q\<rparr>,
                         Some \<lparr>r0_hash_table = tbl, r0_strip_zone = zones,
                               r0_hash_spacing = spacing, r0_preshift = preshift\<rparr>)))"

subsection \<open>Requests\<close>

definition raid0_mergeable_bvec :: "mddev \<Rightarrow> sector_t \<Rightarrow> bio \<Rightarrow> bio_vec \<Rightarrow> int" where
  "raid0_mergeable_bvec mddev start_sect bio biovec =
     (let sector = bi_sector bio + start_sect;
          chunk_sectors = drop_bit 9 (md_chunk_size mddev);
          bio_sectors = drop_bit 9 (bi_size bio);
          m = ucast (push_bit 9 (ucast chunk_sectors - ((sector AND ucast (chunk_sectors - 1)) +
                ucast bio_sectors)) :: u64) :: u32;
          m = (if sint m < 0 then 0 else m)
      in if m \<le> bv_len biovec \<and> bio_sectors = 0 then sint (bv_len biovec) else sint m)"

text \<open>\<open>while (block >= (zone->zone_offset + zone->size)) zone++;\<close>\<close>

function find_zone :: "strip_zone list \<Rightarrow> sector_t \<Rightarrow> nat \<Rightarrow> nat res" where
  "find_zone zones block z =
     (if length zones \<le> z then Inl OutOfBounds
      else if zone_offset (zones ! z) + zone_size (zones ! z) \<le> block
      then find_zone zones block (Suc z)
      else Inr z)"
  by pat_completeness auto
termination
  by (relation "measure (\<lambda>(zones, block, z). length zones - z)") auto

declare find_zone.simps [simp del]

text \<open>The place of one request that stays in its chunk. \<open>chunk\<close> is an \<open>unsigned long\<close>: the
  shift \<open>chunk << chunksize_bits\<close> is computed in 32 bits.\<close>

definition raid0_remap :: "u32 \<Rightarrow> raid0_conf \<Rightarrow> bio \<Rightarrow> bio res" where
  "raid0_remap chunk_bytes conf bio =
     (let chunk_size = drop_bit 10 chunk_bytes;
          chunksize_bits = nat (ffz (NOT chunk_size));
          block = drop_bit 1 (bi_sector bio);
          x = unat (fst (sector_div (drop_bit (r0_preshift conf) block) (r0_hash_spacing conf)))
      in if length (r0_hash_table conf) \<le> x then Inl OutOfBounds
         else case find_zone (r0_strip_zone conf) block (r0_hash_table conf ! x) of
           Inl e \<Rightarrow> Inl e
         | Inr z \<Rightarrow>
             let zone = r0_strip_zone conf ! z;
                 sect_in_chunk = ucast (bi_sector bio AND ucast (push_bit 1 chunk_size - 1)) :: u32;
                 x = fst (sector_div (drop_bit chunksize_bits (block - zone_offset zone))
                       (ucast (nb_dev zone)));
                 chunk = ucast x :: u32;
                 d = unat (snd (sector_div (drop_bit chunksize_bits block) (ucast (nb_dev zone))))
             in if x \<noteq> ucast chunk then Inl BUG
                else if length (zone_dev zone) \<le> d then Inl OutOfBounds
                else case zone_dev zone ! d of
                  None \<Rightarrow> Inl NullPointer
                | Some tmp_dev \<Rightarrow>
                    let rsect = push_bit 1 (ucast (push_bit chunksize_bits chunk) + dev_offset zone) +
                                ucast sect_in_chunk
                    in Inr (bio\<lparr>bi_bdev := rd_bdev tmp_dev,
                                bi_sector := rsect + rd_data_offset tmp_dev\<rparr>))"

fun raid0_make_request :: "nat \<Rightarrow> u32 \<Rightarrow> raid0_conf \<Rightarrow> disk_stats \<Rightarrow> bio \<Rightarrow>
    (disk_stats \<times> bool \<times> bio \<times> blk_event list) res option" where
  "raid0_make_request 0 chunk_bytes conf stats bio = None"
| "raid0_make_request (Suc fuel) chunk_bytes conf stats bio =
     (let stats = disk_stat_account stats bio;
          chunk_sects = drop_bit 9 chunk_bytes;
          in_chunk = bi_sector bio AND ucast (chunk_sects - 1)
      in if (ucast chunk_sects :: u64) < in_chunk + ucast (drop_bit 9 (bi_size bio))
         then if bi_vcnt bio \<noteq> 1 \<or> bi_idx bio \<noteq> 0
              then Some (Inr (stats, False, bio, [IoError bio]))
              else case bio_split bio (ucast (ucast chunk_sects - in_chunk)) of
                     Inl e \<Rightarrow> Some (Inl e)
                   | Inr (bio1, bio2) \<Rightarrow>
                       case raid0_make_request fuel chunk_bytes conf stats bio1 of
                         None \<Rightarrow> None
                       | Some (Inl e) \<Rightarrow> Some (Inl e)
                       | Some (Inr (stats1, ret1, bio1', ev1)) \<Rightarrow>
                           case raid0_make_request fuel chunk_bytes conf stats1 bio2 of
                             None \<Rightarrow> None
                           | Some (Inl e) \<Rightarrow> Some (Inl e)
                           | Some (Inr (stats2, ret2, bio2', ev2)) \<Rightarrow>
                               Some (Inr (stats2, False, bio,
                                 ev1 @ (if ret1 then [Submit bio1'] else []) @
                                 ev2 @ (if ret2 then [Submit bio2'] else [])))
         else case raid0_remap chunk_bytes conf bio of
                Inl e \<Rightarrow> Some (Inl e)
              | Inr bio' \<Rightarrow> Some (Inr (stats, True, bio', [])))"

declare raid0_make_request.simps [simp del]

subsection \<open>The configuration invariant\<close>

abbreviation zoff :: "strip_zone list \<Rightarrow> nat \<Rightarrow> nat" where
  "zoff \<equiv> prefix_sum (\<lambda>z. unat (zone_size z))"

abbreviation ztotal :: "strip_zone list \<Rightarrow> nat" where
  "ztotal zs \<equiv> zoff zs (length zs)"

lemmas zoff_Suc = prefix_sum_Suc [of _ _ "\<lambda>z. unat (zone_size z)"]
  and zoff_mono = prefix_sum_mono [of _ _ "\<lambda>z. unat (zone_size z)"]
  and zoff_le_total = prefix_sum_le_total [of "\<lambda>z. unat (zone_size z)"]

text \<open>How many blocks of each of its members a zone takes.\<close>

definition zheight :: "strip_zone \<Rightarrow> nat" where
  "zheight z = unat (zone_size z) div unat (nb_dev z)"

abbreviation zbase :: "strip_zone \<Rightarrow> nat" where
  "zbase z \<equiv> unat (dev_offset z)"

abbreviation zdevs :: "strip_zone \<Rightarrow> nat" where
  "zdevs z \<equiv> unat (nb_dev z)"

definition zone_ok :: "nat \<Rightarrow> strip_zone \<Rightarrow> bool" where
  "zone_ok k z \<longleftrightarrow>
     0 < zdevs z \<and> zdevs z \<le> length (zone_dev z) \<and> unat (zone_size z) = zheight z * zdevs z \<and>
     2 ^ k dvd zheight z \<and> 2 ^ k dvd zbase z \<and>
     (\<forall>d < zdevs z. case zone_dev z ! d of None \<Rightarrow> False
        | Some r \<Rightarrow> zbase z + zheight z \<le> unat (rd_size r) \<and>
                    unat (rd_data_offset r) + 2 * unat (rd_size r) < 2 ^ 64) \<and>
     distinct (map (map_option rd_bdev) (take (zdevs z) (zone_dev z)))"

definition zone_member :: "strip_zone \<Rightarrow> nat \<Rightarrow> rdev" where
  "zone_member z d = the (zone_dev z ! d)"

definition raid0_wf :: "nat \<Rightarrow> raid0_conf \<Rightarrow> bool" where
  "raid0_wf k c \<longleftrightarrow>
     (let zs = r0_strip_zone c; sp = unat (r0_hash_spacing c) in
      r0_preshift c = 0 \<and> 0 < sp \<and> sp < 2 ^ 32 \<and> ztotal zs < 2 ^ 32 \<and>
      (\<forall>i < length zs. zone_ok k (zs ! i) \<and> unat (zone_offset (zs ! i)) = zoff zs i \<and>
         (\<forall>j < i. zbase (zs ! j) + zheight (zs ! j) \<le> zbase (zs ! i))) \<and>
      (\<forall>i < length zs. \<forall>d < zdevs (zs ! i). \<forall>j < length zs. \<forall>e < zdevs (zs ! j).
         rd_bdev (zone_member (zs ! i) d) = rd_bdev (zone_member (zs ! j) e) \<longrightarrow>
         zone_member (zs ! i) d = zone_member (zs ! j) e) \<and>
      (\<forall>x. x * sp < ztotal zs \<longrightarrow> x < length (r0_hash_table c) \<and>
         r0_hash_table c ! x < length zs \<and> zoff zs (r0_hash_table c ! x) \<le> x * sp))"

lemma raid0_wfD:
  assumes "raid0_wf k c" "i < length (r0_strip_zone c)"
  shows "zone_ok k (r0_strip_zone c ! i)"
    "unat (zone_offset (r0_strip_zone c ! i)) = zoff (r0_strip_zone c) i"
    "unat (zone_offset (r0_strip_zone c ! i) + zone_size (r0_strip_zone c ! i)) =
       zoff (r0_strip_zone c) (Suc i)"
    "zoff (r0_strip_zone c) (Suc i) < 2 ^ 32"
proof -
  show "zone_ok k (r0_strip_zone c ! i)"
    and off: "unat (zone_offset (r0_strip_zone c ! i)) = zoff (r0_strip_zone c) i"
    using assms by (simp_all add: raid0_wf_def Let_def)
  have "ztotal (r0_strip_zone c) < 2 ^ 32" using assms(1) by (simp add: raid0_wf_def Let_def)
  then show lt: "zoff (r0_strip_zone c) (Suc i) < 2 ^ 32"
    using zoff_le_total [of "r0_strip_zone c" "Suc i"] by linarith
  then show "unat (zone_offset (r0_strip_zone c ! i) + zone_size (r0_strip_zone c ! i)) =
       zoff (r0_strip_zone c) (Suc i)"
    using off assms(2) by (subst unat_add_nowrap) (simp_all add: zoff_Suc)
qed

lemma zone_memberD:
  assumes "zone_ok k z" "d < zdevs z"
  shows "zone_dev z ! d = Some (zone_member z d)" "d < length (zone_dev z)"
    "zbase z + zheight z \<le> unat (rd_size (zone_member z d))"
    "unat (rd_data_offset (zone_member z d)) + 2 * unat (rd_size (zone_member z d)) < 2 ^ 64"
  using assms by (auto simp: zone_ok_def zone_member_def split: option.splits)

lemma zone_member_inj:
  assumes z: "zone_ok k z" and d: "d < zdevs z" and e: "e < zdevs z"
    and eq: "rd_bdev (zone_member z d) = rd_bdev (zone_member z e)"
  shows "d = e"
proof -
  have "distinct (map (map_option rd_bdev) (take (zdevs z) (zone_dev z)))"
    using z by (simp add: zone_ok_def)
  moreover have "zdevs z \<le> length (zone_dev z)" using z by (simp add: zone_ok_def)
  ultimately show ?thesis
    using zone_memberD(1) [OF z d] zone_memberD(1) [OF z e] d e eq
    by (simp add: distinct_conv_nth) (metis option.simps(9))
qed

subsection \<open>The lookup finds the zone\<close>

lemma find_zone_finds:
  assumes wf: "raid0_wf k c" and i: "i < length (r0_strip_zone c)"
    and blk: "zoff (r0_strip_zone c) i \<le> unat block" "unat block < zoff (r0_strip_zone c) (Suc i)"
  shows "h \<le> i \<Longrightarrow> find_zone (r0_strip_zone c) block h = Inr i"
proof (induction "i - h" arbitrary: h)
  case 0
  with i blk raid0_wfD(3) [OF wf i] show ?case
    by (simp add: find_zone.simps [of _ _ h] word_le_nat_alt)
next
  case (Suc n)
  then have h: "h < i" by simp
  then have "zoff (r0_strip_zone c) (Suc h) \<le> zoff (r0_strip_zone c) i" by (intro zoff_mono) simp
  with h i blk raid0_wfD(3) [OF wf, of h] Suc.hyps show ?case
    by (simp add: find_zone.simps [of _ _ h] word_le_nat_alt)
qed

lemma hash_finds:
  assumes wf: "raid0_wf k c" and i: "i < length (r0_strip_zone c)"
    and blk: "zoff (r0_strip_zone c) i \<le> unat block" "unat block < zoff (r0_strip_zone c) (Suc i)"
  defines "x \<equiv> unat (fst (sector_div (drop_bit (r0_preshift c) block) (r0_hash_spacing c)))"
  shows "x < length (r0_hash_table c)" "find_zone (r0_strip_zone c) block (r0_hash_table c ! x) = Inr i"
proof -
  let ?zs = "r0_strip_zone c" and ?sp = "unat (r0_hash_spacing c)"
  have sp: "0 < ?sp" "?sp < 2 ^ 32" "r0_preshift c = 0" using wf by (simp_all add: raid0_wf_def Let_def)
  have x: "x = unat block div ?sp" using do_div_unat(1) [OF sp(1,2)] sp(3) by (simp add: x_def)
  have xs: "x * ?sp \<le> unat block" by (simp only: x div_times_less_eq_dividend)
  moreover have "unat block < ztotal ?zs" using blk(2) zoff_le_total [of ?zs "Suc i"] by simp
  ultimately have "x * ?sp < ztotal ?zs" by (rule le_less_trans)
  then have tbl: "x < length (r0_hash_table c)" "r0_hash_table c ! x < length ?zs"
    "zoff ?zs (r0_hash_table c ! x) \<le> x * ?sp"
    using wf by (simp_all add: raid0_wf_def Let_def)
  show "x < length (r0_hash_table c)" by (rule tbl(1))
  have "r0_hash_table c ! x \<le> i"
  proof (rule ccontr)
    assume "\<not> r0_hash_table c ! x \<le> i"
    then have "zoff ?zs (Suc i) \<le> zoff ?zs (r0_hash_table c ! x)" by (intro zoff_mono) simp
    with tbl(3) xs blk(2) show False by linarith
  qed
  then show "find_zone ?zs block (r0_hash_table c ! x) = Inr i"
    by (rule find_zone_finds [OF wf i blk])
qed


subsection \<open>Where a sector goes\<close>

text \<open>The striping rule: chunk \<open>q\<close> of zone \<open>i\<close> is chunk \<open>q div n\<close> of the zone's part of a
  member, and the members take turns.\<close>

definition raid0_member :: "nat \<Rightarrow> strip_zone list \<Rightarrow> nat \<Rightarrow> nat \<Rightarrow> rdev" where
  "raid0_member k zs i s = zone_member (zs ! i) (s div 2 div 2 ^ k mod zdevs (zs ! i))"

definition raid0_row :: "nat \<Rightarrow> strip_zone list \<Rightarrow> nat \<Rightarrow> nat \<Rightarrow> nat" where
  "raid0_row k zs i s = (s div 2 - zoff zs i) div 2 ^ k div zdevs (zs ! i)"

definition raid0_place :: "nat \<Rightarrow> strip_zone list \<Rightarrow> nat \<Rightarrow> nat \<Rightarrow> nat" where
  "raid0_place k zs i s = 2 * (raid0_row k zs i s * 2 ^ k + zbase (zs ! i)) + s mod 2 ^ Suc k"

lemma and_mask_unat:
  fixes w m :: "'a::len word"
  assumes "unat m = 2 ^ j - 1" "j < LENGTH('a)"
  shows "unat (w AND m) = unat w mod 2 ^ j"
proof -
  have "unat (m + 1) = 2 ^ j" using assms
    by (subst unat_add_nowrap) (simp_all add: power_strict_increasing)
  from and_pow2_minus_1 [OF this, of w] show ?thesis by simp
qed

lemma unat_ucast_32_64: "unat (ucast (w :: u32) :: u64) = unat w"
  using unat_less_exp [of w] by (simp add: unat_ucast_small)

lemma zone_blocks:
  assumes "zone_ok k z"
  obtains h where "zheight z = h * 2 ^ k" "unat (zone_size z) = h * zdevs z * 2 ^ k" "0 < zdevs z"
  using assms that by (auto simp: zone_ok_def dvd_def mult_ac)

lemma raid0_row_less:
  assumes z: "zone_ok k (zs ! i)" and i: "i < length zs" and s: "2 * zoff zs i \<le> s" "s < 2 * zoff zs (Suc i)"
  shows "raid0_row k zs i s * 2 ^ k + 2 ^ k \<le> zheight (zs ! i)"
proof -
  obtain h where h: "zheight (zs ! i) = h * 2 ^ k" "unat (zone_size (zs ! i)) = h * zdevs (zs ! i) * 2 ^ k"
    "0 < zdevs (zs ! i)" using zone_blocks [OF z] .
  have "s div 2 - zoff zs i < h * zdevs (zs ! i) * 2 ^ k" using s h(2) by (simp add: zoff_Suc [OF i])
  then have "raid0_row k zs i s < h"
    using h(3) by (simp add: raid0_row_def less_mult_imp_div_less)
  then have "Suc (raid0_row k zs i s) * 2 ^ k \<le> h * 2 ^ k" by (intro mult_right_mono) auto
  then show ?thesis by (simp add: h(1))
qed

lemma sum_bound:
  "\<lbrakk>r + c \<le> (h::nat); z + h \<le> sz; off + 2 * sz < B; m < 2 * c\<rbrakk> \<Longrightarrow> 2 * (r + z) + m + off < B"
  by simp

lemma raid0_remap_place:
  assumes wf: "raid0_wf k c" and cb: "unat cb = 2 ^ (k + 10)" "k \<le> 21"
    and i: "i < length (r0_strip_zone c)"
    and s: "2 * zoff (r0_strip_zone c) i \<le> unat (bi_sector b)"
      "unat (bi_sector b) < 2 * zoff (r0_strip_zone c) (Suc i)"
  defines "m \<equiv> raid0_member k (r0_strip_zone c) i (unat (bi_sector b))"
  shows "\<exists>sec. raid0_remap cb c b = Inr (b\<lparr>bi_bdev := rd_bdev m, bi_sector := sec\<rparr>) \<and>
    unat sec = raid0_place k (r0_strip_zone c) i (unat (bi_sector b)) + unat (rd_data_offset m)"
proof -
  let ?zs = "r0_strip_zone c" and ?s = "unat (bi_sector b)"
  let ?z = "?zs ! i"
  define blk where "blk = drop_bit 1 (bi_sector b)"
  define cs where "cs = drop_bit 10 cb"
  note D = raid0_wfD [OF wf i]
  have nd: "0 < zdevs ?z" using D(1) by (simp add: zone_ok_def)
  have ublk: "unat blk = ?s div 2" by (simp add: blk_def unat_drop_bit)
  have b: "zoff ?zs i \<le> unat blk" "unat blk < zoff ?zs (Suc i)" using s ublk by auto
  have ucs: "unat cs = 2 ^ k" using cb(1) by (simp add: cs_def unat_drop_bit power_add)
  have bits: "nat (ffz (NOT cs)) = k" using ffz_not_pow2 [of k cs] ucs cb(2) by simp
  have nn: "unat (ucast (nb_dev ?z) :: u64) = zdevs ?z" "zdevs ?z < 2 ^ 32"
    using unat_less_exp [of "nb_dev ?z"] by (auto simp: unat_ucast_small)
  let ?d = "snd (sector_div (drop_bit k blk) (ucast (nb_dev ?z)))"
  let ?x = "fst (sector_div (drop_bit k (blk - zone_offset ?z)) (ucast (nb_dev ?z)))"
  have ud: "unat ?d = ?s div 2 div 2 ^ k mod zdevs ?z"
    using do_div_unat(2) [of "ucast (nb_dev ?z)" "drop_bit k blk"] nd nn by (simp add: unat_drop_bit ublk)
  have dlt: "unat ?d < zdevs ?z" using ud nd by simp
  note M = zone_memberD [OF D(1) dlt]
  have md: "zone_member ?z (unat ?d) = m" by (simp add: ud m_def raid0_member_def)
  have ux: "unat ?x = raid0_row k ?zs i ?s"
    using do_div_unat(1) [of "ucast (nb_dev ?z)" "drop_bit k (blk - zone_offset ?z)"] nd nn D(2) b
    by (simp add: unat_drop_bit raid0_row_def ublk unat_sub_nowrap)
  have row: "raid0_row k ?zs i ?s * 2 ^ k + 2 ^ k \<le> zheight ?z" by (rule raid0_row_less [OF D(1) i s])
  have "zheight ?z \<le> unat (zone_size ?z)" using D(1) by (simp add: zone_ok_def)
  also have "\<dots> < 2 ^ 32" using D(4) by (simp add: zoff_Suc [OF i])
  finally have row32: "raid0_row k ?zs i ?s * 2 ^ k < 2 ^ 32" using row by simp
  have "raid0_row k ?zs i ?s \<le> raid0_row k ?zs i ?s * 2 ^ k" by simp
  then have x32: "unat ?x < 2 ^ 32" using row32 ux by linarith
  then have uc: "unat (ucast ?x :: u32) = raid0_row k ?zs i ?s" using ux by (simp add: unat_ucast_small)
  then have rt: "ucast (ucast ?x :: u32) = ?x"
    by (simp add: unat_ucast_32_64 ux word_unat_eq_iff)
  have ch: "unat (ucast (push_bit k (ucast ?x :: u32)) :: u64) = raid0_row k ?zs i ?s * 2 ^ k"
    using row32 uc by (simp add: unat_push_bit_nowrap unat_ucast_32_64)
  have "(2::nat) * 2 ^ k \<le> 2 * 2 ^ 21" using cb(2) by (intro mult_left_mono power_increasing) auto
  then have "unat (push_bit 1 cs) = 2 ^ Suc k" using ucs by (subst unat_push_bit_nowrap) auto
  then have "unat (push_bit 1 cs - 1) = 2 ^ Suc k - 1"
    by (subst unat_sub_nowrap) auto
  then have "unat (ucast (push_bit 1 cs - 1 :: u32) :: u64) = 2 ^ Suc k - 1"
    by (simp add: unat_ucast_32_64)
  then have "unat (bi_sector b AND ucast (push_bit 1 cs - 1 :: u32)) = ?s mod 2 ^ Suc k"
    using cb(2) by (intro and_mask_unat) auto
  moreover have sm: "?s mod 2 ^ Suc k < 2 * 2 ^ k" by simp
  from this \<open>(2::nat) * 2 ^ k \<le> 2 * 2 ^ 21\<close> have "?s mod 2 ^ Suc k < 2 * 2 ^ 21" by (rule less_le_trans)
  then have "?s mod 2 ^ Suc k < 2 ^ 32" by (rule less_le_trans) simp
  ultimately have sic: "unat (ucast (ucast (bi_sector b AND ucast (push_bit 1 cs - 1 :: u32)) :: u32) :: u64) =
      ?s mod 2 ^ Suc k"
    by (subst unat_ucast_32_64; subst unat_ucast_small) auto
  let ?sec = "push_bit 1 (ucast (push_bit k (ucast ?x :: u32)) + dev_offset ?z) +
      ucast (ucast (bi_sector b AND ucast (push_bit 1 cs - 1 :: u32)) :: u32) + rd_data_offset m"
  have bound: "2 * (raid0_row k ?zs i ?s * 2 ^ k + zbase ?z) + ?s mod 2 ^ Suc k + unat (rd_data_offset m) < 2 ^ 64"
    using row M(3,4) sm unfolding md by (intro sum_bound)
  have "unat (ucast (push_bit k (ucast ?x :: u32)) + dev_offset ?z) = raid0_row k ?zs i ?s * 2 ^ k + zbase ?z"
    using bound ch by (subst unat_add_nowrap) auto
  then have "unat (push_bit 1 (ucast (push_bit k (ucast ?x :: u32)) + dev_offset ?z)) =
      2 * (raid0_row k ?zs i ?s * 2 ^ k + zbase ?z)"
    using bound by (subst unat_push_bit_nowrap) auto
  then have sec: "unat ?sec = raid0_place k ?zs i ?s + unat (rd_data_offset m)"
    using bound sic by (subst unat_add_nowrap; subst unat_add_nowrap) (auto simp: raid0_place_def)
  have "raid0_remap cb c b = Inr (b\<lparr>bi_bdev := rd_bdev m, bi_sector := ?sec\<rparr>)"
    using hash_finds [OF wf i b] bits rt M(1,2) md
    unfolding raid0_remap_def Let_def cs_def [symmetric] blk_def [symmetric] by simp
  with sec show ?thesis by blast
qed


subsection \<open>The array as one disk\<close>

text \<open>The driver's configuration: the array's \<open>chunk_size\<close> and the zones.\<close>

definition raid0_ok :: "u32 \<times> raid0_conf \<Rightarrow> bool" where
  "raid0_ok a \<longleftrightarrow> (\<exists>k \<le> 21. unat (fst a) = 2 ^ (k + 10) \<and> raid0_wf k (snd a))"

definition raid0_loc :: "u32 \<times> raid0_conf \<Rightarrow> nat \<Rightarrow> nat \<times> nat" where
  "raid0_loc a s = (case raid0_make_request 1 (fst a) (snd a) no_stats (one_sector s) of
     Some (Inr (_, True, b, _)) \<Rightarrow> (bi_bdev b, unat (bi_sector b)) | _ \<Rightarrow> (0, 0))"

definition raid0_extent :: "u32 \<times> raid0_conf \<Rightarrow> nat \<Rightarrow> nat set" where
  "raid0_extent a dev = (\<Union>z \<in> set (r0_strip_zone (snd a)). \<Union>d \<in> {d. d < zdevs z \<and> rd_bdev (zone_member z d) = dev}.
     {unat (rd_data_offset (zone_member z d)) + 2 * zbase z ..<
      unat (rd_data_offset (zone_member z d)) + 2 * (zbase z + zheight z)})"

text \<open>Requests are split at chunk boundaries.\<close>

definition raid0_room :: "u32 \<times> raid0_conf \<Rightarrow> nat \<Rightarrow> nat" where
  "raid0_room a s = unat (fst a) div 512 - s mod (unat (fst a) div 512)"

lemma zoff_aligned:
  assumes "raid0_wf k c" "i \<le> length (r0_strip_zone c)"
  shows "2 ^ k dvd zoff (r0_strip_zone c) i"
  using assms(2)
proof (induction i)
  case 0
  then show ?case by simp
next
  case (Suc i)
  then have "2 ^ k dvd unat (zone_size (r0_strip_zone c ! i))"
    using raid0_wfD(1) [OF assms(1), of i] by (auto simp: zone_ok_def)
  with Suc show ?case by (simp add: zoff_Suc)
qed

lemma aligned_room:
  assumes "d dvd (Z::nat)" "s < Z" "0 < d"
  shows "s + (d - s mod d) \<le> Z"
proof -
  obtain q where q: "Z = q * d" using assms(1) by (auto simp: dvd_def mult.commute)
  have "s div d < q" using assms(2,3) by (simp add: q less_mult_imp_div_less)
  then have "Suc (s div d) * d \<le> Z" unfolding q by (intro mult_right_mono) auto
  then have "s div d * d + d \<le> Z" by simp
  moreover have "s div d * d + s mod d = s" by (rule div_mult_mod_eq)
  moreover have "s mod d < d" using assms(3) by simp
  ultimately show ?thesis by linarith
qed

lemma same_chunk:
  assumes "s mod 2 ^ Suc k + j < (2::nat) ^ Suc k"
  shows "(s + j) mod 2 ^ Suc k = s mod 2 ^ Suc k + j" "(s + j) div 2 div 2 ^ k = s div 2 div 2 ^ k"
proof -
  have e: "s + j = s div 2 ^ Suc k * 2 ^ Suc k + (s mod 2 ^ Suc k + j)"
    by (simp only: add.assoc [symmetric] div_mult_mod_eq)
  show "(s + j) mod 2 ^ Suc k = s mod 2 ^ Suc k + j"
    by (subst e) (use assms in simp)
  have "(s + j) div 2 ^ Suc k = s div 2 ^ Suc k" by (subst e) (use assms in simp)
  then show "(s + j) div 2 div 2 ^ k = s div 2 div 2 ^ k" by (simp add: div_mult2_eq)
qed

lemma div_aligned_diff: "d dvd (b::nat) \<Longrightarrow> 0 < d \<Longrightarrow> (a - b) div d = a div d - b div d"
proof -
  assume d: "d dvd b" "0 < d"
  then obtain q where q: "b = d * q" by (auto simp: dvd_def)
  show ?thesis
  proof (cases "b \<le> a")
    case True
    then obtain r where "a = b + r" by (auto simp: le_iff_add)
    with d(2) show ?thesis by (simp add: q)
  next
    case False
    then have "a div d \<le> b div d" by (intro div_le_mono) simp
    with False show ?thesis by simp
  qed
qed

text \<open>The zone of a sector.\<close>

definition in_zone :: "strip_zone list \<Rightarrow> nat \<Rightarrow> nat \<Rightarrow> bool" where
  "in_zone zs i s \<longleftrightarrow> i < length zs \<and> 2 * zoff zs i \<le> s \<and> s < 2 * zoff zs (Suc i)"

lemma raid0_find:
  assumes "s < 2 * ztotal zs"
  obtains i where "in_zone zs i s"
proof -
  have "s div 2 < ztotal zs" using assms by simp
  from prefix_sum_find [OF this order_refl] obtain i where "i < length zs" "zoff zs i \<le> s div 2"
    "s div 2 < zoff zs i + unat (zone_size (zs ! i))" by blast
  then have "in_zone zs i s" by (auto simp: in_zone_def zoff_Suc)
  then show thesis by (rule that)
qed

lemma chunk_shift:
  assumes wf: "raid0_wf k c" and z: "in_zone (r0_strip_zone c) i s"
    and j: "s mod 2 ^ Suc k + j < 2 ^ Suc k"
  shows "in_zone (r0_strip_zone c) i (s + j)"
    "raid0_member k (r0_strip_zone c) i (s + j) = raid0_member k (r0_strip_zone c) i s"
    "raid0_place k (r0_strip_zone c) i (s + j) = raid0_place k (r0_strip_zone c) i s + j"
proof -
  let ?zs = "r0_strip_zone c"
  have i: "i < length ?zs" using z by (simp add: in_zone_def)
  have "2 ^ Suc k dvd 2 * zoff ?zs (Suc i)" using zoff_aligned [OF wf, of "Suc i"] i by simp
  then have "s + (2 ^ Suc k - s mod 2 ^ Suc k) \<le> 2 * zoff ?zs (Suc i)"
    using z by (intro aligned_room) (auto simp: in_zone_def)
  with j z show "in_zone ?zs i (s + j)" by (simp add: in_zone_def)
  show "raid0_member k ?zs i (s + j) = raid0_member k ?zs i s"
    by (simp only: raid0_member_def same_chunk(2) [OF j])
  have "2 ^ k dvd zoff ?zs i" using zoff_aligned [OF wf] i by simp
  then show "raid0_place k ?zs i (s + j) = raid0_place k ?zs i s + j"
    by (simp only: raid0_place_def raid0_row_def div_aligned_diff zero_less_power zero_less_numeral
        same_chunk [OF j] add.assoc)
qed

lemma chunk_words:
  assumes cb: "unat (cb :: u32) = 2 ^ (k + 10)" "k \<le> 21"
  shows "unat (ucast (drop_bit 9 cb) :: u64) = 2 ^ Suc k"
    "unat (s AND ucast (drop_bit 9 cb - 1)) = unat (s :: u64) mod 2 ^ Suc k"
    "((ucast (drop_bit 9 cb) :: u64) < (s AND ucast (drop_bit 9 cb - 1)) + ucast (drop_bit 9 sz)) =
       (2 ^ Suc k < unat s mod 2 ^ Suc k + unat (sz :: u32) div 512)"
proof -
  have C: "(2::nat) ^ Suc k \<le> 2 ^ 22" using cb(2) by (intro power_increasing) auto
  have cs: "unat (drop_bit 9 cb) = 2 ^ Suc k" using cb(1) by (simp add: unat_drop_bit power_add)
  then show u: "unat (ucast (drop_bit 9 cb) :: u64) = 2 ^ Suc k" by (simp only: unat_ucast_32_64)
  have "unat (drop_bit 9 cb - 1) = 2 ^ Suc k - 1" using cs by (subst unat_sub_nowrap) auto
  then show m: "unat (s AND ucast (drop_bit 9 cb - 1)) = unat s mod 2 ^ Suc k"
    using cb(2) by (intro and_mask_unat) (simp_all add: unat_ucast_32_64)
  have "unat s mod 2 ^ Suc k < 2 ^ Suc k" by simp
  also note C
  finally have "unat (s AND ucast (drop_bit 9 cb - 1)) + unat (ucast (drop_bit 9 sz) :: u64) < 2 ^ 64"
    using unat_less_exp [of sz] by (simp add: m unat_bio_sectors)
  then have "unat ((s AND ucast (drop_bit 9 cb - 1)) + ucast (drop_bit 9 sz)) =
      unat s mod 2 ^ Suc k + unat sz div 512"
    by (subst unat_add_nowrap) (simp_all only: m unat_bio_sectors, simp)
  then show "((ucast (drop_bit 9 cb) :: u64) < (s AND ucast (drop_bit 9 cb - 1)) + ucast (drop_bit 9 sz)) =
       (2 ^ Suc k < unat s mod 2 ^ Suc k + unat sz div 512)"
    using u by (simp only: word_less_nat_alt)
qed

lemma raid0_request_inside:
  assumes wf: "raid0_wf k c" and cb: "unat cb = 2 ^ (k + 10)" "k \<le> 21"
    and z: "in_zone (r0_strip_zone c) i (unat (bi_sector b))"
    and n: "unat (bi_sector b) mod 2 ^ Suc k + unat (bi_size b) div 512 \<le> 2 ^ Suc k"
  defines "m \<equiv> raid0_member k (r0_strip_zone c) i (unat (bi_sector b))"
  shows "\<exists>b'. raid0_make_request (Suc f) cb c st b = Some (Inr (disk_stat_account st b, True, b', [])) \<and>
    bi_bdev b' = rd_bdev m \<and> bi_size b' = bi_size b \<and>
    unat (bi_sector b') = raid0_place k (r0_strip_zone c) i (unat (bi_sector b)) + unat (rd_data_offset m)"
proof -
  obtain sec where sec: "raid0_remap cb c b = Inr (b\<lparr>bi_bdev := rd_bdev m, bi_sector := sec\<rparr>)"
    "unat sec = raid0_place k (r0_strip_zone c) i (unat (bi_sector b)) + unat (rd_data_offset m)"
    using raid0_remap_place [OF wf cb, of i b] z unfolding m_def in_zone_def by blast
  with n show ?thesis
    by (simp add: raid0_make_request.simps(2) Let_def chunk_words(3) [OF cb] del: power_Suc)
qed

lemma raid0_loc_eq:
  assumes wf: "raid0_wf k c" and cb: "unat cb = 2 ^ (k + 10)" "k \<le> 21"
    and z: "in_zone (r0_strip_zone c) i s"
  shows "raid0_loc (cb, c) s = (rd_bdev (raid0_member k (r0_strip_zone c) i s),
    raid0_place k (r0_strip_zone c) i s + unat (rd_data_offset (raid0_member k (r0_strip_zone c) i s)))"
proof -
  have "s < 2 ^ 64" using z raid0_wfD(4) [OF wf, of i] by (simp add: in_zone_def)
  then have us: "unat (bi_sector (one_sector s)) = s" by (simp add: one_sector_def unat_of_nat)
  have "s mod 2 ^ Suc k + 1 \<le> 2 ^ Suc k" by (simp add: Suc_leI)
  then have "unat (bi_sector (one_sector s)) mod 2 ^ Suc k + unat (bi_size (one_sector s)) div 512 \<le> 2 ^ Suc k"
    using us by (simp add: one_sector_def)
  from raid0_request_inside [OF wf cb _ this, of i 0 no_stats] z us show ?thesis
    by (auto simp: raid0_loc_def)
qed

lemma height_bound: "r + c \<le> (h::nat) \<Longrightarrow> m < 2 * c \<Longrightarrow> 2 * (r + z) + m < 2 * (z + h)"
  by simp

lemma place_bounds:
  assumes "raid0_wf k c" "in_zone (r0_strip_zone c) i s"
  shows "2 * zbase (r0_strip_zone c ! i) \<le> raid0_place k (r0_strip_zone c) i s"
    "raid0_place k (r0_strip_zone c) i s < 2 * (zbase (r0_strip_zone c ! i) + zheight (r0_strip_zone c ! i))"
proof -
  let ?zs = "r0_strip_zone c"
  show "2 * zbase (?zs ! i) \<le> raid0_place k ?zs i s" by (simp add: raid0_place_def)
  have "raid0_row k ?zs i s * 2 ^ k + 2 ^ k \<le> zheight (?zs ! i)"
    using assms by (intro raid0_row_less) (auto simp: in_zone_def raid0_wfD)
  moreover have "s mod 2 ^ Suc k < 2 * 2 ^ k" by simp
  ultimately show "raid0_place k ?zs i s < 2 * (zbase (?zs ! i) + zheight (?zs ! i))"
    unfolding raid0_place_def by (rule height_bound)
qed

lemma div_mod_both:
  assumes "a * d + r = b * d + q" "r < d" "q < (d::nat)"
  shows "a = b" "r = q"
proof -
  have "(a * d + r) div d = a" "(a * d + r) mod d = r" "(b * d + q) div d = b" "(b * d + q) mod d = q"
    using assms(2,3) by simp_all
  with assms(1) show "a = b" "r = q" by simp_all
qed

lemma stripe_inj:
  assumes "(Z + a) mod n = (Z + b) mod n" "a div n = b div n" "0 < (n::nat)"
  shows "a = b"
proof -
  have "(Z + a mod n) mod n = (Z + b mod n) mod n" using assms(1) by (simp add: mod_simps)
  then have "a mod n = b mod n" by (rule mod_add_inj) (simp_all add: assms(3))
  with assms(2) show ?thesis by (metis div_mult_mod_eq)
qed

lemma place_inj:
  assumes wf: "raid0_wf k c" and s: "in_zone (r0_strip_zone c) i s" and t: "in_zone (r0_strip_zone c) i t"
    and dev: "rd_bdev (raid0_member k (r0_strip_zone c) i s) = rd_bdev (raid0_member k (r0_strip_zone c) i t)"
    and place: "raid0_place k (r0_strip_zone c) i s = raid0_place k (r0_strip_zone c) i t"
  shows "s = t"
proof -
  let ?zs = "r0_strip_zone c"
  have i: "i < length ?zs" using s by (simp add: in_zone_def)
  note z = raid0_wfD(1) [OF wf i]
  have n: "0 < zdevs (?zs ! i)" using z by (simp add: zone_ok_def)
  have "raid0_row k ?zs i s * 2 ^ Suc k + s mod 2 ^ Suc k = raid0_row k ?zs i t * 2 ^ Suc k + t mod 2 ^ Suc k"
    using place by (simp add: raid0_place_def)
  then have row: "raid0_row k ?zs i s = raid0_row k ?zs i t" and md: "s mod 2 ^ Suc k = t mod 2 ^ Suc k"
    by (rule div_mod_both; simp)+
  obtain Z where Z: "zoff ?zs i = 2 ^ k * Z" using zoff_aligned [OF wf] i by (meson dvdE less_imp_le)
  have chunk: "\<exists>q. u div 2 div 2 ^ k = Z + q \<and> raid0_row k ?zs i u = q div zdevs (?zs ! i)"
    if "in_zone ?zs i u" for u
  proof -
    have "zoff ?zs i \<le> u div 2" using that by (auto simp: in_zone_def)
    then have "2 ^ k * Z \<le> u div 2" by (simp only: Z)
    then obtain r where "u div 2 = 2 ^ k * Z + r" by (auto simp: le_iff_add)
    then show ?thesis by (simp add: raid0_row_def Z)
  qed
  obtain a where a: "s div 2 div 2 ^ k = Z + a" "raid0_row k ?zs i s = a div zdevs (?zs ! i)"
    using chunk [OF s] by blast
  obtain b where b: "t div 2 div 2 ^ k = Z + b" "raid0_row k ?zs i t = b div zdevs (?zs ! i)"
    using chunk [OF t] by blast
  have "(Z + a) mod zdevs (?zs ! i) = (Z + b) mod zdevs (?zs ! i)"
    using zone_member_inj [OF z _ _ dev [unfolded raid0_member_def]] n by (simp add: a(1) b(1))
  moreover have "a div zdevs (?zs ! i) = b div zdevs (?zs ! i)" using row by (simp only: a(2) b(2))
  ultimately have "a = b" using n by (rule stripe_inj)
  then have "s div 2 ^ Suc k = t div 2 ^ Suc k" using a b by (simp add: div_mult2_eq)
  with md show ?thesis by (metis div_mult_mod_eq)
qed

lemma raid0_member_in:
  assumes "raid0_wf k c" "in_zone (r0_strip_zone c) i s"
  obtains d where "d < zdevs (r0_strip_zone c ! i)" "raid0_member k (r0_strip_zone c) i s = zone_member (r0_strip_zone c ! i) d"
proof -
  have "0 < zdevs (r0_strip_zone c ! i)"
    using assms raid0_wfD(1) [OF assms(1), of i] by (simp add: in_zone_def zone_ok_def)
  then show thesis by (intro that [of "s div 2 div 2 ^ k mod zdevs (r0_strip_zone c ! i)"])
    (simp_all add: raid0_member_def)
qed

lemma zones_apart:
  assumes wf: "raid0_wf k c" and s: "in_zone (r0_strip_zone c) i s" and t: "in_zone (r0_strip_zone c) j t"
    and ij: "i < j"
  shows "raid0_place k (r0_strip_zone c) i s < raid0_place k (r0_strip_zone c) j t"
proof -
  have "zbase (r0_strip_zone c ! i) + zheight (r0_strip_zone c ! i) \<le> zbase (r0_strip_zone c ! j)"
    using wf t ij by (simp add: raid0_wf_def Let_def in_zone_def)
  then show ?thesis using place_bounds(2) [OF wf s] place_bounds(1) [OF wf t] by simp
qed

lemma raid0_loc_inj:
  assumes wf: "raid0_wf k c" and s: "in_zone (r0_strip_zone c) i s" and t: "in_zone (r0_strip_zone c) j t"
    and eq: "rd_bdev (raid0_member k (r0_strip_zone c) i s) = rd_bdev (raid0_member k (r0_strip_zone c) j t)"
      "raid0_place k (r0_strip_zone c) i s + unat (rd_data_offset (raid0_member k (r0_strip_zone c) i s)) =
       raid0_place k (r0_strip_zone c) j t + unat (rd_data_offset (raid0_member k (r0_strip_zone c) j t))"
  shows "s = t"
proof -
  obtain d e where d: "d < zdevs (r0_strip_zone c ! i)"
      "raid0_member k (r0_strip_zone c) i s = zone_member (r0_strip_zone c ! i) d"
    and e: "e < zdevs (r0_strip_zone c ! j)"
      "raid0_member k (r0_strip_zone c) j t = zone_member (r0_strip_zone c ! j) e"
    using raid0_member_in [OF wf s] raid0_member_in [OF wf t] by metis
  have "i < length (r0_strip_zone c)" "j < length (r0_strip_zone c)" using s t by (simp_all add: in_zone_def)
  then have "raid0_member k (r0_strip_zone c) i s = raid0_member k (r0_strip_zone c) j t"
    using wf d e eq(1) unfolding raid0_wf_def Let_def by metis
  with eq(2) have pl: "raid0_place k (r0_strip_zone c) i s = raid0_place k (r0_strip_zone c) j t" by simp
  have "i = j" using zones_apart [OF wf s t] zones_apart [OF wf t s] pl by (cases i j rule: linorder_cases) auto
  with place_inj [OF wf s] t eq(1) pl show ?thesis by simp
qed

abbreviation raid0_sectors :: "u32 \<times> raid0_conf \<Rightarrow> nat" where
  "raid0_sectors a \<equiv> 2 * ztotal (r0_strip_zone (snd a))"

lemma raid0_ok_chunk:
  assumes "raid0_ok a"
  obtains k where "k \<le> 21" "unat (fst a) = 2 ^ (k + 10)" "raid0_wf k (snd a)" "unat (fst a) div 512 = 2 ^ Suc k"
  using assms by (auto simp: raid0_ok_def power_add)

interpretation raid0: splitting_driver raid0_ok raid0_sectors raid0_loc raid0_extent
  "\<lambda>fuel a. raid0_make_request fuel (fst a) (snd a)" raid0_room
proof (unfold_locales, goal_cases)
  case (1 a s t)
  obtain k where k: "k \<le> 21" "unat (fst a) = 2 ^ (k + 10)" "raid0_wf k (snd a)"
    using raid0_ok_chunk [OF 1(1)] by metis
  obtain i j where z: "in_zone (r0_strip_zone (snd a)) i s" "in_zone (r0_strip_zone (snd a)) j t"
    using raid0_find [OF 1(2)] raid0_find [OF 1(3)] by metis
  note loc = raid0_loc_eq [OF k(3,2,1), simplified]
  show ?case using 1(4) raid0_loc_inj [OF k(3) z] by (simp add: loc [OF z(1)] loc [OF z(2)])
next
  case (2 a s)
  obtain k where k: "k \<le> 21" "unat (fst a) = 2 ^ (k + 10)" "raid0_wf k (snd a)"
    using raid0_ok_chunk [OF 2(1)] by metis
  obtain i where z: "in_zone (r0_strip_zone (snd a)) i s" using raid0_find [OF 2(2)] .
  obtain d where d: "d < zdevs (r0_strip_zone (snd a) ! i)"
    "raid0_member k (r0_strip_zone (snd a)) i s = zone_member (r0_strip_zone (snd a) ! i) d"
    using raid0_member_in [OF k(3) z] .
  have "i < length (r0_strip_zone (snd a))" using z by (simp add: in_zone_def)
  then show ?case
    using place_bounds [OF k(3) z] d
    by (auto simp: raid0_loc_eq [OF k(3,2,1) z, simplified] raid0_extent_def
        intro!: bexI [of _ "r0_strip_zone (snd a) ! i"] exI [of _ d])
next
  case (3 a)
  then show ?case by (auto simp: raid0_ok_def raid0_wf_def Let_def)
next
  case (4 a s)
  from raid0_ok_chunk [OF 4(1)] show ?case by (simp add: raid0_room_def) (metis mod_less_divisor zero_less_power zero_less_numeral power_Suc)
next
  case (5 a b n f st)
  let ?s = "unat (bi_sector b)" and ?zs = "r0_strip_zone (snd a)"
  obtain k where k: "k \<le> 21" "unat (fst a) = 2 ^ (k + 10)" "raid0_wf k (snd a)" "unat (fst a) div 512 = 2 ^ Suc k"
    using raid0_ok_chunk [OF 5(1)] .
  obtain i where z: "in_zone ?zs i ?s" using raid0_find [of ?s ?zs] 5(3,4) by auto
  have "?s mod 2 ^ Suc k < 2 ^ Suc k" by simp
  then have n: "?s mod 2 ^ Suc k + n \<le> 2 ^ Suc k" using 5(5) unfolding raid0_room_def k(4) by linarith
  let ?m = "raid0_member k ?zs i ?s"
  have size: "unat (bi_size b) div 512 = n" using 5(2) by (simp add: page_bio_def)
  obtain b' where b': "raid0_make_request (Suc f) (fst a) (snd a) st b = Some (Inr (disk_stat_account st b, True, b', []))"
    "bi_bdev b' = rd_bdev ?m" "bi_size b' = bi_size b"
    "unat (bi_sector b') = raid0_place k ?zs i ?s + unat (rd_data_offset ?m)"
    using raid0_request_inside [OF k(3,2,1) z, of f st] n size by auto
  have "raid0_loc a (?s + j) = (bi_bdev b', unat (bi_sector b') + j)" if "j < n" for j
  proof -
    have j: "?s mod 2 ^ Suc k + j < 2 ^ Suc k" using n that by linarith
    show ?thesis
      using raid0_loc_eq [OF k(3,2,1) chunk_shift(1) [OF k(3) z j]] chunk_shift(2,3) [OF k(3) z j] b'(2,4) by simp
  qed
  then have "bio_cells b' = map (raid0_loc a) [?s..<?s + n]"
    using size b'(3) by (intro nth_equalityI) (auto simp: bio_cells_def)
  with b'(1) show ?case by blast
next
  case (6 a b n k' b1 b2 f st st1 ret1 b1' ev1 st2 ret2 b2' ev2)
  let ?s = "unat (bi_sector b)"
  obtain k where k: "k \<le> 21" "unat (fst a) = 2 ^ (k + 10)" "raid0_wf k (snd a)" "unat (fst a) div 512 = 2 ^ Suc k"
    using raid0_ok_chunk [OF 6(1)] .
  note W = chunk_words [OF k(2,1)]
  let ?room = "ucast (drop_bit 9 (fst a)) - (bi_sector b AND ucast (drop_bit 9 (fst a) - 1)) :: u64"
  have "?s mod 2 ^ Suc k < 2 ^ Suc k" by simp
  then have "unat ?room = raid0_room a ?s" by (subst unat_sub_nowrap) (simp_all only: W k(4) raid0_room_def less_imp_le)
  moreover have "unat k' < 2 ^ 32" using unat_less_exp [of k'] by simp
  ultimately have k': "ucast ?room = k'" using 6(5) by (simp add: word_unat_eq_iff unat_ucast_small)
  have "2 ^ Suc k < ?s mod 2 ^ Suc k + unat (bi_size b) div 512"
    using 6(2,4) unfolding raid0_room_def k(4) page_bio_def by simp
  then show ?case
    using 6(2,6,7,8) k' by (simp add: raid0_make_request.simps(2) Let_def W(3) page_bio_def del: power_Suc)
qed

subsection \<open>The zones are the striping of the members\<close>

text \<open>The specification: from height \<open>cur\<close> on, a zone stripes over the members longer than
  \<open>cur\<close>, up to the height of the shortest of them. \<open>stripe_fill rs h\<close> is how much of the array
  lies below height \<open>h\<close>.\<close>

definition stripe_fill :: "rdev list \<Rightarrow> nat \<Rightarrow> nat" where
  "stripe_fill rs h = sum_list (map (\<lambda>r. min (unat (rd_size r)) h) rs)"

definition taller :: "rdev list \<Rightarrow> nat \<Rightarrow> rdev list" where
  "taller rs cur = filter (\<lambda>r. cur < unat (rd_size r)) rs"

definition next_height :: "rdev list \<Rightarrow> nat \<Rightarrow> nat" where
  "next_height rs cur = Min ((\<lambda>r. unat (rd_size r)) ` set (taller rs cur))"

definition zone_at :: "rdev list \<Rightarrow> strip_zone \<Rightarrow> bool" where
  "zone_at rs z \<longleftrightarrow>
     (let ms = taller rs (zbase z) in
      ms \<noteq> [] \<and> unat (zone_offset z) = stripe_fill rs (zbase z) \<and>
      zdevs z = length ms \<and> take (length ms) (zone_dev z) = map Some ms \<and>
      unat (zone_size z) = (next_height rs (zbase z) - zbase z) * length ms)"

fun zones_from :: "rdev list \<Rightarrow> nat \<Rightarrow> strip_zone list \<Rightarrow> bool" where
  "zones_from rs cur [] \<longleftrightarrow> taller rs cur = []"
| "zones_from rs cur (z # zs) \<longleftrightarrow>
     zbase z = cur \<and> zone_at rs z \<and> zones_from rs (next_height rs cur) zs"

abbreviation sizes :: "rdev list \<Rightarrow> nat" where
  "sizes rs \<equiv> sum_list (map (\<lambda>r. unat (rd_size r)) rs)"

lemma next_height:
  assumes "taller rs cur \<noteq> []"
  shows "cur < next_height rs cur" "\<And>r. r \<in> set (taller rs cur) \<Longrightarrow> next_height rs cur \<le> unat (rd_size r)"
    "\<exists>r \<in> set (taller rs cur). next_height rs cur = unat (rd_size r)"
proof -
  let ?S = "(\<lambda>r. unat (rd_size r)) ` set (taller rs cur)"
  have "Min ?S \<in> ?S" using assms by (intro Min_in) auto
  then show ex: "\<exists>r \<in> set (taller rs cur). next_height rs cur = unat (rd_size r)"
    by (auto simp: next_height_def)
  then show "cur < next_height rs cur" by (auto simp: taller_def)
  show "next_height rs cur \<le> unat (rd_size r)" if "r \<in> set (taller rs cur)" for r
    using that unfolding next_height_def by (intro Min_le) auto
qed

lemma stripe_fill_step:
  assumes "cur \<le> h" "\<forall>r \<in> set rs. cur < unat (rd_size r) \<longrightarrow> h \<le> unat (rd_size r)"
  shows "stripe_fill rs h = stripe_fill rs cur + (h - cur) * length (taller rs cur)"
  using assms by (induction rs) (auto simp: stripe_fill_def taller_def min_def)

lemma stripe_fill_next:
  assumes "taller rs cur \<noteq> []"
  shows "stripe_fill rs (next_height rs cur) =
    stripe_fill rs cur + (next_height rs cur - cur) * length (taller rs cur)"
  using next_height [OF assms] by (intro stripe_fill_step) (auto simp: taller_def)

lemma stripe_fill_le: "stripe_fill rs h \<le> sizes rs"
  unfolding stripe_fill_def by (intro sum_list_mono) simp

lemma stripe_fill_top: "taller rs cur = [] \<Longrightarrow> stripe_fill rs cur = sizes rs"
  by (induction rs) (auto simp: stripe_fill_def taller_def split: if_splits)

abbreviation smallest_of :: "rdev option \<Rightarrow> rdev list \<Rightarrow> rdev option" where
  "smallest_of \<equiv> foldl (\<lambda>s r. Some (smaller_dev s r))"

lemma smallest_of_Some:
  "\<exists>p \<in> set (q # rs). smallest_of (Some q) rs = Some p \<and> (\<forall>r \<in> set (q # rs). unat (rd_size p) \<le> unat (rd_size r))"
proof (induction rs arbitrary: q)
  case Nil
  then show ?case by simp
next
  case (Cons r rs)
  from Cons.IH [of "smaller_dev (Some q) r"] show ?case
    by (auto simp: smaller_dev_def word_less_nat_alt not_less split: if_splits)
qed

lemma smallest_of_taller:
  assumes "taller rs cur \<noteq> []"
  shows "\<exists>p. smallest_of None (taller rs cur) = Some p \<and> unat (rd_size p) = next_height rs cur"
proof -
  obtain q qs where q: "taller rs cur = q # qs" using assms by (cases "taller rs cur") auto
  obtain p where p: "p \<in> set (q # qs)" "smallest_of (Some q) qs = Some p"
    "\<forall>r \<in> set (q # qs). unat (rd_size p) \<le> unat (rd_size r)" using smallest_of_Some [of q qs] by blast
  have "unat (rd_size p) = next_height rs cur"
    using next_height(2,3) [OF assms] p(1,3) unfolding q by (metis le_antisym)
  with p(2) show ?thesis by (simp add: q smaller_dev_def)
qed

lemma zone_members_spec:
  "zone_members (map Some rs) cur s = Inr (taller rs (unat cur), smallest_of s (taller rs (unat cur)))"
  by (induction rs arbitrary: s) (auto simp: taller_def word_less_nat_alt)

definition heights_above :: "rdev list \<Rightarrow> nat \<Rightarrow> nat set" where
  "heights_above rs cur = {h \<in> (\<lambda>r. unat (rd_size r)) ` set rs. cur < h}"

lemma heights_above_step:
  assumes "taller rs cur \<noteq> []"
  shows "card (heights_above rs cur) = Suc (card (heights_above rs (next_height rs cur)))"
proof -
  have "heights_above rs cur = insert (next_height rs cur) (heights_above rs (next_height rs cur))"
    using next_height [OF assms] by (fastforce simp: heights_above_def taller_def)
  moreover have "next_height rs cur \<notin> heights_above rs (next_height rs cur)" by (simp add: heights_above_def)
  moreover have "finite (heights_above rs (next_height rs cur))" by (simp add: heights_above_def)
  ultimately show ?thesis by simp
qed

lemma heights_above_empty: "card (heights_above rs cur) = 0 \<longleftrightarrow> taller rs cur = []"
  by (auto simp: heights_above_def taller_def card_eq_0_iff filter_empty_conv)

lemma later_zones_spec:
  assumes "sizes rs < 2 ^ 32" "length rs < 2 ^ 31"
  shows "card (heights_above rs (unat cur)) = k \<Longrightarrow> unat off = stripe_fill rs (unat cur) \<Longrightarrow>
    \<exists>zones tot. later_zones k (map Some rs) cur off = Inr (zones, tot) \<and> length zones = k \<and>
      zones_from rs (unat cur) zones \<and> unat tot = sizes rs"
proof (induction k arbitrary: cur off)
  case 0
  then show ?case by (simp add: heights_above_empty stripe_fill_top)
next
  case (Suc k)
  let ?ms = "taller rs (unat cur)" and ?h = "next_height rs (unat cur)"
  have ne: "?ms \<noteq> []" using Suc.prems(1) heights_above_empty [of rs "unat cur"] by auto
  obtain p where p: "smallest_of None ?ms = Some p" "unat (rd_size p) = ?h"
    using smallest_of_taller [OF ne] by blast
  have len: "length ?ms \<le> length rs" by (simp add: taller_def)
  define c where "c = (of_nat (length ?ms) :: u32)"
  have c: "unat c = length ?ms" "unat (scast c :: u64) = length ?ms"
    using len assms(2) by (simp_all add: c_def unat_of_nat unat_scast_nonneg)
  define zs where "zs = (rd_size p - cur) * scast c"
  have fill: "stripe_fill rs ?h = stripe_fill rs (unat cur) + (?h - unat cur) * length ?ms"
    by (rule stripe_fill_next [OF ne])
  then have b: "stripe_fill rs (unat cur) + (?h - unat cur) * length ?ms < 2 ^ 32"
    using stripe_fill_le [of rs ?h] assms(1) by simp
  have hc: "unat (rd_size p - cur) = ?h - unat cur"
    using p(2) next_height(1) [OF ne] by (subst unat_sub_nowrap) auto
  have zs: "unat zs = (?h - unat cur) * length ?ms"
    using b hc c(2) unfolding zs_def by (subst unat_mult_nowrap) simp_all
  have "unat (off + zs) = stripe_fill rs ?h"
    using b zs Suc.prems(2) fill by (subst unat_add_nowrap) simp_all
  moreover have "card (heights_above rs (unat (rd_size p))) = k"
    using Suc.prems(1) heights_above_step [OF ne] p(2) by simp
  ultimately obtain zones tot where z: "later_zones k (map Some rs) (rd_size p) (off + zs) = Inr (zones, tot)"
    "length zones = k" "zones_from rs ?h zones" "unat tot = sizes rs"
    using Suc.IH [of "rd_size p" "off + zs"] p(2) by auto
  have "later_zones (Suc k) (map Some rs) cur off = Inr
    (\<lparr>zone_offset = off, dev_offset = cur, zone_size = zs, nb_dev = c,
      zone_dev = map Some ?ms @ replicate (length rs - length ?ms) None\<rparr> # zones, tot)"
    using z(1) by (simp add: zone_members_spec p(1) Let_def c_def [symmetric] zs_def [symmetric])
  with z ne zs c(1) Suc.prems(2) show ?case by (simp add: zone_at_def Let_def)
qed

lemma size_seen_iff: "size_seen qs r \<longleftrightarrow> rd_size r \<in> rd_size ` set qs"
  by (induction qs) auto

lemma count_zones_card:
  "count_zones prev rs = card (rd_size ` set (prev @ rs)) - card (rd_size ` set prev)"
proof (induction rs arbitrary: prev)
  case Nil
  then show ?case by simp
next
  case (Cons r rs)
  have "card (rd_size ` set (prev @ [r])) \<le> card (rd_size ` set (prev @ r # rs))"
    by (intro card_mono) auto
  moreover have "card (rd_size ` set (prev @ [r])) =
      (if rd_size r \<in> rd_size ` set prev then card (rd_size ` set prev) else Suc (card (rd_size ` set prev)))"
    by (simp add: insert_absorb)
  ultimately show ?case using Cons.IH [of "prev @ [r]"] by (auto simp: size_seen_iff)
qed

lemma count_zones_heights:
  assumes "set rs = set ds" "\<forall>r \<in> set rs. 0 < unat (rd_size r)"
  shows "count_zones [] rs = card (heights_above ds 0)"
proof -
  have "heights_above ds 0 = unat ` rd_size ` set rs"
    using assms by (auto simp: heights_above_def image_iff)
  moreover have "inj_on unat (rd_size ` set rs)" by (simp add: inj_on_def word_unat_eq_iff)
  ultimately show ?thesis by (simp add: count_zones_card card_image)
qed

abbreviation place_devs :: "rdev list \<Rightarrow> rdev option list \<Rightarrow> rdev option list" where
  "place_devs \<equiv> fold (\<lambda>r d. d[nat (rd_raid_disk r) := Some r])"

lemma other_slot:
  assumes "rd_raid_disk r \<notin> rd_raid_disk ` set rs" "0 \<le> rd_raid_disk r" "0 \<le> rd_raid_disk s" "s \<in> set rs"
  shows "nat (rd_raid_disk s) \<noteq> nat (rd_raid_disk r)"
proof -
  have "rd_raid_disk s \<noteq> rd_raid_disk r" using assms(1,4) by force
  then show ?thesis using assms(2,3) by simp
qed

lemma raid0_scan_spec:
  assumes "\<forall>r \<in> set rs. 0 \<le> rd_raid_disk r \<and> rd_raid_disk r < n" "distinct (map rd_raid_disk rs)"
    "\<forall>r \<in> set rs. rs_dev st ! nat (rd_raid_disk r) = None" "length (rs_dev st) = nat n"
  shows "\<exists>q. raid0_scan n rs st = (True, \<lparr>rs_dev = place_devs rs (rs_dev st),
    rs_smallest = smallest_of (rs_smallest st) rs, rs_queue = q, rs_cnt = rs_cnt st + length rs\<rparr>)"
  using assms
proof (induction rs arbitrary: st)
  case Nil
  show ?case by (intro exI [of _ "rs_queue st"]) simp
next
  case (Cons r rs)
  let ?q = "let q = blk_queue_stack_limits (rs_queue st) (rd_queue r)
    in if has_merge_bvec (rd_queue r) \<and> 8 < max_sectors q then blk_queue_max_sectors q 8 else q"
  let ?st = "\<lparr>rs_dev = (rs_dev st)[nat (rd_raid_disk r) := Some r],
    rs_smallest = Some (smaller_dev (rs_smallest st) r), rs_queue = ?q, rs_cnt = Suc (rs_cnt st)\<rparr>"
  have "nat (rd_raid_disk s) \<noteq> nat (rd_raid_disk r)" if "s \<in> set rs" for s
    using Cons.prems(1,2) that by (intro other_slot) auto
  then have "\<forall>s \<in> set rs. rs_dev ?st ! nat (rd_raid_disk s) = None"
    using Cons.prems(3) by (metis list.set_intros(2) nth_list_update_neq raid0_scan_state.select_convs(1))
  then have "\<exists>q. raid0_scan n rs ?st = (True, \<lparr>rs_dev = place_devs rs (rs_dev ?st),
      rs_smallest = smallest_of (rs_smallest ?st) rs, rs_queue = q, rs_cnt = rs_cnt ?st + length rs\<rparr>)"
    using Cons.prems by (intro Cons.IH) auto
  moreover have "raid0_scan n (r # rs) st = raid0_scan n rs ?st"
    using Cons.prems by (simp add: Let_def)
  ultimately show ?case by (simp del: raid0_scan.simps)
qed

lemma place_devs_nth:
  assumes "\<forall>r \<in> set rs. 0 \<le> rd_raid_disk r \<and> nat (rd_raid_disk r) < length d" "distinct (map rd_raid_disk rs)"
  shows "length (place_devs rs d) = length d \<and>
    (\<forall>r \<in> set rs. place_devs rs d ! nat (rd_raid_disk r) = Some r) \<and>
    (\<forall>j. (\<forall>r \<in> set rs. nat (rd_raid_disk r) \<noteq> j) \<longrightarrow> place_devs rs d ! j = d ! j)"
  using assms
proof (induction rs arbitrary: d)
  case Nil
  then show ?case by simp
next
  case (Cons r rs)
  have "nat (rd_raid_disk s) \<noteq> nat (rd_raid_disk r)" if "s \<in> set rs" for s
    using Cons.prems that by (intro other_slot) auto
  with Cons.IH [of "d[nat (rd_raid_disk r) := Some r]"] Cons.prems show ?case
    by (auto simp: nth_list_update)
qed

subsection \<open>Assembling an array\<close>

text \<open>What \<open>raid0_run\<close> may expect of the members: numbered \<open>0..n-1\<close>, on distinct devices, each
  a non-empty whole number of chunks, the array smaller than \<open>2 ^ 32\<close> blocks (4 TB) and at
  least 1024 blocks long.\<close>

definition raid0_members :: "nat \<Rightarrow> mddev \<Rightarrow> bool" where
  "raid0_members k md \<longleftrightarrow>
     (let rs = md_disks md in
      k \<le> 21 \<and> unat (md_chunk_size md) = 2 ^ (k + 10) \<and>
      rs \<noteq> [] \<and> md_raid_disks md = int (length rs) \<and> length rs < 2 ^ 31 \<and>
      (\<forall>r \<in> set rs. 0 \<le> rd_raid_disk r \<and> rd_raid_disk r < int (length rs) \<and>
         0 < unat (rd_size r) \<and> 2 ^ k dvd unat (rd_size r) \<and>
         unat (rd_data_offset r) + 2 * unat (rd_size r) < 2 ^ 64) \<and>
      distinct (map rd_raid_disk rs) \<and> distinct (map rd_bdev rs) \<and>
      1024 \<le> sizes rs \<and> sizes rs < 2 ^ 32)"

lemma raid0_scan_all:
  assumes "raid0_members k md"
  shows "\<exists>ds q. raid0_scan (md_raid_disks md) (md_disks md)
      \<lparr>rs_dev = replicate (nat (md_raid_disks md)) None, rs_smallest = None, rs_queue = q0, rs_cnt = 0\<rparr> =
      (True, \<lparr>rs_dev = map Some ds, rs_smallest = smallest_of None (md_disks md), rs_queue = q,
        rs_cnt = length (md_disks md)\<rparr>) \<and>
    mset ds = mset (md_disks md) \<and> (\<forall>j < length ds. rd_raid_disk (ds ! j) = int j)"
proof -
  let ?rs = "md_disks md"
  let ?n = "length ?rs"
  define dev where "dev = place_devs ?rs (replicate ?n None)"
  have M: "md_raid_disks md = int ?n" "distinct (map rd_raid_disk ?rs)"
    "\<forall>r \<in> set ?rs. 0 \<le> rd_raid_disk r \<and> rd_raid_disk r < int ?n"
    using assms by (simp_all add: raid0_members_def Let_def)
  obtain q where scan: "raid0_scan (md_raid_disks md) ?rs
      \<lparr>rs_dev = replicate (nat (md_raid_disks md)) None, rs_smallest = None, rs_queue = q0, rs_cnt = 0\<rparr> =
      (True, \<lparr>rs_dev = dev, rs_smallest = smallest_of None ?rs, rs_queue = q, rs_cnt = ?n\<rparr>)"
    using raid0_scan_spec [of ?rs "md_raid_disks md" "\<lparr>rs_dev = replicate (nat (md_raid_disks md)) None,
      rs_smallest = None, rs_queue = q0, rs_cnt = 0\<rparr>"] M by (auto simp: dev_def nat_less_iff)
  have dev: "length dev = ?n" "\<forall>r \<in> set ?rs. dev ! nat (rd_raid_disk r) = Some r"
    using place_devs_nth [of ?rs "replicate ?n None"] M by (auto simp: dev_def nat_less_iff)
  have "(\<lambda>r. nat (rd_raid_disk r)) ` set ?rs = {..<?n}"
  proof (rule card_subset_eq)
    have "inj_on (\<lambda>r. nat (rd_raid_disk r)) (set ?rs)"
      using M by (auto simp: inj_on_def distinct_map eq_nat_nat_iff)
    then show "card ((\<lambda>r. nat (rd_raid_disk r)) ` set ?rs) = card {..<?n}"
      using M(2) by (simp add: card_image distinct_card distinct_map)
  qed (use M in \<open>auto simp: nat_less_iff\<close>)
  then have slot: "\<exists>r \<in> set ?rs. rd_raid_disk r = int j \<and> dev ! j = Some r" if "j < ?n" for j
  proof -
    from that \<open>_ = {..<?n}\<close> obtain r where "r \<in> set ?rs" "j = nat (rd_raid_disk r)" by blast
    with M(3) dev(2) show ?thesis by (intro bexI [of _ r]) auto
  qed
  define ds where "ds = map the dev"
  have ds: "dev = map Some ds" using slot dev(1) by (intro nth_equalityI) (fastforce simp: ds_def)+
  have num: "\<forall>j < length ds. rd_raid_disk (ds ! j) = int j \<and> ds ! j \<in> set ?rs"
    using slot dev(1) by (fastforce simp: ds_def)
  then have "distinct ds" by (metis distinct_conv_nth of_nat_eq_iff)
  moreover have "set ds \<subseteq> set ?rs" using num by (auto simp: in_set_conv_nth)
  moreover have "set ?rs \<subseteq> set ds"
  proof
    fix r assume r: "r \<in> set ?rs"
    then have "nat (rd_raid_disk r) < length ds" using M(3) dev(1) by (auto simp: ds_def nat_less_iff)
    moreover have "ds ! nat (rd_raid_disk r) = r" using dev r calculation by (simp add: ds_def)
    ultimately show "r \<in> set ds" by (metis nth_mem)
  qed
  ultimately have "mset ds = mset ?rs"
    using M(2) by (simp add: set_eq_iff_mset_eq_distinct [symmetric] distinct_map)
  with scan ds num show ?thesis by auto
qed

lemma zones_from_total:
  "zones_from rs cur zs \<Longrightarrow> stripe_fill rs cur + ztotal zs = sizes rs"
proof (induction zs arbitrary: cur)
  case Nil
  then show ?case by (simp add: stripe_fill_top)
next
  case (Cons z zs)
  then have "taller rs cur \<noteq> []" by (auto simp: zone_at_def Let_def)
  from stripe_fill_next [OF this] Cons.IH [of "next_height rs cur"] Cons.prems show ?case
    by (simp add: prefix_sum_def zone_at_def Let_def)
qed

lemma zones_from_nth:
  "zones_from rs cur zs \<Longrightarrow> i < length zs \<Longrightarrow>
   zone_at rs (zs ! i) \<and> stripe_fill rs (zbase (zs ! i)) = stripe_fill rs cur + zoff zs i \<and>
   cur \<le> zbase (zs ! i) \<and>
   (zbase (zs ! i) = cur \<or> (\<exists>r \<in> set rs. zbase (zs ! i) = unat (rd_size r))) \<and>
   (\<forall>j < i. next_height rs (zbase (zs ! j)) \<le> zbase (zs ! i))"
proof (induction zs arbitrary: cur i)
  case Nil
  then show ?case by simp
next
  case (Cons z zs)
  show ?case
  proof (cases i)
    case 0
    with Cons.prems show ?thesis by simp
  next
    case (Suc m)
    let ?h = "next_height rs cur"
    have ne: "taller rs cur \<noteq> []" using Cons.prems by (auto simp: zone_at_def Let_def)
    have IH: "zone_at rs (zs ! m)" "stripe_fill rs (zbase (zs ! m)) = stripe_fill rs ?h + zoff zs m"
      "?h \<le> zbase (zs ! m)" "zbase (zs ! m) = ?h \<or> (\<exists>r \<in> set rs. zbase (zs ! m) = unat (rd_size r))"
      "\<forall>j < m. next_height rs (zbase (zs ! j)) \<le> zbase (zs ! m)"
      using Cons.IH [of ?h m] Cons.prems Suc by auto
    have "\<forall>j < i. next_height rs (zbase ((z # zs) ! j)) \<le> zbase (zs ! m)"
      using IH(3,5) Cons.prems(1) Suc by (auto simp: less_Suc_eq_0_disj)
    moreover have "\<exists>r \<in> set rs. ?h = unat (rd_size r)" using next_height(3) [OF ne] by (auto simp: taller_def)
    moreover have "stripe_fill rs (zbase (zs ! m)) = stripe_fill rs cur + zoff (z # zs) (Suc m)"
      using IH(2) stripe_fill_next [OF ne] Cons.prems(1) by (simp add: prefix_sum_def zone_at_def Let_def)
    moreover have "cur \<le> zbase (zs ! m)" using IH(3) next_height(1) [OF ne] by simp
    ultimately show ?thesis using IH(1,4) Suc by auto
  qed
qed

lemma zone_at_ok:
  assumes z: "zone_at ds z" and base: "2 ^ k dvd zbase z"
    and ds: "\<forall>r \<in> set ds. 2 ^ k dvd unat (rd_size r) \<and> unat (rd_data_offset r) + 2 * unat (rd_size r) < 2 ^ 64"
    "distinct (map rd_bdev ds)"
  shows "zone_ok k z" "zheight z = next_height ds (zbase z) - zbase z"
    "\<And>d. d < zdevs z \<Longrightarrow> zone_member z d \<in> set ds"
proof -
  let ?ms = "taller ds (zbase z)"
  have Z: "?ms \<noteq> []" "zdevs z = length ?ms" "take (length ?ms) (zone_dev z) = map Some ?ms"
    "unat (zone_size z) = (next_height ds (zbase z) - zbase z) * length ?ms"
    using z by (auto simp: zone_at_def Let_def)
  show h: "zheight z = next_height ds (zbase z) - zbase z" using Z by (simp add: zheight_def)
  have dev: "zone_dev z ! d = Some (?ms ! d)" if "d < zdevs z" for d
    using Z(2,3) that by (metis nth_map nth_take)
  have sub: "set ?ms \<subseteq> set ds" by (auto simp: taller_def)
  show mem: "zone_member z d \<in> set ds" if "d < zdevs z" for d
    using dev [OF that] that Z(2) sub nth_mem [of d ?ms] by (auto simp: zone_member_def)
  have fit: "case zone_dev z ! d of None \<Rightarrow> False
      | Some r \<Rightarrow> zbase z + zheight z \<le> unat (rd_size r) \<and> unat (rd_data_offset r) + 2 * unat (rd_size r) < 2 ^ 64"
    if "d < zdevs z" for d
    using dev [OF that] that Z(2) next_height(1,2) [OF Z(1)] ds(1) sub nth_mem [of d ?ms] h by fastforce
  have "2 ^ k dvd next_height ds (zbase z)" using next_height(3) [OF Z(1)] ds(1) sub by auto
  then have dvd: "2 ^ k dvd zheight z" using base h by (simp add: dvd_diff_nat)
  have len: "zdevs z \<le> length (zone_dev z)" using Z(2,3) by (metis length_map length_take min.cobounded1)
  have "distinct (map rd_bdev ?ms)" using ds(2) by (simp add: taller_def distinct_map_filter)
  then have "distinct (map (map_option rd_bdev) (map Some ?ms))" by (simp add: distinct_map inj_on_def)
  then have "distinct (map (map_option rd_bdev) (take (zdevs z) (zone_dev z)))" by (simp only: Z(2,3))
  with Z dvd base fit len show "zone_ok k z" by (simp add: zone_ok_def h)
qed

lemma hash_spacing_bounds:
  "hash_spacing m zs sp \<le> sp \<and> (hash_spacing m zs sp = sp \<or> m \<le> hash_spacing m zs sp)"
proof (induction zs arbitrary: sp)
  case Nil
  then show ?case by simp
next
  case (Cons z zs)
  show ?case
    using Cons.IH [of sp] Cons.IH [of "spacing_sum m (z # zs) 0"]
    by (auto simp: Let_def simp del: spacing_sum.simps)
qed

lemma create_strip_zones_spec:
  assumes M: "raid0_members k md"
  shows "\<exists>q ds zones sp. create_strip_zones True True md = Inr (q, Some (zones, sp)) \<and>
    mset ds = mset (md_disks md) \<and> (\<forall>j < length ds. rd_raid_disk (ds ! j) = int j) \<and>
    zones_from ds 0 zones \<and> length zones = card (rd_size ` set (md_disks md)) \<and>
    0 < unat sp \<and> unat sp \<le> sizes (md_disks md)"
proof -
  let ?rs = "md_disks md"
  obtain ds q where scan: "raid0_scan (md_raid_disks md) ?rs
      \<lparr>rs_dev = replicate (nat (md_raid_disks md)) None, rs_smallest = None, rs_queue = md_queue md, rs_cnt = 0\<rparr> =
      (True, \<lparr>rs_dev = map Some ds, rs_smallest = smallest_of None ?rs, rs_queue = q, rs_cnt = length ?rs\<rparr>)"
    and ms: "mset ds = mset ?rs" and num: "\<forall>j < length ds. rd_raid_disk (ds ! j) = int j"
    using raid0_scan_all [OF M, of "md_queue md"] by blast
  have seteq: "set ds = set ?rs" using ms by (rule mset_eq_setD)
  have len: "length ds = length ?rs" using ms by (rule mset_eq_length)
  have szs: "sizes ds = sizes ?rs" using ms by (metis mset_map sum_mset_sum_list)
  have P: "?rs \<noteq> []" "length ds < 2 ^ 31" "\<forall>r \<in> set ?rs. 0 < unat (rd_size r)" "1024 \<le> sizes ?rs"
    "sizes ds < 2 ^ 32" "md_raid_disks md = int (length ?rs)"
    using M len szs by (simp_all add: raid0_members_def Let_def)
  have all: "taller ds 0 = ds" "taller ?rs 0 = ?rs" using P(3) seteq by (simp_all add: taller_def filter_id_conv)
  have ne: "taller ds 0 \<noteq> []" using P(1) all(1) len by auto
  let ?h = "next_height ds 0"
  have nh: "next_height ?rs 0 = ?h" by (simp add: next_height_def all seteq)
  obtain p where p: "smallest_of None ?rs = Some p" "unat (rd_size p) = ?h"
    using smallest_of_taller [of ?rs 0] all P(1) nh by auto
  define c where "c = (of_nat (length ?rs) :: u32)"
  have c: "unat c = length ds" "unat (scast c :: u64) = length ds"
    using P(2) len by (simp_all add: c_def unat_of_nat unat_scast_nonneg)
  have fill: "stripe_fill ds ?h = ?h * length ds" "stripe_fill ds 0 = 0"
    using stripe_fill_next [OF ne] by (simp_all add: stripe_fill_def all sum_list_triv)
  then have zs: "unat (rd_size p * scast c) = stripe_fill ds ?h"
    using stripe_fill_le [of ds ?h] P(5) p(2) c(2) by (subst unat_mult_nowrap) auto
  have nr: "count_zones [] ?rs = card (heights_above ds 0)"
    using seteq P(3) by (intro count_zones_heights) auto
  then have nr1: "card (heights_above ds (unat (rd_size p))) = count_zones [] ?rs - 1"
    using heights_above_step [OF ne] p(2) by simp
  obtain zones tot where z: "later_zones (count_zones [] ?rs - 1) (map Some ds) (rd_size p) (rd_size p * scast c) = Inr (zones, tot)"
    "length zones = count_zones [] ?rs - 1" "zones_from ds ?h zones" "unat tot = sizes ds"
    using later_zones_spec [OF P(5,2) nr1, where off = "rd_size p * scast c"] zs p(2) by auto
  define z0 where "z0 = \<lparr>zone_offset = 0, dev_offset = 0, zone_size = rd_size p * scast c,
    nb_dev = c, zone_dev = map Some ds\<rparr>"
  define sp where "sp = hash_spacing (fst (sector_div tot 1024)) (butlast (z0 # zones)) tot"
  have "create_strip_zones True True md = Inr (q, Some (z0 # zones, sp))"
    using scan p(1) z(1) P(6)
    by (simp add: create_strip_zones_def Let_def c_def [symmetric] z0_def [symmetric] sp_def)
  moreover have "zones_from ds 0 (z0 # zones)"
    using ne z(3) zs c(1) fill by (simp add: z0_def zone_at_def Let_def all)
  moreover have "length (z0 # zones) = card (rd_size ` set ?rs)"
    using z(2) nr heights_above_step [OF ne] by (simp add: count_zones_card)
  moreover have "unat (fst (sector_div tot 1024)) = unat tot div 1024" by (subst do_div_unat) simp_all
  then have "0 < unat (fst (sector_div tot 1024))" using z(4) szs P(4) by (simp add: div_greater_zero_iff)
  then have "0 < unat sp" "unat sp \<le> sizes ?rs"
    using hash_spacing_bounds [of "fst (sector_div tot 1024)" "butlast (z0 # zones)" tot] z(4) szs P(4)
    by (auto simp: sp_def word_le_nat_alt)
  ultimately show ?thesis using ms num by blast
qed

subsection \<open>The hash table\<close>

text \<open>One turn of the loop: \<open>cur\<close> moves to the zone that contains the end of step \<open>i\<close>.\<close>

lemma raid0_advance_inside:
  assumes T: "ztotal zs < 2 ^ 32" and far: "y + unat sp < ztotal zs"
  shows "cur < length zs \<Longrightarrow> unat sz + y = zoff zs (Suc cur) \<Longrightarrow> zoff zs cur \<le> y + unat sp \<Longrightarrow>
    length zs - cur \<le> fuel \<Longrightarrow>
    \<exists>cur' sz'. raid0_advance fuel oob zs sp cur sz = Some (Inr (cur', sz')) \<and> cur' < length zs \<and>
      unat sz' + y = zoff zs (Suc cur') \<and> zoff zs cur' \<le> y + unat sp \<and> y + unat sp < zoff zs (Suc cur')"
proof (induction fuel arbitrary: cur sz)
  case 0
  then show ?case by simp
next
  case (Suc fuel)
  show ?case
  proof (cases "sz \<le> sp")
    case False
    with Suc.prems show ?thesis by (simp add: word_le_nat_alt)
  next
    case True
    then have le: "zoff zs (Suc cur) \<le> y + unat sp" using Suc.prems(2) by (simp add: word_le_nat_alt)
    then have nxt: "Suc cur < length zs" using far Suc.prems(1) by (metis Suc_lessI leD)
    have T': "zoff zs (Suc (Suc cur)) < 2 ^ 32" using T zoff_le_total [of zs "Suc (Suc cur)"] by simp
    then have "unat (sz + zone_size (zs ! Suc cur)) = unat sz + unat (zone_size (zs ! Suc cur))"
      using Suc.prems(2) nxt by (subst unat_add_nowrap) (simp_all add: zoff_Suc)
    then have "unat (sz + zone_size (zs ! Suc cur)) + y = zoff zs (Suc (Suc cur))"
      using Suc.prems(2) zoff_Suc [OF nxt] by simp
    from Suc.IH [OF nxt this le] Suc.prems(4) True nxt show ?thesis by simp
  qed
qed

text \<open>The last turn always runs past the zones.\<close>

lemma raid0_advance_last:
  assumes T: "ztotal zs < 2 ^ 32" and last: "ztotal zs \<le> y + unat sp"
  shows "cur < length zs \<Longrightarrow> unat sz + y = zoff zs (Suc cur) \<Longrightarrow> length zs - cur \<le> fuel \<Longrightarrow>
    \<exists>sz'. unat sz' + y = ztotal zs \<and>
      raid0_advance fuel oob zs sp cur sz =
        (case oob (length zs) of None \<Rightarrow> Some (Inl OutOfBounds)
         | Some v \<Rightarrow> raid0_advance (fuel - (length zs - cur)) oob zs sp (length zs) (sz' + v))"
proof (induction fuel arbitrary: cur sz)
  case 0
  then show ?case by simp
next
  case (Suc fuel)
  have le: "sz \<le> sp"
    using Suc.prems(2) last zoff_le_total [of zs "Suc cur"] by (simp add: word_le_nat_alt)
  show ?case
  proof (cases "Suc cur = length zs")
    case True
    then have "length zs - cur = 1" "unat sz + y = ztotal zs" using Suc.prems by simp_all
    with le True show ?thesis by (intro exI [of _ sz]) (simp split: option.split)
  next
    case False
    then have nxt: "Suc cur < length zs" using Suc.prems(1) by simp
    have T': "zoff zs (Suc (Suc cur)) < 2 ^ 32" using T zoff_le_total [of zs "Suc (Suc cur)"] by simp
    then have "unat (sz + zone_size (zs ! Suc cur)) = unat sz + unat (zone_size (zs ! Suc cur))"
      using Suc.prems(2) nxt by (subst unat_add_nowrap) (simp_all add: zoff_Suc)
    then have y: "unat (sz + zone_size (zs ! Suc cur)) + y = zoff zs (Suc (Suc cur))"
      using Suc.prems(2) zoff_Suc [OF nxt] by simp
    have "length zs - Suc cur \<le> fuel" and e: "fuel - (length zs - Suc cur) = Suc fuel - (length zs - cur)"
      using Suc.prems by simp_all
    from Suc.IH [OF nxt y this(1)] have "\<exists>sz'. unat sz' + y = ztotal zs \<and>
        raid0_advance fuel oob zs sp (Suc cur) (sz + zone_size (zs ! Suc cur)) =
          (case oob (length zs) of None \<Rightarrow> Some (Inl OutOfBounds)
           | Some v \<Rightarrow> raid0_advance (Suc fuel - (length zs - cur)) oob zs sp (length zs) (sz' + v))"
      unfolding e .
    with le nxt show ?thesis by simp
  qed
qed

lemma raid0_hash_spec:
  assumes T: "ztotal zs < 2 ^ 32" and fuel: "Suc (length zs) \<le> fuel"
  shows "cur < length zs \<Longrightarrow> unat sz + i * unat sp = zoff zs (Suc cur) \<Longrightarrow> zoff zs cur \<le> i * unat sp \<Longrightarrow>
    (i + k) * unat sp < ztotal zs \<Longrightarrow> ztotal zs \<le> (i + Suc k) * unat sp \<Longrightarrow>
    (oob (length zs) = None \<longrightarrow> raid0_hash fuel oob zs sp (Suc k) cur sz = Some (Inl OutOfBounds)) \<and>
    (\<forall>v. oob (length zs) = Some v \<longrightarrow> ztotal zs \<le> unat v \<longrightarrow> unat v < 2 ^ 63 \<longrightarrow> unat sp \<le> ztotal zs \<longrightarrow>
      (\<exists>tbl. raid0_hash fuel oob zs sp (Suc k) cur sz = Some (Inr tbl) \<and> length tbl = Suc k \<and>
        (\<forall>x < Suc k. tbl ! x < length zs \<and> zoff zs (tbl ! x) \<le> (i + x) * unat sp)))"
proof (induction k arbitrary: i cur sz)
  case 0
  have "ztotal zs \<le> i * unat sp + unat sp" using 0 by simp
  moreover have "length zs - cur \<le> fuel" using fuel by simp
  ultimately obtain sz' where
    sz': "unat sz' + i * unat sp = ztotal zs" and adv: "raid0_advance fuel oob zs sp cur sz =
        (case oob (length zs) of None \<Rightarrow> Some (Inl OutOfBounds)
         | Some v \<Rightarrow> raid0_advance (fuel - (length zs - cur)) oob zs sp (length zs) (sz' + v))"
    using raid0_advance_last [OF T _ 0(1,2)] by blast
  obtain g where g: "fuel - (length zs - cur) = Suc g" using fuel 0(1) by (cases "fuel - (length zs - cur)") auto
  have "raid0_advance (fuel - (length zs - cur)) oob zs sp (length zs) (sz' + v) = Some (Inr (length zs, sz' + v))"
    if "ztotal zs \<le> unat v" "unat v < 2 ^ 63" "unat sp \<le> ztotal zs" for v
  proof -
    have "unat (sz' + v) = unat sz' + unat v" using that(2) sz' T by (subst unat_add_nowrap) simp_all
    then have "\<not> sz' + v \<le> sp" using that sz' 0(4) by (simp add: word_le_nat_alt)
    then show ?thesis by (simp add: g)
  qed
  with adv 0(1,3) show ?case by simp
next
  case (Suc k)
  have "Suc i * unat sp \<le> (i + Suc k) * unat sp" by (intro mult_right_mono) simp_all
  from this Suc.prems(4) have "Suc i * unat sp < ztotal zs" by (rule le_less_trans)
  then have "i * unat sp + unat sp < ztotal zs" by simp
  moreover have "length zs - cur \<le> fuel" "zoff zs cur \<le> i * unat sp + unat sp" using fuel Suc.prems(3) by simp_all
  ultimately obtain cur' sz' where
    adv: "raid0_advance fuel oob zs sp cur sz = Some (Inr (cur', sz'))" "cur' < length zs"
      "unat sz' + i * unat sp = zoff zs (Suc cur')" "zoff zs cur' \<le> i * unat sp + unat sp"
      "i * unat sp + unat sp < zoff zs (Suc cur')"
    using raid0_advance_inside [OF T _ Suc.prems(1,2)] by blast
  have "unat (sz' - sp) = unat sz' - unat sp" using adv(3,5) by (subst unat_sub_nowrap) auto
  then have sz: "unat (sz' - sp) + Suc i * unat sp = zoff zs (Suc cur')" using adv(3,5) by simp
  have IH: "(oob (length zs) = None \<longrightarrow> raid0_hash fuel oob zs sp (Suc k) cur' (sz' - sp) = Some (Inl OutOfBounds)) \<and>
    (\<forall>v. oob (length zs) = Some v \<longrightarrow> ztotal zs \<le> unat v \<longrightarrow> unat v < 2 ^ 63 \<longrightarrow> unat sp \<le> ztotal zs \<longrightarrow>
      (\<exists>tbl. raid0_hash fuel oob zs sp (Suc k) cur' (sz' - sp) = Some (Inr tbl) \<and> length tbl = Suc k \<and>
        (\<forall>x < Suc k. tbl ! x < length zs \<and> zoff zs (tbl ! x) \<le> (Suc i + x) * unat sp)))"
    using adv(2,4) Suc.prems(4,5) by (intro Suc.IH [OF _ sz]) simp_all
  have step: "raid0_hash fuel oob zs sp (Suc (Suc k)) cur sz =
    (case raid0_hash fuel oob zs sp (Suc k) cur' (sz' - sp) of None \<Rightarrow> None
     | Some (Inl e) \<Rightarrow> Some (Inl e) | Some (Inr t) \<Rightarrow> Some (Inr (cur # t)))"
    using adv(1) by (simp split: option.splits sum.splits)
  have cons: "(cur # tbl) ! x < length zs \<and> zoff zs ((cur # tbl) ! x) \<le> (i + x) * unat sp"
    if "x < Suc (Suc k)" "\<forall>x < Suc k. tbl ! x < length zs \<and> zoff zs (tbl ! x) \<le> (Suc i + x) * unat sp" for x tbl
    using that Suc.prems(1,3) by (cases x) auto
  show ?case
  proof (intro conjI allI impI)
    assume "oob (length zs) = None"
    with IH step show "raid0_hash fuel oob zs sp (Suc (Suc k)) cur sz = Some (Inl OutOfBounds)" by simp
  next
    fix v assume "oob (length zs) = Some v" "ztotal zs \<le> unat v" "unat v < 2 ^ 63" "unat sp \<le> ztotal zs"
    with IH obtain tbl where "raid0_hash fuel oob zs sp (Suc k) cur' (sz' - sp) = Some (Inr tbl)"
      "length tbl = Suc k" and tbl: "\<forall>x < Suc k. tbl ! x < length zs \<and> zoff zs (tbl ! x) \<le> (Suc i + x) * unat sp"
      by blast
    then have "raid0_hash fuel oob zs sp (Suc (Suc k)) cur sz = Some (Inr (cur # tbl))"
      "length (cur # tbl) = Suc (Suc k)" using step by simp_all
    with cons [OF _ tbl] show "\<exists>tbl. raid0_hash fuel oob zs sp (Suc (Suc k)) cur sz = Some (Inr tbl) \<and>
        length tbl = Suc (Suc k) \<and>
        (\<forall>x < Suc (Suc k). tbl ! x < length zs \<and> zoff zs (tbl ! x) \<le> (i + x) * unat sp)" by blast
  qed
qed

text \<open>Whatever is behind the zones, a table that is finished is right: each entry is stored before
  the loop looks at the next zone.\<close>

lemma raid0_hash_entries:
  assumes T: "ztotal zs < 2 ^ 32" and fuel: "length zs \<le> fuel"
  shows "cur < length zs \<Longrightarrow> unat sz + i * unat sp = zoff zs (Suc cur) \<Longrightarrow> zoff zs cur \<le> i * unat sp \<Longrightarrow>
    (i + k) * unat sp < ztotal zs \<Longrightarrow> raid0_hash fuel oob zs sp (Suc k) cur sz = Some (Inr tbl) \<Longrightarrow>
    length tbl = Suc k \<and> (\<forall>x < Suc k. tbl ! x < length zs \<and> zoff zs (tbl ! x) \<le> (i + x) * unat sp)"
proof (induction k arbitrary: i cur sz tbl)
  case 0
  then show ?case by (auto split: option.splits sum.splits prod.splits)
next
  case (Suc k)
  have "Suc i * unat sp \<le> (i + Suc k) * unat sp" by (intro mult_right_mono) simp_all
  from this Suc.prems(4) have "Suc i * unat sp < ztotal zs" by (rule le_less_trans)
  then have "i * unat sp + unat sp < ztotal zs" by simp
  moreover have "length zs - cur \<le> fuel" "zoff zs cur \<le> i * unat sp + unat sp" using fuel Suc.prems(3) by simp_all
  ultimately obtain cur' sz' where
    adv: "raid0_advance fuel oob zs sp cur sz = Some (Inr (cur', sz'))" "cur' < length zs"
      "unat sz' + i * unat sp = zoff zs (Suc cur')" "zoff zs cur' \<le> i * unat sp + unat sp"
      "i * unat sp + unat sp < zoff zs (Suc cur')"
    using raid0_advance_inside [OF T _ Suc.prems(1,2)] by blast
  have "unat (sz' - sp) = unat sz' - unat sp" using adv(3,5) by (subst unat_sub_nowrap) auto
  then have sz: "unat (sz' - sp) + Suc i * unat sp = zoff zs (Suc cur')" using adv(3,5) by simp
  obtain tl where tl: "raid0_hash fuel oob zs sp (Suc k) cur' (sz' - sp) = Some (Inr tl)" "tbl = cur # tl"
    using Suc.prems(5) adv(1) by (auto simp del: raid0_hash.simps(2) simp: raid0_hash.simps(2) [of _ _ _ _ "Suc k"] split: option.splits sum.splits)
  have "length tl = Suc k \<and> (\<forall>x < Suc k. tl ! x < length zs \<and> zoff zs (tl ! x) \<le> (Suc i + x) * unat sp)"
    using adv(2,4) Suc.prems(4) by (intro Suc.IH [OF _ sz _ _ tl(1)]) simp_all
  then show ?case using Suc.prems(1,3) unfolding tl(2) by (auto simp: nth_Cons split: nat.split)
qed

lemma ceil_bounds:
  fixes T d :: nat
  assumes "0 < d" "0 < T"
  defines "nb \<equiv> T div d + (if T mod d \<noteq> 0 then 1 else 0)"
  shows "0 < nb" "(nb - 1) * d < T" "T \<le> nb * d" "nb \<le> T"
proof -
  have e: "T div d * d + T mod d = T" by simp
  have m: "T mod d < d" using assms(1) by simp
  show le: "T \<le> nb * d" unfolding nb_def by (rule ceil_div_ge [OF assms(1)])
  then show pos: "0 < nb" using assms(2) by (cases nb) auto
  show lt: "(nb - 1) * d < T"
  proof (cases "T mod d = 0")
    case True
    then have "T = nb * d" using e by (simp add: nb_def)
    then show ?thesis using pos assms(1) by (cases nb) auto
  next
    case False
    then have "nb - 1 = T div d" by (simp add: nb_def)
    with e False show ?thesis by (metis less_add_same_cancel1 neq0_conv)
  qed
  have "nb - 1 \<le> (nb - 1) * d" using assms(1) by simp
  then show "nb \<le> T" using lt pos by linarith
qed

lemma nb_zone_word:
  fixes T sp :: u64
  assumes sp: "0 < unat sp" "unat sp \<le> unat T" "unat T < 2 ^ 32"
  shows "unat (ucast (fst (sector_div T sp)) + (if snd (sector_div T sp) \<noteq> 0 then 1 else 0) :: u32) =
    unat T div unat sp + (if unat T mod unat sp \<noteq> 0 then 1 else 0)"
proof -
  have d: "unat (fst (sector_div T sp)) = unat T div unat sp" "unat (snd (sector_div T sp)) = unat T mod unat sp"
    using do_div_unat [of sp T] sp by simp_all
  have nb: "unat T div unat sp + (if unat T mod unat sp \<noteq> 0 then 1 else 0) < 2 ^ 32"
    using ceil_bounds(4) [of "unat sp" "unat T"] sp by simp
  have nz: "snd (sector_div T sp) \<noteq> 0 \<longleftrightarrow> unat T mod unat sp \<noteq> 0" using d(2) by (metis unat_eq_zero)
  have u: "unat (ucast (fst (sector_div T sp)) :: u32) = unat T div unat sp"
    using d(1) nb by (subst unat_ucast_small) (auto split: if_splits)
  show ?thesis
  proof (cases "unat T mod unat sp = 0")
    case True
    with nz u show ?thesis by simp
  next
    case False
    with nz u nb show ?thesis by (subst unat_add_nowrap) simp_all
  qed
qed

lemma raid0_zones_wf:
  assumes M: "raid0_members k md" and ms: "mset ds = mset (md_disks md)"
    and z: "zones_from ds 0 zones" and i: "i < length zones"
  shows "zone_ok k (zones ! i)" "unat (zone_offset (zones ! i)) = zoff zones i"
    "\<forall>j < i. zbase (zones ! j) + zheight (zones ! j) \<le> zbase (zones ! i)"
    "\<forall>d < zdevs (zones ! i). zone_member (zones ! i) d \<in> set (md_disks md)"
proof -
  have st: "set ds = set (md_disks md)" using ms by (rule mset_eq_setD)
  have ds: "\<forall>r \<in> set ds. 2 ^ k dvd unat (rd_size r) \<and> unat (rd_data_offset r) + 2 * unat (rd_size r) < 2 ^ 64"
    using M st by (simp add: raid0_members_def Let_def)
  have "distinct (map rd_bdev (md_disks md))" using M by (simp add: raid0_members_def Let_def)
  then have dis: "distinct (map rd_bdev ds)" using ms by (metis mset_map mset_eq_imp_distinct_iff)
  have base: "2 ^ k dvd zbase (zones ! j)" if "j < length zones" for j
    using zones_from_nth [OF z that] ds by auto
  note ok = zone_at_ok [OF _ _ ds dis]
  show "zone_ok k (zones ! i)" using zones_from_nth [OF z i] by (intro ok(1) base i) simp
  show "unat (zone_offset (zones ! i)) = zoff zones i"
    using zones_from_nth [OF z i] by (simp add: zone_at_def Let_def stripe_fill_def)
  show "\<forall>d < zdevs (zones ! i). zone_member (zones ! i) d \<in> set (md_disks md)"
    using zones_from_nth [OF z i] ok(3) [OF _ base [OF i]] st by blast
  show "\<forall>j < i. zbase (zones ! j) + zheight (zones ! j) \<le> zbase (zones ! i)"
  proof (intro allI impI)
    fix j assume j: "j < i"
    then have jl: "j < length zones" using i by simp
    have "zone_at ds (zones ! j)" using zones_from_nth [OF z jl] by simp
    then have "zheight (zones ! j) = next_height ds (zbase (zones ! j)) - zbase (zones ! j)"
      "zbase (zones ! j) < next_height ds (zbase (zones ! j))"
      using ok(2) [OF _ base [OF jl]] next_height(1) by (auto simp: zone_at_def Let_def)
    then show "zbase (zones ! j) + zheight (zones ! j) \<le> zbase (zones ! i)"
      using zones_from_nth [OF z i] j by auto
  qed
qed

lemma array_size_sum:
  "unat a + sizes rs < 2 ^ 64 \<Longrightarrow> unat (foldl (\<lambda>a r. a + rd_size r) (a :: u64) rs) = unat a + sizes rs"
proof (induction rs arbitrary: a)
  case Nil
  then show ?case by simp
next
  case (Cons r rs)
  then have "unat (a + rd_size r) = unat a + unat (rd_size r)" by (subst unat_add_nowrap) simp_all
  with Cons show ?case by simp
qed

text \<open>The whole table, and the configuration it completes.\<close>

definition nb_zones :: "nat \<Rightarrow> nat \<Rightarrow> nat" where
  "nb_zones T sp = T div sp + (if T mod sp \<noteq> 0 then 1 else 0)"

lemma raid0_hash_whole:
  assumes zs: "0 < ztotal zs" "ztotal zs < 2 ^ 32" and sp: "0 < unat sp" and fuel: "Suc (length zs) \<le> fuel"
  defines "nb \<equiv> nb_zones (ztotal zs) (unat sp)"
  shows "oob (length zs) = None \<Longrightarrow>
      raid0_hash fuel oob zs sp nb 0 (zone_size (zs ! 0)) = Some (Inl OutOfBounds)"
    "oob (length zs) = Some v \<Longrightarrow> ztotal zs \<le> unat v \<Longrightarrow> unat v < 2 ^ 63 \<Longrightarrow> unat sp \<le> ztotal zs \<Longrightarrow>
      \<exists>tbl. raid0_hash fuel oob zs sp nb 0 (zone_size (zs ! 0)) = Some (Inr tbl) \<and> length tbl = nb \<and>
        (\<forall>x < nb. tbl ! x < length zs \<and> zoff zs (tbl ! x) \<le> x * unat sp)"
    "raid0_hash fuel oob zs sp nb 0 (zone_size (zs ! 0)) = Some (Inr tbl) \<Longrightarrow>
      length tbl = nb \<and> (\<forall>x < nb. tbl ! x < length zs \<and> zoff zs (tbl ! x) \<le> x * unat sp)"
proof -
  have nb: "0 < nb" "(nb - 1) * unat sp < ztotal zs" "ztotal zs \<le> nb * unat sp"
    using ceil_bounds [OF sp zs(1)] by (simp_all add: nb_def nb_zones_def)
  have zne: "0 < length zs" using zs(1) by (cases zs) auto
  have z0: "unat (zone_size (zs ! 0)) + 0 * unat sp = zoff zs (Suc 0)" using zoff_Suc [OF zne] by simp
  note H = raid0_hash_spec [OF zs(2) fuel zne z0, of "nb - 1" oob]
  show "raid0_hash fuel oob zs sp nb 0 (zone_size (zs ! 0)) = Some (Inl OutOfBounds)" if "oob (length zs) = None"
    using H nb that by simp
  show "\<exists>tbl. raid0_hash fuel oob zs sp nb 0 (zone_size (zs ! 0)) = Some (Inr tbl) \<and> length tbl = nb \<and>
        (\<forall>x < nb. tbl ! x < length zs \<and> zoff zs (tbl ! x) \<le> x * unat sp)"
    if "oob (length zs) = Some v" "ztotal zs \<le> unat v" "unat v < 2 ^ 63" "unat sp \<le> ztotal zs"
    using H nb that by simp
  show "length tbl = nb \<and> (\<forall>x < nb. tbl ! x < length zs \<and> zoff zs (tbl ! x) \<le> x * unat sp)"
    if "raid0_hash fuel oob zs sp nb 0 (zone_size (zs ! 0)) = Some (Inr tbl)"
    using raid0_hash_entries [OF zs(2) Suc_leD [OF fuel] zne z0, of "nb - 1" oob tbl] nb that by simp
qed

lemma raid0_conf_wf:
  assumes M: "raid0_members k md" and ds: "mset ds = mset (md_disks md)" and z: "zones_from ds 0 zs"
    and tot: "ztotal zs = sizes (md_disks md)" and sp: "0 < unat sp" "unat sp \<le> ztotal zs"
    and tbl: "length tbl = nb_zones (ztotal zs) (unat sp)"
      "\<forall>x < length tbl. tbl ! x < length zs \<and> zoff zs (tbl ! x) \<le> x * unat sp"
  shows "raid0_ok (md_chunk_size md, \<lparr>r0_hash_table = tbl, r0_strip_zone = zs, r0_hash_spacing = sp, r0_preshift = 0\<rparr>)"
proof -
  note W = raid0_zones_wf [OF M ds z]
  have T: "0 < ztotal zs" "ztotal zs < 2 ^ 32" using M tot by (auto simp: raid0_members_def Let_def)
  have "inj_on rd_bdev (set (md_disks md))" using M by (simp add: raid0_members_def Let_def distinct_map)
  then have inj: "zone_member (zs ! i) d = zone_member (zs ! j) e"
    if "i < length zs" "d < zdevs (zs ! i)" "j < length zs" "e < zdevs (zs ! j)"
      "rd_bdev (zone_member (zs ! i) d) = rd_bdev (zone_member (zs ! j) e)" for i d j e
    using that W(4) by (metis inj_onD)
  have lt: "x < length tbl" if "x * unat sp < ztotal zs" for x
  proof -
    have "ztotal zs \<le> length tbl * unat sp"
      using ceil_bounds(3) [OF sp(1) T(1)] by (simp add: tbl(1) nb_zones_def)
    with that have "x * unat sp < length tbl * unat sp" by (rule less_le_trans)
    then show ?thesis by simp
  qed
  have "raid0_wf k \<lparr>r0_hash_table = tbl, r0_strip_zone = zs, r0_hash_spacing = sp, r0_preshift = 0\<rparr>"
    unfolding raid0_wf_def Let_def using W(1-3) inj lt tbl(2) sp T by simp
  moreover have "k \<le> 21" "unat (md_chunk_size md) = 2 ^ (k + 10)"
    using M by (simp_all add: raid0_members_def Let_def)
  ultimately show ?thesis by (auto simp: raid0_ok_def)
qed

text \<open>\<open>raid0_run\<close> up to its hash loop.\<close>

lemma raid0_run_to_hash:
  assumes M: "raid0_members k md"
  shows "\<exists>ds zs sp md'. mset ds = mset (md_disks md) \<and> (\<forall>j < length ds. rd_raid_disk (ds ! j) = int j) \<and>
    zones_from ds 0 zs \<and> length zs = card (rd_size ` set (md_disks md)) \<and> ztotal zs = sizes (md_disks md) \<and>
    0 < unat sp \<and> unat sp \<le> ztotal zs \<and> unat (md_array_size md') = sizes (md_disks md) \<and>
    (\<forall>fuel oob. raid0_run fuel oob (True, True, True, True) md =
      (case raid0_hash fuel oob zs sp (nb_zones (ztotal zs) (unat sp)) 0 (zone_size (zs ! 0)) of
        None \<Rightarrow> None
      | Some (Inl e) \<Rightarrow> Some (Inl e)
      | Some (Inr tbl) \<Rightarrow> Some (Inr (0, md',
          Some \<lparr>r0_hash_table = tbl, r0_strip_zone = zs, r0_hash_spacing = sp, r0_preshift = 0\<rparr>))))"
proof -
  let ?rs = "md_disks md"
  define md1 where "md1 = md\<lparr>md_queue := blk_queue_segment_boundary
    (blk_queue_max_sectors (md_queue md) (ucast (drop_bit 9 (md_chunk_size md)))) (drop_bit 1 (md_chunk_size md) - 1)\<rparr>"
  have md1: "md_disks md1 = ?rs" "md_chunk_size md1 = md_chunk_size md" "md_raid_disks md1 = md_raid_disks md"
    by (simp_all add: md1_def)
  then have M1: "raid0_members k md1" using M by (simp add: raid0_members_def)
  obtain q ds zs sp where cs: "create_strip_zones True True md1 = Inr (q, Some (zs, sp))"
    and ds: "mset ds = mset ?rs" "\<forall>j < length ds. rd_raid_disk (ds ! j) = int j"
    and z: "zones_from ds 0 zs" and len: "length zs = card (rd_size ` set ?rs)"
    and sp: "0 < unat sp" "unat sp \<le> sizes ?rs"
    using create_strip_zones_spec [OF M1] unfolding md1 by blast
  have T: "sizes ?rs < 2 ^ 32" using M by (simp_all add: raid0_members_def Let_def)
  have "sizes ds = sizes ?rs" using ds(1) by (metis mset_map sum_mset_sum_list)
  then have zt: "ztotal zs = sizes ?rs" using zones_from_total [OF z] by (simp add: stripe_fill_def)
  define A where "A = foldl (\<lambda>a r. a + rd_size r) (0 :: u64) ?rs"
  have A: "unat A = sizes ?rs" using array_size_sum [of 0 ?rs] T by (simp add: A_def)
  define w where "w = (ucast (fst (sector_div A sp)) + (if snd (sector_div A sp) \<noteq> 0 then 1 else 0) :: u32)"
  have "unat w = unat A div unat sp + (if unat A mod unat sp \<noteq> 0 then 1 else 0)"
    unfolding w_def using A T sp by (intro nb_zone_word) simp_all
  then have w: "unat w = nb_zones (ztotal zs) (unat sp)" unfolding nb_zones_def A zt .
  have shift: "raid0_preshift A sp 0 = (A, sp, 0)"
    using sp(2) T by (simp add: raid0_preshift.simps [of A sp] word_less_nat_alt)
  have "raid0_run fuel oob (True, True, True, True) md =
     (case raid0_hash fuel oob zs sp (nb_zones (ztotal zs) (unat sp)) 0 (zone_size (zs ! 0)) of
        None \<Rightarrow> None
      | Some (Inl e) \<Rightarrow> Some (Inl e)
      | Some (Inr tbl) \<Rightarrow> Some (Inr (0, md1\<lparr>md_queue := blk_queue_merge_bvec (raid0_ra_pages
            (md1\<lparr>md_queue := q, md_array_size := A\<rparr>) q), md_array_size := A\<rparr>,
          Some \<lparr>r0_hash_table = tbl, r0_strip_zone = zs, r0_hash_spacing = sp, r0_preshift = 0\<rparr>)))" for fuel oob
    unfolding raid0_run_def Let_def prod.case md1_def [symmetric]
    by (simp add: cs md1 A_def [symmetric] shift case_prod_unfold w_def [symmetric] w
        split: option.split sum.split)
  moreover have "unat (md_array_size (md1\<lparr>md_queue := blk_queue_merge_bvec (raid0_ra_pages
            (md1\<lparr>md_queue := q, md_array_size := A\<rparr>) q), md_array_size := A\<rparr>)) = sizes ?rs" using A by simp
  ultimately show ?thesis using ds z len zt sp by metis
qed

lemma raid0_run_wf:
  assumes M: "raid0_members k md" and fuel: "length (md_disks md) < fuel"
  shows "raid0_run fuel oob (True, True, True, True) md = Some (Inr r) \<Longrightarrow> \<exists>md' c ds. r = (0, md', Some c) \<and>
      raid0_ok (md_chunk_size md, c) \<and> unat (md_array_size md') = sizes (md_disks md) \<and>
      ztotal (r0_strip_zone c) = sizes (md_disks md) \<and>
      mset ds = mset (md_disks md) \<and> (\<forall>j < length ds. rd_raid_disk (ds ! j) = int j) \<and>
      zones_from ds 0 (r0_strip_zone c)"
    "oob (card (rd_size ` set (md_disks md))) = Some v \<Longrightarrow> sizes (md_disks md) \<le> unat v \<Longrightarrow> unat v < 2 ^ 63 \<Longrightarrow>
      \<exists>r. raid0_run fuel oob (True, True, True, True) md = Some (Inr r)"
proof -
  let ?rs = "md_disks md"
  obtain ds zs sp md' where ds: "mset ds = mset ?rs" "\<forall>j < length ds. rd_raid_disk (ds ! j) = int j"
    and z: "zones_from ds 0 zs" "length zs = card (rd_size ` set ?rs)" "ztotal zs = sizes ?rs"
    and sp: "0 < unat sp" "unat sp \<le> ztotal zs" and A: "unat (md_array_size md') = sizes ?rs"
    and run: "\<And>fuel oob. raid0_run fuel oob (True, True, True, True) md =
      (case raid0_hash fuel oob zs sp (nb_zones (ztotal zs) (unat sp)) 0 (zone_size (zs ! 0)) of
        None \<Rightarrow> None
      | Some (Inl e) \<Rightarrow> Some (Inl e)
      | Some (Inr tbl) \<Rightarrow> Some (Inr (0, md',
          Some \<lparr>r0_hash_table = tbl, r0_strip_zone = zs, r0_hash_spacing = sp, r0_preshift = 0\<rparr>)))"
    using raid0_run_to_hash [OF M] by metis
  have T: "0 < ztotal zs" "ztotal zs < 2 ^ 32" using M z(3) by (auto simp: raid0_members_def Let_def)
  have "card (rd_size ` set ?rs) \<le> length ?rs" by (metis card_image_le card_length finite_set order_trans)
  then have fz: "Suc (length zs) \<le> fuel" using fuel z(2) by simp
  note H = raid0_hash_whole [OF T sp(1) fz, of oob]
  show "\<exists>r. raid0_run fuel oob (True, True, True, True) md = Some (Inr r)"
    if "oob (card (rd_size ` set ?rs)) = Some v" "sizes ?rs \<le> unat v" "unat v < 2 ^ 63"
    using H(2) [of v] that z(2,3) sp(2) run by auto
  show "\<exists>md' c ds. r = (0, md', Some c) \<and> raid0_ok (md_chunk_size md, c) \<and> unat (md_array_size md') = sizes ?rs \<and>
      ztotal (r0_strip_zone c) = sizes ?rs \<and> mset ds = mset ?rs \<and> (\<forall>j < length ds. rd_raid_disk (ds ! j) = int j) \<and>
      zones_from ds 0 (r0_strip_zone c)" if R: "raid0_run fuel oob (True, True, True, True) md = Some (Inr r)"
  proof -
    obtain tbl where tbl: "raid0_hash fuel oob zs sp (nb_zones (ztotal zs) (unat sp)) 0 (zone_size (zs ! 0)) = Some (Inr tbl)"
        "r = (0, md', Some \<lparr>r0_hash_table = tbl, r0_strip_zone = zs, r0_hash_spacing = sp, r0_preshift = 0\<rparr>)"
      using R unfolding run by (auto split: option.splits sum.splits)
    have "length tbl = nb_zones (ztotal zs) (unat sp)" "\<forall>x < length tbl. tbl ! x < length zs \<and> zoff zs (tbl ! x) \<le> x * unat sp"
      using H(3) [OF tbl(1)] by simp_all
    note raid0_conf_wf [OF M ds(1) z(1,3) sp this]
    with tbl(2) A z ds show ?thesis by auto
  qed
qed

lemma raid0_run_overruns:
  assumes M: "raid0_members k md" and oob: "oob (card (rd_size ` set (md_disks md))) = None"
    and fuel: "length (md_disks md) < fuel"
  shows "raid0_run fuel oob (True, True, True, True) md = Some (Inl OutOfBounds)"
proof -
  let ?rs = "md_disks md"
  obtain zs sp md' where z: "length zs = card (rd_size ` set ?rs)" "ztotal zs = sizes ?rs" and sp: "0 < unat sp"
    and run: "raid0_run fuel oob (True, True, True, True) md =
      (case raid0_hash fuel oob zs sp (nb_zones (ztotal zs) (unat sp)) 0 (zone_size (zs ! 0)) of
        None \<Rightarrow> None
      | Some (Inl e) \<Rightarrow> Some (Inl e)
      | Some (Inr tbl) \<Rightarrow> Some (Inr (0, md',
          Some \<lparr>r0_hash_table = tbl, r0_strip_zone = zs, r0_hash_spacing = sp, r0_preshift = 0\<rparr>)))"
    using raid0_run_to_hash [OF M] by metis
  have T: "0 < ztotal zs" "ztotal zs < 2 ^ 32" using M z(2) by (auto simp: raid0_members_def Let_def)
  have "card (rd_size ` set ?rs) \<le> length ?rs" by (metis card_image_le card_length finite_set order_trans)
  then have "Suc (length zs) \<le> fuel" using fuel z(1) by simp
  from raid0_hash_whole(1) [OF T sp this, of oob] oob z(1) run show ?thesis by simp
qed

subsection \<open>Properties\<close>

text \<open>C21. For members that are numbered properly and hold whole chunks, and whatever is in memory
  behind the zone array: when \<open>raid0_run\<close> returns it has succeeded, the array's size is the
  sum of the members' sizes, the zones are the striping of the members in the order of their
  numbers (one zone per distinct size, each over the members longer than the zones below), and
  the hash table leads every block to its zone. It does return when the word that the hash loop reads
  behind the array is at least the size of the array, and below \<open>2 ^ 63\<close>; a smaller one lets the loop read on.\<close>

theorem raid0_run_establishes:
  assumes "raid0_members k md" "length (md_disks md) < fuel"
  shows "(\<forall>r. raid0_run fuel oob (True, True, True, True) md = Some (Inr r) \<longrightarrow>
      (\<exists>md' c ds. r = (0, md', Some c) \<and>
        raid0_ok (md_chunk_size md, c) \<and> unat (md_array_size md') = sizes (md_disks md) \<and>
        ztotal (r0_strip_zone c) = sizes (md_disks md) \<and>
        mset ds = mset (md_disks md) \<and> (\<forall>j < length ds. rd_raid_disk (ds ! j) = int j) \<and>
        zones_from ds 0 (r0_strip_zone c))) \<and>
    (\<forall>v. oob (card (rd_size ` set (md_disks md))) = Some v \<and> sizes (md_disks md) \<le> unat v \<and> unat v < 2 ^ 63 \<longrightarrow>
      (\<exists>r. raid0_run fuel oob (True, True, True, True) md = Some (Inr r)))"
  using raid0_run_wf [OF assms] by blast

lemma ex_raid0_members: "raid0_members 6 (ex_mddev [ex_rdev 7 640 1, ex_rdev 6 1024 0])"
  by (simp add: raid0_members_def ex_mddev_def ex_rdev_def Let_def)

theorem raid0_run_establishes_witness:
  "\<exists>md' c. raid0_run 5 (\<lambda>_. Some 4096) (True, True, True, True) (ex_mddev [ex_rdev 7 640 1, ex_rdev 6 1024 0]) =
      Some (Inr (0, md', Some c)) \<and> unat (md_array_size md') = 1664"
proof -
  note E = raid0_run_establishes [OF ex_raid0_members, of 5 "\<lambda>_. Some 4096"]
  have "\<exists>r. raid0_run 5 (\<lambda>_. Some 4096) (True, True, True, True) (ex_mddev [ex_rdev 7 640 1, ex_rdev 6 1024 0]) = Some (Inr r)"
    using E by (simp add: ex_mddev_def ex_rdev_def)
  then show ?thesis using E by (fastforce simp: ex_mddev_def ex_rdev_def)
qed

text \<open>C37. The loop that fills the hash table never stops inside the zones: in its last turn it
  always reads the size of the strip zone behind the last one, so that with memory protection
  behind the array every start of a raid0 array would trap.\<close>

theorem raid0_run_reads_past_zones:
  assumes "raid0_members k md" "oob (card (rd_size ` set (md_disks md))) = None"
    "length (md_disks md) < fuel"
  shows "raid0_run fuel oob (True, True, True, True) md = Some (Inl OutOfBounds)"
  using assms by (rule raid0_run_overruns)

theorem raid0_run_reads_past_zones_witness:
  "raid0_run 5 (\<lambda>_. None) (True, True, True, True) (ex_mddev [ex_rdev 7 640 1, ex_rdev 6 1024 0]) =
    Some (Inl OutOfBounds)"
  using raid0_run_reads_past_zones [OF ex_raid0_members, of "\<lambda>_. None" 5] by (simp add: ex_mddev_def)

text \<open>C23. A one-page request inside the array is served completely, whatever chunks and zones it
  spans: the requests that are submitted cover exactly the places of its sectors, in order;
  none ends in an I/O error and no \<open>BUG_ON\<close> fires.\<close>

theorem raid0_make_request_places:
  assumes "raid0_ok (cb, c)" "page_bio b n" "0 < n"
    "unat (bi_sector b) + n \<le> 2 * ztotal (r0_strip_zone c)"
  shows "\<exists>stats' ret b' evs. raid0_make_request n cb c stats b = Some (Inr (stats', ret, b', evs)) \<and>
    reached ret b' evs = map (raid0_loc (cb, c)) [unat (bi_sector b)..<unat (bi_sector b) + n]"
  using raid0.request_reaches [OF assms(1-3) order_refl] assms(4) by simp

text \<open>The configuration of the example: 1280 blocks striped over two members, then 384 blocks
  on the longer one.\<close>

definition ex_raid0 :: raid0_conf where
  "ex_raid0 = \<lparr>r0_hash_table = [0, 1],
     r0_strip_zone =
       [\<lparr>zone_offset = 0, dev_offset = 0, zone_size = 1280, nb_dev = 2,
         zone_dev = [Some (ex_rdev 6 1024 0), Some (ex_rdev 7 640 1)]\<rparr>,
        \<lparr>zone_offset = 1280, dev_offset = 640, zone_size = 384, nb_dev = 1,
         zone_dev = [Some (ex_rdev 6 1024 0), None]\<rparr>],
     r0_hash_spacing = 1280, r0_preshift = 0\<rparr>"

lemma less_2_cases: "i < (2::nat) \<Longrightarrow> i = 0 \<or> i = 1"
  by auto

lemma ex_raid0_ok: "raid0_ok (65536, ex_raid0)"
proof -
  have x: "x = 0 \<or> x = 1" if "x * 1280 < 1664" for x :: nat using that by auto
  have "\<forall>i < length (r0_strip_zone ex_raid0). zone_ok 6 (r0_strip_zone ex_raid0 ! i) \<and>
      unat (zone_offset (r0_strip_zone ex_raid0 ! i)) = zoff (r0_strip_zone ex_raid0) i \<and>
      (\<forall>j < i. zbase (r0_strip_zone ex_raid0 ! j) + zheight (r0_strip_zone ex_raid0 ! j) \<le>
        zbase (r0_strip_zone ex_raid0 ! i))"
    by (auto simp: ex_raid0_def zone_ok_def zheight_def prefix_sum_def ex_rdev_def less_Suc_eq
        dest!: less_2_cases)
  moreover have "\<forall>x. x * 1280 < 1664 \<longrightarrow> x < length (r0_hash_table ex_raid0) \<and>
      r0_hash_table ex_raid0 ! x < 2 \<and> zoff (r0_strip_zone ex_raid0) (r0_hash_table ex_raid0 ! x) \<le> x * 1280"
  proof (intro allI impI)
    fix x :: nat assume "x * 1280 < 1664"
    from x [OF this] show "x < length (r0_hash_table ex_raid0) \<and> r0_hash_table ex_raid0 ! x < 2 \<and>
        zoff (r0_strip_zone ex_raid0) (r0_hash_table ex_raid0 ! x) \<le> x * 1280"
      by (auto simp: ex_raid0_def prefix_sum_def)
  qed
  moreover have "zone_member (r0_strip_zone ex_raid0 ! i) d = (if i = 0 \<and> d = 1 then ex_rdev 7 640 1 else ex_rdev 6 1024 0)"
    if "i < 2" "d < zdevs (r0_strip_zone ex_raid0 ! i)" for i d
    using less_2_cases [OF that(1)] that(2)
    by (auto simp: ex_raid0_def zone_member_def dest!: less_2_cases)
  moreover have "ztotal (r0_strip_zone ex_raid0) = 1664" "length (r0_strip_zone ex_raid0) = 2"
    "r0_hash_spacing ex_raid0 = 1280" "r0_preshift ex_raid0 = 0"
    by (simp_all add: ex_raid0_def prefix_sum_def)
  ultimately have "raid0_wf 6 ex_raid0" by (simp add: raid0_wf_def ex_rdev_def)
  then show ?thesis by (auto simp: raid0_ok_def intro!: exI [of _ 6])
qed

theorem raid0_make_request_places_witness:
  "\<exists>stats' ret b' evs. raid0_make_request 8 65536 ex_raid0 no_stats
      ((one_sector 2556)\<lparr>bi_size := 4096\<rparr>) = Some (Inr (stats', ret, b', evs)) \<and>
    reached ret b' evs = map (raid0_loc (65536, ex_raid0)) [2556..<2564]"
  using raid0_make_request_places [OF ex_raid0_ok, of "(one_sector 2556)\<lparr>bi_size := 4096\<rparr>" 8 no_stats]
  by (simp add: page_bio_def one_sector_def ex_raid0_def prefix_sum_def)

text \<open>C5. Striping keeps sectors apart: after any writes to logical sectors, a sector reads as
  the last value written to it, or as it was before.\<close>

theorem raid0_array_is_a_disk:
  assumes "raid0_ok (cb, c)" "s < 2 * ztotal (r0_strip_zone c)"
    "\<forall>(t, v) \<in> set ws. t < 2 * ztotal (r0_strip_zone c)"
  shows "array_read (raid0_loc (cb, c)) (array_writes (raid0_loc (cb, c)) d ws) s =
    (case map_of (rev ws) s of Some v \<Rightarrow> v | None \<Rightarrow> array_read (raid0_loc (cb, c)) d s)"
  using raid0.read_writes [OF assms(1)] assms(2,3) by simp

theorem raid0_array_is_a_disk_witness:
  "array_read (raid0_loc (65536, ex_raid0))
    (array_writes (raid0_loc (65536, ex_raid0)) (\<lambda>_. 0) [(2560, 1), (128, 2::nat)]) 2560 = 1"
  using raid0_array_is_a_disk [OF ex_raid0_ok, of 2560 "[(2560, 1), (128, 2::nat)]" "\<lambda>_. 0"]
  by (simp add: ex_raid0_def prefix_sum_def)

end
