(* ===== verification/Md_Raid1.thy ===== *)
theory Md_Raid1
  imports Block
begin

text \<open>
  The md driver's mirroring personality, \<open>drivers/md/raid1.c\<close> (the firmware's RAID 1 mode), with the parts of
  \<open>drivers/md/md.c\<close> that drive the rebuild of a replaced disk. A write goes to every working disk and ends when all of them
  have ended it, a read goes to one disk and is repeated on another one when it fails, a disk that fails is taken out of the
  array, and a new disk is filled by the resync thread while the array is in use.

  Requests, the completion of their parts (in interrupt context), the daemon \<open>raid1d\<close> and the resync thread interleave. The
  model has one function per atomic section: what runs between two points at which the code sleeps, enables the next
  interrupt or hands a request to a disk. An event chooses the section that runs next, and what a disk does: a part of a
  request ends with success or with an error, and a write that fails leaves any contents behind. Sectors are 64-bit words.
  The contents of a disk belong to its \<open>mdk_rdev_t\<close>; a read takes them at its completion.
\<close>

subsection \<open>Disks and requests\<close>

type_synonym block = "u8 list"

abbreviation MaxSector :: sector_t where "MaxSector \<equiv> - 1"
abbreviation RESYNC_SECTORS :: sector_t where "RESYNC_SECTORS \<equiv> 128"
abbreviation RESYNC_PAGES :: nat where "RESYNC_PAGES \<equiv> 16"
abbreviation RESYNC_DEPTH :: int where "RESYNC_DEPTH \<equiv> 32"

record r1_rdev =
  rv_in_sync :: bool
  rv_faulty :: bool
  rv_pending :: int
  rv_data_offset :: sector_t
  rv_raid_disk :: int
  rv_disk :: "sector_t \<Rightarrow> block"

record mirror_info =
  m_rdev :: "r1_rdev option"
  head_position :: sector_t

text \<open>The state of \<open>bios[i]\<close>: no request for this disk, one that is chosen but not sent, one that the disk has, and one that has
  ended. In a resync request a chosen part is one whose \<open>bi_end_io\<close> is \<open>end_sync_write\<close>.\<close>

datatype part = NoPart | Picked | Sent | Good | Failed

text \<open>How far the code that started the request is: it has registered the request, it is in the loop over the disks, it has
  returned.\<close>

datatype stage = Entered | Issue nat | Issued

text \<open>\<open>r_data\<close> is the contents of the request's pages, by sector of the array.\<close>

record r1bio =
  remaining :: int
  r_sector :: sector_t
  r_sectors :: u32
  r_uptodate :: bool
  r_is_sync :: bool
  r_is_write :: bool
  read_disk :: nat
  bios :: "part list"
  r_stage :: stage
  r_data :: "sector_t \<Rightarrow> block"

text \<open>The resync thread, with its position: waiting for other arrays (with the flag \<open>MD_RECOVERY_SYNC\<close>), in the loop of \<open>md_do_sync\<close>, in
  \<open>device_barrier\<close> (with the flag that it has raised the barrier first), behind it, after the loop, finished.\<close>

datatype sync_pc = SyncIdle | SyncWait bool | SyncLoop sector_t | SyncUp bool sector_t | SyncIn sector_t | SyncOut sector_t | SyncDone sector_t

text \<open>\<open>conf_t\<close> and the fields of \<open>mddev_t\<close> that raid1 uses. \<open>reqs\<close> are the \<open>r1bio_t\<close> in use, \<open>ended\<close> those whose request has been
  answered, latest first.\<close>

record raid1 =
  mirrors :: "mirror_info list"
  working_disks :: int
  last_used :: nat
  next_seq_sect :: sector_t
  retry_list :: "nat list"
  nr_pending :: int
  barrier :: int
  next_resync :: sector_t
  degraded :: int
  recovery_cp :: sector_t
  md_size :: sector_t
  recovery_err :: bool
  recovery_intr :: bool
  recovery_active :: int
  sync_thread :: sync_pc
  reqs :: "r1bio option list"
  ended :: "r1bio list"

abbreviation raid_disks :: "raid1 \<Rightarrow> nat" where "raid_disks s \<equiv> length (mirrors s)"
abbreviation max_sector :: "raid1 \<Rightarrow> sector_t" where "max_sector s \<equiv> push_bit 1 (md_size s)"

definition rdev_at :: "raid1 \<Rightarrow> nat \<Rightarrow> r1_rdev option" where
  "rdev_at s i = (if i < raid_disks s then m_rdev (mirrors s ! i) else None)"

definition upd_rdev :: "nat \<Rightarrow> (r1_rdev \<Rightarrow> r1_rdev) \<Rightarrow> raid1 \<Rightarrow> raid1" where
  "upd_rdev i f s = s\<lparr>mirrors := (mirrors s)[i := (mirrors s ! i)\<lparr>m_rdev := map_option f (m_rdev (mirrors s ! i))\<rparr>]\<rparr>"

definition upd_req :: "nat \<Rightarrow> (r1bio \<Rightarrow> r1bio) \<Rightarrow> raid1 \<Rightarrow> raid1" where
  "upd_req n f s = s\<lparr>reqs := (reqs s)[n := map_option f (reqs s ! n)]\<rparr>"

definition req_at :: "raid1 \<Rightarrow> nat \<Rightarrow> r1bio option" where
  "req_at s n = (if n < length (reqs s) then reqs s ! n else None)"

text \<open>The sectors of a request, and the effect of a write on a disk.\<close>

definition covers :: "r1bio \<Rightarrow> sector_t \<Rightarrow> bool" where
  "covers r x \<longleftrightarrow> x - r_sector r < ucast (r_sectors r)"

definition view :: "r1_rdev \<Rightarrow> sector_t \<Rightarrow> block" where
  "view rd x = rv_disk rd (x + rv_data_offset rd)"

definition store :: "r1bio \<Rightarrow> (sector_t \<Rightarrow> block) \<Rightarrow> r1_rdev \<Rightarrow> r1_rdev" where
  "store r d rd = rd\<lparr>rv_disk := (\<lambda>y. if covers r (y - rv_data_offset rd) then d (y - rv_data_offset rd) else rv_disk rd y)\<rparr>"

subsection \<open>Errors\<close>

definition raid1_error :: "nat \<Rightarrow> r1_rdev \<Rightarrow> raid1 \<Rightarrow> raid1" where
  "raid1_error i rd s =
     (if rv_in_sync rd \<and> working_disks s = 1 then s
      else
        let s = (if rv_in_sync rd then s\<lparr>degraded := degraded s + 1, working_disks := working_disks s - 1, recovery_err := True\<rparr> else s)
        in upd_rdev i (\<lambda>rd. rd\<lparr>rv_in_sync := False, rv_faulty := True\<rparr>) s)"

definition md_error :: "nat \<Rightarrow> raid1 \<Rightarrow> raid1" where
  "md_error i s =
     (case rdev_at s i of
        None \<Rightarrow> s
      | Some rd \<Rightarrow> if rv_faulty rd then s else (raid1_error i rd s)\<lparr>recovery_intr := True\<rparr>)"

definition rdev_dec_pending :: "nat \<Rightarrow> raid1 \<Rightarrow> raid1 res" where
  "rdev_dec_pending i s =
     (case rdev_at s i of None \<Rightarrow> Inl NullPointer | Some rd \<Rightarrow> Inr (upd_rdev i (\<lambda>rd. rd\<lparr>rv_pending := rv_pending rd - 1\<rparr>) s))"

definition md_done_sync :: "u32 \<Rightarrow> bool \<Rightarrow> raid1 \<Rightarrow> raid1" where
  "md_done_sync blocks ok s =
     s\<lparr>recovery_active := recovery_active s - sint blocks, recovery_err := (recovery_err s \<or> \<not> ok)\<rparr>"

subsection \<open>The end of a request\<close>

definition free_r1bio :: "nat \<Rightarrow> raid1 \<Rightarrow> raid1" where
  "free_r1bio n s = s\<lparr>nr_pending := nr_pending s - 1, reqs := (reqs s)[n := None]\<rparr>"

definition put_buf :: "nat \<Rightarrow> raid1 \<Rightarrow> raid1 res" where
  "put_buf n s =
     (if barrier s = 0 then Inl BUG
      else Inr (s\<lparr>barrier := barrier s - 1, nr_pending := nr_pending s - 1, reqs := (reqs s)[n := None]\<rparr>))"

definition raid_end_bio_io :: "nat \<Rightarrow> r1bio \<Rightarrow> raid1 \<Rightarrow> raid1" where
  "raid_end_bio_io n r s = free_r1bio n (s\<lparr>ended := r # ended s\<rparr>)"

definition reschedule_retry :: "nat \<Rightarrow> raid1 \<Rightarrow> raid1" where
  "reschedule_retry n s = s\<lparr>retry_list := n # retry_list s\<rparr>"

definition update_head_pos :: "nat \<Rightarrow> r1bio \<Rightarrow> raid1 \<Rightarrow> raid1" where
  "update_head_pos i r s =
     s\<lparr>mirrors := (mirrors s)[i := (mirrors s ! i)\<lparr>head_position := r_sector r + scast (r_sectors r)\<rparr>]\<rparr>"

text \<open>A part of a request ends. The disk \<open>i\<close> is the one that the code finds by comparing the pointers in \<open>bios\<close>.\<close>

definition raid1_end_read_request :: "nat \<Rightarrow> r1bio \<Rightarrow> bool \<Rightarrow> raid1 \<Rightarrow> raid1 res" where
  "raid1_end_read_request n r uptodate s =
     (let mirror = read_disk r;
          r = r\<lparr>bios := (bios r)[mirror := if uptodate then Good else Failed]\<rparr>;
          (r, s) = (if \<not> uptodate then (r, md_error mirror s) else (r\<lparr>r_uptodate := True\<rparr>, s));
          s = update_head_pos mirror r (upd_req n (\<lambda>_. r) s);
          s = (if uptodate then raid_end_bio_io n r s else reschedule_retry n s)
      in rdev_dec_pending mirror s)"

definition raid1_end_write_request :: "nat \<Rightarrow> r1bio \<Rightarrow> nat \<Rightarrow> bool \<Rightarrow> raid1 \<Rightarrow> raid1 res" where
  "raid1_end_write_request n r mirror uptodate s =
     (let r = r\<lparr>bios := (bios r)[mirror := if uptodate then Good else Failed]\<rparr>;
          (r, s) = (if \<not> uptodate then (r, md_error mirror s) else (r\<lparr>r_uptodate := True\<rparr>, s));
          r = r\<lparr>remaining := remaining r - 1\<rparr>;
          s = update_head_pos mirror r (upd_req n (\<lambda>_. r) s);
          s = (if remaining r = 0 then raid_end_bio_io n r s else s)
      in rdev_dec_pending mirror s)"

definition end_sync_read :: "nat \<Rightarrow> r1bio \<Rightarrow> bool \<Rightarrow> raid1 \<Rightarrow> raid1 res" where
  "end_sync_read n r uptodate s =
     (let mirror = read_disk r;
          r = r\<lparr>bios := (bios r)[mirror := if uptodate then Good else Failed]\<rparr>;
          s = update_head_pos mirror r s;
          (r, s) = (if \<not> uptodate then (r, md_error mirror s) else (r\<lparr>r_uptodate := True\<rparr>, s))
      in bind_res (rdev_dec_pending mirror (upd_req n (\<lambda>_. r) s)) (\<lambda>s. Inr (reschedule_retry n s)))"

definition end_sync_write :: "nat \<Rightarrow> r1bio \<Rightarrow> nat \<Rightarrow> bool \<Rightarrow> raid1 \<Rightarrow> raid1 res" where
  "end_sync_write n r mirror uptodate s =
     (let r = r\<lparr>bios := (bios r)[mirror := if uptodate then Good else Failed]\<rparr>;
          s = (if \<not> uptodate then md_error mirror s else s);
          r = r\<lparr>remaining := remaining r - 1\<rparr>;
          s = update_head_pos mirror r (upd_req n (\<lambda>_. r) s)
      in bind_res (if remaining r = 0 then put_buf n (md_done_sync (r_sectors r) uptodate s) else Inr s) (rdev_dec_pending mirror))"

subsection \<open>The choice of a disk\<close>

definition in_sync_at :: "raid1 \<Rightarrow> nat \<Rightarrow> bool" where
  "in_sync_at s i = (case rdev_at s i of None \<Rightarrow> False | Some rd \<Rightarrow> rv_in_sync rd)"

text \<open>\<open>abs()\<close> is computed in an \<open>int\<close>.\<close>

definition kernel_abs :: "u64 \<Rightarrow> u64" where
  "kernel_abs x = (let y = (ucast x :: u32) in scast (if sint y < 0 then - y else y))"

definition prev_disk :: "nat \<Rightarrow> nat \<Rightarrow> nat" where
  "prev_disk n d = (if d = 0 then n else d) - 1"

text \<open>The number of steps back from \<open>d\<close> to \<open>e\<close>, at least one.\<close>

definition steps_back :: "nat \<Rightarrow> nat \<Rightarrow> nat \<Rightarrow> nat" where
  "steps_back n d e = (if e < d then d - e else d + n - e)"

lemma steps_back_prev: "d < n \<Longrightarrow> e < n \<Longrightarrow> prev_disk n d \<noteq> e \<Longrightarrow> steps_back n (prev_disk n d) e < steps_back n d e"
  by (auto simp: steps_back_def prev_disk_def)

lemma prev_disk_less: "d < n \<Longrightarrow> prev_disk n d < n"
  by (auto simp: prev_disk_def)

text \<open>The first disk in sync, going back from \<open>d\<close>, until \<open>e\<close> is reached again. The indices are below \<open>raid_disks\<close>, which the
  first test says.\<close>

function find_back :: "raid1 \<Rightarrow> nat \<Rightarrow> nat \<Rightarrow> nat option" where
  "find_back s e d =
     (if \<not> (d < raid_disks s \<and> e < raid_disks s) then None
      else if in_sync_at s d then Some d
      else
        let d' = prev_disk (raid_disks s) d
        in if d' = e then None else find_back s e d')"
  by pat_completeness auto
termination
  by (relation "measure (\<lambda>(s, e, d). steps_back (raid_disks s) d e)") (auto simp: steps_back_prev)

declare find_back.simps [simp del]

text \<open>The disk whose head is closest, or the first idle one.\<close>

function closest :: "raid1 \<Rightarrow> u32 \<Rightarrow> nat \<Rightarrow> nat \<Rightarrow> u64 \<Rightarrow> nat" where
  "closest s this_sector disk new_disk current_distance =
     (if \<not> (disk < raid_disks s \<and> last_used s < raid_disks s) then new_disk
      else
        let disk' = prev_disk (raid_disks s) disk;
            (stop, new_disk, current_distance) =
              (case rdev_at s disk' of
                 None \<Rightarrow> (False, new_disk, current_distance)
               | Some rd \<Rightarrow>
                   if \<not> rv_in_sync rd then (False, new_disk, current_distance)
                   else if rv_pending rd = 0 then (True, disk', current_distance)
                   else
                     let new_distance = kernel_abs (ucast this_sector - head_position (mirrors s ! disk'))
                     in if new_distance < current_distance then (False, disk', new_distance)
                        else (False, new_disk, current_distance))
        in if stop \<or> disk' = last_used s then new_disk
           else closest s this_sector disk' new_disk current_distance)"
  by pat_completeness auto
termination
  by (relation "measure (\<lambda>(s, t, d, nd, c). steps_back (raid_disks s) d (last_used s))") (auto simp: steps_back_prev)

declare closest.simps [simp del]

fun first_in_sync :: "raid1 \<Rightarrow> nat \<Rightarrow> nat \<Rightarrow> nat option" where
  "first_in_sync s 0 i = None"
| "first_in_sync s (Suc k) i = (if in_sync_at s i then Some i else first_in_sync s k (Suc i))"

text \<open>\<open>this_sector\<close> is an \<open>unsigned long\<close>.\<close>

definition choose_disk :: "raid1 \<Rightarrow> r1bio \<Rightarrow> nat option" where
  "choose_disk s r =
     (let this_sector = (ucast (r_sector r) :: u32)
      in if recovery_cp s < MaxSector \<and> next_resync s \<le> ucast (this_sector + r_sectors r)
         then first_in_sync s (raid_disks s) 0
         else case find_back s (last_used s) (last_used s) of
           None \<Rightarrow> None
         | Some disk \<Rightarrow>
             if next_seq_sect s = ucast this_sector \<or> ucast this_sector = head_position (mirrors s ! disk) then Some disk
             else Some (closest s this_sector disk disk (kernel_abs (ucast this_sector - head_position (mirrors s ! disk)))))"

text \<open>The test of \<open>in_sync\<close> after the increment of \<open>nr_pending\<close> concerns errors in between, which are events before or after
  this section.\<close>

definition read_balance :: "r1bio \<Rightarrow> raid1 \<Rightarrow> nat option \<times> raid1" where
  "read_balance r s =
     (case choose_disk s r of
        None \<Rightarrow> (None, s)
      | Some d \<Rightarrow>
          (Some d, upd_rdev d (\<lambda>rd. rd\<lparr>rv_pending := rv_pending rd + 1\<rparr>)
             (s\<lparr>next_seq_sect := ucast ((ucast (r_sector r) :: u32) + r_sectors r), last_used := d\<rparr>)))"

subsection \<open>Serving requests\<close>

text \<open>\<open>make_request\<close> in three sections: it registers the request when no barrier is up, it chooses the disks, and it sends a write
  to one disk after the other. The own count in \<open>remaining\<close> keeps a request open until the loop is through.\<close>

definition arrive :: "bool \<Rightarrow> sector_t \<Rightarrow> u32 \<Rightarrow> (sector_t \<Rightarrow> block) \<Rightarrow> raid1 \<Rightarrow> raid1" where
  "arrive write sector sectors data s =
     s\<lparr>nr_pending := nr_pending s + 1,
       reqs := reqs s @ [Some \<lparr>remaining = 0, r_sector = sector, r_sectors = sectors, r_uptodate = False, r_is_sync = False,
         r_is_write = write, read_disk = 0, bios = replicate (raid_disks s) NoPart, r_stage = Entered, r_data = data\<rparr>]\<rparr>"

definition start_read :: "nat \<Rightarrow> r1bio \<Rightarrow> raid1 \<Rightarrow> raid1" where
  "start_read n r s =
     (case read_balance r s of
        (None, s) \<Rightarrow> raid_end_bio_io n r s
      | (Some d, s) \<Rightarrow> upd_req n (\<lambda>r. r\<lparr>read_disk := d, bios := (bios r)[d := Sent], r_stage := Issued\<rparr>) s)"

definition usable :: "mirror_info \<Rightarrow> bool" where
  "usable m = (case m_rdev m of None \<Rightarrow> False | Some rd \<Rightarrow> \<not> rv_faulty rd)"

definition start_write :: "nat \<Rightarrow> r1bio \<Rightarrow> raid1 \<Rightarrow> raid1" where
  "start_write n r s =
     upd_req n (\<lambda>r. r\<lparr>bios := map (\<lambda>m. if usable m then Picked else NoPart) (mirrors s), remaining := 1, r_stage := Issue 0\<rparr>)
       (s\<lparr>mirrors := map (\<lambda>m. if usable m then m\<lparr>m_rdev := map_option (\<lambda>rd. rd\<lparr>rv_pending := rv_pending rd + 1\<rparr>) (m_rdev m)\<rparr> else m)
            (mirrors s)\<rparr>)"

text \<open>A turn of the loop that sends the parts, or its end. In \<open>sync_request_write\<close> the loop takes the references to the disks, too.\<close>

definition issue_part :: "nat \<Rightarrow> r1bio \<Rightarrow> nat \<Rightarrow> raid1 \<Rightarrow> raid1 res" where
  "issue_part n r k s =
     (if bios r ! k = Picked then
        case rdev_at s k of
          None \<Rightarrow> Inl NullPointer
        | Some rd \<Rightarrow>
            let s = (if r_is_sync r then upd_rdev k (\<lambda>rd. rd\<lparr>rv_pending := rv_pending rd + 1\<rparr>) s else s)
            in Inr (upd_req n (\<lambda>r. r\<lparr>bios := (bios r)[k := Sent], remaining := remaining r + 1, r_stage := Issue (Suc k)\<rparr>) s)
      else Inr (upd_req n (\<lambda>r. r\<lparr>r_stage := Issue (Suc k)\<rparr>) s))"

definition issue_end :: "nat \<Rightarrow> r1bio \<Rightarrow> raid1 \<Rightarrow> raid1 res" where
  "issue_end n r s =
     (let r = r\<lparr>remaining := remaining r - 1, r_stage := Issued\<rparr>;
          s = upd_req n (\<lambda>_. r) s
      in if remaining r = 0
         then if r_is_sync r then put_buf n (md_done_sync (r_sectors r) True s) else Inr (raid_end_bio_io n r s)
         else Inr s)"

text \<open>A turn of the loop of \<open>raid1d\<close>, with the oldest request of the list.\<close>

definition sync_request_write :: "nat \<Rightarrow> r1bio \<Rightarrow> raid1 \<Rightarrow> raid1 res" where
  "sync_request_write n r s =
     (if \<not> r_uptodate r then put_buf n (md_done_sync (r_sectors r) False s)
      else Inr (upd_req n (\<lambda>r. r\<lparr>remaining := 1, r_stage := Issue 0\<rparr>) s))"

definition retry_read :: "nat \<Rightarrow> r1bio \<Rightarrow> raid1 \<Rightarrow> raid1" where
  "retry_read n r s =
     (case read_balance r s of
        (None, s) \<Rightarrow> raid_end_bio_io n r s
      | (Some d, s) \<Rightarrow> upd_req n (\<lambda>r. r\<lparr>bios := ((bios r)[read_disk r := NoPart])[d := Sent], read_disk := d\<rparr>) s)"

definition raid1d :: "raid1 \<Rightarrow> raid1 res" where
  "raid1d s =
     (if retry_list s = [] then Inr s
      else
        let n = last (retry_list s); s = s\<lparr>retry_list := butlast (retry_list s)\<rparr>
        in case req_at s n of
             None \<Rightarrow> Inl NullPointer
           | Some r \<Rightarrow> if r_is_sync r then sync_request_write n r s else Inr (retry_read n r s))"

subsection \<open>Members come and go\<close>

fun free_slot :: "mirror_info list \<Rightarrow> nat option" where
  "free_slot [] = None"
| "free_slot (m # ms) = (if m_rdev m = None then Some 0 else map_option Suc (free_slot ms))"

definition raid1_add_disk :: "r1_rdev \<Rightarrow> raid1 \<Rightarrow> bool \<times> raid1" where
  "raid1_add_disk rd s =
     (case free_slot (mirrors s) of
        None \<Rightarrow> (False, s)
      | Some i \<Rightarrow> (True, s\<lparr>mirrors := (mirrors s)[i := \<lparr>m_rdev = Some (rd\<lparr>rv_raid_disk := int i\<rparr>), head_position = 0\<rparr>]\<rparr>))"

definition raid1_remove_disk :: "nat \<Rightarrow> raid1 \<Rightarrow> raid1 res" where
  "raid1_remove_disk i s =
     (case rdev_at s i of
        None \<Rightarrow> Inr s
      | Some rd \<Rightarrow>
          if rv_in_sync rd \<or> rv_pending rd \<noteq> 0 then Inl (Errno EBUSY)
          else Inr (s\<lparr>mirrors := (mirrors s)[i := (mirrors s ! i)\<lparr>m_rdev := None\<rparr>]\<rparr>))"

definition spare :: "mirror_info \<Rightarrow> bool" where
  "spare m = (case m_rdev m of None \<Rightarrow> False | Some rd \<Rightarrow> \<not> rv_faulty rd \<and> \<not> rv_in_sync rd)"

definition raid1_spare_active :: "raid1 \<Rightarrow> raid1" where
  "raid1_spare_active s =
     (let k = int (length (filter spare (mirrors s)))
      in s\<lparr>working_disks := working_disks s + k, degraded := degraded s - k,
           mirrors := map (\<lambda>m. if spare m then m\<lparr>m_rdev := map_option (\<lambda>rd. rd\<lparr>rv_in_sync := True\<rparr>) (m_rdev m)\<rparr> else m) (mirrors s)\<rparr>)"

subsection \<open>Resync\<close>

text \<open>\<open>device_barrier\<close>: the barrier is raised; then the thread waits, for the end of all requests when it raised it first.\<close>

definition barrier_up :: "sector_t \<Rightarrow> raid1 \<Rightarrow> raid1" where
  "barrier_up j s = s\<lparr>barrier := barrier s + 1, sync_thread := SyncUp (barrier s = 0) j\<rparr>"

definition barrier_pass :: "bool \<Rightarrow> sector_t \<Rightarrow> raid1 \<Rightarrow> raid1 res" where
  "barrier_pass first j s =
     (if first \<and> nr_pending s \<noteq> 0 then Inl BUG
      else Inr (s\<lparr>next_resync := j + RESYNC_SECTORS, sync_thread := SyncIn j\<rparr>))"

text \<open>The number of sectors when \<open>bio_add_page\<close> takes \<open>k\<close> pages.\<close>

primrec sync_fill :: "nat \<Rightarrow> sector_t \<Rightarrow> sector_t \<Rightarrow> sector_t" where
  "sync_fill 0 sector_nr lim = 0"
| "sync_fill (Suc k) sector_nr lim =
     (let n = (if lim < sector_nr + 8 then lim - sector_nr else 8)
      in if n = 0 then 0 else n + sync_fill k (sector_nr + n) lim)"

text \<open>\<open>sync_request\<close> behind the barrier, and what \<open>md_do_sync\<close> does with its result: it counts the sectors in \<open>recovery_active\<close>, which it
  reads again only when the loop is over. \<open>state\<close> is the bit \<open>R1BIO_Uptodate\<close> that the request has when it comes from the pool: nothing
  clears it, so that it may be set in a request that was in use before.\<close>

definition sync_part :: "raid1 \<Rightarrow> nat \<Rightarrow> sector_t \<Rightarrow> nat \<Rightarrow> part" where
  "sync_part s disk sector_nr i =
     (if i = disk then Sent
      else case rdev_at s i of
        None \<Rightarrow> NoPart
      | Some rd \<Rightarrow>
          if \<not> rv_faulty rd \<and> (\<not> rv_in_sync rd \<or> recovery_cp s < sector_nr + RESYNC_SECTORS) then Picked else NoPart)"

definition sync_request :: "nat \<Rightarrow> bool \<Rightarrow> sector_t \<Rightarrow> raid1 \<Rightarrow> raid1 res" where
  "sync_request pages state sector_nr s =
     (let disk = (case find_back s (last_used s) (last_used s) of Some d \<Rightarrow> d | None \<Rightarrow> last_used s)
      in case rdev_at s disk of
           None \<Rightarrow> Inl NullPointer
         | Some rd \<Rightarrow>
             let s = s\<lparr>last_used := disk\<rparr>;
                 parts = map (sync_part s disk sector_nr) [0..<raid_disks s]
             in if \<not> list_ex (\<lambda>p. p = Picked) parts then
                  let rv = (ucast (max_sector s - sector_nr) :: u32);
                      s = md_done_sync rv True s
                  in if barrier s = 0 then Inl BUG
                     else
                       let s = s\<lparr>barrier := barrier s - 1\<rparr>
                       in if sint rv < 0 then Inr (s\<lparr>recovery_err := True, sync_thread := SyncOut sector_nr\<rparr>)
                          else Inr (s\<lparr>recovery_active := recovery_active s + sint rv, sync_thread := SyncLoop (sector_nr + scast rv)\<rparr>)
                else
                  let nr_sectors = sync_fill pages sector_nr (max_sector s);
                      r = \<lparr>remaining = 0, r_sector = sector_nr, r_sectors = ucast nr_sectors, r_uptodate = state, r_is_sync = True,
                           r_is_write = False, read_disk = disk, bios = parts, r_stage = Issued, r_data = (\<lambda>_. [])\<rparr>
                  in Inr ((upd_rdev disk (\<lambda>rd. rd\<lparr>rv_pending := rv_pending rd + 1\<rparr>) s)
                       \<lparr>nr_pending := nr_pending s + 1, reqs := reqs s @ [Some r],
                        recovery_active := recovery_active s + sint (ucast nr_sectors :: u32),
                        sync_thread := SyncLoop (sector_nr + nr_sectors)\<rparr>))"

text \<open>The rest of \<open>md_do_sync\<close>, and the parts of \<open>md_check_recovery\<close> that start the thread and collect its result.\<close>

definition sync_leave :: "bool \<Rightarrow> sector_t \<Rightarrow> raid1 \<Rightarrow> raid1" where
  "sync_leave signal j s = s\<lparr>recovery_intr := (recovery_intr s \<or> signal), sync_thread := SyncOut j\<rparr>"

definition sync_close :: "sector_t \<Rightarrow> raid1 \<Rightarrow> raid1" where
  "sync_close j s =
     (let curr_resync = (if 1 < j then j else 2)
      in s\<lparr>recovery_cp :=
            (if \<not> recovery_err s \<and> 2 < curr_resync \<and> recovery_cp s \<le> curr_resync
             then if recovery_intr s then curr_resync else MaxSector else recovery_cp s),
           sync_thread := SyncDone j\<rparr>)"

definition recovery_reset :: "raid1 \<Rightarrow> raid1" where
  "recovery_reset s = s\<lparr>recovery_err := False, recovery_intr := False\<rparr>"

definition recovery_start :: "nat \<Rightarrow> raid1 \<Rightarrow> raid1" where
  "recovery_start spares s = s\<lparr>sync_thread := SyncWait (spares = 0)\<rparr>"

text \<open>The thread has waited for the resync of other arrays; or it has got a signal meanwhile.\<close>

definition sync_enter :: "bool \<Rightarrow> raid1 \<Rightarrow> raid1" where
  "sync_enter resync s = s\<lparr>recovery_active := 0, sync_thread := SyncLoop (if resync then recovery_cp s else 0)\<rparr>"

definition sync_skip :: "raid1 \<Rightarrow> raid1" where
  "sync_skip s = s\<lparr>sync_thread := SyncDone 0\<rparr>"

definition recovery_collect :: "raid1 \<Rightarrow> raid1" where
  "recovery_collect s =
     (let s = (if \<not> recovery_err s \<and> \<not> recovery_intr s then raid1_spare_active s else s)
      in s\<lparr>recovery_err := False, recovery_intr := False, sync_thread := SyncIdle\<rparr>)"

text \<open>\<open>run\<close>, for a mirrored array and without the failures of allocations.\<close>

fun assemble :: "r1_rdev list \<Rightarrow> mirror_info list \<times> int \<Rightarrow> mirror_info list \<times> int" where
  "assemble [] st = st"
| "assemble (rd # rds) (ms, working) =
     (if int (length ms) \<le> rv_raid_disk rd \<or> rv_raid_disk rd < 0 then assemble rds (ms, working)
      else assemble rds (ms[nat (rv_raid_disk rd) := \<lparr>m_rdev = Some rd, head_position = 0\<rparr>],
             if \<not> rv_faulty rd \<and> rv_in_sync rd then working + 1 else working))"

definition raid1_run :: "nat \<Rightarrow> sector_t \<Rightarrow> sector_t \<Rightarrow> r1_rdev list \<Rightarrow> raid1 res" where
  "raid1_run disks size' cp rds =
     (let (ms, working) = assemble rds (replicate disks \<lparr>m_rdev = None, head_position = 0\<rparr>, 0);
          s = \<lparr>mirrors = ms, working_disks = working, last_used = 0, next_seq_sect = 0, retry_list = [], nr_pending = 0, barrier = 0,
               next_resync = 0, degraded = int (length (filter (\<lambda>m. m_rdev m = None) ms)),
               recovery_cp = (if working = 1 then MaxSector else cp), md_size = size',
               recovery_err = False, recovery_intr = False, recovery_active = 0, sync_thread = SyncIdle, reqs = [], ended = []\<rparr>
      in if working = 0 then Inl (Errno EIO)
         else Inr (s\<lparr>last_used := (case first_in_sync s disks 0 of Some j \<Rightarrow> j | None \<Rightarrow> disks)\<rparr>))"

subsection \<open>The events\<close>

datatype r1_event =
    Arrive bool sector_t u32 "sector_t \<Rightarrow> block"
  | Start nat
  | IssueNext nat
  | EndRead nat bool
  | EndWrite nat nat bool "sector_t \<Rightarrow> block"
  | Daemon
  | FailDisk nat
  | AddDisk r1_rdev
  | RemoveDisk nat
  | RecoveryReset
  | RecoveryStart nat
  | SyncEnter
  | SyncSkip
  | BarrierUp
  | BarrierPass
  | SyncRequest nat bool
  | SyncLeave bool
  | SyncClose
  | RecoveryCollect

definition overlap :: "r1bio \<Rightarrow> sector_t \<Rightarrow> u32 \<Rightarrow> bool" where
  "overlap r sector sectors \<longleftrightarrow> covers r sector \<or> r_sector r - sector < ucast sectors"

text \<open>A request is inside the array, and it overlaps no other one unless both are reads: the page cache sees to that.\<close>

definition may_arrive :: "bool \<Rightarrow> sector_t \<Rightarrow> u32 \<Rightarrow> raid1 \<Rightarrow> bool" where
  "may_arrive write sector sectors s \<longleftrightarrow> barrier s = 0 \<and> 0 < sectors \<and> sector < max_sector s \<and> ucast sectors \<le> max_sector s - sector \<and>
     list_all (\<lambda>q. case q of None \<Rightarrow> True | Some r \<Rightarrow> r_is_sync r \<or> \<not> overlap r sector sectors \<or> \<not> write \<and> \<not> r_is_write r) (reqs s)"

definition on_req :: "raid1 \<Rightarrow> nat \<Rightarrow> (r1bio \<Rightarrow> raid1 res option) \<Rightarrow> raid1 res option" where
  "on_req s n f = (case req_at s n of None \<Rightarrow> None | Some r \<Rightarrow> f r)"

definition end_read :: "nat \<Rightarrow> r1bio \<Rightarrow> bool \<Rightarrow> raid1 \<Rightarrow> raid1 res" where
  "end_read n r ok s =
     (case rdev_at s (read_disk r) of
        None \<Rightarrow> Inl NullPointer
      | Some rd \<Rightarrow>
          let r = (if ok then r\<lparr>r_data := view rd\<rparr> else r)
          in if r_is_sync r then end_sync_read n r ok s else raid1_end_read_request n r ok s)"

definition end_write :: "nat \<Rightarrow> r1bio \<Rightarrow> nat \<Rightarrow> bool \<Rightarrow> (sector_t \<Rightarrow> block) \<Rightarrow> raid1 \<Rightarrow> raid1 res" where
  "end_write n r i ok junk s =
     (let s = upd_rdev i (store r (if ok then r_data r else junk)) s
      in if r_is_sync r then end_sync_write n r i ok s else raid1_end_write_request n r i ok s)"

fun r1_act :: "r1_event \<Rightarrow> raid1 \<Rightarrow> raid1 res option" where
  "r1_act (Arrive write sector sectors data) s =
     (if may_arrive write sector sectors s then Some (Inr (arrive write sector sectors data s)) else None)"
| "r1_act (Start n) s =
     on_req s n (\<lambda>r. if r_stage r = Entered then Some (Inr (if r_is_write r then start_write n r s else start_read n r s)) else None)"
| "r1_act (IssueNext n) s =
     on_req s n (\<lambda>r. case r_stage r of
         Issue k \<Rightarrow> Some (if k < raid_disks s then issue_part n r k s else issue_end n r s)
       | _ \<Rightarrow> None)"
| "r1_act (EndRead n ok) s =
     on_req s n (\<lambda>r. if r_stage r = Issued \<and> \<not> r_is_write r \<and> bios r ! read_disk r = Sent then Some (end_read n r ok s) else None)"
| "r1_act (EndWrite n i ok junk) s =
     on_req s n (\<lambda>r. if i < raid_disks s \<and> bios r ! i = Sent \<and> (r_is_write r \<or> r_is_sync r \<and> i \<noteq> read_disk r)
       then Some (end_write n r i ok junk s) else None)"
| "r1_act Daemon s = (if retry_list s = [] then None else Some (raid1d s))"
| "r1_act (FailDisk i) s = Some (Inr (md_error i s))"
| "r1_act (AddDisk rd) s =
     (if sync_thread s = SyncIdle \<and> 0 < degraded s \<and> rv_raid_disk rd < 0 \<and> \<not> rv_faulty rd \<and> \<not> rv_in_sync rd \<and> rv_pending rd = 0
      then Some (Inr (snd (raid1_add_disk rd s))) else None)"
| "r1_act (RemoveDisk i) s =
     (if sync_thread s = SyncIdle \<and> (case rdev_at s i of None \<Rightarrow> False | Some rd \<Rightarrow> (rv_faulty rd \<or> \<not> rv_in_sync rd) \<and> rv_pending rd = 0)
      then Some (raid1_remove_disk i s) else None)"
| "r1_act RecoveryReset s = (if sync_thread s = SyncIdle then Some (Inr (recovery_reset s)) else None)"
| "r1_act (RecoveryStart spares) s =
     (if sync_thread s = SyncIdle \<and> (spares = 0 \<longrightarrow> recovery_cp s \<noteq> MaxSector) then Some (Inr (recovery_start spares s)) else None)"
| "r1_act SyncEnter s = (case sync_thread s of SyncWait resync \<Rightarrow> Some (Inr (sync_enter resync s)) | _ \<Rightarrow> None)"
| "r1_act SyncSkip s = (case sync_thread s of SyncWait resync \<Rightarrow> Some (Inr (sync_skip s)) | _ \<Rightarrow> None)"
| "r1_act BarrierUp s =
     (case sync_thread s of SyncLoop j \<Rightarrow> if j < max_sector s then Some (Inr (barrier_up j s)) else None | _ \<Rightarrow> None)"
| "r1_act BarrierPass s =
     (case sync_thread s of
        SyncUp first j \<Rightarrow> if (first \<longrightarrow> nr_pending s = 0) \<and> barrier s < RESYNC_DEPTH then Some (barrier_pass first j s) else None
      | _ \<Rightarrow> None)"
| "r1_act (SyncRequest pages state) s =
     (case sync_thread s of
        SyncIn j \<Rightarrow> if 0 < pages \<and> pages \<le> RESYNC_PAGES then Some (sync_request pages state j s) else None
      | _ \<Rightarrow> None)"
| "r1_act (SyncLeave signal) s =
     (case sync_thread s of
        SyncLoop j \<Rightarrow>
          if max_sector s \<le> j \<or> recovery_err s \<or> recovery_intr s \<or> signal then Some (Inr (sync_leave signal j s)) else None
      | _ \<Rightarrow> None)"
| "r1_act SyncClose s =
     (case sync_thread s of
        SyncOut j \<Rightarrow> if recovery_active s = 0 \<and> barrier s = 0 then Some (Inr (sync_close j s)) else None
      | _ \<Rightarrow> None)"
| "r1_act RecoveryCollect s =
     (case sync_thread s of SyncDone j \<Rightarrow> Some (Inr (recovery_collect s)) | _ \<Rightarrow> None)"

text \<open>What the array should hold, beside the state of the code. \<open>spec\<close> is the contents of the last writes. It does not bind in \<open>bad\<close>
  sectors, whose contents are open for one of three reasons: a disk failed a write and stays in use when the write is answered; a
  disk failed to take a copy and stays in use; the daemon copies pages that no disk has filled. A write that no disk in use failed makes
  its sectors good again. \<open>synced\<close> are the sectors that the resync thread has copied in this run. A run is \<open>flawed\<close> when it was skipped, or
  started behind the first sector although a spare is a member; \<open>uncopied\<close> says that the end of such a run has activated a spare.\<close>

record r1_sys =
  arr :: raid1
  spec :: "sector_t \<Rightarrow> block"
  bad :: "sector_t \<Rightarrow> bool"
  synced :: "sector_t \<Rightarrow> bool"
  flawed :: bool
  uncopied :: bool

definition none_failed :: "raid1 \<Rightarrow> r1bio \<Rightarrow> bool" where
  "none_failed s r \<longleftrightarrow> list_all (\<lambda>i. in_sync_at s i \<longrightarrow> bios r ! i \<noteq> Failed) [0..<raid_disks s]"

definition settle :: "r1bio \<Rightarrow> r1_sys \<Rightarrow> r1_sys" where
  "settle r g =
     (if \<not> r_is_write r then g
      else if none_failed (arr g) r then g\<lparr>spec := (\<lambda>x. if covers r x then r_data r x else spec g x), bad := (\<lambda>x. bad g x \<and> \<not> covers r x)\<rparr>
      else g\<lparr>bad := (\<lambda>x. bad g x \<or> covers r x)\<rparr>)"

text \<open>A request whose pages the daemon is about to copy although the read has failed.\<close>

definition unread :: "r1bio \<Rightarrow> bool" where
  "unread r \<longleftrightarrow> r_is_sync r \<and> r_uptodate r \<and> bios r ! read_disk r = Failed"

definition sync_note :: "r1_event \<Rightarrow> raid1 \<Rightarrow> r1_sys \<Rightarrow> r1_sys" where
  "sync_note e s g =
     (case e of
        SyncEnter \<Rightarrow> g\<lparr>flawed := (sync_thread s = SyncWait True \<and> recovery_cp s \<noteq> 0 \<and> list_ex spare (mirrors s))\<rparr>
      | SyncSkip \<Rightarrow> g\<lparr>flawed := True\<rparr>
      | RecoveryCollect \<Rightarrow>
          g\<lparr>synced := (\<lambda>_. False),
            uncopied := (uncopied g \<or> flawed g \<and> \<not> recovery_err s \<and> \<not> recovery_intr s \<and> list_ex spare (mirrors s))\<rparr>
      | Daemon \<Rightarrow>
          (case req_at s (last (retry_list s)) of
             None \<Rightarrow> g
           | Some r \<Rightarrow> if unread r then g\<lparr>bad := (\<lambda>x. bad g x \<or> covers r x)\<rparr> else g)
      | IssueNext n \<Rightarrow>
          (case req_at s n of
             None \<Rightarrow> g
           | Some r \<Rightarrow> if r_is_sync r \<and> req_at (arr g) n = None then g\<lparr>synced := (\<lambda>x. synced g x \<or> covers r x)\<rparr> else g)
      | EndWrite n i ok junk \<Rightarrow>
          (case req_at s n of
             None \<Rightarrow> g
           | Some r \<Rightarrow>
               if \<not> r_is_sync r then g
               else
                 let g = (if req_at (arr g) n = None then g\<lparr>synced := (\<lambda>x. synced g x \<or> covers r x)\<rparr> else g)
                 in if \<not> ok \<and> in_sync_at (arr g) i then g\<lparr>bad := (\<lambda>x. bad g x \<or> covers r x)\<rparr> else g)
      | _ \<Rightarrow> g)"

definition r1_next :: "r1_event \<Rightarrow> r1_sys \<Rightarrow> r1_sys res option" where
  "r1_next e g =
     (case r1_act e (arr g) of
        None \<Rightarrow> None
      | Some (Inl f) \<Rightarrow> Some (Inl f)
      | Some (Inr s) \<Rightarrow>
          let g' = g\<lparr>arr := s\<rparr>;
              g' = (if length (ended s) = length (ended (arr g)) then g' else settle (hd (ended s)) g')
          in Some (Inr (sync_note e (arr g) g')))"

fun r1_trace :: "r1_event list \<Rightarrow> r1_sys \<Rightarrow> r1_sys res option" where
  "r1_trace [] g = Some (Inr g)"
| "r1_trace (e # es) g = (case r1_next e g of Some (Inr g') \<Rightarrow> r1_trace es g' | r \<Rightarrow> r)"

subsection \<open>Reading the state\<close>

lemma rdev_at_simps [simp]:
  "rdev_at (upd_rdev i f s) j = (if j = i then map_option f (rdev_at s i) else rdev_at s j)"
  "rdev_at (upd_req n h s) j = rdev_at s j" "rdev_at (update_head_pos i r s) j = rdev_at s j"
  "rdev_at (free_r1bio n s) j = rdev_at s j" "rdev_at (raid_end_bio_io n r s) j = rdev_at s j" "rdev_at (reschedule_retry n s) j = rdev_at s j"
  "rdev_at (md_done_sync b ok s) j = rdev_at s j"
  by (cases "j = i"; auto simp: rdev_at_def upd_rdev_def upd_req_def update_head_pos_def free_r1bio_def raid_end_bio_io_def reschedule_retry_def md_done_sync_def)+

lemma rdev_at_fields [simp]:
  "rdev_at (s\<lparr>last_used := a\<rparr>) j = rdev_at s j" "rdev_at (s\<lparr>nr_pending := b\<rparr>) j = rdev_at s j" "rdev_at (s\<lparr>barrier := b\<rparr>) j = rdev_at s j"
  "rdev_at (s\<lparr>reqs := q\<rparr>) j = rdev_at s j" "rdev_at (s\<lparr>ended := e\<rparr>) j = rdev_at s j" "rdev_at (s\<lparr>retry_list := l\<rparr>) j = rdev_at s j"
  "rdev_at (s\<lparr>recovery_err := x\<rparr>) j = rdev_at s j" "rdev_at (s\<lparr>recovery_intr := x\<rparr>) j = rdev_at s j" "rdev_at (s\<lparr>recovery_active := b\<rparr>) j = rdev_at s j"
  "rdev_at (s\<lparr>sync_thread := p\<rparr>) j = rdev_at s j" "rdev_at (s\<lparr>next_seq_sect := y\<rparr>) j = rdev_at s j" "rdev_at (s\<lparr>next_resync := y\<rparr>) j = rdev_at s j"
  "rdev_at (s\<lparr>degraded := b\<rparr>) j = rdev_at s j" "rdev_at (s\<lparr>working_disks := b\<rparr>) j = rdev_at s j" "rdev_at (s\<lparr>recovery_cp := y\<rparr>) j = rdev_at s j"
  by (simp_all add: rdev_at_def)

lemma req_at_simps [simp]:
  "req_at (upd_req n h s) m = (if m = n then map_option h (req_at s n) else req_at s m)"
  "req_at (upd_rdev i f s) m = req_at s m" "req_at (update_head_pos i r s) m = req_at s m"
  "req_at (free_r1bio n s) m = (if m = n then None else req_at s m)" "req_at (raid_end_bio_io n r s) m = (if m = n then None else req_at s m)"
  "req_at (reschedule_retry n s) m = req_at s m" "req_at (md_done_sync b ok s) m = req_at s m"
  by (auto simp: req_at_def upd_rdev_def upd_req_def update_head_pos_def free_r1bio_def raid_end_bio_io_def reschedule_retry_def md_done_sync_def nth_list_update)

lemma req_at_fields [simp]:
  "req_at (s\<lparr>mirrors := ms\<rparr>) j = req_at s j" "req_at (s\<lparr>last_used := a\<rparr>) j = req_at s j" "req_at (s\<lparr>nr_pending := b\<rparr>) j = req_at s j"
  "req_at (s\<lparr>barrier := b\<rparr>) j = req_at s j"
  "req_at (s\<lparr>ended := e\<rparr>) j = req_at s j" "req_at (s\<lparr>retry_list := l\<rparr>) j = req_at s j"
  "req_at (s\<lparr>recovery_err := x\<rparr>) j = req_at s j" "req_at (s\<lparr>recovery_intr := x\<rparr>) j = req_at s j" "req_at (s\<lparr>recovery_active := b\<rparr>) j = req_at s j"
  "req_at (s\<lparr>sync_thread := p\<rparr>) j = req_at s j" "req_at (s\<lparr>next_seq_sect := y\<rparr>) j = req_at s j" "req_at (s\<lparr>next_resync := y\<rparr>) j = req_at s j"
  "req_at (s\<lparr>degraded := b\<rparr>) j = req_at s j" "req_at (s\<lparr>working_disks := b\<rparr>) j = req_at s j" "req_at (s\<lparr>recovery_cp := y\<rparr>) j = req_at s j"
  by (simp_all add: req_at_def)

lemma req_at_new: "req_at (s\<lparr>reqs := reqs s @ [Some r]\<rparr>) m = (if m = length (reqs s) then Some r else req_at s m)"
  by (auto simp: req_at_def nth_append)

lemma req_at_free: "req_at (s\<lparr>reqs := (reqs s)[n := None]\<rparr>) m = (if m = n then None else req_at s m)"
  by (auto simp: req_at_def nth_list_update)

lemma raid1_sel [simp]:
  "raid_disks (upd_rdev i f s) = raid_disks s" "reqs (upd_rdev i f s) = reqs s" "working_disks (upd_rdev i f s) = working_disks s"
  "last_used (upd_rdev i f s) = last_used s" "nr_pending (upd_rdev i f s) = nr_pending s" "barrier (upd_rdev i f s) = barrier s"
  "retry_list (upd_rdev i f s) = retry_list s" "recovery_active (upd_rdev i f s) = recovery_active s" "sync_thread (upd_rdev i f s) = sync_thread s"
  "md_size (upd_rdev i f s) = md_size s" "ended (upd_rdev i f s) = ended s" "recovery_err (upd_rdev i f s) = recovery_err s"
  "recovery_intr (upd_rdev i f s) = recovery_intr s" "recovery_cp (upd_rdev i f s) = recovery_cp s"
  "raid_disks (upd_req n h s) = raid_disks s" "length (reqs (upd_req n h s)) = length (reqs s)" "working_disks (upd_req n h s) = working_disks s"
  "last_used (upd_req n h s) = last_used s" "nr_pending (upd_req n h s) = nr_pending s" "barrier (upd_req n h s) = barrier s"
  "retry_list (upd_req n h s) = retry_list s" "recovery_active (upd_req n h s) = recovery_active s" "sync_thread (upd_req n h s) = sync_thread s"
  "md_size (upd_req n h s) = md_size s" "ended (upd_req n h s) = ended s" "recovery_err (upd_req n h s) = recovery_err s"
  "recovery_intr (upd_req n h s) = recovery_intr s" "recovery_cp (upd_req n h s) = recovery_cp s"
  "raid_disks (update_head_pos i r s) = raid_disks s" "reqs (update_head_pos i r s) = reqs s" "working_disks (update_head_pos i r s) = working_disks s"
  "last_used (update_head_pos i r s) = last_used s" "nr_pending (update_head_pos i r s) = nr_pending s" "barrier (update_head_pos i r s) = barrier s"
  "retry_list (update_head_pos i r s) = retry_list s" "recovery_active (update_head_pos i r s) = recovery_active s" "sync_thread (update_head_pos i r s) = sync_thread s"
  "md_size (update_head_pos i r s) = md_size s" "ended (update_head_pos i r s) = ended s" "recovery_err (update_head_pos i r s) = recovery_err s"
  "recovery_intr (update_head_pos i r s) = recovery_intr s" "recovery_cp (update_head_pos i r s) = recovery_cp s"
  by (simp_all add: upd_rdev_def upd_req_def update_head_pos_def)

lemma in_sync_at_iff: "in_sync_at s i \<longleftrightarrow> (\<exists>rd. rdev_at s i = Some rd \<and> rv_in_sync rd)"
  by (auto simp: in_sync_at_def split: option.splits)

lemma rdev_at_bound: "rdev_at s i = Some rd \<Longrightarrow> i < raid_disks s"
  by (auto simp: rdev_at_def split: if_splits)

lemma req_at_bound: "req_at s n = Some r \<Longrightarrow> n < length (reqs s)"
  by (auto simp: req_at_def split: if_splits)

text \<open>What an error does to its disk.\<close>

definition fail_rdev :: "int \<Rightarrow> r1_rdev \<Rightarrow> r1_rdev" where
  "fail_rdev w rd = (if rv_faulty rd \<or> rv_in_sync rd \<and> w = 1 then rd else rd\<lparr>rv_in_sync := False, rv_faulty := True\<rparr>)"

lemma fail_rdev_sel [simp]:
  "rv_pending (fail_rdev w rd) = rv_pending rd" "view (fail_rdev w rd) = view rd" "rv_faulty rd \<Longrightarrow> fail_rdev w rd = rd"
  "rv_in_sync (fail_rdev w rd) \<longleftrightarrow> rv_in_sync rd \<and> (rv_faulty rd \<or> w = 1)"
  "rv_faulty (fail_rdev w rd) \<longleftrightarrow> rv_faulty rd \<or> \<not> (rv_in_sync rd \<and> w = 1)"
  by (auto simp: fail_rdev_def view_def fun_eq_iff)

lemma rdev_at_md_error [simp]: "rdev_at (md_error i s) j = (if j = i then map_option (fail_rdev (working_disks s)) (rdev_at s i) else rdev_at s j)"
  by (auto simp: md_error_def raid1_error_def fail_rdev_def Let_def split: option.splits)

lemma md_error_sel [simp]:
  "req_at (md_error i s) n = req_at s n" "reqs (md_error i s) = reqs s" "raid_disks (md_error i s) = raid_disks s" "last_used (md_error i s) = last_used s"
  "nr_pending (md_error i s) = nr_pending s" "barrier (md_error i s) = barrier s" "retry_list (md_error i s) = retry_list s"
  "recovery_active (md_error i s) = recovery_active s" "sync_thread (md_error i s) = sync_thread s" "md_size (md_error i s) = md_size s"
  "ended (md_error i s) = ended s" "recovery_cp (md_error i s) = recovery_cp s" "recovery_err s \<Longrightarrow> recovery_err (md_error i s)"
  "recovery_intr s \<Longrightarrow> recovery_intr (md_error i s)"
  by (auto simp: md_error_def raid1_error_def Let_def split: option.splits)

lemma view_store [simp]: "view (store r d rd) x = (if covers r x then d x else view rd x)"
  by (simp add: view_def store_def)

lemma store_sel [simp]:
  "rv_in_sync (store r d rd) = rv_in_sync rd" "rv_faulty (store r d rd) = rv_faulty rd" "rv_pending (store r d rd) = rv_pending rd"
  by (simp_all add: store_def)

lemma view_flags [simp]: "view (rd\<lparr>rv_pending := p\<rparr>) = view rd" "view (rd\<lparr>rv_in_sync := b\<rparr>) = view rd" "view (rd\<lparr>rv_raid_disk := k\<rparr>) = view rd"
  by (simp_all add: view_def fun_eq_iff)

end
