(* ===== verification/Md_Raid1_Control.thy ===== *)
theory Md_Raid1_Control
  imports Md_Raid1
begin

text \<open>
  The control invariant of the mirrored array: the counts that the code keeps (references to disks, requests in progress, the barrier,
  sectors being copied, disks in sync) are those of the requests, and the requests are in the states that the code expects. One lemma
  per section of the code says that the section cannot fail, what it does to its request and to the disks, and that the invariant
  holds afterwards.
\<close>

subsection \<open>Counting\<close>

definition total_of :: "(r1bio \<Rightarrow> int) \<Rightarrow> raid1 \<Rightarrow> int" where
  "total_of f s = (\<Sum>n < length (reqs s). case req_at s n of None \<Rightarrow> 0 | Some r \<Rightarrow> f r)"

lemma total_of_upd:
  assumes r: "req_at s n = Some r" and l: "length (reqs s') = length (reqs s)" and q: "\<And>m. req_at s' m = (if m = n then q else req_at s m)"
  shows "total_of f s' = total_of f s - f r + (case q of None \<Rightarrow> 0 | Some r' \<Rightarrow> f r')"
proof -
  let ?A = "{..<length (reqs s)}" and ?F = "\<lambda>s m. case req_at s m of None \<Rightarrow> 0 | Some r \<Rightarrow> f r"
  have n: "finite ?A" "n \<in> ?A" using req_at_bound [OF r] by simp_all
  have "sum (?F s') (?A - {n}) = sum (?F s) (?A - {n})" by (rule sum.cong) (simp_all add: q)
  then show ?thesis using sum.remove [OF n, of "?F s"] sum.remove [OF n, of "?F s'"] q [of n] r l unfolding total_of_def by simp
qed

lemma total_of_same:
  assumes "length (reqs s') = length (reqs s)" "\<And>m. req_at s' m = req_at s m"
  shows "total_of f s' = total_of f s"
  by (simp add: total_of_def assms)

lemma total_of_new:
  assumes "reqs s' = reqs s @ [Some r]"
  shows "total_of f s' = total_of f s + f r"
proof -
  have "req_at s' m = (if m = length (reqs s) then Some r else req_at s m)" for m using assms by (auto simp: req_at_def nth_append)
  then show ?thesis by (simp add: total_of_def assms)
qed

lemma total_of_zero:
  assumes "total_of f s = 0" "\<And>n r. req_at s n = Some r \<Longrightarrow> 0 \<le> f r" "req_at s n = Some r"
  shows "f r = 0"
proof -
  have "\<forall>n \<in> {..<length (reqs s)}. (case req_at s n of None \<Rightarrow> 0 | Some r \<Rightarrow> f r) = 0"
    using assms(1,2) unfolding total_of_def by (subst (asm) sum_nonneg_eq_0_iff) (auto split: option.splits)
  from bspec [OF this, of n] show ?thesis using assms(3) req_at_bound [OF assms(3)] by simp
qed

lemma total_of_nonneg: "(\<And>n r. req_at s n = Some r \<Longrightarrow> 0 \<le> f r) \<Longrightarrow> 0 \<le> total_of f s"
  unfolding total_of_def by (rule sum_nonneg) (auto split: option.splits)

subsection \<open>The control invariant\<close>

text \<open>A reference to disk \<open>i\<close>, and the parts that the disks have.\<close>

definition ref :: "r1bio \<Rightarrow> nat \<Rightarrow> int" where
  "ref r i = of_bool (i < length (bios r) \<and> (bios r ! i = Sent \<or> bios r ! i = Picked \<and> \<not> r_is_sync r))"

definition n_sent :: "r1bio \<Rightarrow> int" where
  "n_sent r = int (length (filter (\<lambda>p. p = Sent) (bios r)))"

definition issuing :: "r1bio \<Rightarrow> bool" where
  "issuing r = (case r_stage r of Issue k \<Rightarrow> True | _ \<Rightarrow> False)"

text \<open>A request whose parts go to the disks.\<close>

definition sending :: "r1bio \<Rightarrow> bool" where
  "sending r \<longleftrightarrow> 0 < remaining r \<and> remaining r = n_sent r + of_bool (issuing r) \<and>
     (case r_stage r of
        Entered \<Rightarrow> False
      | Issue k \<Rightarrow> k \<le> length (bios r) \<and> (\<forall>i < length (bios r). if i < k then bios r ! i \<noteq> Picked
          else bios r ! i = NoPart \<or> bios r ! i = Picked \<or> r_is_sync r \<and> i = read_disk r)
      | Issued \<Rightarrow> \<forall>i < length (bios r). bios r ! i \<noteq> Picked)"

definition write_ok :: "r1bio \<Rightarrow> bool" where
  "write_ok r \<longleftrightarrow>
     (if r_stage r = Entered then remaining r = 0 \<and> \<not> r_uptodate r \<and> (\<forall>i < length (bios r). bios r ! i = NoPart)
      else sending r \<and> (r_uptodate r \<longleftrightarrow> (\<exists>i < length (bios r). bios r ! i = Good)))"

definition read_ok :: "r1bio \<Rightarrow> bool" where
  "read_ok r \<longleftrightarrow> remaining r = 0 \<and> \<not> r_uptodate r \<and>
     (if r_stage r = Entered then \<forall>i < length (bios r). bios r ! i = NoPart
      else r_stage r = Issued \<and> read_disk r < length (bios r) \<and> (bios r ! read_disk r = Sent \<or> bios r ! read_disk r = Failed) \<and>
        (\<forall>i < length (bios r). i \<noteq> read_disk r \<longrightarrow> bios r ! i = NoPart))"

definition sync_ok :: "r1bio \<Rightarrow> bool" where
  "sync_ok r \<longleftrightarrow> \<not> r_is_write r \<and> read_disk r < length (bios r) \<and> (bios r ! read_disk r = Good \<longrightarrow> r_uptodate r) \<and> 0 < sint (r_sectors r) \<and>
     (if remaining r = 0
      then r_stage r = Issued \<and> (bios r ! read_disk r = Sent \<or> bios r ! read_disk r = Good \<or> bios r ! read_disk r = Failed) \<and>
        (\<forall>i < length (bios r). i \<noteq> read_disk r \<longrightarrow> bios r ! i = NoPart \<or> bios r ! i = Picked)
      else (bios r ! read_disk r = Good \<or> bios r ! read_disk r = Failed) \<and> sending r)"

definition req_ok :: "nat \<Rightarrow> r1bio \<Rightarrow> bool" where
  "req_ok disks r \<longleftrightarrow> length (bios r) = disks \<and> (if r_is_sync r then sync_ok r else if r_is_write r then write_ok r else read_ok r)"

definition queued :: "raid1 \<Rightarrow> nat \<Rightarrow> bool" where
  "queued s n \<longleftrightarrow> (\<exists>r. req_at s n = Some r \<and> \<not> r_is_write r \<and> r_stage r = Issued \<and> remaining r = 0 \<and>
     (bios r ! read_disk r = Good \<or> bios r ! read_disk r = Failed))"

definition rdev_ok :: "raid1 \<Rightarrow> nat \<Rightarrow> bool" where
  "rdev_ok s i = (case rdev_at s i of
       None \<Rightarrow> total_of (\<lambda>r. ref r i) s = 0
     | Some rd \<Rightarrow> (rv_in_sync rd \<longrightarrow> \<not> rv_faulty rd) \<and> rv_pending rd = total_of (\<lambda>r. ref r i) s)"

definition barred :: "sync_pc \<Rightarrow> int" where
  "barred p = (case p of SyncUp f j \<Rightarrow> 1 | SyncIn j \<Rightarrow> 1 | _ \<Rightarrow> 0)"

definition quiet :: "raid1 \<Rightarrow> bool" where
  "quiet s \<longleftrightarrow> (\<forall>n r. req_at s n = Some r \<longrightarrow> r_is_sync r)"

definition no_sync :: "raid1 \<Rightarrow> bool" where
  "no_sync s \<longleftrightarrow> (\<forall>n r. req_at s n = Some r \<longrightarrow> \<not> r_is_sync r)"

definition excluded :: "raid1 \<Rightarrow> bool" where
  "excluded s \<longleftrightarrow> (no_sync s \<or> quiet s) \<and>
     (case sync_thread s of SyncIdle \<Rightarrow> no_sync s | SyncWait b \<Rightarrow> no_sync s | SyncDone j \<Rightarrow> no_sync s | SyncUp first j \<Rightarrow> if first then no_sync s else quiet s
      | SyncIn j \<Rightarrow> quiet s | _ \<Rightarrow> True)"

definition sync_sectors :: "r1bio \<Rightarrow> int" where
  "sync_sectors r = (if r_is_sync r then sint (r_sectors r) else 0)"

text \<open>The disks of a resync request are members, the thread waits with a position inside the array, and the array is smaller than
  1 TiB: \<open>sync_request\<close> returns the number of sectors that are left as an \<open>int\<close>.\<close>

definition placed :: "raid1 \<Rightarrow> bool" where
  "placed s \<longleftrightarrow> (\<forall>n r i. req_at s n = Some r \<longrightarrow> r_is_sync r \<longrightarrow> i < raid_disks s \<longrightarrow> bios r ! i \<noteq> NoPart \<longrightarrow> rdev_at s i \<noteq> None) \<and>
     (case sync_thread s of SyncUp f j \<Rightarrow> j < max_sector s | SyncIn j \<Rightarrow> j < max_sector s | _ \<Rightarrow> True) \<and> md_size s < 2 ^ 30"

definition control :: "raid1 \<Rightarrow> bool" where
  "control s \<longleftrightarrow> last_used s < raid_disks s \<and> (\<forall>i. rdev_ok s i) \<and>
     working_disks s = int (card {i. in_sync_at s i}) \<and> 0 < working_disks s \<and>
     nr_pending s = total_of (\<lambda>r. 1) s \<and> barrier s = total_of (\<lambda>r. of_bool (r_is_sync r)) s + barred (sync_thread s) \<and>
     recovery_active s = total_of sync_sectors s \<and> excluded s \<and>
     (\<forall>n r. req_at s n = Some r \<longrightarrow> req_ok (raid_disks s) r) \<and> distinct (retry_list s) \<and> (\<forall>n \<in> set (retry_list s). queued s n) \<and> placed s"

lemma controlD:
  assumes "control s"
  shows "last_used s < raid_disks s" "rdev_ok s i" "working_disks s = int (card {i. in_sync_at s i})" "0 < working_disks s"
    "nr_pending s = total_of (\<lambda>r. 1) s" "barrier s = total_of (\<lambda>r. of_bool (r_is_sync r)) s + barred (sync_thread s)"
    "recovery_active s = total_of sync_sectors s" "excluded s" "req_at s n = Some r \<Longrightarrow> req_ok (raid_disks s) r"
    "distinct (retry_list s)" "n \<in> set (retry_list s) \<Longrightarrow> queued s n" "placed s"
  using assms by (auto simp: control_def)

lemma placed_pos: "control s \<Longrightarrow> sync_thread s = SyncUp f j \<or> sync_thread s = SyncIn j \<Longrightarrow> j < max_sector s"
  using controlD(12) [of s] by (auto simp: placed_def)

lemma in_sync_finite [simp]: "finite {i. in_sync_at s i}"
  by (rule finite_subset [of _ "{..<raid_disks s}"]) (auto simp: in_sync_at_iff dest: rdev_at_bound)

text \<open>A step that changes one request, and the counts with it.\<close>

definition more_pending :: "int \<Rightarrow> r1_rdev \<Rightarrow> r1_rdev" where
  "more_pending d rd = rd\<lparr>rv_pending := rv_pending rd + d\<rparr>"

lemma more_pending_sel [simp]:
  "view (more_pending d rd) = view rd" "rv_in_sync (more_pending d rd) = rv_in_sync rd" "rv_faulty (more_pending d rd) = rv_faulty rd"
  "rv_pending (more_pending d rd) = rv_pending rd + d" "more_pending 0 rd = rd"
  by (simp_all add: more_pending_def)

lemma more_pending_map [simp]: "map_option (more_pending 0) x = x" "map_option (more_pending d) x = None \<longleftrightarrow> x = None"
  by (cases x; simp)+

lemma more_pending_one: "(\<lambda>rd. rd\<lparr>rv_pending := rv_pending rd + 1\<rparr>) = more_pending 1" "(\<lambda>rd. rd\<lparr>rv_pending := rv_pending rd - 1\<rparr>) = more_pending (- 1)"
  by (simp_all add: more_pending_def fun_eq_iff)

lemma excluded_upd:
  assumes ex: "excluded s" and q: "\<And>m. req_at s' m = (if m = n then q else req_at s m)" and r: "req_at s n = Some r"
    and same: "\<And>r'. q = Some r' \<Longrightarrow> r_is_sync r' = r_is_sync r" and p: "sync_thread s' = sync_thread s"
  shows "excluded s'"
proof -
  have "\<exists>r0. req_at s m = Some r0 \<and> r_is_sync r0 = r_is_sync r'" if "req_at s' m = Some r'" for m r'
    using that q [of m] r same by (auto split: if_splits)
  then have "no_sync s \<Longrightarrow> no_sync s'" "quiet s \<Longrightarrow> quiet s'" unfolding no_sync_def quiet_def by blast+
  then show ?thesis using ex unfolding excluded_def p by (auto split: sync_pc.splits if_splits)
qed

lemma control_upd:
  assumes inv: "control s" and r: "req_at s n = Some r" and q: "\<And>m. req_at s' m = (if m = n then q else req_at s m)"
    and len: "length (reqs s') = length (reqs s)" "raid_disks s' = raid_disks s" and lu: "last_used s' < raid_disks s"
    and rd: "\<And>i. rdev_at s' i = map_option (more_pending (d i)) (rdev_at s i)"
    and d: "\<And>i. (case q of None \<Rightarrow> 0 | Some r' \<Rightarrow> ref r' i) = ref r i + d i" "\<And>i. rdev_at s i = None \<Longrightarrow> d i = 0"
    and ok: "\<And>r'. q = Some r' \<Longrightarrow> req_ok (raid_disks s) r' \<and> r_is_sync r' = r_is_sync r \<and> r_sectors r' = r_sectors r"
    and np: "\<And>r' i. q = Some r' \<Longrightarrow> r_is_sync r \<Longrightarrow> i < raid_disks s \<Longrightarrow> bios r' ! i = NoPart \<or> bios r ! i \<noteq> NoPart"
    and cnt: "nr_pending s' = nr_pending s - of_bool (q = None)" "barrier s' = barrier s - of_bool (q = None \<and> r_is_sync r)"
      "recovery_active s' = recovery_active s - (if q = None then sync_sectors r else 0)"
    and same: "working_disks s' = working_disks s" "sync_thread s' = sync_thread s" "md_size s' = md_size s"
    and ret: "distinct (retry_list s')" "\<And>m. m \<in> set (retry_list s') \<Longrightarrow> queued s' m"
  shows "control s'"
proof -
  note I = controlD [OF inv] and T = total_of_upd [OF r len(1) q]
  have "in_sync_at s' = in_sync_at s" by (auto simp: in_sync_at_iff fun_eq_iff rd)
  moreover have "rdev_ok s' i" for i
    using I(2) [of i] T [of "\<lambda>r. ref r i"] d [of i] unfolding rdev_ok_def rd by (auto split: option.splits)
  moreover have "excluded s'" using excluded_upd [OF I(8) q r _ same(2)] ok by blast
  moreover have "req_ok (raid_disks s') r'" if "req_at s' m = Some r'" for m r'
    using that q [of m] ok I(9) len(2) by (auto split: if_splits)
  moreover have "nr_pending s' = total_of (\<lambda>r. 1) s'" using I(5) T [of "\<lambda>_. 1"] cnt(1) by (cases q) simp_all
  moreover have "barrier s' = total_of (\<lambda>r. of_bool (r_is_sync r)) s' + barred (sync_thread s')"
    using I(6) T [of "\<lambda>r. of_bool (r_is_sync r)"] cnt(2) ok same(2) by (cases q) simp_all
  moreover have "recovery_active s' = total_of sync_sectors s'"
    using I(7) T [of sync_sectors] cnt(3) ok by (cases q) (simp_all add: sync_sectors_def)
  moreover have "placed s'"
  proof -
    have "rdev_at s' i \<noteq> None" if q': "req_at s' m = Some r'" "r_is_sync r'" "i < raid_disks s'" "bios r' ! i \<noteq> NoPart" for m r' i
    proof -
      have "\<exists>r0. req_at s m = Some r0 \<and> r_is_sync r0 \<and> bios r0 ! i \<noteq> NoPart" using q' q [of m] r ok np len(2) by (cases "m = n") fastforce+
      then have "rdev_at s i \<noteq> None" using I(12) q'(3) len(2) unfolding placed_def by metis
      then show ?thesis by (simp add: rd)
    qed
    then show ?thesis using I(12) same(2,3) by (auto simp: placed_def split: sync_pc.splits)
  qed
  ultimately show ?thesis using I(3,4) lu len(2) same(1) ret unfolding control_def by simp blast
qed

text \<open>A step that changes no request.\<close>

lemma queued_same: "(\<And>m. req_at s' m = req_at s m) \<Longrightarrow> queued s' n = queued s n"
  by (simp add: queued_def)

lemma control_same:
  assumes inv: "control s" and reqs: "reqs s' = reqs s" and disks: "raid_disks s' = raid_disks s" "last_used s' < raid_disks s"
    and none: "\<And>i. rdev_at s' i = None \<longleftrightarrow> rdev_at s i = None"
    and rd: "\<And>i rd'. rdev_at s' i = Some rd' \<Longrightarrow> \<exists>rd. rdev_at s i = Some rd \<and> rv_pending rd' = rv_pending rd \<and> (rv_in_sync rd' \<longrightarrow> \<not> rv_faulty rd')"
    and w: "working_disks s' = int (card {i. in_sync_at s' i})" "0 < working_disks s'"
    and cnt: "nr_pending s' = nr_pending s" "barrier s' - barred (sync_thread s') = barrier s - barred (sync_thread s)"
      "recovery_active s' = recovery_active s" "retry_list s' = retry_list s" "md_size s' = md_size s"
    and ex: "excluded s'" and pos: "\<And>f j. sync_thread s' = SyncUp f j \<or> sync_thread s' = SyncIn j \<Longrightarrow> j < max_sector s"
  shows "control s'"
proof -
  note I = controlD [OF inv]
  have q: "req_at s' m = req_at s m" for m using reqs by (simp add: req_at_def)
  have T: "total_of f s' = total_of f s" for f using reqs by (simp add: total_of_def q)
  have "rdev_ok s' i" for i using I(2) [of i] rd [of i] none [of i] unfolding rdev_ok_def T by (auto split: option.splits)
  moreover have "placed s'" using I(12) none pos cnt(5) disks(1) by (auto simp: placed_def q split: sync_pc.splits)
  ultimately show ?thesis using I(5-7,9-11) disks w cnt ex unfolding control_def by (simp add: T q queued_same [OF q]) blast
qed

lemma working_md_error:
  "working_disks (md_error i s) = working_disks s - of_bool (\<exists>rd. rdev_at s i = Some rd \<and> \<not> rv_faulty rd \<and> rv_in_sync rd \<and> working_disks s \<noteq> 1)"
  by (auto simp: md_error_def raid1_error_def Let_def split: option.splits)

lemma excluded_same:
  assumes "\<And>m. req_at s' m = req_at s m" "sync_thread s' = sync_thread s"
  shows "excluded s' = excluded s"
proof -
  have "no_sync s' = no_sync s" "quiet s' = quiet s" by (simp_all add: no_sync_def quiet_def assms(1))
  then show ?thesis by (simp add: excluded_def assms(2) split: sync_pc.split)
qed

lemma control_md_error:
  assumes inv: "control s"
  shows "control (md_error i s)"
proof (rule control_same [OF inv])
  note I = controlD [OF inv]
  show "\<exists>rd. rdev_at s j = Some rd \<and> rv_pending rd' = rv_pending rd \<and> (rv_in_sync rd' \<longrightarrow> \<not> rv_faulty rd')" if "rdev_at (md_error i s) j = Some rd'" for j rd'
    using that I(2) [of j] by (auto simp: rdev_ok_def split: if_splits)
  have fs: "rv_faulty rd \<Longrightarrow> rdev_at s i = Some rd \<Longrightarrow> \<not> rv_in_sync rd" for rd using I(2) [of i] by (auto simp: rdev_ok_def)
  let ?w = "\<exists>rd. rdev_at s i = Some rd \<and> \<not> rv_faulty rd \<and> rv_in_sync rd \<and> working_disks s \<noteq> 1"
  have "{j. in_sync_at (md_error i s) j} = {j. in_sync_at s j} - (if ?w then {i} else {})"
    using fs by (auto simp: in_sync_at_iff split: if_splits)
  moreover have "in_sync_at s i" if ?w using that by (auto simp: in_sync_at_iff)
  then have "card ({j. in_sync_at s j} - {i}) = card {j. in_sync_at s j} - 1" "0 < card {j. in_sync_at s j}" if ?w
    using that by (auto simp: card_gt_0_iff)
  ultimately show "working_disks (md_error i s) = int (card {j. in_sync_at (md_error i s) j})"
    using I(3) by (auto simp: working_md_error of_nat_diff)
  show "0 < working_disks (md_error i s)" using I(4) by (auto simp: working_md_error)
  show "excluded (md_error i s)" using I(8) by (subst excluded_same) simp_all
qed (use controlD(1) [OF inv] placed_pos [OF inv] in auto)

lemma control_store:
  assumes inv: "control s"
  shows "control (upd_rdev i (store r d) s)"
proof (rule control_same [OF inv])
  note I = controlD [OF inv]
  have e: "in_sync_at (upd_rdev i (store r d) s) = in_sync_at s" by (auto simp: in_sync_at_iff fun_eq_iff)
  show "working_disks (upd_rdev i (store r d) s) = int (card {j. in_sync_at (upd_rdev i (store r d) s) j})" using I(3) unfolding e by simp
  show "\<exists>rd. rdev_at s j = Some rd \<and> rv_pending rd' = rv_pending rd \<and> (rv_in_sync rd' \<longrightarrow> \<not> rv_faulty rd')"
    if "rdev_at (upd_rdev i (store r d) s) j = Some rd'" for j rd'
    using that I(2) [of j] by (auto simp: rdev_ok_def split: if_splits)
  show "excluded (upd_rdev i (store r d) s)" using I(8) by (subst excluded_same) simp_all
qed (use controlD(1,4) [OF inv] placed_pos [OF inv] in auto)

subsection \<open>Parts of a request\<close>

lemma sending_ended:
  assumes r: "sending r" "i < length (bios r)" "bios r ! i = Sent" and v: "v = Good \<or> v = Failed"
    and r': "r' = r\<lparr>bios := (bios r)[i := v], r_uptodate := u, remaining := remaining r - 1\<rparr>"
  shows "0 \<le> remaining r'" "remaining r' \<noteq> 0 \<Longrightarrow> sending r'" "remaining r' = 0 \<Longrightarrow> \<forall>j < length (bios r). bios r' ! j \<noteq> Picked \<and> bios r' ! j \<noteq> Sent"
proof -
  have n: "n_sent r' = n_sent r - 1" using r(2,3) v by (auto simp: n_sent_def r' filter_update)
  have i: "issuing r' = issuing r" by (simp add: issuing_def r')
  have eq: "remaining r' = n_sent r' + of_bool (issuing r')" using r(1) n i by (simp add: sending_def r')
  show pos: "0 \<le> remaining r'" using eq by (simp add: n_sent_def)
  show "sending r'" if "remaining r' \<noteq> 0"
    using r v that pos eq by (auto simp: sending_def r' nth_list_update split: stage.splits if_splits)
  show "\<forall>j < length (bios r). bios r' ! j \<noteq> Picked \<and> bios r' ! j \<noteq> Sent" if "remaining r' = 0"
  proof -
    have "0 \<le> n_sent r'" by (simp add: n_sent_def)
    then have "n_sent r' = 0" "\<not> issuing r'" using that eq by (cases "issuing r'"; simp)+
    then have "filter (\<lambda>p. p = Sent) (bios r') = []" "r_stage r = Issued" using i r(1)
      by (auto simp: n_sent_def issuing_def sending_def split: stage.splits)
    then have "\<forall>j < length (bios r'). bios r' ! j \<noteq> Sent" "\<forall>j < length (bios r). bios r ! j \<noteq> Picked"
      using r(1) nth_mem by (auto simp: filter_empty_conv sending_def)
    then show ?thesis using r(2) v by (auto simp: r' nth_list_update)
  qed
qed

lemma sending_issue:
  assumes r: "sending r" "r_stage r = Issue k" "k < length (bios r)"
  shows "bios r ! k = Picked \<Longrightarrow> sending (r\<lparr>bios := (bios r)[k := Sent], remaining := remaining r + 1, r_stage := Issue (Suc k)\<rparr>)"
    "bios r ! k \<noteq> Picked \<Longrightarrow> sending (r\<lparr>r_stage := Issue (Suc k)\<rparr>)"
proof -
  have e: "remaining r = n_sent r + 1" "0 < remaining r" using r by (simp_all add: sending_def issuing_def)
  show "sending (r\<lparr>bios := (bios r)[k := Sent], remaining := remaining r + 1, r_stage := Issue (Suc k)\<rparr>)" if "bios r ! k = Picked"
    using r e that by (auto simp: sending_def issuing_def n_sent_def filter_update nth_list_update less_Suc_eq)
  show "sending (r\<lparr>r_stage := Issue (Suc k)\<rparr>)" if "bios r ! k \<noteq> Picked"
    using r e that by (auto simp: sending_def issuing_def n_sent_def less_Suc_eq)
qed

lemma sending_issued:
  assumes r: "sending r" "r_stage r = Issue k" "\<not> k < length (bios r)" and r': "r' = r\<lparr>remaining := remaining r - 1, r_stage := Issued\<rparr>"
  shows "0 \<le> remaining r'" "remaining r' \<noteq> 0 \<Longrightarrow> sending r'" "remaining r' = 0 \<Longrightarrow> \<forall>j < length (bios r). bios r' ! j \<noteq> Picked \<and> bios r' ! j \<noteq> Sent"
proof -
  have e: "remaining r = n_sent r + 1" "k = length (bios r)" "\<forall>j < length (bios r). bios r ! j \<noteq> Picked" using r by (auto simp: sending_def issuing_def)
  show "0 \<le> remaining r'" using e by (simp add: r' n_sent_def)
  show "sending r'" if "remaining r' \<noteq> 0" using r e that by (auto simp: sending_def issuing_def n_sent_def r')
  show "\<forall>j < length (bios r). bios r' ! j \<noteq> Picked \<and> bios r' ! j \<noteq> Sent" if "remaining r' = 0"
    using that e by (auto simp: r' n_sent_def filter_empty_conv)
qed

text \<open>The disks that requests refer to are there.\<close>

lemma ref_nonneg [simp]: "0 \<le> ref r i"
  by (simp add: ref_def)

lemma ref_present:
  assumes "control s" "req_at s n = Some r" "ref r i \<noteq> 0"
  obtains rd where "rdev_at s i = Some rd"
proof (cases "rdev_at s i")
  case None
  then have "total_of (\<lambda>r. ref r i) s = 0" using controlD(2) [OF assms(1), of i] by (simp add: rdev_ok_def)
  then show ?thesis using total_of_zero [of "\<lambda>r. ref r i", OF _ _ assms(2)] assms(3) by simp
qed (use that in simp)

lemma barrier_pos:
  assumes inv: "control s" and r: "req_at s n = Some r" "r_is_sync r"
  shows "0 < barrier s"
proof -
  have "total_of (\<lambda>r. of_bool (r_is_sync r)) s \<noteq> (0 :: int)" using total_of_zero [of "\<lambda>r. of_bool (r_is_sync r)" s n r] r by auto
  moreover have "0 \<le> total_of (\<lambda>r. of_bool (r_is_sync r)) s" by (rule total_of_nonneg) simp
  moreover have "0 \<le> barred (sync_thread s)" by (simp add: barred_def split: sync_pc.split)
  ultimately show ?thesis using controlD(6) [OF inv] by simp
qed

lemma put_buf_sel:
  assumes "barrier s \<noteq> 0"
  obtains s' where "put_buf n s = Inr s'" "\<And>m. req_at s' m = (if m = n then None else req_at s m)" "\<And>j. rdev_at s' j = rdev_at s j"
    "length (reqs s') = length (reqs s)" "raid_disks s' = raid_disks s" "last_used s' = last_used s" "nr_pending s' = nr_pending s - 1"
    "barrier s' = barrier s - 1" "recovery_active s' = recovery_active s" "working_disks s' = working_disks s" "sync_thread s' = sync_thread s"
    "retry_list s' = retry_list s" "ended s' = ended s" "md_size s' = md_size s" "recovery_err s' = recovery_err s" "recovery_intr s' = recovery_intr s"
    "recovery_cp s' = recovery_cp s"
  by (rule that [of "s\<lparr>barrier := barrier s - 1, nr_pending := nr_pending s - 1, reqs := (reqs s)[n := None]\<rparr>"])
    (use assms in \<open>simp_all add: put_buf_def req_at_def nth_list_update\<close>)

lemma end_bio_sel [simp]:
  "length (reqs (raid_end_bio_io n r s)) = length (reqs s)" "raid_disks (raid_end_bio_io n r s) = raid_disks s" "last_used (raid_end_bio_io n r s) = last_used s"
  "nr_pending (raid_end_bio_io n r s) = nr_pending s - 1" "barrier (raid_end_bio_io n r s) = barrier s" "recovery_active (raid_end_bio_io n r s) = recovery_active s"
  "working_disks (raid_end_bio_io n r s) = working_disks s" "sync_thread (raid_end_bio_io n r s) = sync_thread s" "retry_list (raid_end_bio_io n r s) = retry_list s"
  "ended (raid_end_bio_io n r s) = r # ended s" "md_size (raid_end_bio_io n r s) = md_size s" "recovery_err (raid_end_bio_io n r s) = recovery_err s"
  "recovery_intr (raid_end_bio_io n r s) = recovery_intr s" "recovery_cp (raid_end_bio_io n r s) = recovery_cp s"
  by (simp_all add: raid_end_bio_io_def free_r1bio_def)

lemma done_sync_sel [simp]:
  "reqs (md_done_sync b ok s) = reqs s" "raid_disks (md_done_sync b ok s) = raid_disks s" "last_used (md_done_sync b ok s) = last_used s"
  "nr_pending (md_done_sync b ok s) = nr_pending s" "barrier (md_done_sync b ok s) = barrier s" "recovery_active (md_done_sync b ok s) = recovery_active s - sint b"
  "working_disks (md_done_sync b ok s) = working_disks s" "sync_thread (md_done_sync b ok s) = sync_thread s" "retry_list (md_done_sync b ok s) = retry_list s"
  "ended (md_done_sync b ok s) = ended s" "md_size (md_done_sync b ok s) = md_size s" "recovery_err (md_done_sync b ok s) = (recovery_err s \<or> \<not> ok)"
  "recovery_intr (md_done_sync b ok s) = recovery_intr s" "recovery_cp (md_done_sync b ok s) = recovery_cp s"
  by (simp_all add: md_done_sync_def)

text \<open>The counts of a step that ends the request, or keeps it.\<close>

definition closes :: "nat \<Rightarrow> r1bio \<Rightarrow> r1bio option \<Rightarrow> raid1 \<Rightarrow> raid1 \<Rightarrow> bool" where
  "closes n r q s s' \<longleftrightarrow> (\<forall>m. req_at s' m = (if m = n then q else req_at s m)) \<and> length (reqs s') = length (reqs s) \<and> raid_disks s' = raid_disks s \<and>
     nr_pending s' = nr_pending s - of_bool (q = None) \<and> barrier s' = barrier s - of_bool (q = None \<and> r_is_sync r) \<and>
     recovery_active s' = recovery_active s - (if q = None then sync_sectors r else 0) \<and> working_disks s' = working_disks s \<and>
     sync_thread s' = sync_thread s \<and> md_size s' = md_size s \<and> recovery_cp s' = recovery_cp s \<and>
     (recovery_err s \<longrightarrow> recovery_err s') \<and> (recovery_intr s \<longrightarrow> recovery_intr s')"

text \<open>The end of the code's last section for a request: it stays, or all its parts have ended.\<close>

definition finish :: "nat \<Rightarrow> r1bio \<Rightarrow> bool \<Rightarrow> raid1 \<Rightarrow> raid1 res" where
  "finish n r ok s =
     (if remaining r = 0 then if r_is_sync r then put_buf n (md_done_sync (r_sectors r) ok s) else Inr (raid_end_bio_io n r s) else Inr s)"

definition same_counts :: "raid1 \<Rightarrow> raid1 \<Rightarrow> bool" where
  "same_counts s t \<longleftrightarrow> length (reqs t) = length (reqs s) \<and> raid_disks t = raid_disks s \<and> nr_pending t = nr_pending s \<and> barrier t = barrier s \<and>
     recovery_active t = recovery_active s \<and> working_disks t = working_disks s \<and> sync_thread t = sync_thread s \<and> md_size t = md_size s \<and>
     recovery_cp t = recovery_cp s \<and> recovery_err t = recovery_err s \<and> recovery_intr t = recovery_intr s \<and> retry_list t = retry_list s \<and>
     last_used t = last_used s \<and> ended t = ended s \<and> (\<forall>j. rdev_at t j = rdev_at s j)"

lemma finish_spec:
  assumes inv: "control s" and r: "req_at s n = Some r" and r': "r_is_sync r' = r_is_sync r" "r_sectors r' = r_sectors r"
    and t: "same_counts s t" "\<And>m. req_at t m = (if m = n then Some r' else req_at s m)"
  obtains s' where "finish n r' ok t = Inr s'" "closes n r (if remaining r' = 0 then None else Some r') s s'" "\<And>j. rdev_at s' j = rdev_at s j"
    "retry_list s' = retry_list s" "last_used s' = last_used s" "ended s' = (if remaining r' = 0 \<and> \<not> r_is_sync r then r' # ended s else ended s)"
proof (cases "remaining r' = 0 \<and> r_is_sync r")
  case True
  have "barrier (md_done_sync (r_sectors r') ok t) \<noteq> 0" using barrier_pos [OF inv r] True t(1) by (simp add: same_counts_def)
  then obtain s' where s': "put_buf n (md_done_sync (r_sectors r') ok t) = Inr s'"
      "\<And>m. req_at s' m = (if m = n then None else req_at t m)" "\<And>j. rdev_at s' j = rdev_at t j"
      "length (reqs s') = length (reqs t)" "raid_disks s' = raid_disks t" "last_used s' = last_used t" "nr_pending s' = nr_pending t - 1"
      "barrier s' = barrier t - 1" "recovery_active s' = recovery_active t - sint (r_sectors r')" "working_disks s' = working_disks t" "sync_thread s' = sync_thread t"
      "retry_list s' = retry_list t" "ended s' = ended t" "md_size s' = md_size t" "recovery_err s' = (recovery_err t \<or> \<not> ok)" "recovery_intr s' = recovery_intr t"
      "recovery_cp s' = recovery_cp t"
    by (rule put_buf_sel [where n = n]) simp
  show ?thesis by (rule that [of s']) (use True r' s' t in \<open>auto simp: finish_def closes_def sync_sectors_def same_counts_def\<close>)
next
  case False
  show ?thesis
    by (rule that [of "if remaining r' = 0 then raid_end_bio_io n r' t else t"])
      (use False r' t in \<open>auto simp: finish_def closes_def sync_sectors_def same_counts_def\<close>)
qed

lemma dec_pending_spec:
  assumes "rdev_at s i = Some rd"
  shows "rdev_dec_pending i s = Inr (upd_rdev i (\<lambda>rd. rd\<lparr>rv_pending := rv_pending rd - 1\<rparr>) s)"
  using assms by (simp add: rdev_dec_pending_def)

lemma part_sending:
  assumes "req_ok k r" "i < k" "bios r ! i = Sent" "r_is_write r \<or> r_is_sync r \<and> i \<noteq> read_disk r"
  shows "sending r" "r_is_sync r \<Longrightarrow> bios r ! read_disk r = Good \<or> bios r ! read_disk r = Failed"
  using assms by (auto simp: req_ok_def sync_ok_def write_ok_def split: if_splits)

lemma req_ok_ended:
  assumes ok: "req_ok k r" and i: "i < k" "bios r ! i = Sent" "r_is_write r \<or> r_is_sync r \<and> i \<noteq> read_disk r"
    and v: "v = (if u then Good else Failed)" and up: "up = (if r_is_sync r then r_uptodate r else u \<or> r_uptodate r)"
    and r': "r' = r\<lparr>bios := (bios r)[i := v], r_uptodate := up, remaining := remaining r - 1\<rparr>" and rem: "remaining r' \<noteq> 0"
  shows "req_ok k r'"
proof -
  note S = part_sending [OF ok i]
  have len: "length (bios r) = k" using ok by (simp add: req_ok_def)
  have sd: "sending r'" using sending_ended(2) [OF S(1) _ i(2) _ r' rem] i(1) len v by (auto split: if_splits)
  show ?thesis
  proof (cases "r_is_sync r")
    case True
    then have "sync_ok r" using ok by (simp add: req_ok_def)
    then show ?thesis using True i S(2) sd rem len by (auto simp: req_ok_def sync_ok_def r' up)
  next
    case False
    then have w: "r_is_write r" "write_ok r" "r_stage r \<noteq> Entered" using ok i S(1) by (auto simp: req_ok_def sending_def split: stage.splits)
    have "bios r' ! j = Good \<longleftrightarrow> (if j = i then u else bios r ! j = Good)" if "j < k" for j using that len v by (simp add: r' nth_list_update)
    moreover have "bios r ! i \<noteq> Good" using i(2) by simp
    ultimately have "(\<exists>j < k. bios r' ! j = Good) \<longleftrightarrow> u \<or> (\<exists>j < k. bios r ! j = Good)" by (metis i(1))
    then show ?thesis using w sd False len by (auto simp: req_ok_def write_ok_def r' up)
  qed
qed

lemma queued_other:
  assumes "queued s m" "\<And>k. req_at s' k = (if k = n then q else req_at s k)" "m \<noteq> n"
  shows "queued s' m"
  using assms by (auto simp: queued_def)

definition end_rdev :: "raid1 \<Rightarrow> r1bio \<Rightarrow> bool \<Rightarrow> (sector_t \<Rightarrow> block) \<Rightarrow> r1_rdev \<Rightarrow> r1_rdev" where
  "end_rdev s r ok junk rd =
     (let rd = store r (if ok then r_data r else junk) rd;
          rd = (if ok then rd else fail_rdev (working_disks s) rd)
      in rd\<lparr>rv_pending := rv_pending rd - 1\<rparr>)"

lemma end_write_finish:
  assumes r': "r' = r\<lparr>bios := (bios r)[i := if ok then Good else Failed], r_uptodate := (if r_is_sync r then r_uptodate r else ok \<or> r_uptodate r), remaining := remaining r - 1\<rparr>"
    and s1: "s1 = (let s1 = upd_rdev i (store r (if ok then r_data r else junk)) s in if ok then s1 else md_error i s1)"
  shows "end_write n r i ok junk s = bind_res (finish n r' ok (update_head_pos i r' (upd_req n (\<lambda>_. r') s1))) (rdev_dec_pending i)"
  by (cases ok; cases "r_is_sync r")
    (simp_all add: end_write_def end_sync_write_def raid1_end_write_request_def finish_def r' s1 Let_def)

lemma ended_refs:
  assumes r: "sending r" "i < length (bios r)" "bios r ! i = Sent" and v: "v = Good \<or> v = Failed"
    and r': "r' = r\<lparr>bios := (bios r)[i := v], r_uptodate := u, remaining := remaining r - 1\<rparr>"
  shows "(case if remaining r' = 0 then None else Some r' of None \<Rightarrow> 0 | Some r' \<Rightarrow> ref r' j) = ref r j + (if j = i then - 1 else 0)"
proof (cases "j = i")
  case True
  then show ?thesis using r(2,3) v by (auto simp: ref_def r')
next
  case False
  then have "bios r' ! j = bios r ! j" "length (bios r') = length (bios r)" "r_is_sync r' = r_is_sync r" by (simp_all add: r')
  then show ?thesis using sending_ended(3) [OF r v r'] False by (auto simp: ref_def)
qed

lemma end_write_spec:
  assumes inv: "control s" and r: "req_at s n = Some r" and i: "i < raid_disks s" "bios r ! i = Sent" "r_is_write r \<or> r_is_sync r \<and> i \<noteq> read_disk r"
    and r': "r' = r\<lparr>bios := (bios r)[i := if ok then Good else Failed], r_uptodate := (if r_is_sync r then r_uptodate r else ok \<or> r_uptodate r), remaining := remaining r - 1\<rparr>"
  obtains s' where "end_write n r i ok junk s = Inr s'" "control s'"
    "\<And>m. req_at s' m = (if m = n then if remaining r' = 0 then None else Some r' else req_at s m)"
    "\<And>j. rdev_at s' j = (if j = i then map_option (end_rdev s r ok junk) (rdev_at s i) else rdev_at s j)"
    "ended s' = (if remaining r' = 0 \<and> \<not> r_is_sync r then r' # ended s else ended s)"
    "sync_thread s' = sync_thread s" "md_size s' = md_size s" "recovery_err s \<longrightarrow> recovery_err s'" "recovery_intr s \<longrightarrow> recovery_intr s'" "raid_disks s' = raid_disks s"
proof -
  define s1 where "s1 = (let s1 = upd_rdev i (store r (if ok then r_data r else junk)) s in if ok then s1 else md_error i s1)"
  have inv1: "control s1" using control_md_error [OF control_store [OF inv]] control_store [OF inv] by (simp add: s1_def Let_def)
  have s1: "req_at s1 m = req_at s m" "raid_disks s1 = raid_disks s" "sync_thread s1 = sync_thread s" "md_size s1 = md_size s" "ended s1 = ended s"
      "recovery_err s \<longrightarrow> recovery_err s1" "recovery_intr s \<longrightarrow> recovery_intr s1"
      "rdev_at s1 j = (if j = i then map_option (\<lambda>rd. let rd = store r (if ok then r_data r else junk) rd in if ok then rd else fail_rdev (working_disks s) rd) (rdev_at s i) else rdev_at s j)"
    for m j by (auto simp: s1_def Let_def option.map_comp comp_def)
  have rk: "req_ok (raid_disks s) r" using controlD(9) [OF inv r] .
  note S = part_sending [OF rk i] and len = rk [unfolded req_ok_def, THEN conjunct1]
  have r1: "req_at s1 n = Some r" using r s1(1) by simp
  let ?t = "update_head_pos i r' (upd_req n (\<lambda>_. r') s1)"
  have t: "same_counts s1 ?t" "\<And>m. req_at ?t m = (if m = n then Some r' else req_at s1 m)" using r1 by (simp_all add: same_counts_def)
  obtain s2 where s2: "finish n r' ok ?t = Inr s2" "closes n r (if remaining r' = 0 then None else Some r') s1 s2" "\<And>j. rdev_at s2 j = rdev_at s1 j"
      "retry_list s2 = retry_list s1" "last_used s2 = last_used s1" "ended s2 = (if remaining r' = 0 \<and> \<not> r_is_sync r then r' # ended s1 else ended s1)"
    by (rule finish_spec [OF inv1 r1 _ _ t, where ok = ok]) (simp_all add: r')
  have "ref r i \<noteq> 0" using i len by (simp add: ref_def)
  then obtain rd where rd: "rdev_at s1 i = Some rd" using ref_present [OF inv1 r1] by blast
  let ?s = "upd_rdev i (more_pending (- 1)) s2"
  have e: "end_write n r i ok junk s = Inr ?s" using end_write_finish [OF r' s1_def] s2(1,3) rd by (simp add: dec_pending_spec more_pending_one)
  have C: "control ?s"
  proof (rule control_upd [OF inv1 r1, where q = "if remaining r' = 0 then None else Some r'" and d = "\<lambda>j. if j = i then - 1 else 0"])
    show "(case if remaining r' = 0 then None else Some r' of None \<Rightarrow> 0 | Some r' \<Rightarrow> ref r' j) = ref r j + (if j = i then - 1 else 0)" for j
      using ended_refs [OF S(1) _ i(2) _ r'] i(1) len by simp
    show "req_ok (raid_disks s1) q' \<and> r_is_sync q' = r_is_sync r \<and> r_sectors q' = r_sectors r" if "(if remaining r' = 0 then None else Some r') = Some q'" for q'
      using req_ok_ended [OF rk i refl refl r'] that s1(2) by (auto simp: r' split: if_splits)
    show "bios q' ! j = NoPart \<or> bios r ! j \<noteq> NoPart" if "(if remaining r' = 0 then None else Some r') = Some q'" "r_is_sync r" "j < raid_disks s1" for q' j
      using that i len s1(2) by (auto simp: r' nth_list_update split: if_splits)
    show "queued ?s m" if "m \<in> set (retry_list ?s)" for m
    proof (rule queued_other [where s = s1 and n = n and q = "if remaining r' = 0 then None else Some r'"])
      show qm: "queued s1 m" using that s2(4) controlD(11) [OF inv1] by simp
      show "m \<noteq> n" using qm S i r1 by (auto simp: queued_def sending_def)
    qed (use s2(2) in \<open>simp add: closes_def\<close>)
  qed (use s2 controlD(1,10) [OF inv1] rd in \<open>auto simp: closes_def\<close>)
  have Q: "req_at ?s m = (if m = n then if remaining r' = 0 then None else Some r' else req_at s m)" for m using s2(2) s1(1) by (simp add: closes_def)
  have R: "rdev_at ?s j = (if j = i then map_option (end_rdev s r ok junk) (rdev_at s i) else rdev_at s j)" for j
    by (cases "rdev_at s i") (simp_all add: s2(3) s1(8) end_rdev_def more_pending_def Let_def)
  show ?thesis by (rule that [OF e C Q R]) (use s1(2-7) s2(2,6) in \<open>simp_all add: closes_def\<close>)
qed

lemma excluded_cases:
  assumes "control s" "req_at s n = Some r"
  shows "r_is_sync r \<Longrightarrow> quiet s" "\<not> r_is_sync r \<Longrightarrow> no_sync s"
  using controlD(8) [OF assms(1)] assms(2) by (auto simp: excluded_def no_sync_def quiet_def)

text \<open>A request is changed without an end of a part.\<close>

lemma issue_refs:
  assumes "sending r" "r_stage r = Issue k" "\<not> k < length (bios r)" "r' = r\<lparr>remaining := remaining r - 1, r_stage := Issued\<rparr>"
  shows "(case if remaining r' = 0 then None else Some r' of None \<Rightarrow> 0 | Some r' \<Rightarrow> ref r' j) = ref r j"
  using sending_issued(3) [OF assms] by (auto simp: ref_def assms(4))

lemma issuing_ok:
  assumes "req_ok k r" "r_stage r = Issue m"
  shows "sending r" "r_is_write r \<or> r_is_sync r" "r_is_sync r \<Longrightarrow> bios r ! read_disk r = Good \<or> bios r ! read_disk r = Failed" "\<not> queued s n \<or> req_at s n \<noteq> Some r"
  using assms by (auto simp: req_ok_def sync_ok_def write_ok_def read_ok_def queued_def split: if_splits)

lemma req_ok_stage:
  assumes ok: "req_ok k r" "r_stage r = Issue m" and r': "bios r' = (bios r)[m := Sent] \<and> bios r ! m = Picked \<or> bios r' = bios r" "sending r'"
    "r_is_sync r' = r_is_sync r" "r_is_write r' = r_is_write r" "r_uptodate r' = r_uptodate r" "read_disk r' = read_disk r" "r_sectors r' = r_sectors r"
  shows "req_ok k r'"
proof -
  note S = issuing_ok [OF ok]
  have len: "length (bios r') = length (bios r)" using r'(1) by auto
  have st: "r_stage r' \<noteq> Entered" "remaining r' \<noteq> 0" using r'(2) by (auto simp: sending_def split: stage.splits)
  have g: "bios r' ! i = Good \<longleftrightarrow> bios r ! i = Good" if "i < length (bios r)" for i using r'(1) that by (cases "i = m") auto
  have w: "write_ok r' = write_ok r" if "\<not> r_is_sync r" "r_is_write r"
    using that ok S(1) r'(2,5) st g len by (auto simp: write_ok_def)
  show ?thesis
  proof (cases "r_is_sync r")
    case True
    then have "sync_ok r" using ok by (simp add: req_ok_def)
    then have o: "\<not> r_is_write r" "read_disk r < length (bios r)" "bios r ! read_disk r = Good \<longrightarrow> r_uptodate r" "0 < sint (r_sectors r)"
      by (simp_all add: sync_ok_def)
    have "bios r' ! read_disk r = bios r ! read_disk r" using r'(1) S(3) [OF True] by (cases "read_disk r = m") auto
    then have "sync_ok r'" using o r' st len S(3) [OF True] by (simp add: sync_ok_def)
    then show ?thesis using True ok(1) r'(3) len by (simp add: req_ok_def)
  next
    case False
    then show ?thesis using ok(1) S(2) r' w len by (auto simp: req_ok_def)
  qed
qed

text \<open>A step that changes one request, and the disks with it.\<close>

definition request_step :: "nat \<Rightarrow> r1bio option \<Rightarrow> (nat \<Rightarrow> r1_rdev \<Rightarrow> r1_rdev) \<Rightarrow> raid1 \<Rightarrow> raid1 \<Rightarrow> bool" where
  "request_step n q F s s' \<longleftrightarrow> control s' \<and> (\<forall>m. req_at s' m = (if m = n then q else req_at s m)) \<and> (\<forall>j. rdev_at s' j = map_option (F j) (rdev_at s j)) \<and>
     raid_disks s' = raid_disks s \<and> sync_thread s' = sync_thread s \<and> md_size s' = md_size s \<and>
     (recovery_err s \<longrightarrow> recovery_err s') \<and> (recovery_intr s \<longrightarrow> recovery_intr s')"

lemma upd_req_at: "req_at s n = Some r \<Longrightarrow> upd_req n f s = upd_req n (\<lambda>_. f r) s"
  by (simp add: upd_req_def req_at_def split: if_splits)

lemma queued_keep:
  assumes inv: "control s" and q: "\<And>m. req_at s' m = (if m = n then q else req_at s m)" and n: "\<not> queued s n" and l: "retry_list s' = retry_list s" and m: "m \<in> set (retry_list s')"
  shows "queued s' m"
proof -
  have "queued s m" using controlD(11) [OF inv] l m by simp
  moreover from this n have "m \<noteq> n" by auto
  ultimately show ?thesis using queued_other [OF _ q] by blast
qed

lemma issue_part_spec:
  assumes inv: "control s" and r: "req_at s n = Some r" and k: "r_stage r = Issue k" "k < raid_disks s"
    and r': "r' = (if bios r ! k = Picked then r\<lparr>bios := (bios r)[k := Sent], remaining := remaining r + 1, r_stage := Issue (Suc k)\<rparr> else r\<lparr>r_stage := Issue (Suc k)\<rparr>)"
  obtains s' where "issue_part n r k s = Inr s'"
    "request_step n (Some r') (\<lambda>j. more_pending (of_bool (j = k \<and> bios r ! k = Picked \<and> r_is_sync r))) s s'" "ended s' = ended s"
proof -
  note I = controlD [OF inv]
  have rk: "req_ok (raid_disks s) r" using I(9) [OF r] .
  note S = issuing_ok [OF rk k(1)] and len = rk [unfolded req_ok_def, THEN conjunct1]
  let ?d = "\<lambda>j. of_bool (j = k \<and> bios r ! k = Picked \<and> r_is_sync r) :: int"
  let ?s = "upd_req n (\<lambda>_. r') (if r_is_sync r \<and> bios r ! k = Picked then upd_rdev k (more_pending 1) s else s)"
  have "rdev_at s k \<noteq> None" if p: "bios r ! k = Picked"
  proof (cases "r_is_sync r")
    case True
    then show ?thesis using I(12) r p k(2) unfolding placed_def by auto
  next
    case False
    then have "ref r k \<noteq> 0" using p k len by (simp add: ref_def)
    then show ?thesis using ref_present [OF inv r] by blast
  qed
  then have e: "issue_part n r k s = Inr ?s"
    using r upd_req_at [of "if r_is_sync r then upd_rdev k (more_pending 1) s else s" n r "\<lambda>r. r\<lparr>bios := (bios r)[k := Sent], remaining := remaining r + 1, r_stage := Issue (Suc k)\<rparr>"]
      upd_req_at [of s n r "\<lambda>r. r\<lparr>r_stage := Issue (Suc k)\<rparr>"]
    by (cases "bios r ! k = Picked") (auto simp: issue_part_def r' more_pending_def [abs_def] Let_def)
  have rd: "rdev_at ?s j = map_option (more_pending (?d j)) (rdev_at s j)" for j by auto
  have q: "req_at ?s m = (if m = n then Some r' else req_at s m)" for m using r by simp
  have C: "control ?s"
  proof (rule control_upd [OF inv r q, where d = ?d])
    show "(case Some r' of None \<Rightarrow> 0 | Some r' \<Rightarrow> ref r' i) = ref r i + ?d i" for i
      using k len by (auto simp: ref_def r' nth_list_update)
    show "req_ok (raid_disks s) q' \<and> r_is_sync q' = r_is_sync r \<and> r_sectors q' = r_sectors r" if "Some r' = Some q'" for q'
      using req_ok_stage [OF rk k(1), of r'] sending_issue [OF S(1) k(1)] that k(2) len by (cases "bios r ! k = Picked") (auto simp: r')
    show "queued ?s m" if "m \<in> set (retry_list ?s)" for m by (rule queued_keep [OF inv q]) (use S(4) r that in auto)
    show "?d i = 0" if "rdev_at s i = None" for i using that \<open>bios r ! k = Picked \<Longrightarrow> rdev_at s k \<noteq> None\<close> by auto
    show "bios q' ! j = NoPart \<or> bios r ! j \<noteq> NoPart" if "Some r' = Some q'" "r_is_sync r" "j < raid_disks s" for q' j
      using that k len by (auto simp: r' nth_list_update split: if_splits)
  qed (use I(1,10) rd in auto)
  show ?thesis by (rule that [OF e]) (use C q rd in \<open>auto simp: request_step_def\<close>)
qed

lemma issue_end_spec:
  assumes inv: "control s" and r: "req_at s n = Some r" and k: "r_stage r = Issue k" "\<not> k < raid_disks s"
    and r': "r' = r\<lparr>remaining := remaining r - 1, r_stage := Issued\<rparr>"
  obtains s' where "issue_end n r s = Inr s'" "request_step n (if remaining r' = 0 then None else Some r') (\<lambda>j. more_pending 0) s s'"
    "ended s' = (if remaining r' = 0 \<and> \<not> r_is_sync r then r' # ended s else ended s)"
proof -
  note I = controlD [OF inv]
  have rk: "req_ok (raid_disks s) r" using I(9) [OF r] .
  note S = issuing_ok [OF rk k(1)] and len = rk [unfolded req_ok_def, THEN conjunct1]
  have k': "\<not> k < length (bios r)" using k(2) len by simp
  let ?q = "if remaining r' = 0 then None else Some r'"
  have t: "same_counts s (upd_req n (\<lambda>_. r') s)" "\<And>m. req_at (upd_req n (\<lambda>_. r') s) m = (if m = n then Some r' else req_at s m)"
    using r by (simp_all add: same_counts_def)
  have sel: "r_is_sync r' = r_is_sync r" "r_sectors r' = r_sectors r" by (simp_all add: r')
  obtain s' where s': "finish n r' True (upd_req n (\<lambda>_. r') s) = Inr s'" "closes n r ?q s s'" "\<And>j. rdev_at s' j = rdev_at s j"
      "retry_list s' = retry_list s" "last_used s' = last_used s" "ended s' = (if remaining r' = 0 \<and> \<not> r_is_sync r then r' # ended s else ended s)"
    by (rule finish_spec [OF inv r sel t, where ok = True]) simp_all
  have e: "issue_end n r s = Inr s'" using s'(1) by (simp add: issue_end_def finish_def r' Let_def)
  have q: "req_at s' m = (if m = n then ?q else req_at s m)" for m using s'(2) by (simp add: closes_def)
  have C: "control s'"
  proof (rule control_upd [OF inv r q, where d = "\<lambda>_. 0"])
    show "(case ?q of None \<Rightarrow> 0 | Some r' \<Rightarrow> ref r' i) = ref r i + 0" for i using issue_refs [OF S(1) k(1) k' r'] by simp
    show "req_ok (raid_disks s) q' \<and> r_is_sync q' = r_is_sync r \<and> r_sectors q' = r_sectors r" if "?q = Some q'" for q'
      using req_ok_stage [OF rk k(1), of r'] sending_issued(2) [OF S(1) k(1) k' r'] that by (auto simp: r' split: if_splits)
    show "queued s' m" if "m \<in> set (retry_list s')" for m by (rule queued_keep [OF inv q]) (use S(4) r that s' in auto)
    show "bios q' ! j = NoPart \<or> bios r ! j \<noteq> NoPart" if "?q = Some q'" "r_is_sync r" "j < raid_disks s" for q' j
      using that by (auto simp: r' split: if_splits)
  qed (use s' I(1,10) in \<open>auto simp: closes_def\<close>)
  show ?thesis by (rule that [OF e]) (use C q s' in \<open>auto simp: request_step_def closes_def\<close>)
qed

subsection \<open>The disk that serves a read\<close>

lemma first_in_sync_Some: "first_in_sync s k i = Some d \<Longrightarrow> in_sync_at s d"
  by (induction k arbitrary: i) (auto split: if_splits)

lemma first_in_sync_None: "first_in_sync s k i = None \<Longrightarrow> i \<le> j \<Longrightarrow> j < i + k \<Longrightarrow> \<not> in_sync_at s j"
proof (induction k arbitrary: i)
  case (Suc k)
  then show ?case by (cases "j = i") (auto split: if_splits)
qed simp

lemma find_back_Some: "find_back s e d = Some x \<Longrightarrow> in_sync_at s x"
proof (induction s e d rule: find_back.induct)
  case (1 s e d)
  then show ?case by (subst (asm) (2) find_back.simps) (auto simp: Let_def split: if_splits)
qed

lemma steps_back_Suc: "d < n \<Longrightarrow> e < n \<Longrightarrow> prev_disk n d \<noteq> e \<Longrightarrow> steps_back n d e = Suc (steps_back n (prev_disk n d) e)"
  by (auto simp: steps_back_def prev_disk_def)

lemma find_back_None:
  assumes "find_back s e d = None" "d < raid_disks s" "e < raid_disks s" "j < raid_disks s" "j = d \<or> steps_back (raid_disks s) d j < steps_back (raid_disks s) d e"
  shows "\<not> in_sync_at s j"
  using assms
proof (induction s e d rule: find_back.induct)
  case (1 s e d)
  let ?n = "raid_disks s" let ?d = "prev_disk ?n d"
  have d: "\<not> in_sync_at s d" "?d \<noteq> e \<Longrightarrow> find_back s e ?d = None"
    using 1(2-4) by (subst (asm) find_back.simps, simp add: Let_def split: if_splits)+
  show ?case
  proof (cases "j = d")
    case False
    then have lt: "steps_back ?n d j < steps_back ?n d e" using 1(6) by simp
    have "0 < steps_back ?n d j" using 1(3,5) by (auto simp: steps_back_def)
    then have ne: "?d \<noteq> e" using lt 1(3) by (auto simp: steps_back_def prev_disk_def split: if_splits)
    have "j = ?d \<or> steps_back ?n ?d j < steps_back ?n ?d e" 
      using lt ne steps_back_Suc [of d ?n j] steps_back_Suc [of d ?n e] 1(3-5) by (cases "j = ?d") simp_all
    then show ?thesis using 1(1) [OF _ d(1) refl ne d(2) [OF ne]] 1(3-5) prev_disk_less by simp
  qed (use d in simp)
qed

lemma some_in_sync:
  assumes "control s"
  obtains j where "in_sync_at s j"
  using controlD(3,4) [OF assms] by (cases "{i. in_sync_at s i} = {}") auto

lemma find_back_all:
  assumes inv: "control s"
  obtains d where "find_back s (last_used s) (last_used s) = Some d" "in_sync_at s d"
proof (cases "find_back s (last_used s) (last_used s)")
  case None
  note I = controlD [OF inv]
  obtain j where j: "in_sync_at s j" using some_in_sync [OF inv] .
  then have "j < raid_disks s" using rdev_at_bound by (auto simp: in_sync_at_iff)
  moreover from this have "j = last_used s \<or> steps_back (raid_disks s) (last_used s) j < steps_back (raid_disks s) (last_used s) (last_used s)"
    using I(1) by (auto simp: steps_back_def)
  ultimately show ?thesis using find_back_None [OF None I(1) I(1)] j by blast
qed (use find_back_Some that in blast)

lemma closest_in_sync:
  "in_sync_at s new_disk \<Longrightarrow> in_sync_at s (closest s t disk new_disk dist)"
proof (induction s t disk new_disk dist rule: closest.induct)
  case (1 s t disk new_disk dist)
  then show ?case
    by (subst closest.simps) (auto simp: Let_def in_sync_at_iff split: option.splits if_splits)
qed

lemma choose_disk_in_sync:
  assumes inv: "control s"
  obtains d where "choose_disk s r = Some d" "in_sync_at s d"
proof (cases "recovery_cp s < MaxSector \<and> next_resync s \<le> ucast ((ucast (r_sector r) :: u32) + r_sectors r)")
  case True
  then have e: "choose_disk s r = first_in_sync s (raid_disks s) 0" by (simp add: choose_disk_def)
  note I = controlD [OF inv]
  obtain j where "in_sync_at s j" using some_in_sync [OF inv] .
  moreover from this have "j < raid_disks s" using rdev_at_bound by (auto simp: in_sync_at_iff)
  ultimately show ?thesis using that e first_in_sync_None [of s "raid_disks s" 0 j] first_in_sync_Some by (cases "first_in_sync s (raid_disks s) 0") auto
next
  case False
  obtain d where d: "find_back s (last_used s) (last_used s) = Some d" "in_sync_at s d" using find_back_all [OF inv] .
  then have "\<exists>x. choose_disk s r = Some x \<and> in_sync_at s x" using False closest_in_sync [OF d(2)] by (auto simp: choose_disk_def Let_def)
  then show ?thesis using that by blast
qed

lemma read_balance_spec:
  assumes inv: "control s"
  obtains d t where "in_sync_at s d" "read_balance r s = (Some d, upd_rdev d (more_pending 1) (s\<lparr>next_seq_sect := t, last_used := d\<rparr>))"
proof -
  obtain d where d: "choose_disk s r = Some d" "in_sync_at s d" using choose_disk_in_sync [OF inv] .
  show ?thesis by (rule that [OF d(2)]) (simp add: read_balance_def d(1) more_pending_one)
qed

subsection \<open>Requests that are served\<close>

lemma control_retry:
  assumes inv: "control s" and l: "distinct l" "set l \<subseteq> set (retry_list s)"
  shows "control (s\<lparr>retry_list := l\<rparr>)"
proof -
  let ?s = "s\<lparr>retry_list := l\<rparr>"
  have "queued ?s = queued s" "rdev_ok ?s = rdev_ok s" "in_sync_at ?s = in_sync_at s" "total_of f ?s = total_of f s" "placed ?s = placed s" for f :: "r1bio \<Rightarrow> int"
    by (auto simp: queued_def rdev_ok_def in_sync_at_def total_of_def placed_def fun_eq_iff cong: option.case_cong split: sync_pc.split)
  moreover have "excluded ?s = excluded s" by (rule excluded_same) simp_all
  ultimately show ?thesis using inv l unfolding control_def by auto
qed

lemma read_sent:
  assumes inv: "control s" and r: "req_at s n = Some r" "\<not> r_is_write r" "\<not> r_is_sync r" and ref: "\<And>i. ref r i = 0" and n: "n \<notin> set (retry_list s)"
    and d: "in_sync_at s d" and r': "r' = r\<lparr>read_disk := d, bios := (replicate (raid_disks s) NoPart)[d := Sent], r_stage := Issued\<rparr>"
    and s': "s' = upd_req n (\<lambda>_. r') (upd_rdev d (more_pending 1) (s\<lparr>next_seq_sect := t, last_used := d\<rparr>))"
  shows "request_step n (Some r') (\<lambda>j. more_pending (of_bool (j = d))) s s'"
proof -
  note I = controlD [OF inv]
  have dl: "d < raid_disks s" using d rdev_at_bound by (auto simp: in_sync_at_iff)
  have q: "req_at s' m = (if m = n then Some r' else req_at s m)" for m using r by (simp add: s')
  have rd: "rdev_at s' j = map_option (more_pending (of_bool (j = d))) (rdev_at s j)" for j by (simp add: s')
  have rk: "req_ok (raid_disks s) r" using I(9) [OF r(1)] .
  have "control s'"
  proof (rule control_upd [OF inv r(1) q _ _ _ rd])
    show "(case Some r' of None \<Rightarrow> 0 | Some r' \<Rightarrow> ref r' i) = ref r i + of_bool (i = d)" for i
      using ref dl r(3) by (auto simp: ref_def r' nth_list_update split: if_splits)
    show "req_ok (raid_disks s) q' \<and> r_is_sync q' = r_is_sync r \<and> r_sectors q' = r_sectors r" if "Some r' = Some q'" for q'
      using rk that r dl by (auto simp: req_ok_def read_ok_def r')
    show "queued s' m" if "m \<in> set (retry_list s')" for m
      using that n I(11) [of m] queued_other [OF _ q, of m] by (auto simp: s')
    show "of_bool (i = d) = (0 :: int)" if "rdev_at s i = None" for i using that d by (auto simp: in_sync_at_iff)
  qed (use I(1,10) r dl in \<open>auto simp: s'\<close>)
  then show ?thesis using q rd by (simp add: request_step_def s')
qed

lemma start_read_spec:
  assumes inv: "control s" and r: "req_at s n = Some r" "r_stage r = Entered" "\<not> r_is_write r"
  obtains d where "in_sync_at s d" "ended (start_read n r s) = ended s" "\<not> r_is_sync r"
    "request_step n (Some (r\<lparr>read_disk := d, bios := (replicate (raid_disks s) NoPart)[d := Sent], r_stage := Issued\<rparr>)) (\<lambda>j. more_pending (of_bool (j = d))) s (start_read n r s)"
proof -
  have rk: "req_ok (raid_disks s) r" using controlD(9) [OF inv r(1)] .
  have ns: "\<not> r_is_sync r" using rk r(2) by (auto simp: req_ok_def sync_ok_def sending_def split: if_splits)
  then have b: "bios r = replicate (raid_disks s) NoPart" using rk r by (auto simp: req_ok_def read_ok_def intro: nth_equalityI)
  then have ref: "ref r i = 0" for i by (simp add: ref_def)
  have n: "n \<notin> set (retry_list s)" using controlD(11) [OF inv, of n] r by (auto simp: queued_def)
  obtain d t where d: "in_sync_at s d" "read_balance r s = (Some d, upd_rdev d (more_pending 1) (s\<lparr>next_seq_sect := t, last_used := d\<rparr>))"
    using read_balance_spec [OF inv] by blast
  let ?r = "r\<lparr>read_disk := d, bios := (replicate (raid_disks s) NoPart)[d := Sent], r_stage := Issued\<rparr>"
  have e: "start_read n r s = upd_req n (\<lambda>_. ?r) (upd_rdev d (more_pending 1) (s\<lparr>next_seq_sect := t, last_used := d\<rparr>))"
    using r(1) b by (simp add: start_read_def d(2) upd_req_at [of _ n r "\<lambda>r. r\<lparr>read_disk := d, bios := (bios r)[d := Sent], r_stage := Issued\<rparr>"])
  show ?thesis by (rule that [OF d(1) _ ns]) (use read_sent [OF inv r(1,3) ns ref n d(1) refl e] e in simp_all)
qed

lemma retry_read_spec:
  assumes inv: "control s" and r: "req_at s n = Some r" "r_stage r = Issued" "bios r ! read_disk r = Failed" "\<not> r_is_write r" "\<not> r_is_sync r" and n: "n \<notin> set (retry_list s)"
  obtains d where "in_sync_at s d" "ended (retry_read n r s) = ended s"
    "request_step n (Some (r\<lparr>read_disk := d, bios := (replicate (raid_disks s) NoPart)[d := Sent], r_stage := Issued\<rparr>)) (\<lambda>j. more_pending (of_bool (j = d))) s (retry_read n r s)"
proof -
  have rk: "req_ok (raid_disks s) r" using controlD(9) [OF inv r(1)] .
  have b: "length (bios r) = raid_disks s" "\<And>i. i < raid_disks s \<Longrightarrow> i \<noteq> read_disk r \<Longrightarrow> bios r ! i = NoPart"
    using rk r by (auto simp: req_ok_def read_ok_def)
  have "(bios r)[read_disk r := NoPart] ! i = NoPart" if "i < raid_disks s" for i using that b by (cases "i = read_disk r") simp_all
  then have b': "(bios r)[read_disk r := NoPart] = replicate (raid_disks s) NoPart" using b(1) by (auto intro!: nth_equalityI)
  have ref: "ref r i = 0" for i using b r by (cases "i = read_disk r") (auto simp: ref_def)
  obtain d t where d: "in_sync_at s d" "read_balance r s = (Some d, upd_rdev d (more_pending 1) (s\<lparr>next_seq_sect := t, last_used := d\<rparr>))"
    using read_balance_spec [OF inv] by blast
  let ?r = "r\<lparr>read_disk := d, bios := (replicate (raid_disks s) NoPart)[d := Sent], r_stage := Issued\<rparr>"
  have "r\<lparr>bios := (bios r)[read_disk r := NoPart, d := Sent], read_disk := d\<rparr> = ?r" using b' r(2) by (cases r) simp
  then have e: "retry_read n r s = upd_req n (\<lambda>_. ?r) (upd_rdev d (more_pending 1) (s\<lparr>next_seq_sect := t, last_used := d\<rparr>))"
    using r(1) by (simp add: retry_read_def d(2) upd_req_at [of _ n r "\<lambda>r. r\<lparr>bios := (bios r)[read_disk r := NoPart, d := Sent], read_disk := d\<rparr>"])
  show ?thesis by (rule that [OF d(1)]) (use read_sent [OF inv r(1,4,5) ref n d(1) refl e] e in simp_all)
qed

definition live_at :: "raid1 \<Rightarrow> nat \<Rightarrow> bool" where
  "live_at s i \<longleftrightarrow> (\<exists>rd. rdev_at s i = Some rd \<and> \<not> rv_faulty rd)"

lemma usable_live: "i < raid_disks s \<Longrightarrow> usable (mirrors s ! i) = live_at s i"
  by (auto simp: usable_def live_at_def rdev_at_def split: option.splits)

lemma start_write_spec:
  assumes inv: "control s" and r: "req_at s n = Some r" "r_stage r = Entered" "r_is_write r"
    and r': "r' = r\<lparr>bios := map (\<lambda>m. if usable m then Picked else NoPart) (mirrors s), remaining := 1, r_stage := Issue 0\<rparr>"
  shows "ended (start_write n r s) = ended s" "\<not> r_is_sync r"
    "request_step n (Some r') (\<lambda>j. more_pending (of_bool (live_at s j))) s (start_write n r s)"
proof -
  note I = controlD [OF inv]
  have rk: "req_ok (raid_disks s) r" using I(9) [OF r(1)] .
  show ns: "\<not> r_is_sync r" using rk r(2) by (auto simp: req_ok_def sync_ok_def sending_def split: if_splits)
  have b: "\<forall>i < raid_disks s. bios r ! i = NoPart" "length (bios r) = raid_disks s" using rk r ns by (auto simp: req_ok_def write_ok_def)
  show "ended (start_write n r s) = ended s" by (simp add: start_write_def upd_req_def)
  let ?s = "start_write n r s"
  have q: "req_at ?s m = (if m = n then Some r' else req_at s m)" for m using r(1) by (auto simp: start_write_def r')
  have rd: "rdev_at ?s j = map_option (more_pending (of_bool (live_at s j))) (rdev_at s j)" for j
    by (auto simp: start_write_def rdev_at_def more_pending_one upd_req_def live_at_def usable_def more_pending_def split: option.splits)
  have b': "bios r' ! i = (if live_at s i then Picked else NoPart)" if "i < raid_disks s" for i using that usable_live [OF that] by (simp add: r')
  have "control ?s"
  proof (rule control_upd [OF inv r(1) q _ _ _ rd])
    show "(case Some r' of None \<Rightarrow> 0 | Some r' \<Rightarrow> ref r' i) = ref r i + of_bool (live_at s i)" for i
      using b b' [of i] ns rdev_at_bound [of s i] by (cases "i < raid_disks s") (auto simp: ref_def r' live_at_def)
    have "n_sent r' = 0" by (auto simp: n_sent_def r' filter_empty_conv)
    then have "sending r'" by (auto simp: sending_def issuing_def r')
    moreover have "\<not> r_uptodate r" using rk r ns by (auto simp: req_ok_def write_ok_def)
    ultimately show "req_ok (raid_disks s) q' \<and> r_is_sync q' = r_is_sync r \<and> r_sectors q' = r_sectors r" if "Some r' = Some q'" for q'
      using that ns r(3) by (auto simp: req_ok_def write_ok_def r' split: if_splits)
    show "queued ?s m" if "m \<in> set (retry_list ?s)" for m
      by (rule queued_keep [OF inv q _ _ that]) (use r in \<open>auto simp: queued_def start_write_def\<close>)
    show "of_bool (live_at s i) = (0 :: int)" if "rdev_at s i = None" for i using that by (simp add: live_at_def)
  qed (use I(1,10) ns in \<open>auto simp: start_write_def\<close>)
  then show "request_step n (Some r') (\<lambda>j. more_pending (of_bool (live_at s j))) s ?s" using q rd by (simp add: request_step_def start_write_def)
qed

lemma control_head: "control s \<Longrightarrow> control (update_head_pos i r s)"
proof (rule control_same [of s])
  assume inv: "control s"
  note I = controlD [OF inv]
  show "excluded (update_head_pos i r s)" using I(8) by (subst excluded_same) simp_all
  have "in_sync_at (update_head_pos i r s) = in_sync_at s" by (auto simp: in_sync_at_def fun_eq_iff)
  then show "working_disks (update_head_pos i r s) = int (card {j. in_sync_at (update_head_pos i r s) j})" using I(3) by simp
  show "\<exists>rd. rdev_at s j = Some rd \<and> rv_pending rd' = rv_pending rd \<and> (rv_in_sync rd' \<longrightarrow> \<not> rv_faulty rd')" if "rdev_at (update_head_pos i r s) j = Some rd'" for j rd'
    using that I(2) [of j] by (auto simp: rdev_ok_def)
  show "j < max_sector s" if "sync_thread (update_head_pos i r s) = SyncUp f j \<or> sync_thread (update_head_pos i r s) = SyncIn j" for f j
    using placed_pos [OF inv] that by simp
qed (use controlD(1,4) in auto)

lemma end_read_control:
  assumes inv: "control s" and r: "req_at s n = Some r" "r_stage r = Issued" "\<not> r_is_write r" "bios r ! read_disk r = Sent"
    and q: "\<And>m. req_at s' m = (if m = n then q else req_at s m)" and q': "q = (if ok \<and> \<not> r_is_sync r then None else Some r')"
    and r': "r' = r\<lparr>r_data := dat, bios := (bios r)[read_disk r := if ok then Good else Failed], r_uptodate := ok \<or> r_uptodate r\<rparr>"
    and rd: "\<And>j. rdev_at s' j = map_option (more_pending (- of_bool (j = read_disk r))) (rdev_at s j)"
    and len: "length (reqs s') = length (reqs s)" "raid_disks s' = raid_disks s" "last_used s' = last_used s" "nr_pending s' = nr_pending s - of_bool (q = None)"
      "barrier s' = barrier s" "recovery_active s' = recovery_active s" "working_disks s' = working_disks s" "sync_thread s' = sync_thread s"
      "retry_list s' = (if q = None then retry_list s else n # retry_list s)" "md_size s' = md_size s"
  shows "control s'"
proof -
  note I = controlD [OF inv]
  have rk: "req_ok (raid_disks s) r" using I(9) [OF r(1)] .
  have b: "length (bios r) = raid_disks s" "read_disk r < raid_disks s" using rk r by (auto simp: req_ok_def sync_ok_def read_ok_def split: if_splits)
  have "ref r (read_disk r) \<noteq> 0" using b r by (simp add: ref_def)
  then obtain rd0 where rd0: "rdev_at s (read_disk r) = Some rd0" using ref_present [OF inv r(1)] by blast
  have rem: "remaining r = 0" using rk r by (auto simp: req_ok_def sync_ok_def read_ok_def split: if_splits)
  have nq: "\<not> queued s n" using r by (auto simp: queued_def)
  then have n: "n \<notin> set (retry_list s)" using I(11) by blast
  show ?thesis
  proof (rule control_upd [OF inv r(1) q _ _ _ rd])
    show "(case q of None \<Rightarrow> 0 | Some r' \<Rightarrow> ref r' i) = ref r i + - of_bool (i = read_disk r)" for i
    proof (cases "i = read_disk r")
      case True
      then show ?thesis using b r q' by (auto simp: ref_def r')
    next
      case False
      moreover have "ref r i = 0" if "\<not> r_is_sync r" using rk r that b False by (auto simp: req_ok_def read_ok_def ref_def)
      ultimately show ?thesis using q' by (auto simp: ref_def r')
    qed
    show "req_ok (raid_disks s) p \<and> r_is_sync p = r_is_sync r \<and> r_sectors p = r_sectors r" if "q = Some p" for p
    proof (cases "r_is_sync r")
      case True
      then show ?thesis using that rk r q' b rem by (cases ok) (auto simp: req_ok_def sync_ok_def r')
    next
      case False
      then show ?thesis using that rk r q' b rem by (auto simp: req_ok_def read_ok_def r' split: if_splits)
    qed
    show "- of_bool (i = read_disk r) = (0 :: int)" if "rdev_at s i = None" for i using rd0 that by (cases "i = read_disk r") simp_all
    show "queued s' m" if m: "m \<in> set (retry_list s')" for m
    proof (cases "m = n")
      case True
      then have "q = Some r'" using m len(9) q' n by (auto split: if_splits)
      then show ?thesis using True q r b rem by (auto simp: queued_def r')
    next
      case False
      then show ?thesis using m len(9) I(11) [of m] queued_other [OF _ q] by (auto split: if_splits)
    qed
    show "distinct (retry_list s')" using len(9) I(10) n by simp
    show "bios p ! i = NoPart \<or> bios r ! i \<noteq> NoPart" if "q = Some p" "r_is_sync r" "i < raid_disks s" for p i
      using that q' r b by (cases "i = read_disk r") (auto simp: r' split: if_splits)
  qed (use I(1) q' len in \<open>auto simp: sync_sectors_def\<close>)
qed

definition end_read_rdev :: "raid1 \<Rightarrow> bool \<Rightarrow> r1_rdev \<Rightarrow> r1_rdev" where
  "end_read_rdev s ok rd = more_pending (- 1) (if ok then rd else fail_rdev (working_disks s) rd)"

lemma end_read_spec:
  assumes inv: "control s" and r: "req_at s n = Some r" "r_stage r = Issued" "\<not> r_is_write r" "bios r ! read_disk r = Sent"
  obtains s' rd r' where "end_read n r ok s = Inr s'" "rdev_at s (read_disk r) = Some rd"
    "r' = r\<lparr>r_data := (if ok then view rd else r_data r), bios := (bios r)[read_disk r := if ok then Good else Failed], r_uptodate := ok \<or> r_uptodate r\<rparr>"
    "request_step n (if ok \<and> \<not> r_is_sync r then None else Some r') (\<lambda>j. if j = read_disk r then end_read_rdev s ok else more_pending 0) s s'"
    "ended s' = (if ok \<and> \<not> r_is_sync r then r' # ended s else ended s)"
proof -
  note I = controlD [OF inv]
  have rk: "req_ok (raid_disks s) r" using I(9) [OF r(1)] .
  have b: "length (bios r) = raid_disks s" "read_disk r < raid_disks s" using rk r by (auto simp: req_ok_def sync_ok_def read_ok_def split: if_splits)
  have "ref r (read_disk r) \<noteq> 0" using b r by (simp add: ref_def)
  then obtain rd where rd: "rdev_at s (read_disk r) = Some rd" using ref_present [OF inv r(1)] by blast
  define r' where "r' = r\<lparr>r_data := (if ok then view rd else r_data r), bios := (bios r)[read_disk r := if ok then Good else Failed], r_uptodate := ok \<or> r_uptodate r\<rparr>"
  define hd where "hd = (if r_is_sync r then update_head_pos (read_disk r) ((if ok then r\<lparr>r_data := view rd\<rparr> else r)\<lparr>bios := (bios r)[read_disk r := if ok then Good else Failed]\<rparr>) s else s)"
  define s1 where "s1 = (if ok then hd else md_error (read_disk r) hd)"
  define s2 where "s2 = (if r_is_sync r then upd_req n (\<lambda>_. r') s1 else update_head_pos (read_disk r) r' (upd_req n (\<lambda>_. r') s1))"
  define s' where "s' = (if ok \<and> \<not> r_is_sync r then upd_rdev (read_disk r) (more_pending (- 1)) (raid_end_bio_io n r' s2)
    else reschedule_retry n (upd_rdev (read_disk r) (more_pending (- 1)) s2))"
  have inv1: "control s1" using inv control_head control_md_error by (auto simp: s1_def hd_def)
  have s1: "req_at s1 m = req_at s m" "raid_disks s1 = raid_disks s" "sync_thread s1 = sync_thread s" "md_size s1 = md_size s" "ended s1 = ended s"
      "recovery_err s \<longrightarrow> recovery_err s1" "recovery_intr s \<longrightarrow> recovery_intr s1"
      "rdev_at s1 j = (if j = read_disk r \<and> \<not> ok then map_option (fail_rdev (working_disks s)) (rdev_at s j) else rdev_at s j)"
    for m j by (auto simp: s1_def hd_def)
  have u: "r\<lparr>r_data := view rd, bios := (bios r)[read_disk r := Good], r_uptodate := True\<rparr> = r'" if ok using that by (simp add: r'_def)
  have f: "r\<lparr>bios := (bios r)[read_disk r := Failed]\<rparr> = r'" if "\<not> ok" using that by (cases r) (simp add: r'_def)
  have com: "reschedule_retry n (upd_rdev i f t) = upd_rdev i f (reschedule_retry n t)" for i f t by (simp add: reschedule_retry_def upd_rdev_def)
  have e: "end_read n r ok s = Inr s'"
    using rd u f
    by (cases ok; cases "r_is_sync r")
      (simp_all add: end_read_def end_sync_read_def raid1_end_read_request_def dec_pending_spec s'_def s2_def s1_def hd_def more_pending_one com Let_def)
  have C: "control s'"
  proof (rule end_read_control [OF inv1 _ r(2-4) _ refl r'_def])
    show "rdev_at s' j = map_option (more_pending (- of_bool (j = read_disk r))) (rdev_at s1 j)" for j by (simp add: s'_def s2_def)
  qed (use r s1(1) in \<open>auto simp: s'_def s2_def reschedule_retry_def\<close>)
  have Q: "req_at s' m = (if m = n then if ok \<and> \<not> r_is_sync r then None else Some r' else req_at s m)" for m
    using s1(1) r(1) by (simp add: s'_def s2_def)
  have R: "rdev_at s' j = map_option (if j = read_disk r then end_read_rdev s ok else more_pending 0) (rdev_at s j)" for j
    using s1(8) rd by (simp add: s'_def s2_def end_read_rdev_def)
  show ?thesis
  proof (rule that [OF e rd r'_def])
    show "request_step n (if ok \<and> \<not> r_is_sync r then None else Some r') (\<lambda>j. if j = read_disk r then end_read_rdev s ok else more_pending 0) s s'"
      using C Q R s1(2-7) by (simp add: request_step_def) (simp add: s'_def s2_def reschedule_retry_def)
    show "ended s' = (if ok \<and> \<not> r_is_sync r then r' # ended s else ended s)" using s1(5) by (auto simp: s'_def s2_def reschedule_retry_def)
  qed
qed

lemma sync_request_write_spec:
  assumes inv: "control s" and r: "req_at s n = Some r" "r_stage r = Issued" "r_is_sync r" "remaining r = 0" "bios r ! read_disk r = Good \<or> bios r ! read_disk r = Failed"
    and n: "n \<notin> set (retry_list s)"
  obtains s' where "sync_request_write n r s = Inr s'" "ended s' = ended s" "\<not> r_uptodate r \<Longrightarrow> recovery_err s'"
    "request_step n (if r_uptodate r then Some (r\<lparr>remaining := 1, r_stage := Issue 0\<rparr>) else None) (\<lambda>j. more_pending 0) s s'"
proof -
  note I = controlD [OF inv]
  have rk: "req_ok (raid_disks s) r" using I(9) [OF r(1)] .
  let ?r = "r\<lparr>remaining := 1, r_stage := Issue 0\<rparr>" let ?q = "if r_uptodate r then Some ?r else None"
  have b: "length (bios r) = raid_disks s" "read_disk r < raid_disks s" "bios r ! read_disk r = Good \<Longrightarrow> r_uptodate r"
      "\<And>i. i < raid_disks s \<Longrightarrow> i \<noteq> read_disk r \<Longrightarrow> bios r ! i = NoPart \<or> bios r ! i = Picked"
    using rk r by (auto simp: req_ok_def sync_ok_def)
  have ns: "bios r ! i \<noteq> Sent" if "i < raid_disks s" for i using b r(5) that by (cases "i = read_disk r") force+
  have "barrier (md_done_sync (r_sectors r) False s) \<noteq> 0" using barrier_pos [OF inv r(1,3)] by simp
  then obtain t where t: "put_buf n (md_done_sync (r_sectors r) False s) = Inr t" "\<And>m. req_at t m = (if m = n then None else req_at s m)" "\<And>j. rdev_at t j = rdev_at s j"
      "length (reqs t) = length (reqs s)" "raid_disks t = raid_disks s" "last_used t = last_used s" "nr_pending t = nr_pending s - 1"
      "barrier t = barrier s - 1" "recovery_active t = recovery_active s - sint (r_sectors r)" "working_disks t = working_disks s" "sync_thread t = sync_thread s"
      "retry_list t = retry_list s" "ended t = ended s" "md_size t = md_size s" "recovery_err t" "recovery_intr t = recovery_intr s"
    by (rule put_buf_sel [where n = n]) simp
  define s' where "s' = (if r_uptodate r then upd_req n (\<lambda>_. ?r) s else t)"
  have e: "sync_request_write n r s = Inr s'" using r(1) t(1) by (simp add: sync_request_write_def s'_def upd_req_at [of s n r "\<lambda>r. r\<lparr>remaining := 1, r_stage := Issue 0\<rparr>"])
  have q: "req_at s' m = (if m = n then ?q else req_at s m)" for m using r t(2) by (simp add: s'_def)
  have rd: "rdev_at s' j = map_option (more_pending 0) (rdev_at s j)" for j using t(3) by (simp add: s'_def)
  have "control s'"
  proof (rule control_upd [OF inv r(1) q _ _ _ rd])
    show "(case ?q of None \<Rightarrow> 0 | Some r' \<Rightarrow> ref r' i) = ref r i + 0" for i using ns [of i] r(3) b(1) by (auto simp: ref_def)
    have "n_sent r = 0" using ns b(1) by (auto simp: n_sent_def filter_empty_conv in_set_conv_nth)
    then have "sending ?r" using b(4) r(3) by (auto simp: sending_def issuing_def n_sent_def b(1))
    then show "req_ok (raid_disks s) p \<and> r_is_sync p = r_is_sync r \<and> r_sectors p = r_sectors r" if "?q = Some p" for p
      using that rk r(3,5) b by (auto simp: req_ok_def sync_ok_def split: if_splits)
    show "queued s' m" if "m \<in> set (retry_list s')" for m
      using that n t(12) I(11) [of m] queued_other [OF _ q, of m] by (auto simp: s'_def split: if_splits)
    show "bios p ! i = NoPart \<or> bios r ! i \<noteq> NoPart" if "?q = Some p" "r_is_sync r" "i < raid_disks s" for p i
      using that by (auto split: if_splits)
  qed (use I(1,10) r(3) t in \<open>auto simp: s'_def sync_sectors_def\<close>)
  then show ?thesis by (intro that [OF e]) (use q rd t in \<open>auto simp: s'_def request_step_def\<close>)
qed

lemma raid1d_spec:
  assumes inv: "control s" and l: "retry_list s \<noteq> []"
  obtains r s' where "req_at s (last (retry_list s)) = Some r" "raid1d s = Inr s'" "ended s' = ended s" "r_is_sync r \<Longrightarrow> \<not> r_uptodate r \<Longrightarrow> recovery_err s'"
    "\<not> r_is_sync r \<Longrightarrow> \<exists>d. in_sync_at s d \<and> request_step (last (retry_list s)) (Some (r\<lparr>read_disk := d, bios := (replicate (raid_disks s) NoPart)[d := Sent], r_stage := Issued\<rparr>)) (\<lambda>j. more_pending (of_bool (j = d))) s s'"
    "r_is_sync r \<Longrightarrow> request_step (last (retry_list s)) (if r_uptodate r then Some (r\<lparr>remaining := 1, r_stage := Issue 0\<rparr>) else None) (\<lambda>j. more_pending 0) s s'"
proof -
  let ?n = "last (retry_list s)" let ?l = "butlast (retry_list s)" let ?s = "s\<lparr>retry_list := ?l\<rparr>"
  note I = controlD [OF inv]
  have n: "?n \<in> set (retry_list s)" using l by simp
  have d: "distinct (?l @ [?n])" using I(10) l by simp
  then have nl: "?n \<notin> set (retry_list ?s)" "distinct ?l" by simp_all
  have inv': "control ?s" by (rule control_retry [OF inv nl(2)]) (auto dest: in_set_butlastD)
  obtain r where r: "req_at s ?n = Some r" "\<not> r_is_write r" "r_stage r = Issued" "remaining r = 0" "bios r ! read_disk r = Good \<or> bios r ! read_disk r = Failed"
    using I(11) [OF n] by (auto simp: queued_def)
  have r': "req_at ?s ?n = Some r" using r(1) by simp
  have e: "raid1d s = (if r_is_sync r then sync_request_write ?n r ?s else Inr (retry_read ?n r ?s))" using l r by (simp add: raid1d_def)
  have st: "request_step m q F ?s s' = request_step m q F s s'" for m q F s' by (simp add: request_step_def)
  have isy: "in_sync_at ?s = in_sync_at s" by (auto simp: in_sync_at_def fun_eq_iff)
  show ?thesis
  proof (cases "r_is_sync r")
    case True
    obtain s' where "sync_request_write ?n r ?s = Inr s'" "ended s' = ended ?s" "\<not> r_uptodate r \<Longrightarrow> recovery_err s'"
      "request_step ?n (if r_uptodate r then Some (r\<lparr>remaining := 1, r_stage := Issue 0\<rparr>) else None) (\<lambda>j. more_pending 0) ?s s'"
      by (rule sync_request_write_spec [OF inv' r' r(3) True r(4,5) nl(1)]) simp
    then show ?thesis using that [OF r(1), of s'] True e st by simp
  next
    case False
    have "bios r ! read_disk r = Failed" using r False I(9) [OF r(1)] by (auto simp: req_ok_def read_ok_def)
    then obtain d where "in_sync_at ?s d" "ended (retry_read ?n r ?s) = ended ?s"
      "request_step ?n (Some (r\<lparr>read_disk := d, bios := (replicate (raid_disks ?s) NoPart)[d := Sent], r_stage := Issued\<rparr>)) (\<lambda>j. more_pending (of_bool (j = d))) ?s (retry_read ?n r ?s)"
      using retry_read_spec [OF inv' r' r(3) _ r(2) False nl(1)] by blast
    then show ?thesis using that [OF r(1), of "retry_read ?n r ?s"] False e st isy by auto
  qed
qed

subsection \<open>New requests\<close>

lemma control_new:
  assumes inv: "control s" and reqs: "reqs s' = reqs s @ [Some r]" and disks: "raid_disks s' = raid_disks s" "last_used s' < raid_disks s"
    and rd: "\<And>i. rdev_at s' i = map_option (more_pending (ref r i)) (rdev_at s i)" and ref: "\<And>i. rdev_at s i = None \<Longrightarrow> ref r i = 0"
    and ok: "req_ok (raid_disks s) r" and np: "\<And>i. r_is_sync r \<Longrightarrow> i < raid_disks s \<Longrightarrow> bios r ! i \<noteq> NoPart \<Longrightarrow> rdev_at s i \<noteq> None"
    and cnt: "nr_pending s' = nr_pending s + 1" "barrier s' - barred (sync_thread s') = barrier s - barred (sync_thread s) + of_bool (r_is_sync r)"
      "recovery_active s' = recovery_active s + sync_sectors r" "retry_list s' = retry_list s" "md_size s' = md_size s" "working_disks s' = working_disks s"
    and ex: "excluded s'" and pos: "\<And>f j. sync_thread s' = SyncUp f j \<or> sync_thread s' = SyncIn j \<Longrightarrow> j < max_sector s"
  shows "control s'"
proof -
  note I = controlD [OF inv] and T = total_of_new [OF reqs]
  have q: "req_at s' m = (if m = length (reqs s) then Some r else req_at s m)" for m using reqs by (auto simp: req_at_def nth_append)
  have lt: "m \<noteq> length (reqs s)" if "req_at s m = Some r'" for m r' using req_at_bound [OF that] by simp
  have "in_sync_at s' = in_sync_at s" by (auto simp: in_sync_at_iff fun_eq_iff rd)
  moreover have "rdev_ok s' i" for i
    using I(2) [of i] T [of "\<lambda>r. ref r i"] ref [of i] unfolding rdev_ok_def rd by (auto split: option.splits)
  moreover have "queued s' m" if "queued s m" for m using that lt by (auto simp: queued_def q)
  moreover have "placed s'" using I(12) pos np cnt(5) disks(1) by (auto simp: placed_def q rd split: sync_pc.splits)
  ultimately show ?thesis using I(3-7,9-11) T disks cnt ok ex unfolding control_def by (simp add: q) blast
qed

lemma barrier_zero:
  assumes inv: "control s" and b: "barrier s = 0"
  shows "no_sync s" "barred (sync_thread s) = 0"
proof -
  have t: "0 \<le> total_of (\<lambda>r. of_bool (r_is_sync r) :: int) s" by (rule total_of_nonneg) simp
  have c: "0 \<le> barred (sync_thread s)" by (simp add: barred_def split: sync_pc.split)
  show "barred (sync_thread s) = 0" using controlD(6) [OF inv] b t c by simp
  then have "total_of (\<lambda>r. of_bool (r_is_sync r) :: int) s = 0" using controlD(6) [OF inv] b by simp
  then show "no_sync s" using total_of_zero [of "\<lambda>r. of_bool (r_is_sync r) :: int" s] by (auto simp: no_sync_def)
qed

lemma control_arrive:
  assumes inv: "control s" and b: "barrier s = 0"
  shows "control (arrive w sector sectors dat s)"
proof -
  note I = controlD [OF inv] and Z = barrier_zero [OF inv b]
  define r where "r = \<lparr>remaining = 0, r_sector = sector, r_sectors = sectors, r_uptodate = False, r_is_sync = False,
    r_is_write = w, read_disk = 0, bios = replicate (raid_disks s) NoPart, r_stage = Entered, r_data = dat\<rparr>"
  have e: "arrive w sector sectors dat s = s\<lparr>nr_pending := nr_pending s + 1, reqs := reqs s @ [Some r]\<rparr>" by (simp add: arrive_def r_def)
  have ref: "ref r i = 0" for i by (simp add: ref_def r_def)
  show ?thesis unfolding e
  proof (rule control_new [OF inv])
    show "req_ok (raid_disks s) r" by (simp add: req_ok_def write_ok_def read_ok_def r_def)
    have "no_sync (s\<lparr>nr_pending := nr_pending s + 1, reqs := reqs s @ [Some r]\<rparr>)" using Z(1) by (auto simp: no_sync_def req_at_def nth_append r_def split: if_splits)
    then show "excluded (s\<lparr>nr_pending := nr_pending s + 1, reqs := reqs s @ [Some r]\<rparr>)" using Z(2) by (auto simp: excluded_def barred_def split: sync_pc.splits)
  qed (use I(1) ref placed_pos [OF inv] in \<open>auto simp: r_def sync_sectors_def\<close>)
qed

lemma sync_fill_step:
  assumes "x \<le> lim"
  shows "(if lim < x + 8 then lim - x else 8) \<le> (8 :: sector_t)" "x + (if lim < x + 8 then lim - x else 8) \<le> lim"
  using assms by (auto simp: not_less intro: word_sub_le) unat_arith

lemma sync_fill_bound:
  "x \<le> lim \<Longrightarrow> k \<le> 16 \<Longrightarrow> unat (sync_fill k x lim) \<le> 8 * k"
proof (induction k arbitrary: x)
  case (Suc k)
  let ?n = "if lim < x + 8 then lim - x else 8"
  note n = sync_fill_step [OF Suc(2)]
  have "unat (sync_fill k (x + ?n) lim) \<le> 8 * k" using Suc n(2) by simp
  moreover have "unat ?n \<le> 8" using n(1) by (simp add: word_le_nat_alt)
  ultimately have "unat (?n + sync_fill k (x + ?n) lim) \<le> 8 * Suc k"
    using unat_word_ariths(1) [of ?n "sync_fill k (x + ?n) lim"] Suc(3) by simp
  then show ?case by (simp add: Let_def)
qed simp

lemma sync_fill_pos:
  assumes "x < lim" "0 < k" "k \<le> 16"
  shows "0 < sync_fill k x lim" "unat (sync_fill k x lim) \<le> 128"
proof -
  show b: "unat (sync_fill k x lim) \<le> 128" using sync_fill_bound [OF less_imp_le [OF assms(1)] assms(3)] assms(3) by simp
  obtain k' where k: "k = Suc k'" using assms(2) by (cases k) auto
  let ?n = "if lim < x + 8 then lim - x else 8"
  have n: "?n \<le> 8" "x + ?n \<le> lim" "0 < ?n" using sync_fill_step [of x lim] assms(1) by (auto simp: less_imp_le word_gt_0)
  have "unat (sync_fill k' (x + ?n) lim) \<le> 8 * k'" using sync_fill_bound [OF n(2)] assms(3) k by simp
  moreover have "unat ?n \<le> 8" "0 < unat ?n" using n by (simp_all add: word_le_nat_alt word_less_nat_alt)
  ultimately have "0 < unat (?n + sync_fill k' (x + ?n) lim)"
    using unat_word_ariths(1) [of ?n "sync_fill k' (x + ?n) lim"] assms(3) k by simp
  then have "0 < ?n + sync_fill k' (x + ?n) lim" by (simp only: word_less_nat_alt unat_0)
  moreover have "?n \<noteq> 0" using n(3) by simp
  ultimately show "0 < sync_fill k x lim" unfolding k sync_fill.simps Let_def by (simp only: if_False)
qed

definition sync_req :: "sector_t \<Rightarrow> sector_t \<Rightarrow> bool \<Rightarrow> nat \<Rightarrow> part list \<Rightarrow> r1bio" where
  "sync_req j nr st d parts = \<lparr>remaining = 0, r_sector = j, r_sectors = ucast nr, r_uptodate = st, r_is_sync = True, r_is_write = False,
     read_disk = d, bios = parts, r_stage = Issued, r_data = (\<lambda>_. [])\<rparr>"

lemma small_array:
  assumes "control s"
  shows "unat (max_sector s) < 2 ^ 31"
proof -
  have "md_size s < 2 ^ 30" using controlD(12) [OF assms] by (simp add: placed_def)
  then have "unat (md_size s) < 2 ^ 30" by (simp add: word_less_nat_alt)
  then show ?thesis using unat_word_ariths(2) [of "md_size s" 2] by simp
qed

lemma spare_picked:
  assumes d: "in_sync_at s d" and i: "live_at s i" "\<not> in_sync_at s i"
  shows "sync_part s d j i = Picked"
  using assms by (auto simp: sync_part_def live_at_def in_sync_at_def)

lemma control_sync_over:
  assumes inv: "control s" and t: "sync_thread s = SyncIn j" and d: "d < raid_disks s"
  shows "control (s\<lparr>last_used := d, barrier := barrier s - 1, recovery_active := recovery_active s, sync_thread := SyncLoop k\<rparr>)" (is "control ?s")
proof (rule control_same [OF inv])
  note I = controlD [OF inv]
  show "\<exists>rd. rdev_at s i = Some rd \<and> rv_pending rd' = rv_pending rd \<and> (rv_in_sync rd' \<longrightarrow> \<not> rv_faulty rd')" if "rdev_at ?s i = Some rd'" for i rd'
    using that I(2) [of i] by (auto simp: rdev_ok_def)
  have "in_sync_at ?s = in_sync_at s" by (auto simp: in_sync_at_iff fun_eq_iff)
  then show "working_disks ?s = int (card {i. in_sync_at ?s i})" using I(3) by simp
  show "excluded ?s" using I(8) t by (simp add: excluded_def quiet_def)
qed (use controlD(4) [OF inv] d t in \<open>auto simp: barred_def\<close>)

lemma control_sync_new:
  assumes inv: "control s" and t: "sync_thread s = SyncIn j" and d: "in_sync_at s d" and p: "j < max_sector s" "0 < pages" "pages \<le> 16"
    and nr: "nr = sync_fill pages j (max_sector s)" and r: "r = sync_req j nr st d (map (sync_part s d j) [0..<raid_disks s])"
  shows "control ((upd_rdev d (more_pending 1) (s\<lparr>last_used := d\<rparr>))\<lparr>nr_pending := nr_pending s + 1, reqs := reqs s @ [Some r],
    recovery_active := recovery_active s + sint (ucast nr :: u32), sync_thread := SyncLoop (j + nr)\<rparr>)" (is "control ?s")
proof (rule control_new [OF inv])
  note I = controlD [OF inv] and P = sync_fill_pos [OF p, folded nr]
  obtain rd where rd: "rdev_at s d = Some rd" using d by (auto simp: in_sync_at_iff)
  have dl: "d < raid_disks s" using rdev_at_bound [OF rd] .
  have ref: "ref r i = of_bool (i = d)" for i using dl by (auto simp: r ref_def sync_req_def sync_part_def split: option.splits)
  have small: "unat nr < 2 ^ 31" using P(2) by simp
  have pos: "0 < sint (ucast nr :: u32)" unfolding sint_small(1) [OF small] using P(1) by (simp only: word_less_nat_alt unat_0 of_nat_0_less_iff)
  show "rdev_at ?s i = map_option (more_pending (ref r i)) (rdev_at s i)" for i using ref by simp
  show "ref r i = 0" if "rdev_at s i = None" for i using that rd ref by auto
  show "req_ok (raid_disks s) r" using dl pos by (auto simp: r req_ok_def sync_ok_def sync_req_def sync_part_def split: option.splits)
  show "rdev_at s i \<noteq> None" if "r_is_sync r" "i < raid_disks s" "bios r ! i \<noteq> NoPart" for i
    using that rd by (cases "i = d") (auto simp: r sync_req_def sync_part_def split: option.splits)
  show "excluded ?s" using I(8) t by (auto simp: r excluded_def quiet_def req_at_def nth_append sync_req_def split: if_splits)
  show "last_used ?s < raid_disks s" using dl by simp
qed (use t in \<open>auto simp: r barred_def sync_req_def sync_sectors_def\<close>)

lemma sync_request_spec:
  assumes inv: "control s" and t: "sync_thread s = SyncIn j" and p: "0 < pages" "pages \<le> RESYNC_PAGES"
  obtains (idle) s' where "sync_request pages st j s = Inr s'" "control s'" "reqs s' = reqs s" "\<And>i. rdev_at s' i = rdev_at s i" "raid_disks s' = raid_disks s"
      "ended s' = ended s" "md_size s' = md_size s" "recovery_err s' = recovery_err s" "recovery_intr s' = recovery_intr s" "sync_thread s' = SyncLoop (max_sector s)"
      "\<And>i. live_at s i \<Longrightarrow> in_sync_at s i"
    | (req) s' d nr r where "sync_request pages st j s = Inr s'" "control s'" "in_sync_at s d" "nr = sync_fill pages j (max_sector s)"
      "r = sync_req j nr st d (map (sync_part s d j) [0..<raid_disks s])"
      "reqs s' = reqs s @ [Some r]" "\<And>i. rdev_at s' i = map_option (more_pending (of_bool (i = d))) (rdev_at s i)" "raid_disks s' = raid_disks s"
      "ended s' = ended s" "md_size s' = md_size s" "recovery_err s' = recovery_err s" "recovery_intr s' = recovery_intr s" "sync_thread s' = SyncLoop (j + nr)"
proof -
  note I = controlD [OF inv]
  obtain d where d: "find_back s (last_used s) (last_used s) = Some d" "in_sync_at s d" using find_back_all [OF inv] .
  obtain rd where rd: "rdev_at s d = Some rd" using d(2) by (auto simp: in_sync_at_iff)
  have dl: "d < raid_disks s" using rdev_at_bound [OF rd] .
  have jm: "j < max_sector s" using placed_pos [OF inv] t by simp
  have small: "unat (max_sector s) < 2 ^ 31" using small_array [OF inv] .
  have "0 \<le> total_of (\<lambda>r. of_bool (r_is_sync r) :: int) s" by (rule total_of_nonneg) simp
  then have b0: "barrier s \<noteq> 0" using I(6) t by (simp add: barred_def)
  let ?parts = "map (sync_part s d j) [0..<raid_disks s]"
  have parts: "map (sync_part (s\<lparr>last_used := d\<rparr>) d j) [0..<raid_disks s] = ?parts" by (simp add: sync_part_def cong: option.case_cong)
  show ?thesis
  proof (cases "list_ex (\<lambda>p. p = Picked) ?parts")
    case False
    let ?rv = "ucast (max_sector s - j) :: u32"
    have u: "unat (max_sector s - j) < 2 ^ 31" using small jm by unat_arith
    let ?s = "s\<lparr>last_used := d, barrier := barrier s - 1, recovery_active := recovery_active s, sync_thread := SyncLoop (max_sector s)\<rparr>"
    have e: "sync_request pages st j s = Inr ?s"
      using False d rd b0 u unfolding sync_request_def by (simp add: Let_def parts md_done_sync_def sint_small)
    have C: "control ?s" by (rule control_sync_over [OF inv t dl])
    have "in_sync_at s i" if l: "live_at s i" for i
    proof -
      have "i < raid_disks s" using l rdev_at_bound by (auto simp: live_at_def)
      then have "sync_part s d j i \<noteq> Picked" using False by (force simp: list_ex_iff)
      then show ?thesis using spare_picked [OF d(2) l] by blast
    qed
    then show ?thesis by (intro idle [OF e C]) auto
  next
    case True
    let ?nr = "sync_fill pages j (max_sector s)"
    let ?r = "sync_req j ?nr st d ?parts"
    let ?s = "(upd_rdev d (more_pending 1) (s\<lparr>last_used := d\<rparr>))\<lparr>nr_pending := nr_pending s + 1, reqs := reqs s @ [Some ?r],
      recovery_active := recovery_active s + sint (ucast ?nr :: u32), sync_thread := SyncLoop (j + ?nr)\<rparr>"
    have e: "sync_request pages st j s = Inr ?s"
      using True d rd unfolding sync_request_def by (simp add: Let_def parts sync_req_def more_pending_one)
    have C: "control ?s" by (rule control_sync_new [OF inv t d(2) jm p refl refl])
    show ?thesis by (rule req [OF e C d(2) refl refl]) auto
  qed
qed

subsection \<open>Members and the thread\<close>

lemma total_sync_zero: "no_sync s \<Longrightarrow> total_of sync_sectors s = 0"
  unfolding total_of_def by (rule sum.neutral) (auto simp: no_sync_def sync_sectors_def split: option.splits)

lemma control_slot:
  assumes inv: "control s" and ns: "no_sync s" and i: "i < raid_disks s" "\<not> in_sync_at s i" "\<And>rd. rdev_at s i = Some rd \<Longrightarrow> rv_pending rd = 0"
    and x: "\<And>rd. x = Some rd \<Longrightarrow> rv_pending rd = 0 \<and> \<not> rv_in_sync rd" and m: "m_rdev mi = x"
  shows "control (s\<lparr>mirrors := (mirrors s)[i := mi]\<rparr>)" (is "control ?s")
proof -
  note I = controlD [OF inv]
  have rd: "rdev_at ?s j = (if j = i then x else rdev_at s j)" for j using i(1) m by (simp add: rdev_at_def nth_list_update)
  have T: "total_of f ?s = total_of f s" for f by (rule total_of_same) simp_all
  have "total_of (\<lambda>r. ref r i) s = 0" using I(2) [of i] i(3) by (auto simp: rdev_ok_def split: option.splits)
  then have "rdev_ok ?s j" for j using I(2) [of j] x by (auto simp: rdev_ok_def rd T split: option.splits)
  moreover have "in_sync_at ?s = in_sync_at s" using i(2) x by (auto simp: in_sync_at_iff rd fun_eq_iff)
  moreover have "excluded ?s" using I(8) by (subst excluded_same) simp_all
  moreover have "queued ?s = queued s" by (auto simp: queued_def fun_eq_iff)
  moreover have "placed ?s" using I(12) ns by (auto simp: placed_def no_sync_def split: sync_pc.splits)
  ultimately show ?thesis using I(1,3-7,9-11) unfolding control_def by (simp add: T) blast
qed

lemma raid1_free_slot: "free_slot ms = Some i \<Longrightarrow> i < length ms \<and> m_rdev (ms ! i) = None"
  by (induction ms arbitrary: i) (auto split: if_splits)

lemma idle_no_sync: "control s \<Longrightarrow> sync_thread s = SyncIdle \<or> sync_thread s = SyncDone j \<or> sync_thread s = SyncWait b \<Longrightarrow> no_sync s"
  using controlD(8) [of s] by (auto simp: excluded_def)

lemma control_add:
  assumes inv: "control s" and p: "sync_thread s = SyncIdle" "\<not> rv_in_sync rd" "rv_pending rd = 0"
  shows "control (snd (raid1_add_disk rd s))"
proof (cases "free_slot (mirrors s)")
  case (Some i)
  note F = raid1_free_slot [OF Some]
  then have n: "rdev_at s i = None" by (simp add: rdev_at_def)
  have ns: "no_sync s" using idle_no_sync [OF inv] p(1) by blast
  have "control (s\<lparr>mirrors := (mirrors s)[i := \<lparr>m_rdev = Some (rd\<lparr>rv_raid_disk := int i\<rparr>), head_position = 0\<rparr>]\<rparr>)"
    by (rule control_slot [OF inv ns, where x = "Some (rd\<lparr>rv_raid_disk := int i\<rparr>)"]) (use F n p in \<open>auto simp: in_sync_at_def\<close>)
  then show ?thesis by (simp add: raid1_add_disk_def Some)
qed (simp add: raid1_add_disk_def inv)

lemma remove_spec:
  assumes inv: "control s" and p: "sync_thread s = SyncIdle" "rdev_at s i = Some rd" "rv_faulty rd \<or> \<not> rv_in_sync rd" "rv_pending rd = 0"
  obtains s' where "raid1_remove_disk i s = Inr s'" "control s'" "s' = s\<lparr>mirrors := (mirrors s)[i := (mirrors s ! i)\<lparr>m_rdev := None\<rparr>]\<rparr>"
proof -
  have ns: "no_sync s" using idle_no_sync [OF inv] p(1) by blast
  have f: "\<not> rv_in_sync rd" using controlD(2) [OF inv, of i] p by (auto simp: rdev_ok_def)
  have "control (s\<lparr>mirrors := (mirrors s)[i := (mirrors s ! i)\<lparr>m_rdev := None\<rparr>]\<rparr>)"
    by (rule control_slot [OF inv ns, where x = None]) (use rdev_at_bound [OF p(2)] p f in \<open>auto simp: in_sync_at_def\<close>)
  then show ?thesis by (intro that) (use p f in \<open>auto simp: raid1_remove_disk_def\<close>)
qed

text \<open>A step of the thread that changes neither requests nor members.\<close>

lemma control_thread:
  assumes inv: "control s" and same: "mirrors s' = mirrors s" "reqs s' = reqs s" "last_used s' = last_used s" "working_disks s' = working_disks s" "nr_pending s' = nr_pending s"
      "retry_list s' = retry_list s" "md_size s' = md_size s" "recovery_active s' = recovery_active s \<or> no_sync s \<and> recovery_active s' = 0"
    and b: "barrier s' - barred (sync_thread s') = barrier s - barred (sync_thread s)" and ex: "excluded s'"
    and pos: "\<And>f j. sync_thread s' = SyncUp f j \<or> sync_thread s' = SyncIn j \<Longrightarrow> j < max_sector s"
  shows "control s'"
proof (rule control_same [OF inv same(2) _ _ _ _ _ _ same(5) b _ same(6,7) ex pos])
  note I = controlD [OF inv]
  have rd: "rdev_at s' i = rdev_at s i" for i by (simp add: rdev_at_def same)
  show "\<exists>rd. rdev_at s i = Some rd \<and> rv_pending rd' = rv_pending rd \<and> (rv_in_sync rd' \<longrightarrow> \<not> rv_faulty rd')" if "rdev_at s' i = Some rd'" for i rd'
    using that I(2) [of i] by (auto simp: rdev_ok_def rd)
  show "working_disks s' = int (card {i. in_sync_at s' i})" "0 < working_disks s'" using I(3,4) same(4) by (simp_all add: in_sync_at_def rd)
  show "recovery_active s' = recovery_active s" using same(8) I(7) total_sync_zero by auto
  show "rdev_at s' i = None \<longleftrightarrow> rdev_at s i = None" for i by (simp add: rd)
qed (use controlD(1) [OF inv] same in simp_all)

lemma excluded_thread: "reqs s' = reqs s \<Longrightarrow> no_sync s' = no_sync s \<and> quiet s' = quiet s"
  by (simp add: no_sync_def quiet_def req_at_def)

lemma control_barrier_up:
  assumes inv: "control s" and t: "sync_thread s = SyncLoop j" "j < max_sector s"
  shows "control (barrier_up j s)"
proof (rule control_thread [OF inv])
  have "no_sync s" if "barrier s = 0" using barrier_zero [OF inv that] by simp
  moreover have "quiet s" if "barrier s \<noteq> 0"
  proof (rule ccontr)
    assume "\<not> quiet s"
    then have "no_sync s" using controlD(8) [OF inv] by (simp add: excluded_def)
    then have "total_of (\<lambda>r. of_bool (r_is_sync r) :: int) s = 0"
      unfolding total_of_def by (intro sum.neutral) (auto simp: no_sync_def split: option.splits)
    then show False using that controlD(6) [OF inv] t(1) by (simp add: barred_def)
  qed
  ultimately show "excluded (barrier_up j s)"
    using controlD(8) [OF inv] excluded_thread [of "barrier_up j s" s] by (cases "barrier s = 0") (simp_all add: excluded_def barrier_up_def)
qed (use t in \<open>auto simp: barrier_up_def barred_def\<close>)

lemma barrier_pass_spec:
  assumes inv: "control s" and t: "sync_thread s = SyncUp first j" "first \<longrightarrow> nr_pending s = 0"
  obtains s' where "barrier_pass first j s = Inr s'" "control s'" "s' = s\<lparr>next_resync := j + RESYNC_SECTORS, sync_thread := SyncIn j\<rparr>"
proof -
  have "quiet s"
  proof (cases first)
    case True
    then have "total_of (\<lambda>r. 1 :: int) s = 0" using t controlD(5) [OF inv] by simp
    then show ?thesis using total_of_zero [of "\<lambda>r. 1 :: int" s] by (auto simp: quiet_def)
  qed (use controlD(8) [OF inv] t in \<open>simp add: excluded_def\<close>)
  then have "control (s\<lparr>next_resync := j + RESYNC_SECTORS, sync_thread := SyncIn j\<rparr>)"
    by (intro control_thread [OF inv]) (use t placed_pos [OF inv] in \<open>auto simp: barred_def excluded_def quiet_def no_sync_def\<close>)
  then show ?thesis by (intro that) (use t in \<open>auto simp: barrier_pass_def\<close>)
qed

lemma control_leave: "control s \<Longrightarrow> sync_thread s = SyncLoop j \<Longrightarrow> control (sync_leave signal j s)"
  by (rule control_thread [of s], assumption)
    (use controlD(8) [of s] excluded_thread [of "sync_leave signal j s" s] in \<open>auto simp: sync_leave_def barred_def excluded_def\<close>)

lemma control_close:
  assumes inv: "control s" and t: "sync_thread s = SyncOut j" "barrier s = 0"
  shows "control (sync_close j s)"
  by (rule control_thread [OF inv])
    (use barrier_zero [OF inv t(2)] excluded_thread [of "sync_close j s" s] t in \<open>auto simp: sync_close_def barred_def excluded_def Let_def\<close>)

lemma control_reset: "control s \<Longrightarrow> control (recovery_reset s)"
  by (rule control_thread [of s], assumption)
    (use controlD(8) [of s] excluded_same [of "recovery_reset s" s] placed_pos [of s] in \<open>auto simp: recovery_reset_def\<close>)

lemma control_start:
  assumes inv: "control s" and t: "sync_thread s = SyncIdle"
  shows "control (recovery_start k s)"
  by (rule control_thread [OF inv])
    (use idle_no_sync [OF inv] excluded_thread [of "recovery_start k s" s] t in \<open>auto simp: recovery_start_def barred_def excluded_def\<close>)

lemma control_enter:
  assumes inv: "control s" and t: "sync_thread s = SyncWait b"
  shows "control (sync_enter b s)"
  by (rule control_thread [OF inv])
    (use idle_no_sync [OF inv] excluded_thread [of "sync_enter b s" s] t in \<open>auto simp: sync_enter_def barred_def excluded_def\<close>)

lemma control_skip:
  assumes inv: "control s" and t: "sync_thread s = SyncWait b"
  shows "control (sync_skip s)"
  by (rule control_thread [OF inv])
    (use idle_no_sync [OF inv] excluded_thread [of "sync_skip s" s] t in \<open>auto simp: sync_skip_def barred_def excluded_def\<close>)

definition join_rdev :: "r1_rdev \<Rightarrow> r1_rdev" where
  "join_rdev rd = (if rv_faulty rd then rd else rd\<lparr>rv_in_sync := True\<rparr>)"

lemma rdev_at_active: "rdev_at (raid1_spare_active s) i = map_option join_rdev (rdev_at s i)"
  by (auto simp: raid1_spare_active_def rdev_at_def spare_def join_rdev_def Let_def split: option.splits)

lemma spare_iff: "i < raid_disks s \<and> spare (mirrors s ! i) \<longleftrightarrow> live_at s i \<and> \<not> in_sync_at s i"
  by (auto simp: spare_def live_at_def in_sync_at_def rdev_at_def split: option.splits if_splits)

lemma control_active:
  assumes inv: "control s"
  shows "control (raid1_spare_active s)"
proof (rule control_same [OF inv])
  note I = controlD [OF inv]
  let ?s = "raid1_spare_active s" let ?P = "{i. live_at s i \<and> \<not> in_sync_at s i}"
  show "\<exists>rd. rdev_at s i = Some rd \<and> rv_pending rd' = rv_pending rd \<and> (rv_in_sync rd' \<longrightarrow> \<not> rv_faulty rd')" if "rdev_at ?s i = Some rd'" for i rd'
    using that I(2) [of i] by (auto simp: rdev_at_active join_rdev_def rdev_ok_def)
  have k: "length (filter spare (mirrors s)) = card ?P" unfolding length_filter_conv_card by (simp only: spare_iff)
  have fin: "finite ?P" by (rule finite_subset [of _ "{..<raid_disks s}"]) (auto simp: live_at_def dest: rdev_at_bound)
  have "in_sync_at ?s i \<longleftrightarrow> in_sync_at s i \<or> live_at s i \<and> \<not> in_sync_at s i" for i
    using I(2) [of i] by (cases "rdev_at s i") (auto simp: in_sync_at_def rdev_at_active join_rdev_def live_at_def rdev_ok_def)
  then have "{i. in_sync_at ?s i} = {i. in_sync_at s i} \<union> ?P" by blast
  then have "card {i. in_sync_at ?s i} = card {i. in_sync_at s i} + card ?P" using fin by (simp only:) (subst card_Un_disjoint; auto)
  then show "working_disks ?s = int (card {i. in_sync_at ?s i})" using I(3) k by (simp add: raid1_spare_active_def Let_def)
  show "0 < working_disks ?s" using I(4) by (simp add: raid1_spare_active_def Let_def)
  have "excluded ?s = excluded s" by (rule excluded_same) (simp_all add: raid1_spare_active_def Let_def req_at_def)
  then show "excluded ?s" using I(8) by simp
qed (use controlD(1) [OF inv] placed_pos [OF inv] in \<open>auto simp: raid1_spare_active_def rdev_at_def Let_def\<close>)

lemma control_collect:
  assumes inv: "control s" and t: "sync_thread s = SyncDone j"
  shows "control (recovery_collect s)"
proof -
  define s1 where "s1 = (if \<not> recovery_err s \<and> \<not> recovery_intr s then raid1_spare_active s else s)"
  have inv1: "control s1" using inv control_active by (simp add: s1_def)
  have t1: "sync_thread s1 = SyncDone j" using t by (simp add: s1_def raid1_spare_active_def Let_def)
  have e: "recovery_collect s = s1\<lparr>recovery_err := False, recovery_intr := False, sync_thread := SyncIdle\<rparr>" by (simp add: recovery_collect_def s1_def)
  show ?thesis
    by (rule control_thread [OF inv1])
      (use idle_no_sync [OF inv1] excluded_thread [of "recovery_collect s" s1] t1 in \<open>auto simp: e barred_def excluded_def\<close>)
qed

end
