(* ===== verification/Md_Raid1_Data.thy ===== *)
theory Md_Raid1_Data
  imports Md_Raid1_Control
begin

text \<open>
  The data invariant of the mirrored array: what the disks and the pages of the requests hold, compared with the contents that the array
  should have. Together with the control invariant it is kept by every event, and it says what the answers to requests contain.
\<close>

subsection \<open>Where requests lie\<close>

definition geometry :: "r1bio \<Rightarrow> sector_t \<times> u32 \<times> bool \<times> bool" where
  "geometry r = (r_sector r, r_sectors r, r_is_sync r, r_is_write r)"

definition plain_read :: "r1bio \<Rightarrow> bool" where
  "plain_read r \<longleftrightarrow> \<not> r_is_sync r \<and> \<not> r_is_write r"

primrec sync_pos :: "sync_pc \<Rightarrow> sector_t option" where
  "sync_pos SyncIdle = None"
| "sync_pos (SyncWait b) = None"
| "sync_pos (SyncLoop j) = Some j"
| "sync_pos (SyncUp first j) = Some j"
| "sync_pos (SyncIn j) = Some j"
| "sync_pos (SyncOut j) = Some j"
| "sync_pos (SyncDone j) = Some j"

text \<open>Every request lies inside the array and covers a sector, two of them overlap only when both are reads, and resync requests lie
  below the position of the thread.\<close>

definition layout :: "raid1 \<Rightarrow> bool" where
  "layout s \<longleftrightarrow> (\<forall>n r. req_at s n = Some r \<longrightarrow> covers r (r_sector r) \<and> (\<forall>x. covers r x \<longrightarrow> x < max_sector s) \<and>
       (r_is_sync r \<longrightarrow> (\<forall>x. covers r x \<longrightarrow> (\<exists>j. sync_pos (sync_thread s) = Some j \<and> x < j)))) \<and>
     (\<forall>m n r q x. req_at s m = Some r \<longrightarrow> req_at s n = Some q \<longrightarrow> m \<noteq> n \<longrightarrow> covers r x \<longrightarrow> covers q x \<longrightarrow> plain_read r \<and> plain_read q)"

lemma covers_geometry: "geometry r' = geometry r \<Longrightarrow> covers r' = covers r"
  by (simp add: geometry_def covers_def fun_eq_iff)

lemma layoutD:
  assumes "layout s" "req_at s n = Some r"
  shows "covers r (r_sector r)" "covers r x \<Longrightarrow> x < max_sector s" "r_is_sync r \<Longrightarrow> covers r x \<Longrightarrow> \<exists>j. sync_pos (sync_thread s) = Some j \<and> x < j"
    "req_at s m = Some q \<Longrightarrow> m \<noteq> n \<Longrightarrow> covers r x \<Longrightarrow> covers q x \<Longrightarrow> plain_read r \<and> plain_read q"
  using assms unfolding layout_def by metis+

lemma layout_sub:
  assumes l: "layout s" and q: "\<And>m r'. req_at s' m = Some r' \<Longrightarrow> \<exists>r. req_at s m = Some r \<and> geometry r' = geometry r"
    and t: "sync_pos (sync_thread s') = sync_pos (sync_thread s) \<or> no_sync s" "md_size s' = md_size s"
  shows "layout s'"
proof -
  have G: "covers r' = covers r \<and> r_is_sync r' = r_is_sync r \<and> plain_read r' = plain_read r \<and> r_sector r' = r_sector r" if "geometry r' = geometry r" for r r'
    using that covers_geometry [OF that] by (simp add: geometry_def plain_read_def)
  show ?thesis unfolding layout_def
  proof (intro conjI allI impI)
    fix m r' assume r': "req_at s' m = Some r'"
    obtain r where r: "req_at s m = Some r" "geometry r' = geometry r" using q [OF r'] by blast
    note L = layoutD [OF l r(1)]
    show "covers r' (r_sector r')" "\<And>x. covers r' x \<Longrightarrow> x < max_sector s'" using L(1,2) G [OF r(2)] t(2) by auto
    show "\<exists>j. sync_pos (sync_thread s') = Some j \<and> x < j" if "r_is_sync r'" "covers r' x" for x
      using L(3) [of x] G [OF r(2)] t(1) that r(1) by (auto simp: no_sync_def)
  next
    fix m n r' q' x assume a: "req_at s' m = Some r'" "req_at s' n = Some q'" "m \<noteq> n" "covers r' x" "covers q' x"
    obtain r p where r: "req_at s m = Some r" "geometry r' = geometry r" "req_at s n = Some p" "geometry q' = geometry p" using q a(1,2) by metis
    show "plain_read r'" "plain_read q'" using layoutD(4) [OF l r(1) r(3), of x] G [OF r(2)] G [OF r(4)] a(3-5) by auto
  qed
qed

subsection \<open>What the disks hold\<close>

definition write_data :: "raid1 \<Rightarrow> (sector_t \<Rightarrow> bool) \<Rightarrow> r1bio \<Rightarrow> bool" where
  "write_data s Y r \<longleftrightarrow> (\<forall>i rd. rdev_at s i = Some rd \<longrightarrow> rv_in_sync rd \<or> \<not> rv_faulty rd \<and> (\<exists>x. Y x) \<longrightarrow>
     (bios r ! i \<in> {Picked, Sent, Good} \<or> bios r ! i = Failed \<and> rv_in_sync rd) \<and>
     (bios r ! i = Good \<longrightarrow> (\<forall>x. covers r x \<longrightarrow> view rd x = r_data r x)))"

definition read_data :: "raid1 \<Rightarrow> (sector_t \<Rightarrow> block) \<Rightarrow> (sector_t \<Rightarrow> bool) \<Rightarrow> r1bio \<Rightarrow> bool" where
  "read_data s P B r \<longleftrightarrow> (bios r ! read_disk r = Sent \<longrightarrow>
     (\<forall>rd x. rdev_at s (read_disk r) = Some rd \<longrightarrow> covers r x \<longrightarrow> \<not> B x \<longrightarrow> view rd x = P x))"

definition sync_data :: "raid1 \<Rightarrow> (sector_t \<Rightarrow> block) \<Rightarrow> (sector_t \<Rightarrow> bool) \<Rightarrow> r1bio \<Rightarrow> bool" where
  "sync_data s P B r \<longleftrightarrow> read_data s P B r \<and> (remaining r \<noteq> 0 \<longrightarrow> bios r ! read_disk r \<noteq> Good \<longrightarrow> (\<forall>x. covers r x \<longrightarrow> B x)) \<and> (bios r ! read_disk r = Good \<longrightarrow> (\<forall>x. covers r x \<longrightarrow> \<not> B x \<longrightarrow> r_data r x = P x)) \<and>
     (\<forall>i rd. rdev_at s i = Some rd \<longrightarrow> \<not> rv_faulty rd \<longrightarrow> \<not> rv_in_sync rd \<longrightarrow>
        bios r ! i \<in> {Picked, Sent, Good} \<and> (bios r ! i = Good \<longrightarrow> (\<forall>x. covers r x \<longrightarrow> \<not> B x \<longrightarrow> view rd x = P x)))"

definition req_data :: "raid1 \<Rightarrow> (sector_t \<Rightarrow> block) \<Rightarrow> (sector_t \<Rightarrow> bool) \<Rightarrow> (sector_t \<Rightarrow> bool) \<Rightarrow> r1bio \<Rightarrow> bool" where
  "req_data s P B Y r \<longleftrightarrow>
     (if r_is_sync r then sync_data s P B r else if r_is_write r then r_stage r \<noteq> Entered \<longrightarrow> write_data s Y r else r_stage r = Issued \<longrightarrow> read_data s P B r)"

text \<open>A write that has been started.\<close>

definition writing :: "r1bio \<Rightarrow> bool" where
  "writing r \<longleftrightarrow> \<not> r_is_sync r \<and> r_is_write r \<and> r_stage r \<noteq> Entered"

definition disk_data :: "raid1 \<Rightarrow> (sector_t \<Rightarrow> block) \<Rightarrow> (sector_t \<Rightarrow> bool) \<Rightarrow> (sector_t \<Rightarrow> bool) \<Rightarrow> bool" where
  "disk_data s P B Y \<longleftrightarrow> (\<forall>x i rd. x < max_sector s \<longrightarrow> \<not> B x \<longrightarrow> (\<forall>n r. req_at s n = Some r \<longrightarrow> writing r \<longrightarrow> \<not> covers r x) \<longrightarrow>
     rdev_at s i = Some rd \<longrightarrow> rv_in_sync rd \<or> \<not> rv_faulty rd \<and> Y x \<longrightarrow> view rd x = P x)"

definition spare_at :: "raid1 \<Rightarrow> nat \<Rightarrow> bool" where
  "spare_at s i \<longleftrightarrow> live_at s i \<and> \<not> in_sync_at s i"

lemma spare_at_iff: "spare_at s i \<longleftrightarrow> (\<exists>rd. rdev_at s i = Some rd \<and> \<not> rv_faulty rd \<and> \<not> rv_in_sync rd)"
  by (auto simp: spare_at_def live_at_def in_sync_at_def split: option.splits)

text \<open>How far a rebuild is that is not flawed: behind the thread every sector is copied or in a request.\<close>

definition progress :: "bool \<Rightarrow> raid1 \<Rightarrow> (sector_t \<Rightarrow> bool) \<Rightarrow> bool" where
  "progress fl s Y \<longleftrightarrow> (case sync_pos (sync_thread s) of
       None \<Rightarrow> \<forall>x. \<not> Y x
     | Some j \<Rightarrow> (\<exists>i. spare_at s i) \<longrightarrow> fl \<or> recovery_err s \<or> (\<forall>x < j. Y x \<or> (\<exists>n r. req_at s n = Some r \<and> r_is_sync r \<and> covers r x))) \<and>
     (\<forall>j. sync_thread s = SyncOut j \<or> sync_thread s = SyncDone j \<longrightarrow> fl \<or> max_sector s \<le> j \<or> recovery_err s \<or> recovery_intr s)"

definition data :: "bool \<Rightarrow> raid1 \<Rightarrow> (sector_t \<Rightarrow> block) \<Rightarrow> (sector_t \<Rightarrow> bool) \<Rightarrow> (sector_t \<Rightarrow> bool) \<Rightarrow> bool" where
  "data fl s P B Y \<longleftrightarrow> layout s \<and> disk_data s P B Y \<and> progress fl s Y \<and> (\<forall>n r. req_at s n = Some r \<longrightarrow> req_data s P B Y r)"

lemma dataD:
  assumes "data fl s P B Y"
  shows "layout s" "disk_data s P B Y" "progress fl s Y" "req_at s n = Some r \<Longrightarrow> req_data s P B Y r"
  using assms by (auto simp: data_def)

text \<open>A step may take flags away from a disk.\<close>

definition weaker :: "r1_rdev \<Rightarrow> r1_rdev \<Rightarrow> bool" where
  "weaker rd rd' \<longleftrightarrow> (rv_in_sync rd' \<longrightarrow> rv_in_sync rd) \<and> (\<not> rv_faulty rd' \<longrightarrow> \<not> rv_faulty rd \<and> rv_in_sync rd' = rv_in_sync rd)"

lemma weaker_simps [simp]:
  "weaker rd (more_pending d rd)" "weaker rd (fail_rdev w rd)" "weaker rd rd"
  by (auto simp: weaker_def)

lemma req_data_other:
  assumes d: "req_data s P B Y r"
    and rd: "\<And>j rd'. rdev_at s' j = Some rd' \<Longrightarrow> \<exists>rd. rdev_at s j = Some rd \<and> weaker rd rd' \<and> (\<forall>x. covers r x \<longrightarrow> view rd' x = view rd x)"
    and P: "\<And>x. covers r x \<Longrightarrow> P' x = P x \<and> (B x \<longrightarrow> B' x)" and Y: "\<And>x. Y' x \<Longrightarrow> \<exists>x. Y x \<or> r_is_sync r"
  shows "req_data s' P' B' Y' r"
proof -
  have "read_data s' P' B' r" if "read_data s P B r"
    using that P unfolding read_data_def by (metis rd)
  moreover have "sync_data s' P' B' r" if "sync_data s P B r" "read_data s' P' B' r"
    unfolding sync_data_def
  proof (intro conjI allI impI)
    show "read_data s' P' B' r" by (rule that(2))
    show "B' x" if "remaining r \<noteq> 0" "bios r ! read_disk r \<noteq> Good" "covers r x" for x using \<open>sync_data s P B r\<close> P that unfolding sync_data_def by metis
    show "r_data r x = P' x" if "bios r ! read_disk r = Good" "covers r x" "\<not> B' x" for x using \<open>sync_data s P B r\<close> P that unfolding sync_data_def by metis
    fix i rd' assume a: "rdev_at s' i = Some rd'" "\<not> rv_faulty rd'" "\<not> rv_in_sync rd'"
    obtain rd0 where b: "rdev_at s i = Some rd0" "weaker rd0 rd'" "\<forall>x. covers r x \<longrightarrow> view rd' x = view rd0 x" using rd [OF a(1)] by blast
    have c: "\<not> rv_faulty rd0" "\<not> rv_in_sync rd0" using b(2) a by (auto simp: weaker_def)
    show "bios r ! i \<in> {Picked, Sent, Good}" using that(1) b(1) c unfolding sync_data_def by blast
    show "view rd' x = P' x" if "bios r ! i = Good" "covers r x" "\<not> B' x" for x
      using \<open>sync_data s P B r\<close> b c P that unfolding sync_data_def by metis
  qed
  moreover have "write_data s' Y' r" if "write_data s Y r" "\<not> r_is_sync r"
    unfolding write_data_def
  proof (intro allI impI)
    fix i rd' assume a: "rdev_at s' i = Some rd'" "rv_in_sync rd' \<or> \<not> rv_faulty rd' \<and> (\<exists>x. Y' x)"
    obtain rd0 where b: "rdev_at s i = Some rd0" "weaker rd0 rd'" "\<forall>x. covers r x \<longrightarrow> view rd' x = view rd0 x" using rd [OF a(1)] by blast
    have c: "rv_in_sync rd0 \<or> \<not> rv_faulty rd0 \<and> (\<exists>x. Y x)" using b(2) a Y that(2) by (auto simp: weaker_def)
    have w: "bios r ! i \<in> {Picked, Sent, Good} \<or> bios r ! i = Failed \<and> rv_in_sync rd0" "bios r ! i = Good \<longrightarrow> (\<forall>x. covers r x \<longrightarrow> view rd0 x = r_data r x)"
      using that(1) b(1) c unfolding write_data_def by blast+
    have "rv_in_sync rd0 \<Longrightarrow> rv_in_sync rd'" using a(2) b(2) by (auto simp: weaker_def)
    then show "(bios r ! i \<in> {Picked, Sent, Good} \<or> bios r ! i = Failed \<and> rv_in_sync rd') \<and> (bios r ! i = Good \<longrightarrow> (\<forall>x. covers r x \<longrightarrow> view rd' x = r_data r x))"
      using w b(3) by auto
  qed
  moreover have "sync_data s P B r \<Longrightarrow> read_data s P B r" by (simp add: sync_data_def)
  ultimately show ?thesis using d unfolding req_data_def by (simp split: if_splits)
qed

text \<open>A step that changes one request, and what is known of the sectors of this request.\<close>

lemma progress_request:
  assumes inv: "control s" and p: "progress fl s Y" and r: "req_at s n = Some r" and st: "request_step n q F s s'"
    and geo: "\<And>r'. q = Some r' \<Longrightarrow> geometry r' = geometry r" and sp: "\<And>i. spare_at s' i \<Longrightarrow> spare_at s i"
    and Y: "\<And>x. Y' x \<longleftrightarrow> Y x \<or> c \<and> covers r x" "c \<Longrightarrow> r_is_sync r \<and> q = None" and prog: "q = None \<Longrightarrow> r_is_sync r \<Longrightarrow> c \<or> recovery_err s'"
  shows "progress fl s' Y'"
proof (cases "sync_pos (sync_thread s)")
  case None
  then have "no_sync s" using controlD(8) [OF inv] by (cases "sync_thread s") (simp_all add: excluded_def)
  then have "\<not> r_is_sync r" using r by (auto simp: no_sync_def)
  then show ?thesis using p Y None st by (auto simp: progress_def request_step_def)
next
  case (Some j)
  note S = st [unfolded request_step_def]
  have qm: "req_at s' m = (if m = n then q else req_at s m)" for m using S by blast
  have "Y' x \<or> (\<exists>m p. req_at s' m = Some p \<and> r_is_sync p \<and> covers p x)"
    if ne: "\<not> recovery_err s'" and o: "Y x \<or> (\<exists>m p. req_at s m = Some p \<and> r_is_sync p \<and> covers p x)" for x
  proof (cases "Y x")
    case False
    then obtain m p where p: "req_at s m = Some p" "r_is_sync p" "covers p x" using o by blast
    consider "m \<noteq> n" | "m = n" "q = None" | r' where "m = n" "q = Some r'" by blast
    then show ?thesis
    proof cases
      case 3
      then have "r_is_sync r'" "covers r' x" using geo [OF 3(2)] covers_geometry [OF geo [OF 3(2)]] p r by (simp_all add: geometry_def)
      then show ?thesis using qm [of n] 3 by auto
    qed (use prog ne p r Y qm in auto)
  qed (use Y in simp)
  then show ?thesis using p Some S sp unfolding progress_def by (simp only: option.case) metis
qed

lemma data_request:
  assumes inv: "control s" and d: "data fl s P B Y" and r: "req_at s n = Some r" and st: "request_step n q F s s'"
    and geo: "\<And>r'. q = Some r' \<Longrightarrow> geometry r' = geometry r"
    and F: "\<And>j rd. rdev_at s j = Some rd \<Longrightarrow> weaker rd (F j rd) \<and> (\<forall>x. view (F j rd) x = view rd x \<or> covers r x \<and> \<not> plain_read r)"
    and P: "\<And>x. P' x = P x \<and> B' x = B x \<or> covers r x \<and> \<not> plain_read r" "\<And>x. r_is_sync r \<Longrightarrow> P' x = P x \<and> (B x \<longrightarrow> B' x)"
    and Y: "\<And>x. Y' x \<longleftrightarrow> Y x \<or> c \<and> covers r x" "c \<Longrightarrow> r_is_sync r \<and> q = None"
    and self: "\<And>r'. q = Some r' \<Longrightarrow> req_data s' P' B' Y' r'"
    and cover: "\<And>x i rd. covers r x \<Longrightarrow> \<not> B' x \<Longrightarrow> \<not> plain_read r \<Longrightarrow> (\<And>r'. q = Some r' \<Longrightarrow> \<not> writing r') \<Longrightarrow> rdev_at s' i = Some rd \<Longrightarrow>
      rv_in_sync rd \<or> \<not> rv_faulty rd \<and> Y' x \<Longrightarrow> view rd x = P' x"
    and prog: "q = None \<Longrightarrow> r_is_sync r \<Longrightarrow> c \<or> recovery_err s'"
  shows "data fl s' P' B' Y'"
proof -
  note D = dataD [OF d] and S = st [unfolded request_step_def]
  have qm: "req_at s' m = (if m = n then q else req_at s m)" for m using S by blast
  have rdm: "\<exists>rd0. rdev_at s j = Some rd0 \<and> weaker rd0 rd \<and> (\<forall>x. view rd x = view rd0 x \<or> covers r x \<and> \<not> plain_read r)" if "rdev_at s' j = Some rd" for j rd
  proof -
    have "map_option (F j) (rdev_at s j) = Some rd" using S that by simp
    then obtain rd0 where "rdev_at s j = Some rd0" "rd = F j rd0" by auto
    then show ?thesis using F by blast
  qed
  have L: "layout s'" by (rule layout_sub [OF D(1)]) (use qm geo r S in \<open>auto split: if_splits\<close>)
  have R: "req_data s' P' B' Y' p" if p: "req_at s' m = Some p" for m p
  proof (cases "m = n")
    case True
    then show ?thesis using self p qm by simp
  next
    case False
    then have p': "req_at s m = Some p" using p qm by simp
    have dis: "\<not> (covers r x \<and> \<not> plain_read r)" if "covers p x" for x using layoutD(4) [OF D(1) r p' False] that by blast
    show ?thesis
    proof (rule req_data_other [OF D(4) [OF p']])
      show "\<exists>rd0. rdev_at s j = Some rd0 \<and> weaker rd0 rd \<and> (\<forall>x. covers p x \<longrightarrow> view rd x = view rd0 x)" if "rdev_at s' j = Some rd" for j rd
        using rdm [OF that] dis by metis
      show "P' x = P x \<and> (B x \<longrightarrow> B' x)" if "covers p x" for x using P(1) dis [OF that] by metis
      show "\<exists>x. Y x \<or> r_is_sync p" if "Y' x" for x
        using that Y excluded_cases(1) [OF inv r] p' unfolding quiet_def by blast
    qed
  qed
  have K: "disk_data s' P' B' Y'" unfolding disk_data_def
  proof (intro allI impI)
    fix x i rd assume a: "x < max_sector s'" "\<not> B' x" "\<forall>m p. req_at s' m = Some p \<longrightarrow> writing p \<longrightarrow> \<not> covers p x" "rdev_at s' i = Some rd" "rv_in_sync rd \<or> \<not> rv_faulty rd \<and> Y' x"
    show "view rd x = P' x"
    proof (cases "covers r x \<and> \<not> plain_read r")
      case True
      then have "\<not> writing r'" if "q = Some r'" for r'
        using a(3) qm [of n] that covers_geometry [OF geo [OF that]] True by metis
      then show ?thesis using cover [of x i rd] True a by blast
    next
      case False
      obtain rd0 where b: "rdev_at s i = Some rd0" "weaker rd0 rd" "view rd x = view rd0 x" using rdm [OF a(4)] False by metis
      have "plain_read r" if c "covers r x" using False that by blast
      then have c: "rv_in_sync rd0 \<or> \<not> rv_faulty rd0 \<and> Y x" using b(2) a(5) Y by (auto simp: weaker_def plain_read_def)
      have "\<not> covers p x" if "req_at s m = Some p" "writing p" for m p
        using a(3) False that qm [of m] r by (cases "m = n") (auto simp: writing_def plain_read_def)
      moreover have "P' x = P x" "B' x = B x" using P(1) [of x] False by blast+
      ultimately show ?thesis using D(2) b c a(1,2) S unfolding disk_data_def by metis
    qed
  qed
  have sp: "spare_at s i" if "spare_at s' i" for i using that rdm [of i] unfolding spare_at_iff weaker_def by metis
  have "progress fl s' Y'" by (rule progress_request [OF inv D(3) r st geo sp Y prog])
  then show ?thesis using L K R by (simp add: data_def)
qed

lemma covered_view:
  assumes d: "data fl s P B Y" and r: "req_at s n = Some r" "\<not> writing r" "covers r x" and b: "\<not> B x"
    and rd: "rdev_at s i = Some rd" "rv_in_sync rd \<or> \<not> rv_faulty rd \<and> Y x"
  shows "view rd x = P x"
proof -
  note D = dataD [OF d]
  have "\<not> covers p x" if p: "req_at s m = Some p" "writing p" for m p
  proof (cases "m = n")
    case True
    then show ?thesis using p r by simp
  next
    case False
    then show ?thesis using layoutD(4) [OF D(1) r(1) p(1) False r(3)] p(2) by (auto simp: writing_def plain_read_def)
  qed
  then show ?thesis using D(2) layoutD(2) [OF D(1) r(1,3)] b rd unfolding disk_data_def by blast
qed

text \<open>The contents of the disks stay.\<close>

lemma data_request_same:
  assumes inv: "control s" and d: "data fl s P B Y" and r: "req_at s n = Some r" and st: "request_step n q F s s'"
    and geo: "\<And>r'. q = Some r' \<Longrightarrow> geometry r' = geometry r \<and> (writing r \<longrightarrow> writing r') \<and> req_data s' P B Y r'"
    and F: "\<And>j rd. rdev_at s j = Some rd \<Longrightarrow> weaker rd (F j rd) \<and> view (F j rd) = view rd"
    and q: "q = None \<Longrightarrow> \<not> writing r \<and> (r_is_sync r \<longrightarrow> recovery_err s')"
  shows "data fl s' P B Y"
proof (rule data_request [OF inv d r st, where c = False])
  fix x i rd'
  assume a: "covers r x" "\<not> B x" "\<And>r'. q = Some r' \<Longrightarrow> \<not> writing r'" "rdev_at s' i = Some rd'" "rv_in_sync rd' \<or> \<not> rv_faulty rd' \<and> Y x"
  have "map_option (F i) (rdev_at s i) = Some rd'" using st a(4) by (simp add: request_step_def)
  then obtain rd where rd: "rdev_at s i = Some rd" "rd' = F i rd" by auto
  have "\<not> writing r" using a(3) geo q by (cases q) auto
  moreover have "rv_in_sync rd \<or> \<not> rv_faulty rd \<and> Y x" using a(5) F [OF rd(1)] rd(2) by (auto simp: weaker_def)
  ultimately show "view rd' x = P x" using covered_view [OF d r _ a(1,2) rd(1)] F [OF rd(1)] rd(2) by simp
qed (use geo F q in auto)

lemma step_rdev:
  assumes "request_step n q F s s'" "rdev_at s' j = Some rd'"
  obtains rd where "rdev_at s j = Some rd" "rd' = F j rd"
proof -
  have "map_option (F j) (rdev_at s j) = Some rd'" using assms by (simp add: request_step_def)
  then show ?thesis using that by auto
qed

lemma data_read_sent:
  assumes inv: "control s" and d: "data fl s P B Y" and r: "req_at s n = Some r" "\<not> r_is_write r" "\<not> r_is_sync r" and i: "in_sync_at s i"
    and r': "r' = r\<lparr>read_disk := i, bios := (replicate (raid_disks s) NoPart)[i := Sent], r_stage := Issued\<rparr>"
    and st: "request_step n (Some r') (\<lambda>j. more_pending (of_bool (j = i))) s s'"
  shows "data fl s' P B Y"
proof (rule data_request_same [OF inv d r(1) st])
  fix q assume q: "Some r' = Some q"
  have "view rd' x = P x" if a: "rdev_at s' i = Some rd'" "covers r' x" "\<not> B x" for rd' x
  proof -
    obtain rd where rd: "rdev_at s i = Some rd" "rd' = more_pending (of_bool (i = i)) rd" by (rule step_rdev [OF st a(1)])
    have "rv_in_sync rd" using i rd(1) by (auto simp: in_sync_at_iff)
    moreover have "covers r x" using a(2) by (simp add: covers_def r')
    ultimately show ?thesis using covered_view [OF d r(1) _ _ a(3) rd(1)] r rd(2) by (simp add: writing_def)
  qed
  then show "geometry q = geometry r \<and> (writing r \<longrightarrow> writing q) \<and> req_data s' P B Y q"
    using q r by (auto simp: r' geometry_def writing_def req_data_def read_data_def)
qed simp_all

lemma data_start_write:
  assumes inv: "control s" and d: "data fl s P B Y" and r: "req_at s n = Some r" "r_is_write r" "\<not> r_is_sync r"
    and r': "r' = r\<lparr>bios := map (\<lambda>m. if usable m then Picked else NoPart) (mirrors s), remaining := 1, r_stage := Issue 0\<rparr>"
    and st: "request_step n (Some r') (\<lambda>j. more_pending (of_bool (live_at s j))) s s'"
  shows "data fl s' P B Y"
proof (rule data_request_same [OF inv d r(1) st])
  fix q assume q: "Some r' = Some q"
  have "bios r' ! i = Picked" if a: "rdev_at s' i = Some rd'" "rv_in_sync rd' \<or> \<not> rv_faulty rd' \<and> (\<exists>x. Y x)" for i rd'
  proof -
    obtain rd where rd: "rdev_at s i = Some rd" "rd' = more_pending (of_bool (live_at s i)) rd" by (rule step_rdev [OF st a(1)])
    have "live_at s i" using a(2) rd controlD(2) [OF inv, of i] by (auto simp: live_at_def rdev_ok_def)
    then show ?thesis using rdev_at_bound [OF rd(1)] usable_live [of i s] by (simp add: r')
  qed
  then have "write_data s' Y r'" unfolding write_data_def by (intro allI impI) simp
  then show "geometry q = geometry r \<and> (writing r \<longrightarrow> writing q) \<and> req_data s' P B Y q"
    using q r by (auto simp: r' geometry_def writing_def req_data_def)
qed simp_all

text \<open>A part is sent.\<close>

lemma req_data_sent:
  assumes d: "req_data s P B Y r" and r': "geometry r' = geometry r" "r_data r' = r_data r" "read_disk r' = read_disk r" "r_stage r \<noteq> Entered" "r_stage r = Issued \<or> \<not> plain_read r"
    "\<And>i. bios r' ! i = bios r ! i \<or> bios r ! i = Picked \<and> bios r' ! i = Sent" "plain_read r \<or> r_is_sync r \<Longrightarrow> bios r ! read_disk r \<noteq> Picked"
    "remaining r = 0 \<longrightarrow> remaining r' = 0"
  shows "req_data s P B Y r'"
proof -
  have c: "covers r' = covers r" "r_is_sync r' = r_is_sync r" "r_is_write r' = r_is_write r" using covers_geometry [OF r'(1)] r'(1) by (simp_all add: geometry_def)
  have b: "bios r' ! i = Good \<longleftrightarrow> bios r ! i = Good" "bios r' ! i = Failed \<longleftrightarrow> bios r ! i = Failed" "bios r ! i \<in> {Picked, Sent, Good} \<Longrightarrow> bios r' ! i \<in> {Picked, Sent, Good}" for i
    using r'(6) [of i] by auto
  have m: "bios r' ! read_disk r = bios r ! read_disk r" if "plain_read r \<or> r_is_sync r" using r'(6) [of "read_disk r"] r'(7) [OF that] by auto
  have "write_data s Y r'" if "write_data s Y r" using that b unfolding write_data_def c(1) r'(2) by metis
  moreover have "read_data s P B r'" if "read_data s P B r" "plain_read r \<or> r_is_sync r" using that(1) m [OF that(2)] unfolding read_data_def c(1) r'(3) by simp
  moreover have "sync_data s P B r'" if "sync_data s P B r" "read_data s P B r'" "r_is_sync r"
    using that(1,2) b r'(8) unfolding sync_data_def c(1) r'(2,3) by metis
  moreover have "sync_data s P B r \<Longrightarrow> read_data s P B r" by (simp add: sync_data_def)
  ultimately show ?thesis using d r'(4,5) unfolding req_data_def c(2,3) plain_read_def by (simp split: if_splits)
qed

lemma req_data_step:
  assumes d: "req_data s P B Y r" and st: "request_step n q F s s'" and F: "\<And>j rd. rdev_at s j = Some rd \<Longrightarrow> weaker rd (F j rd) \<and> view (F j rd) = view rd"
  shows "req_data s' P B Y r"
  by (rule req_data_other [OF d]) (use F step_rdev [OF st] in \<open>metis, auto\<close>)

lemma data_issue_part:
  assumes inv: "control s" and d: "data fl s P B Y" and r: "req_at s n = Some r" and k: "r_stage r = Issue k" "k < raid_disks s"
    and r': "r' = (if bios r ! k = Picked then r\<lparr>bios := (bios r)[k := Sent], remaining := remaining r + 1, r_stage := Issue (Suc k)\<rparr> else r\<lparr>r_stage := Issue (Suc k)\<rparr>)"
    and st: "request_step n (Some r') (\<lambda>j. more_pending (f j)) s s'"
  shows "data fl s' P B Y"
proof (rule data_request_same [OF inv d r st])
  fix q assume q: "Some r' = Some q"
  note S = issuing_ok [OF controlD(9) [OF inv r] k(1)]
  have len: "length (bios r) = raid_disks s" using controlD(9) [OF inv r] by (simp add: req_ok_def)
  have sel: "geometry r' = geometry r" "r_data r' = r_data r" "read_disk r' = read_disk r" "r_stage r' = Issue (Suc k)" by (simp_all add: r' geometry_def)
  have "bios r' ! i = bios r ! i \<or> bios r ! i = Picked \<and> bios r' ! i = Sent" for i using k(2) len by (cases "i = k") (auto simp: r')
  then have "req_data s' P B Y r'"
    by (intro req_data_sent [OF req_data_step [OF dataD(4) [OF d r] st] sel(1-3)]) (use k S in \<open>auto simp: plain_read_def sending_def\<close>)
  then show "geometry q = geometry r \<and> (writing r \<longrightarrow> writing q) \<and> req_data s' P B Y q"
    using q sel by (auto simp: geometry_def writing_def)
qed simp_all

lemma data_end_read:
  assumes inv: "control s" and d: "data fl s P B Y" and r: "req_at s n = Some r" "r_stage r = Issued" "\<not> r_is_write r" "bios r ! read_disk r = Sent"
    and rd: "rdev_at s (read_disk r) = Some rd"
    and r': "r' = r\<lparr>r_data := (if ok then view rd else r_data r), bios := (bios r)[read_disk r := if ok then Good else Failed], r_uptodate := ok \<or> r_uptodate r\<rparr>"
    and st: "request_step n (if ok \<and> \<not> r_is_sync r then None else Some r') (\<lambda>j. if j = read_disk r then end_read_rdev s ok else more_pending 0) s s'"
  shows "data fl s' P B Y" "ok \<Longrightarrow> covers r x \<Longrightarrow> \<not> B x \<Longrightarrow> r_data r' x = P x"
proof -
  have len: "length (bios r) = raid_disks s" "read_disk r < raid_disks s"
    using controlD(9) [OF inv r(1)] rdev_at_bound [OF rd] by (simp_all add: req_ok_def)
  have rdat: "req_data s P B Y r" using dataD(4) [OF d r(1)] .
  then have "read_data s P B r" using r by (auto simp: req_data_def sync_data_def split: if_splits)
  then show v: "ok \<Longrightarrow> covers r x \<Longrightarrow> \<not> B x \<Longrightarrow> r_data r' x = P x" for x using rd r(4) unfolding read_data_def r' by simp
  have F: "weaker rd (if j = read_disk r then end_read_rdev s ok rd else more_pending 0 rd) \<and> view (if j = read_disk r then end_read_rdev s ok rd else more_pending 0 rd) = view rd" for j rd
    by (auto simp: end_read_rdev_def weaker_def)
  have F: "weaker rd ((if j = read_disk r then end_read_rdev s ok else more_pending 0) rd) \<and> view ((if j = read_disk r then end_read_rdev s ok else more_pending 0) rd) = view rd" for j rd
    using F [of rd j] by (cases "j = read_disk r") simp_all
  show "data fl s' P B Y"
  proof (rule data_request_same [OF inv d r(1) st])
    fix q assume q: "(if ok \<and> \<not> r_is_sync r then None else Some r') = Some q"
    have sel: "geometry r' = geometry r" "covers r' = covers r" "r_stage r' = Issued" "read_disk r' = read_disk r" using r(2) by (simp_all add: r' geometry_def covers_def fun_eq_iff)
    have b: "bios r' ! read_disk r = (if ok then Good else Failed)" "j \<noteq> read_disk r \<Longrightarrow> bios r' ! j = bios r ! j" for j using len by (simp_all add: r')
    have "req_data s' P B Y r'"
    proof (cases "r_is_sync r")
      case True
      have sd: "sync_data s' P B r" using req_data_step [OF rdat st F] True by (simp add: req_data_def)
      have "remaining r' = 0" using controlD(9) [OF inv r(1)] True r(4) by (auto simp: r' req_ok_def sync_ok_def split: if_splits)
      then have "sync_data s' P B r'" unfolding sync_data_def
      proof (intro conjI allI impI)
        show "read_data s' P B r'" using b(1) sel(4) by (auto simp: read_data_def)
        show "r_data r' x = P x" if "bios r' ! read_disk r' = Good" "covers r' x" "\<not> B x" for x using that b(1) v sel by (auto split: if_splits)
        fix i rd' assume a: "rdev_at s' i = Some rd'" "\<not> rv_faulty rd'" "\<not> rv_in_sync rd'"
        have ne: "ok \<and> rd' = more_pending (- 1) rd" if i: "i = read_disk r"
        proof -
          have "rd' = end_read_rdev s ok rd" using st a(1) i rd by (simp add: request_step_def)
          then show ?thesis using a(2,3) by (auto simp: end_read_rdev_def split: if_splits)
        qed
        show "bios r' ! i \<in> {Picked, Sent, Good}" using sd a ne b unfolding sync_data_def by (cases "i = read_disk r") auto
        show "view rd' x = P x" if "bios r' ! i = Good" "covers r' x" "\<not> B x" for x
        proof (cases "i = read_disk r")
          case True
          then show ?thesis using ne v [of x] that sel(2) by (simp add: r')
        qed (use sd a b that sel(2) in \<open>auto simp: sync_data_def\<close>)
      qed simp
      then show ?thesis using True by (simp add: req_data_def r')
    next
      case False
      then show ?thesis using q r b(1) sel by (auto simp: req_data_def read_data_def r' split: if_splits)
    qed
    then show "geometry q = geometry r \<and> (writing r \<longrightarrow> writing q) \<and> req_data s' P B Y q"
      using q r sel(1) by (auto simp: writing_def split: if_splits)
  qed (use F r in \<open>auto simp: writing_def\<close>)
qed

text \<open>The daemon copies what was read, or gives the request up.\<close>

lemma data_copy:
  assumes inv: "control s" and d: "data fl s P B Y" and r: "req_at s n = Some r" "r_is_sync r" "\<not> r_is_write r" "bios r ! read_disk r = Good \<or> bios r ! read_disk r = Failed"
    and st: "request_step n (if r_uptodate r then Some (r\<lparr>remaining := 1, r_stage := Issue 0\<rparr>) else None) (\<lambda>j. more_pending 0) s s'" (is "request_step n ?q _ s s'")
    and e: "\<not> r_uptodate r \<Longrightarrow> recovery_err s'"
    and B': "\<And>x. B' x \<longleftrightarrow> B x \<or> (r_uptodate r \<and> bios r ! read_disk r = Failed) \<and> covers r x"
  shows "data fl s' P B' Y"
proof (rule data_request [OF inv d r(1) st, where c = False])
  fix q assume q: "?q = Some q"
  then have q': "q = r\<lparr>remaining := 1, r_stage := Issue 0\<rparr>" "r_uptodate r" by (simp_all split: if_splits)
  have R: "req_data s' P B Y r" by (rule req_data_step [OF dataD(4) [OF d r(1)] st]) simp
  have "covers q = covers r" by (simp add: q' covers_def fun_eq_iff)
  then show "req_data s' P B' Y q" using R r(2,4) q' B' by (auto simp: req_data_def sync_data_def read_data_def)
next
  fix x i rd' assume a: "covers r x" "\<not> B' x" "rdev_at s' i = Some rd'" "rv_in_sync rd' \<or> \<not> rv_faulty rd' \<and> Y x"
  obtain rd where "rdev_at s i = Some rd" "rd' = more_pending 0 rd" by (rule step_rdev [OF st a(3)])
  then show "view rd' x = P x" using covered_view [OF d r(1) _ a(1)] a(2,4) r(2) B' by (simp add: writing_def)
qed (use r e B' in \<open>auto simp: geometry_def plain_read_def split: if_splits\<close>)

subsection \<open>The end of a part\<close>

lemma end_rdev_sel [simp]:
  "view (end_rdev s r ok junk rd) x = (if covers r x then if ok then r_data r x else junk x else view rd x)"
  "weaker rd (end_rdev s r ok junk rd)" "\<not> ok \<Longrightarrow> \<not> rv_faulty (end_rdev s r ok junk rd) \<Longrightarrow> rv_in_sync (end_rdev s r ok junk rd)"
  by (auto simp: end_rdev_def Let_def weaker_def)

definition end_F :: "raid1 \<Rightarrow> r1bio \<Rightarrow> nat \<Rightarrow> bool \<Rightarrow> (sector_t \<Rightarrow> block) \<Rightarrow> nat \<Rightarrow> r1_rdev \<Rightarrow> r1_rdev" where
  "end_F s r i ok junk j = (if j = i then end_rdev s r ok junk else more_pending 0)"

lemma end_F_sel [simp]:
  "end_F s r i ok junk i = end_rdev s r ok junk" "j \<noteq> i \<Longrightarrow> end_F s r i ok junk j rd = rd" "weaker rd (end_F s r i ok junk j rd)"
  "view (end_F s r i ok junk j rd) x = view rd x \<or> covers r x"
  by (auto simp: end_F_def)

text \<open>The sectors whose contents a failed copy leaves open: those that are written again in a disk that stays in use.\<close>

definition spoil :: "raid1 \<Rightarrow> r1bio \<Rightarrow> nat \<Rightarrow> bool \<Rightarrow> (sector_t \<Rightarrow> bool) \<Rightarrow> sector_t \<Rightarrow> bool" where
  "spoil s' r i ok B = (if r_is_sync r \<and> \<not> ok \<and> in_sync_at s' i then (\<lambda>x. B x \<or> covers r x) else B)"

lemma end_F_rdev:
  assumes st: "request_step n q (end_F s r i ok junk) s s'" and rd: "rdev_at s' j = Some rd'"
  shows "j = i \<Longrightarrow> \<exists>rd. rd' = end_rdev s r ok junk rd" "j \<noteq> i \<Longrightarrow> rdev_at s j = Some rd'"
proof -
  obtain rd where "rdev_at s j = Some rd" "rd' = end_F s r i ok junk j rd" by (rule step_rdev [OF st rd])
  then show "j = i \<Longrightarrow> \<exists>rd. rd' = end_rdev s r ok junk rd" "j \<noteq> i \<Longrightarrow> rdev_at s j = Some rd'" by auto
qed

lemma end_sync_data:
  assumes d: "sync_data s P B r" and i: "i < length (bios r)" "i \<noteq> read_disk r" "bios r ! read_disk r \<noteq> Sent" "remaining r \<noteq> 0"
    and r': "r' = r\<lparr>bios := (bios r)[i := if ok then Good else Failed], r_uptodate := u, remaining := k\<rparr>"
    and st: "request_step n q (end_F s r i ok junk) s s'"
  shows "sync_data s' P (spoil s' r i ok B) r'"
proof -
  have b: "bios r' ! i = (if ok then Good else Failed)" "j \<noteq> i \<Longrightarrow> bios r' ! j = bios r ! j" for j using i(1) by (simp_all add: r')
  have sel: "covers r' = covers r" "r_data r' = r_data r" "read_disk r' = read_disk r" by (simp_all add: r' covers_def fun_eq_iff)
  have src: "r_data r x = P x" if "covers r x" "\<not> B x" for x using d i(4) that unfolding sync_data_def by metis
  have sB: "\<not> spoil s' r i ok B x \<Longrightarrow> \<not> B x" for x by (simp add: spoil_def split: if_splits)
  show ?thesis unfolding sync_data_def
  proof (intro conjI allI impI)
    show "read_data s' P (spoil s' r i ok B) r'" using i(2,3) b(2) [of "read_disk r"] sel(3) by (simp add: read_data_def)
    show "spoil s' r i ok B x" if "bios r' ! read_disk r' \<noteq> Good" "covers r' x" for x
      using d i(2,4) b(2) [of "read_disk r"] that sel by (auto simp: sync_data_def spoil_def)
    show "r_data r' x = P x" if "covers r' x" "\<not> spoil s' r i ok B x" for x using src that sel sB by simp
    fix j rd' assume a: "rdev_at s' j = Some rd'" "\<not> rv_faulty rd'" "\<not> rv_in_sync rd'"
    note E = end_F_rdev [OF st a(1)]
    have ok: "ok" if "j = i" using E(1) that a(2,3) by (cases ok) auto
    show "bios r' ! j \<in> {Picked, Sent, Good}"
    proof (cases "j = i")
      case False
      then show ?thesis using d E(2) [OF False] a b(2) [OF False] unfolding sync_data_def by simp
    qed (use ok b(1) in simp)
    show "view rd' x = P x" if x: "bios r' ! j = Good" "covers r' x" "\<not> spoil s' r i ok B x" for x
    proof (cases "j = i")
      case True
      then show ?thesis using ok E(1) x sel(1) src [of x] sB [of x] by auto
    next
      case False
      then show ?thesis using d E(2) [OF False] a b(2) [OF False] x sel(1) sB [of x] unfolding sync_data_def by simp
    qed
  qed
qed

lemma end_write_data:
  assumes d: "write_data s Y r" and i: "i < length (bios r)"
    and r': "r' = r\<lparr>bios := (bios r)[i := if ok then Good else Failed], r_uptodate := u, remaining := k\<rparr>"
    and st: "request_step n q (end_F s r i ok junk) s s'"
  shows "write_data s' Y r'"
  unfolding write_data_def
proof (intro allI impI)
  fix j rd' assume a: "rdev_at s' j = Some rd'" "rv_in_sync rd' \<or> \<not> rv_faulty rd' \<and> (\<exists>x. Y x)"
  have b: "bios r' ! i = (if ok then Good else Failed)" "j \<noteq> i \<Longrightarrow> bios r' ! j = bios r ! j" using i by (simp_all add: r')
  have sel: "covers r' = covers r" "r_data r' = r_data r" by (simp_all add: r' covers_def fun_eq_iff)
  note E = end_F_rdev [OF st a(1)]
  show "(bios r' ! j \<in> {Picked, Sent, Good} \<or> bios r' ! j = Failed \<and> rv_in_sync rd') \<and> (bios r' ! j = Good \<longrightarrow> (\<forall>x. covers r' x \<longrightarrow> view rd' x = r_data r' x))"
  proof (cases "j = i")
    case True
    then show ?thesis using E(1) a b(1) sel by (cases ok) auto
  next
    case False
    then show ?thesis using d E(2) [OF False] a(2) unfolding write_data_def sel b(2) [OF False] by blast
  qed
qed

lemma end_part_data:
  assumes inv: "control s" and d: "data fl s P B Y" and r: "req_at s n = Some r" and i: "i < raid_disks s" "bios r ! i = Sent" "r_is_write r \<or> r_is_sync r \<and> i \<noteq> read_disk r"
    and r': "r' = r\<lparr>bios := (bios r)[i := if ok then Good else Failed], r_uptodate := u, remaining := k\<rparr>"
    and st: "request_step n q (end_F s r i ok junk) s s'"
  shows "req_data s' P (spoil s' r i ok B) Y r'"
proof -
  have rk: "req_ok (raid_disks s) r" using controlD(9) [OF inv r] .
  note S = part_sending [OF rk i] and R = dataD(4) [OF d r]
  have il: "i < length (bios r)" using rk i(1) by (simp add: req_ok_def)
  show ?thesis
  proof (cases "r_is_sync r")
    case True
    then have "sync_data s P B r" "i \<noteq> read_disk r" "bios r ! read_disk r \<noteq> Sent" "remaining r \<noteq> 0"
      using R S i(2) by (auto simp: req_data_def sending_def)
    from end_sync_data [OF this(1) il this(2-4) r' st] show ?thesis using True by (simp add: req_data_def r')
  next
    case False
    have "r_stage r \<noteq> Entered" using S(1) by (auto simp: sending_def split: stage.splits)
    then have "write_data s Y r" using R False i(3) by (simp add: req_data_def)
    from end_write_data [OF this il r' st] show ?thesis using False i(3) by (simp add: req_data_def r')
  qed
qed

text \<open>A write ends.\<close>

lemma none_failed_iff: "none_failed s r \<longleftrightarrow> (\<forall>i. in_sync_at s i \<longrightarrow> bios r ! i \<noteq> Failed)"
  using rdev_at_bound by (auto simp: none_failed_def list_all_iff in_sync_at_iff)

lemma data_write_done:
  assumes inv: "control s" and d: "data fl s P B Y" and r: "req_at s n = Some r" "writing r" and st: "request_step n None F s s'"
    and F: "\<And>j rd. rdev_at s j = Some rd \<Longrightarrow> weaker rd (F j rd) \<and> (\<forall>x. view (F j rd) x = view rd x \<or> covers r x)"
    and r': "geometry r' = geometry r" "r_stage r' \<noteq> Entered" "req_data s' P B Y r'" "\<And>i. i < raid_disks s \<Longrightarrow> bios r' ! i \<noteq> Picked \<and> bios r' ! i \<noteq> Sent"
    and P: "P' = (if none_failed s' r' then (\<lambda>x. if covers r' x then r_data r' x else P x) else P)"
    and B: "B' = (if none_failed s' r' then (\<lambda>x. B x \<and> \<not> covers r' x) else (\<lambda>x. B x \<or> covers r' x))"
  shows "data fl s' P' B' Y"
proof (rule data_request [OF inv d r(1) st, where c = False])
  have c: "covers r' = covers r" "r_is_sync r' = r_is_sync r" "r_is_write r' = r_is_write r" using covers_geometry [OF r'(1)] r'(1) by (simp_all add: geometry_def)
  have w: "write_data s' Y r'" using r' c r(2) by (simp add: req_data_def writing_def)
  show "P' x = P x \<and> B' x = B x \<or> covers r x \<and> \<not> plain_read r" for x using r(2) by (auto simp: P B c writing_def plain_read_def)
  fix x i rd assume a: "covers r x" "\<not> B' x" "rdev_at s' i = Some rd" "rv_in_sync rd \<or> \<not> rv_faulty rd \<and> Y x"
  have g: "none_failed s' r'" using a(1,2) c(1) by (simp add: B split: if_splits)
  have il: "i < raid_disks s" using rdev_at_bound [OF a(3)] st by (simp add: request_step_def)
  have "bios r' ! i \<in> {Picked, Sent, Good} \<or> bios r' ! i = Failed \<and> rv_in_sync rd" "bios r' ! i = Good \<longrightarrow> (\<forall>x. covers r' x \<longrightarrow> view rd x = r_data r' x)"
    using w a(3,4) unfolding write_data_def by blast+
  moreover have "rv_in_sync rd \<Longrightarrow> bios r' ! i \<noteq> Failed" using g a(3) by (auto simp: none_failed_iff in_sync_at_iff)
  ultimately have "view rd x = r_data r' x" using r'(4) [OF il] a(1) c(1) by auto
  then show "view rd x = P' x" using g a(1) c(1) by (simp add: P)
qed (use r F in \<open>auto simp: writing_def plain_read_def\<close>)

text \<open>A resync request ends.\<close>

lemma data_sync_done:
  assumes inv: "control s" and d: "data fl s P B Y" and r: "req_at s n = Some r" "r_is_sync r" and st: "request_step n None F s s'"
    and F: "\<And>j rd. rdev_at s j = Some rd \<Longrightarrow> weaker rd (F j rd) \<and> (\<forall>x. view (F j rd) x = view rd x \<or> covers r x)"
    and r': "geometry r' = geometry r" "req_data s' P B' Y r'" "\<And>i. i < raid_disks s \<Longrightarrow> bios r' ! i \<noteq> Picked \<and> bios r' ! i \<noteq> Sent"
    and B: "\<And>x. B' x = B x \<or> covers r x" "\<And>x. B x \<Longrightarrow> B' x"
    and cov: "\<And>x i rd. covers r x \<Longrightarrow> \<not> B' x \<Longrightarrow> rdev_at s' i = Some rd \<Longrightarrow> rv_in_sync rd \<or> \<not> rv_faulty rd \<and> Y x \<Longrightarrow> view rd x = P x"
  shows "data fl s' P B' (\<lambda>x. Y x \<or> covers r x)"
proof (rule data_request [OF inv d r(1) st, where c = True])
  have c: "covers r' = covers r" "r_is_sync r' = r_is_sync r" using covers_geometry [OF r'(1)] r'(1) by (simp_all add: geometry_def)
  have w: "sync_data s' P B' r'" using r' c r(2) by (simp add: req_data_def)
  fix x i rd assume a: "covers r x" "\<not> B' x" "rdev_at s' i = Some rd" "rv_in_sync rd \<or> \<not> rv_faulty rd \<and> (Y x \<or> covers r x)"
  have il: "i < raid_disks s" using rdev_at_bound [OF a(3)] st by (simp add: request_step_def)
  show "view rd x = P x"
  proof (cases "rv_in_sync rd")
    case False
    then have "bios r' ! i \<in> {Picked, Sent, Good}" "bios r' ! i = Good \<longrightarrow> (\<forall>x. covers r' x \<longrightarrow> \<not> B' x \<longrightarrow> view rd x = P x)"
      using w a(3,4) unfolding sync_data_def by blast+
    then show ?thesis using r'(3) [OF il] a c(1) by auto
  qed (use cov a in blast)
qed (use r F B in \<open>auto simp: plain_read_def\<close>)

text \<open>A part ends, and with the last one the request.\<close>

lemma data_end_sync:
  assumes inv: "control s" and d: "data fl s P B Y" and r: "req_at s n = Some r" "r_is_sync r" "remaining r \<noteq> 0"
    and st: "request_step n q (end_F s r i ok junk) s s'" and q: "q = None \<or> q = Some r'" and r': "geometry r' = geometry r" "req_data s' P (spoil s' r i ok B) Y r'"
    and np: "q = None \<Longrightarrow> \<forall>j < raid_disks s. bios r' ! j \<noteq> Picked \<and> bios r' ! j \<noteq> Sent"
  shows "data fl s' P (spoil s' r i ok B) (\<lambda>x. Y x \<or> q = None \<and> covers r x)"
proof -
  have src: "r_data r x = P x" if "covers r x" "\<not> B x" for x
    using dataD(4) [OF d r(1)] r(2,3) that unfolding req_data_def sync_data_def by metis
  have sB: "\<not> spoil s' r i ok B x \<Longrightarrow> \<not> B x" for x by (simp add: spoil_def split: if_splits)
  have cov: "view rd' x = P x"
    if a: "covers r x" "\<not> spoil s' r i ok B x" "rdev_at s' j = Some rd'" "rv_in_sync rd' \<or> \<not> rv_faulty rd' \<and> Y x" for x j rd'
  proof (cases "j = i")
    case False
    have "\<not> writing r" using r(2) by (simp add: writing_def)
    then show ?thesis using covered_view [OF d r(1) _ a(1) sB [OF a(2)] end_F_rdev(2) [OF st a(3) False]] a(4) by simp
  next
    case True
    obtain rd where rd: "rd' = end_rdev s r ok junk rd" using end_F_rdev(1) [OF st a(3) True] by blast
    have ok
    proof (rule ccontr)
      assume "\<not> ok"
      then have "in_sync_at s' i" using a(3,4) True rd by (auto simp: in_sync_at_iff)
      then show False using \<open>\<not> ok\<close> a(1,2) r(2) by (simp add: spoil_def)
    qed
    then show ?thesis using rd a(1) src sB [OF a(2)] by simp
  qed
  show ?thesis
  proof (cases "q = None")
    case True
    have st0: "request_step n None (end_F s r i ok junk) s s'" using st True by simp
    have "data fl s' P (spoil s' r i ok B) (\<lambda>x. Y x \<or> covers r x)"
      by (rule data_sync_done [OF inv d r(1,2) st0 _ r']) (use cov np True in \<open>auto simp: spoil_def\<close>)
    then show ?thesis using True by simp
  next
    case False
    then have q': "q = Some r'" using q by blast
    have "data fl s' P (spoil s' r i ok B) Y"
      by (rule data_request [OF inv d r(1) st, where c = False]) (use q' r' cov r(2) in \<open>auto simp: spoil_def plain_read_def split: if_splits\<close>)
    then show ?thesis using q' by simp
  qed
qed

lemma data_end_write:
  assumes inv: "control s" and d: "data fl s P B Y" and r: "req_at s n = Some r" and i: "i < raid_disks s" "bios r ! i = Sent" "r_is_write r \<or> r_is_sync r \<and> i \<noteq> read_disk r"
    and r': "r' = r\<lparr>bios := (bios r)[i := if ok then Good else Failed], r_uptodate := u, remaining := remaining r - 1\<rparr>"
    and q: "q = (if remaining r' = 0 then None else Some r')" and st: "request_step n q (end_F s r i ok junk) s s'"
  shows "r_is_sync r \<Longrightarrow> data fl s' P (spoil s' r i ok B) (\<lambda>x. Y x \<or> q = None \<and> covers r x)"
    "\<not> r_is_sync r \<Longrightarrow> q \<noteq> None \<Longrightarrow> data fl s' P B Y"
    "\<not> r_is_sync r \<Longrightarrow> q = None \<Longrightarrow> data fl s' (if none_failed s' r' then (\<lambda>x. if covers r' x then r_data r' x else P x) else P)
       (if none_failed s' r' then (\<lambda>x. B x \<and> \<not> covers r' x) else (\<lambda>x. B x \<or> covers r' x)) Y"
proof -
  note S = part_sending [OF controlD(9) [OF inv r] i] and E = end_part_data [OF inv d r i r' st]
  have len: "length (bios r) = raid_disks s" using controlD(9) [OF inv r] by (simp add: req_ok_def)
  have geo: "geometry r' = geometry r" "r_stage r' = r_stage r" by (simp_all add: r' geometry_def)
  have np: "\<forall>j < raid_disks s. bios r' ! j \<noteq> Picked \<and> bios r' ! j \<noteq> Sent" if "q = None"
    using sending_ended(3) [OF S(1) _ i(2) _ r'] len i that q by (auto split: if_splits)
  have w: "writing r" if "\<not> r_is_sync r" using that i(3) S(1) by (auto simp: writing_def sending_def split: stage.splits)
  then have w': "writing r'" if "\<not> r_is_sync r" using that geo by (simp add: writing_def geometry_def)
  show "data fl s' P B Y" if a: "\<not> r_is_sync r" "q \<noteq> None"
  proof (rule data_request [OF inv d r st, where c = False])
    have q': "q = Some r'" using q a(2) by (simp split: if_splits)
    show "geometry p = geometry r" if "q = Some p" for p using that q' geo(1) by simp
    show "req_data s' P B Y p" if "q = Some p" for p using that q' E a(1) by (simp add: spoil_def)
    fix x i rd assume "\<And>p. q = Some p \<Longrightarrow> \<not> writing p"
    then show "view rd x = P x" using w' [OF a(1)] q' by blast
  qed (use a w in \<open>auto simp: writing_def plain_read_def\<close>)
  show "data fl s' (if none_failed s' r' then (\<lambda>x. if covers r' x then r_data r' x else P x) else P)
       (if none_failed s' r' then (\<lambda>x. B x \<and> \<not> covers r' x) else (\<lambda>x. B x \<or> covers r' x)) Y" if a: "\<not> r_is_sync r" "q = None"
  proof (rule data_write_done [OF inv d r w [OF a(1)] _ _ geo(1) _ _ _ refl refl])
    show "request_step n None (end_F s r i ok junk) s s'" using st a(2) by simp
    show "req_data s' P B Y r'" using E a(1) by (simp add: spoil_def)
    show "bios r' ! j \<noteq> Picked \<and> bios r' ! j \<noteq> Sent" if "j < raid_disks s" for j using np a(2) that by simp
  qed (use w [OF a(1)] geo(2) in \<open>auto simp: writing_def\<close>)
  show "data fl s' P (spoil s' r i ok B) (\<lambda>x. Y x \<or> q = None \<and> covers r x)" if sy: "r_is_sync r"
    by (rule data_end_sync [OF inv d r sy _ st _ geo(1) E np]) (use S(1) in \<open>simp_all add: q sending_def\<close>)
qed

lemma data_issue_end:
  assumes inv: "control s" and d: "data fl s P B Y" and r: "req_at s n = Some r" and k: "r_stage r = Issue k" "\<not> k < raid_disks s"
    and r': "r' = r\<lparr>remaining := remaining r - 1, r_stage := Issued\<rparr>"
    and q: "q = (if remaining r' = 0 then None else Some r')" and st: "request_step n q (\<lambda>j. more_pending 0) s s'"
  shows "r_is_sync r \<Longrightarrow> data fl s' P B (\<lambda>x. Y x \<or> q = None \<and> covers r x)" "\<not> r_is_sync r \<Longrightarrow> q \<noteq> None \<Longrightarrow> data fl s' P B Y"
    "\<not> r_is_sync r \<Longrightarrow> q = None \<Longrightarrow> data fl s' (if none_failed s' r' then (\<lambda>x. if covers r' x then r_data r' x else P x) else P)
       (if none_failed s' r' then (\<lambda>x. B x \<and> \<not> covers r' x) else (\<lambda>x. B x \<or> covers r' x)) Y"
proof -
  note S = issuing_ok [OF controlD(9) [OF inv r] k(1)]
  have len: "length (bios r) = raid_disks s" using controlD(9) [OF inv r] by (simp add: req_ok_def)
  have geo: "geometry r' = geometry r" "covers r' = covers r" "r_stage r' = Issued" by (simp_all add: r' geometry_def covers_def fun_eq_iff)
  have np: "\<forall>j < length (bios r). bios r' ! j \<noteq> Picked \<and> bios r' ! j \<noteq> Sent" if "remaining r' = 0"
    by (rule sending_issued(3) [OF S(1) k(1) _ r' that]) (use len k in auto)
  have E: "req_data s' P B Y r'"
    by (rule req_data_sent [OF req_data_step [OF dataD(4) [OF d r] st] geo(1)]) (use k S in \<open>auto simp: plain_read_def sending_def r'\<close>)
  have ww: "writing r \<longrightarrow> writing r'" using geo by (simp add: writing_def geometry_def)
  have keep: "data fl s' P B Y" if "q \<noteq> None" by (rule data_request_same [OF inv d r st]) (use that q geo E ww in \<open>auto split: if_splits\<close>)
  show "\<not> r_is_sync r \<Longrightarrow> q \<noteq> None \<Longrightarrow> data fl s' P B Y" using keep by blast
  show "data fl s' (if none_failed s' r' then (\<lambda>x. if covers r' x then r_data r' x else P x) else P)
       (if none_failed s' r' then (\<lambda>x. B x \<and> \<not> covers r' x) else (\<lambda>x. B x \<or> covers r' x)) Y" if a: "\<not> r_is_sync r" "q = None"
  proof (rule data_write_done [OF inv d r _ _ _ geo(1) _ E _ refl refl])
    show "request_step n None (\<lambda>j. more_pending 0) s s'" using st a(2) by simp
    show "bios r' ! j \<noteq> Picked \<and> bios r' ! j \<noteq> Sent" if "j < raid_disks s" for j using np q a(2) len that by (simp split: if_splits)
  qed (use a S(2) k(1) geo(3) in \<open>auto simp: writing_def\<close>)
  show "data fl s' P B (\<lambda>x. Y x \<or> q = None \<and> covers r x)" if sy: "r_is_sync r"
  proof (cases "q = None")
    case True
    have st0: "request_step n None (\<lambda>j. more_pending 0) s s'" using st True by simp
    have "data fl s' P B (\<lambda>x. Y x \<or> covers r x)"
    proof (rule data_sync_done [OF inv d r sy st0 _ geo(1) E])
      show "bios r' ! j \<noteq> Picked \<and> bios r' ! j \<noteq> Sent" if "j < raid_disks s" for j using np q True len that by (simp split: if_splits)
      show "view rd' x = P x" if a: "covers r x" "\<not> B x" "rdev_at s' j = Some rd'" "rv_in_sync rd' \<or> \<not> rv_faulty rd' \<and> Y x" for x j rd'
      proof -
        obtain rd where "rdev_at s j = Some rd" "rd' = more_pending 0 rd" by (rule step_rdev [OF st a(3)])
        then show ?thesis using covered_view [OF d r _ a(1,2)] a(4) sy by (simp add: writing_def)
      qed
    qed auto
    then show ?thesis using True by simp
  qed (use keep in auto)
qed

subsection \<open>Events without a request\<close>

lemma data_flags:
  assumes d: "data fl s P B Y" and q: "\<And>m. req_at s' m = req_at s m"
    and rd: "\<And>j rd'. rdev_at s' j = Some rd' \<Longrightarrow> \<exists>rd. rdev_at s j = Some rd \<and> weaker rd rd' \<and> view rd' = view rd"
    and same: "sync_thread s' = sync_thread s" "md_size s' = md_size s" "recovery_err s \<longrightarrow> recovery_err s'" "recovery_intr s \<longrightarrow> recovery_intr s'"
  shows "data fl s' P B Y"
proof -
  note D = dataD [OF d]
  have "layout s'" by (rule layout_sub [OF D(1)]) (use q same in auto)
  moreover have "disk_data s' P B Y" unfolding disk_data_def
  proof (intro allI impI)
    fix x i rd' assume a: "x < max_sector s'" "\<not> B x" "\<forall>n r. req_at s' n = Some r \<longrightarrow> writing r \<longrightarrow> \<not> covers r x" "rdev_at s' i = Some rd'" "rv_in_sync rd' \<or> \<not> rv_faulty rd' \<and> Y x"
    obtain rd0 where "rdev_at s i = Some rd0" "weaker rd0 rd'" "view rd' = view rd0" using rd [OF a(4)] by blast
    then show "view rd' x = P x" using D(2) a q same(2) unfolding disk_data_def weaker_def by metis
  qed
  moreover have "progress fl s' Y"
  proof -
    have "spare_at s i" if "spare_at s' i" for i using that rd [of i] unfolding spare_at_iff weaker_def by metis
    then show ?thesis using D(3) same q unfolding progress_def by (auto split: option.splits)
  qed
  moreover have "req_data s' P B Y r" if r: "req_at s' n = Some r" for n r
  proof (rule req_data_other [OF D(4) [of n r]])
    show "req_at s n = Some r" using r q by simp
    show "\<exists>rd. rdev_at s j = Some rd \<and> weaker rd rd' \<and> (\<forall>x. covers r x \<longrightarrow> view rd' x = view rd x)" if "rdev_at s' j = Some rd'" for j rd'
      using rd [OF that] by auto
  qed auto
  ultimately show ?thesis by (simp add: data_def)
qed

lemma data_fail: "data fl s P B Y \<Longrightarrow> data fl (md_error i s) P B Y"
  by (rule data_flags) (auto split: if_splits)

text \<open>The thread goes on, and nothing else happens.\<close>

lemma data_thread:
  assumes d: "data fl s P B Y" and same: "mirrors s' = mirrors s" "reqs s' = reqs s" "md_size s' = md_size s"
    and t: "sync_pos (sync_thread s') = sync_pos (sync_thread s) \<or> no_sync s" and p: "progress fl' s' Y"
  shows "data fl' s' P B Y"
proof -
  note D = dataD [OF d]
  have q: "req_at s' m = req_at s m" and rd: "rdev_at s' j = rdev_at s j" for m j using same by (simp_all add: req_at_def rdev_at_def)
  have "layout s'" by (rule layout_sub [OF D(1)]) (use q t same in auto)
  moreover have "disk_data s' P B Y" using D(2) unfolding disk_data_def q rd same(3) .
  moreover have "req_data s' P B Y r" if "req_at s' n = Some r" for n r
    by (rule req_data_other [OF D(4) [of n r]]) (use that q rd in auto)
  ultimately show ?thesis using p by (simp add: data_def)
qed

lemma progress_thread:
  assumes p: "progress fl s Y" and same: "mirrors s' = mirrors s" "reqs s' = reqs s" "md_size s' = md_size s"
    and t: "sync_pos (sync_thread s') = sync_pos (sync_thread s)" "recovery_err s' = recovery_err s" "recovery_intr s \<longrightarrow> recovery_intr s'"
    and o: "\<And>j. sync_thread s' = SyncOut j \<or> sync_thread s' = SyncDone j \<Longrightarrow> sync_thread s = SyncOut j \<or> sync_thread s = SyncDone j \<or> max_sector s \<le> j \<or> recovery_err s' \<or> recovery_intr s'"
  shows "progress fl s' Y"
proof -
  have q: "req_at s' m = req_at s m" and rd: "rdev_at s' j = rdev_at s j" for m j using same by (simp_all add: req_at_def rdev_at_def)
  have sp: "spare_at s' i = spare_at s i" for i by (simp add: spare_at_iff rd)
  show ?thesis using p o same(3) t(2,3) unfolding progress_def sp q t(1) by (auto split: option.splits)
qed

subsection \<open>New requests, and their place\<close>

lemma common_sector:
  fixes x a b k l :: sector_t
  assumes "x - a < k" "x - b < l"
  shows "b - a < k \<or> a - b < l"
proof (cases "x - a \<le> x - b")
  case True
  have "a - b = (x - b) - (x - a)" by simp
  also have "\<dots> \<le> x - b" using True by (rule word_sub_le)
  finally have "a - b < l" using assms(2) by (rule le_less_trans)
  then show ?thesis ..
next
  case False
  have "b - a = (x - a) - (x - b)" by simp
  also have "\<dots> \<le> x - a" using False by (intro word_sub_le) simp
  finally have "b - a < k" using assms(1) by (rule le_less_trans)
  then show ?thesis ..
qed

lemma layout_new:
  assumes l: "layout s" and reqs: "reqs s' = reqs s @ [Some r]" and md: "md_size s' = md_size s"
    and r: "covers r (r_sector r)" "\<And>x. covers r x \<Longrightarrow> x < max_sector s"
      "\<And>x. r_is_sync r \<Longrightarrow> covers r x \<Longrightarrow> \<exists>j. sync_pos (sync_thread s') = Some j \<and> x < j"
    and t: "\<And>j. sync_pos (sync_thread s) = Some j \<Longrightarrow> \<exists>j'. sync_pos (sync_thread s') = Some j' \<and> j \<le> j'"
    and dis: "\<And>m p x. req_at s m = Some p \<Longrightarrow> covers r x \<Longrightarrow> covers p x \<Longrightarrow> plain_read r \<and> plain_read p"
  shows "layout s'"
proof -
  have q: "req_at s' m = (if m = length (reqs s) then Some r else req_at s m)" for m using reqs by (auto simp: req_at_def nth_append)
  have old: "req_at s m = Some p \<longleftrightarrow> req_at s' m = Some p \<and> m \<noteq> length (reqs s)" for m p using q [of m] req_at_bound [of s m p] by auto
  show ?thesis unfolding layout_def
  proof (intro conjI allI impI)
    fix m p assume m: "req_at s' m = Some p"
    show "covers p (r_sector p)" using m q [of m] r(1) layoutD(1) [OF l] by (auto split: if_splits)
    show "x < max_sector s'" if "covers p x" for x using m q [of m] r(2) layoutD(2) [OF l] that md by (auto split: if_splits)
    show "\<exists>j. sync_pos (sync_thread s') = Some j \<and> x < j" if sy: "r_is_sync p" "covers p x" for x
    proof (cases "m = length (reqs s)")
      case True
      then show ?thesis using m q [of m] r(3) sy by simp
    next
      case False
      then obtain j where "sync_pos (sync_thread s) = Some j" "x < j" using layoutD(3) [OF l _ sy] m old by blast
      then show ?thesis using t [of j] by (auto dest: less_le_trans)
    qed
  next
    fix m n p u x assume a: "req_at s' m = Some p" "req_at s' n = Some u" "m \<noteq> n" "covers p x" "covers u x"
    have "plain_read p \<and> plain_read u"
    proof (cases "m = length (reqs s) \<or> n = length (reqs s)")
      case True
      then show ?thesis using a q [of m] q [of n] dis by (auto split: if_splits)
    next
      case False
      then show ?thesis using layoutD(4) [OF l] a old by blast
    qed
    then show "plain_read p" "plain_read u" by simp_all
  qed
qed

lemma data_new:
  assumes d: "data fl s P B Y" and reqs: "reqs s' = reqs s @ [Some r]" and rd: "\<And>i. rdev_at s' i = map_option (more_pending (f i)) (rdev_at s i)"
    and md: "md_size s' = md_size s" and p: "progress fl s' Y"
    and r: "\<not> writing r" "req_data s' P B Y r" "covers r (r_sector r)" "\<And>x. covers r x \<Longrightarrow> x < max_sector s"
      "\<And>x. r_is_sync r \<Longrightarrow> covers r x \<Longrightarrow> \<exists>j. sync_pos (sync_thread s') = Some j \<and> x < j"
    and t: "\<And>j. sync_pos (sync_thread s) = Some j \<Longrightarrow> \<exists>j'. sync_pos (sync_thread s') = Some j' \<and> j \<le> j'"
    and dis: "\<And>m p x. req_at s m = Some p \<Longrightarrow> covers r x \<Longrightarrow> covers p x \<Longrightarrow> plain_read r \<and> plain_read p"
  shows "data fl s' P B Y"
proof -
  note D = dataD [OF d]
  have q: "req_at s' m = (if m = length (reqs s) then Some r else req_at s m)" for m using reqs by (auto simp: req_at_def nth_append)
  have old: "req_at s m = Some p \<longleftrightarrow> req_at s' m = Some p \<and> m \<noteq> length (reqs s)" for m p using q [of m] req_at_bound [of s m p] by auto
  have L: "layout s'" by (rule layout_new [OF D(1) reqs md r(3-5) t dis])
  have rdm: "\<exists>rd. rdev_at s j = Some rd \<and> weaker rd rd' \<and> view rd' = view rd" if "rdev_at s' j = Some rd'" for j rd'
    using that rd [of j] by auto
  have "disk_data s' P B Y" unfolding disk_data_def
  proof (intro allI impI)
    fix x i rd' assume a: "x < max_sector s'" "\<not> B x" "\<forall>n r. req_at s' n = Some r \<longrightarrow> writing r \<longrightarrow> \<not> covers r x" "rdev_at s' i = Some rd'" "rv_in_sync rd' \<or> \<not> rv_faulty rd' \<and> Y x"
    obtain rd0 where b: "rdev_at s i = Some rd0" "weaker rd0 rd'" "view rd' = view rd0" using rdm [OF a(4)] by blast
    have "rv_in_sync rd0 \<or> \<not> rv_faulty rd0 \<and> Y x" using b(2) a(5) unfolding weaker_def by blast
    then show "view rd' x = P x" using D(2) a b old md unfolding disk_data_def by metis
  qed
  moreover have "req_data s' P B Y p" if m: "req_at s' m = Some p" for m p
  proof (cases "m = length (reqs s)")
    case False
    show ?thesis by (rule req_data_other [OF D(4) [of m p]]) (use m False old rdm in \<open>blast, fastforce, auto\<close>)
  qed (use m q r(2) in simp)
  ultimately show ?thesis using L p by (simp add: data_def)
qed

definition new_req :: "bool \<Rightarrow> sector_t \<Rightarrow> u32 \<Rightarrow> (sector_t \<Rightarrow> block) \<Rightarrow> raid1 \<Rightarrow> r1bio" where
  "new_req w sector sectors dat s = \<lparr>remaining = 0, r_sector = sector, r_sectors = sectors, r_uptodate = False, r_is_sync = False,
     r_is_write = w, read_disk = 0, bios = replicate (raid_disks s) NoPart, r_stage = Entered, r_data = dat\<rparr>"

lemma arrive_new: "arrive w sector sectors dat s = s\<lparr>nr_pending := nr_pending s + 1, reqs := reqs s @ [Some (new_req w sector sectors dat s)]\<rparr>"
  by (simp add: arrive_def new_req_def)

lemma arrive_fits:
  assumes inv: "control s" and may: "may_arrive w sector sectors s" and r: "r = new_req w sector sectors dat s"
  shows "covers r (r_sector r)" "covers r x \<Longrightarrow> x < max_sector s" "req_at s k = Some p \<Longrightarrow> covers r x \<Longrightarrow> covers p x \<Longrightarrow> plain_read r \<and> plain_read p"
proof -
  have m: "0 < sectors" "sector < max_sector s" "ucast sectors \<le> max_sector s - sector" "barrier s = 0" using may by (simp_all add: may_arrive_def)
  have c: "covers r x \<longleftrightarrow> x - sector < ucast sectors" for x by (simp add: covers_def r new_req_def)
  have "unat (ucast sectors :: sector_t) = unat sectors" using unsigned_less [of sectors, where 'a = nat] by (intro unat_ucast_small) simp
  then show "covers r (r_sector r)" using m(1) by (simp add: c) (simp add: r new_req_def word_less_nat_alt)
  show "x < max_sector s" if "covers r x"
  proof -
    have "x - sector < max_sector s - sector" using that m(3) unfolding c by (rule less_le_trans)
    then show ?thesis using m(2) by unat_arith
  qed
  show "plain_read r \<and> plain_read p" if a: "req_at s k = Some p" "covers r x" "covers p x"
  proof -
    have "sector - r_sector p < ucast (r_sectors p) \<or> r_sector p - sector < ucast sectors"
      by (rule common_sector [of x]) (use a(2,3) c in \<open>simp_all add: covers_def [of p]\<close>)
    then have "overlap p sector sectors" by (auto simp: overlap_def covers_def)
    moreover have "\<not> r_is_sync p" using barrier_zero(1) [OF inv m(4)] a(1) by (auto simp: no_sync_def)
    moreover have "Some p \<in> set (reqs s)" using a(1) by (auto simp: req_at_def in_set_conv_nth split: if_splits)
    ultimately have "\<not> w \<and> \<not> r_is_write p" using may by (auto simp: may_arrive_def list_all_iff)
    then show ?thesis using \<open>\<not> r_is_sync p\<close> by (simp add: plain_read_def r new_req_def)
  qed
qed

lemma layout_arrive:
  assumes "control s" "layout s" "may_arrive w sector sectors s"
  shows "layout (arrive w sector sectors dat s)"
  unfolding arrive_new
  by (rule layout_new [OF assms(2), where r = "new_req w sector sectors dat s"])
    (use arrive_fits [OF assms(1,3) refl] in \<open>blast | simp add: new_req_def\<close>)+

lemma data_arrive:
  assumes inv: "control s" and d: "data fl s P B Y" and may: "may_arrive w sector sectors s"
  shows "data fl (arrive w sector sectors dat s) P B Y"
proof -
  note D = dataD [OF d]
  define r where "r = new_req w sector sectors dat s"
  let ?s = "s\<lparr>nr_pending := nr_pending s + 1, reqs := reqs s @ [Some r]\<rparr>"
  note F = arrive_fits [OF inv may r_def]
  show ?thesis unfolding arrive_new r_def [symmetric]
  proof (rule data_new [OF d, where f = "\<lambda>_. 0"])
    have "req_at ?s k = (if k = length (reqs s) then Some r else req_at s k)" for k by (auto simp: req_at_def nth_append)
    then have "(\<exists>k p. req_at s k = Some p \<and> r_is_sync p \<and> covers p x) \<Longrightarrow> (\<exists>k p. req_at ?s k = Some p \<and> r_is_sync p \<and> covers p x)" for x
      by (metis req_at_bound less_irrefl)
    moreover have "spare_at ?s = spare_at s" by (auto simp: spare_at_iff fun_eq_iff)
    ultimately show "progress fl ?s Y" using D(3) unfolding progress_def by (cases "sync_pos (sync_thread s)") (simp_all, blast)
    show "covers r (r_sector r)" by (rule F(1))
    show "covers r x \<Longrightarrow> x < max_sector s" for x by (rule F(2))
    show "req_at s k = Some p \<Longrightarrow> covers r x \<Longrightarrow> covers p x \<Longrightarrow> plain_read r \<and> plain_read p" for k p x by (rule F(3))
  qed (auto simp: r_def new_req_def writing_def req_data_def)
qed

lemma sync_fill_limit:
  assumes "x \<le> lim" "unat lim < 2 ^ 31"
  shows "unat x + unat (sync_fill k x lim) \<le> unat lim"
  using assms(1)
proof (induction k arbitrary: x)
  case (Suc k)
  define n where "n = (if lim < x + 8 then lim - x else 8)"
  note m = sync_fill_step [OF Suc(2), folded n_def]
  have un: "unat n \<le> 8" using m(1) by (simp add: word_le_nat_alt)
  have x: "unat x \<le> unat lim" using Suc(2) by (simp add: word_le_nat_alt)
  have xn: "unat (x + n) = unat x + unat n" using un x assms(2) by (intro unat_add_nowrap) simp
  have IH: "unat (x + n) + unat (sync_fill k (x + n) lim) \<le> unat lim" by (rule Suc(1) [OF m(2)])
  have "unat (n + sync_fill k (x + n) lim) = unat n + unat (sync_fill k (x + n) lim)" using IH xn assms(2) by (intro unat_add_nowrap) simp
  moreover have "sync_fill (Suc k) x lim = (if n = 0 then 0 else n + sync_fill k (x + n) lim)" unfolding sync_fill.simps Let_def n_def ..
  ultimately show ?case using IH xn x by (cases "n = 0") simp_all
qed (simp add: word_le_nat_alt)

lemma sync_req_covers:
  assumes "unat j + unat nr < 2 ^ 31"
  shows "covers (sync_req j nr st d parts) x \<longleftrightarrow> j \<le> x \<and> x < j + nr"
proof -
  have nr: "ucast (ucast nr :: u32) = nr" by (rule sint_small(3)) (use assms in simp)
  have jn: "unat (j + nr) = unat j + unat nr" using assms by (intro unat_add_nowrap) simp
  have "x - j < nr \<longleftrightarrow> j \<le> x \<and> x < j + nr"
  proof
    assume a: "x - j < nr"
    have "unat (j + (x - j)) = unat j + unat (x - j)" using a assms by (intro unat_add_nowrap) (simp add: word_less_nat_alt)
    then have "unat x = unat j + unat (x - j)" by simp
    then show "j \<le> x \<and> x < j + nr" using a jn by (simp add: word_less_nat_alt word_le_nat_alt)
  next
    assume a: "j \<le> x \<and> x < j + nr"
    then have "unat (x - j) = unat x - unat j" by (simp add: unat_sub)
    then show "x - j < nr" using a jn by (auto simp: word_less_nat_alt word_le_nat_alt)
  qed
  then show ?thesis by (simp add: covers_def sync_req_def nr)
qed

lemma sync_new_fits:
  assumes inv: "control s" and l: "layout s" and t: "sync_thread s = SyncIn j" and p: "0 < pages" "pages \<le> RESYNC_PAGES"
    and nr: "nr = sync_fill pages j (max_sector s)" and r: "r = sync_req j nr st i parts"
  shows "covers r x \<longleftrightarrow> j \<le> x \<and> x < j + nr" "covers r (r_sector r)" "covers r x \<Longrightarrow> x < max_sector s" "j \<le> j + nr"
    "req_at s m = Some q \<Longrightarrow> covers r x \<Longrightarrow> covers q x \<Longrightarrow> plain_read r \<and> plain_read q"
proof -
  have jm: "j < max_sector s" using placed_pos [OF inv] t by simp
  note sm = small_array [OF inv]
  have lim: "unat j + unat nr \<le> unat (max_sector s)" unfolding nr by (rule sync_fill_limit) (use jm sm in simp_all)
  then have b: "unat j + unat nr < 2 ^ 31" using sm by simp
  have jn: "unat (j + nr) = unat j + unat nr" using b by (intro unat_add_nowrap) simp
  show c: "covers r x \<longleftrightarrow> j \<le> x \<and> x < j + nr" for x unfolding r by (rule sync_req_covers [OF b])
  show "x < max_sector s" if "covers r x" using that lim jn unfolding c by (simp add: word_less_nat_alt)
  have "0 < nr" unfolding nr by (rule sync_fill_pos(1) [OF jm p])
  then show "covers r (r_sector r)" unfolding c using jn by (simp add: r sync_req_def word_less_nat_alt)
  show "j \<le> j + nr" using jn by (simp add: word_le_nat_alt)
  show "plain_read r \<and> plain_read q" if a: "req_at s m = Some q" "covers r x" "covers q x"
  proof -
    have "r_is_sync q" using controlD(8) [OF inv] t a(1) by (auto simp: excluded_def quiet_def)
    then show ?thesis using layoutD(3) [OF l a(1) _ a(3)] a(2) t unfolding c by auto
  qed
qed

lemma layout_sync_request:
  assumes inv: "control s" and l: "layout s" and t: "sync_thread s = SyncIn j" and p: "0 < pages" "pages \<le> RESYNC_PAGES"
  obtains s' where "sync_request pages st j s = Inr s'" "control s'" "layout s'" "ended s' = ended s"
proof (rule sync_request_spec [OF inv t p])
  fix s' assume s': "sync_request pages st j s = Inr s'" "control s'" "reqs s' = reqs s" "ended s' = ended s" "md_size s' = md_size s" "sync_thread s' = SyncLoop (max_sector s)"
  have q: "req_at s' m = req_at s m" for m using s'(3) by (simp add: req_at_def)
  have jm: "j < max_sector s" using placed_pos [OF inv] t by simp
  have "layout s'" using l jm unfolding layout_def q s'(5,6) t by (auto dest: less_trans)
  then show thesis using that s' by blast
next
  fix s' i nr r assume s': "sync_request pages st j s = Inr s'" "control s'" "ended s' = ended s" "nr = sync_fill pages j (max_sector s)"
    "r = sync_req j nr st i (map (sync_part s i j) [0..<raid_disks s])" "reqs s' = reqs s @ [Some r]" "md_size s' = md_size s" "sync_thread s' = SyncLoop (j + nr)"
  note F = sync_new_fits [OF inv l t p s'(4,5)]
  have "layout s'" by (rule layout_new [OF l s'(6,7) F(2,3) _ _ F(5)]) (use F(1,4) t s'(8) in auto)
  then show thesis using that s' by blast
qed

lemma data_sync_new:
  assumes inv: "control s" and d: "data fl s P B Y" and t: "sync_thread s = SyncIn j" and p: "0 < pages" "pages \<le> RESYNC_PAGES"
    and s': "in_sync_at s i" "nr = sync_fill pages j (max_sector s)" "r = sync_req j nr st i (map (sync_part s i j) [0..<raid_disks s])"
      "reqs s' = reqs s @ [Some r]" "\<And>k. rdev_at s' k = map_option (more_pending (of_bool (k = i))) (rdev_at s k)"
      "md_size s' = md_size s" "recovery_err s' = recovery_err s" "recovery_intr s' = recovery_intr s" "sync_thread s' = SyncLoop (j + nr)"
  shows "data fl s' P B Y"
proof -
  note D = dataD [OF d]
  note fits = sync_new_fits [OF inv D(1) t p s'(2,3)]
  note c = fits(1) and inside = fits(3)
  have qt: "r_is_sync p" if "req_at s m = Some p" for m p using controlD(8) [OF inv] t that by (auto simp: excluded_def quiet_def)
  have sel: "r_is_sync r" "r_sector r = j" "read_disk r = i" "\<And>k. k < raid_disks s \<Longrightarrow> bios r ! k = sync_part s i j k" by (simp_all add: s'(3) sync_req_def)
  have il: "i < raid_disks s" using s'(1) rdev_at_bound by (auto simp: in_sync_at_iff)
  have Q: "req_at s' m = (if m = length (reqs s) then Some r else req_at s m)" for m using s'(4) by (auto simp: req_at_def nth_append)
  show ?thesis
  proof (rule data_new [OF d s'(4,5,6)])
    have "Y x \<or> (\<exists>n p. req_at s' n = Some p \<and> r_is_sync p \<and> covers p x)"
      if o: "x < j \<Longrightarrow> Y x \<or> (\<exists>n p. req_at s n = Some p \<and> r_is_sync p \<and> covers p x)" and x: "x < j + nr" for x
    proof (cases "x < j")
      case True
      then show ?thesis using o Q req_at_bound by (metis less_irrefl)
    next
      case False
      then have "req_at s' (length (reqs s)) = Some r" "covers r x" using Q c x by simp_all
      then show ?thesis using sel(1) by blast
    qed
    moreover have "spare_at s k" if "spare_at s' k" for k using that by (auto simp: spare_at_iff s'(5))
    ultimately show "progress fl s' Y" using D(3) unfolding progress_def s'(7-9) t by simp blast
    have "sync_data s' P B r" unfolding sync_data_def read_data_def
    proof (intro conjI allI impI)
      show "view rd x = P x" if a: "rdev_at s' (read_disk r) = Some rd" "covers r x" "\<not> B x" for rd x
      proof -
        obtain rd0 where "rdev_at s i = Some rd0" "rv_in_sync rd0" "view rd = view rd0" using a(1) s'(1,5) sel(3) by (auto simp: in_sync_at_iff)
        then show ?thesis using D(2) inside [OF a(2)] a(3) qt unfolding disk_data_def writing_def by metis
      qed
      show "r_data r x = P x" if "bios r ! read_disk r = Good" for x using that sel(3,4) il by (simp add: sync_part_def)
      show "B x" if "remaining r \<noteq> 0" for x using that by (simp add: s'(3) sync_req_def)
      fix k rd assume "rdev_at s' k = Some rd" "\<not> rv_faulty rd" "\<not> rv_in_sync rd"
      then have "live_at s k" "\<not> in_sync_at s k" "k < raid_disks s" using s'(5) rdev_at_bound [of s k] by (auto simp: live_at_def in_sync_at_def)
      then have "bios r ! k = Picked" using spare_picked [OF s'(1)] sel(4) by simp
      then show "bios r ! k \<in> {Picked, Sent, Good}" "bios r ! k = Good \<Longrightarrow> covers r x \<Longrightarrow> \<not> B x \<Longrightarrow> view rd x = P x" for x by simp_all
    qed
    then show "req_data s' P B Y r" using sel(1) by (simp add: req_data_def)
    show "covers r (r_sector r)" by (rule fits(2))
    show "\<exists>k. sync_pos (sync_thread s') = Some k \<and> x < k" if "covers r x" for x using that c by (simp add: s'(9))
    show "\<exists>k'. sync_pos (sync_thread s') = Some k' \<and> k \<le> k'" if "sync_pos (sync_thread s) = Some k" for k
      using that t fits(4) by (simp add: s'(9))
    show "plain_read r \<and> plain_read p" if a: "req_at s m = Some p" "covers r x" "covers p x" for m p x
      by (rule fits(5) [OF a])
  qed (use sel inside in \<open>auto simp: writing_def\<close>)
qed

lemma data_sync_request:
  assumes inv: "control s" and d: "data fl s P B Y" and t: "sync_thread s = SyncIn j" and p: "0 < pages" "pages \<le> RESYNC_PAGES"
  obtains s' where "sync_request pages st j s = Inr s'" "control s'" "data fl s' P B Y" "ended s' = ended s"
proof (rule sync_request_spec [OF inv t p])
  fix s' assume C: "control s'" and s': "sync_request pages st j s = Inr s'" "reqs s' = reqs s" "\<And>i. rdev_at s' i = rdev_at s i" "raid_disks s' = raid_disks s" "ended s' = ended s"
    "md_size s' = md_size s" "recovery_err s' = recovery_err s" "recovery_intr s' = recovery_intr s" "sync_thread s' = SyncLoop (max_sector s)" "\<And>i. live_at s i \<Longrightarrow> in_sync_at s i"
  note D = dataD [OF d]
  have q: "req_at s' m = req_at s m" for m using s'(2) by (simp add: req_at_def)
  have jm: "j < max_sector s" using placed_pos [OF inv] t by simp
  have nsp: "\<not> spare_at s' i" for i using s'(3,10) by (auto simp: spare_at_def live_at_def in_sync_at_def)
  have "layout s'" using D(1) jm unfolding layout_def q s'(6,9) t by (auto dest: less_trans)
  moreover have "progress fl s' Y" using nsp unfolding progress_def s'(9) by auto
  moreover have "disk_data s' P B Y" using D(2) unfolding disk_data_def q s'(3,6) .
  moreover have "req_data s' P B Y r" if "req_at s' n = Some r" for n r
    by (rule req_data_other [OF D(4) [of n r]]) (use that q s'(3) in auto)
  ultimately show thesis using that C s'(1,5) by (simp add: data_def)
next
  fix s' i nr r assume C: "control s'" "sync_request pages st j s = Inr s'" "ended s' = ended s"
    and s': "in_sync_at s i" "nr = sync_fill pages j (max_sector s)" "r = sync_req j nr st i (map (sync_part s i j) [0..<raid_disks s])"
      "reqs s' = reqs s @ [Some r]" "\<And>k. rdev_at s' k = map_option (more_pending (of_bool (k = i))) (rdev_at s k)"
      "md_size s' = md_size s" "recovery_err s' = recovery_err s" "recovery_intr s' = recovery_intr s" "sync_thread s' = SyncLoop (j + nr)"
  show thesis using that C data_sync_new [OF inv d t p s'] by blast
qed

subsection \<open>Members\<close>

lemma data_slot:
  assumes inv: "control s" and d: "data fl s P B Y" and t: "sync_thread s = SyncIdle" and i: "i < raid_disks s" "\<not> in_sync_at s i"
    and f: "\<And>rd. rdev_at s i = Some rd \<Longrightarrow> rv_pending rd = 0" and mi: "\<And>rd. m_rdev mi = Some rd \<Longrightarrow> \<not> rv_in_sync rd"
  shows "data fl (s\<lparr>mirrors := (mirrors s)[i := mi]\<rparr>) P B Y" (is "data fl ?s P B Y")
proof -
  note D = dataD [OF d]
  have rd: "rdev_at ?s j = (if j = i then m_rdev mi else rdev_at s j)" for j using i(1) by (simp add: rdev_at_def nth_list_update)
  have Y: "\<not> Y x" for x using D(3) t by (simp add: progress_def)
  have ns: "no_sync s" using idle_no_sync [OF inv] t by blast
  have "total_of (\<lambda>r. ref r i) s = 0" using controlD(2) [OF inv, of i] f by (auto simp: rdev_ok_def split: option.splits)
  then have rf: "ref r i = 0" if "req_at s n = Some r" for n r using total_of_zero [of "\<lambda>r. ref r i" s] that by simp
  have "layout ?s" by (rule layout_sub [OF D(1)]) auto
  moreover have "disk_data ?s P B Y" using D(2) mi Y unfolding disk_data_def rd by simp
  moreover have "progress fl ?s Y" using Y by (simp add: progress_def t)
  moreover have "req_data ?s P B Y r" if r: "req_at ?s n = Some r" for n r
  proof -
    have r0: "req_at s n = Some r" "\<not> r_is_sync r" using r ns by (auto simp: no_sync_def)
    have R: "req_data s P B Y r" using D(4) [OF r0(1)] .
    have "write_data ?s Y r" if "write_data s Y r" using that mi Y unfolding write_data_def rd by simp blast
    moreover have "read_data ?s P B r" if "read_data s P B r" "\<not> r_is_write r" "r_stage r = Issued"
    proof (cases "read_disk r = i")
      case True
      have "length (bios r) = raid_disks s" using controlD(9) [OF inv r0(1)] by (simp add: req_ok_def)
      then have "bios r ! i \<noteq> Sent" using rf [OF r0(1)] i(1) by (auto simp: ref_def)
      then show ?thesis using True by (simp add: read_data_def)
    qed (use that rd in \<open>simp add: read_data_def\<close>)
    ultimately show ?thesis using R r0(2) by (simp add: req_data_def split: if_splits)
  qed
  ultimately show ?thesis by (simp add: data_def)
qed

lemma data_add:
  assumes inv: "control s" and d: "data fl s P B Y" and p: "sync_thread s = SyncIdle" "\<not> rv_in_sync rd"
  shows "data fl (snd (raid1_add_disk rd s)) P B Y"
proof (cases "free_slot (mirrors s)")
  case (Some i)
  note F = raid1_free_slot [OF Some]
  then have n: "rdev_at s i = None" by (simp add: rdev_at_def)
  have "data fl (s\<lparr>mirrors := (mirrors s)[i := \<lparr>m_rdev = Some (rd\<lparr>rv_raid_disk := int i\<rparr>), head_position = 0\<rparr>]\<rparr>) P B Y"
    by (rule data_slot [OF inv d p(1)]) (use F n p(2) in \<open>auto simp: in_sync_at_def\<close>)
  then show ?thesis by (simp add: raid1_add_disk_def Some)
qed (simp add: raid1_add_disk_def d)

lemma data_remove:
  assumes inv: "control s" and d: "data fl s P B Y" and p: "sync_thread s = SyncIdle" "rdev_at s i = Some rd" "rv_faulty rd \<or> \<not> rv_in_sync rd" "rv_pending rd = 0"
  shows "data fl (s\<lparr>mirrors := (mirrors s)[i := (mirrors s ! i)\<lparr>m_rdev := None\<rparr>]\<rparr>) P B Y"
  by (rule data_slot [OF inv d p(1)]) (use rdev_at_bound [OF p(2)] p controlD(2) [OF inv, of i] in \<open>auto simp: in_sync_at_def rdev_ok_def\<close>)

lemma spare_none: "\<not> list_ex spare (mirrors s) \<Longrightarrow> \<not> spare_at s i"
  using spare_iff [of i s] by (auto simp: spare_at_def list_ex_length)

lemma data_start:
  assumes inv: "control s" and d: "data fl s P B Y" and t: "sync_thread s = SyncIdle"
  shows "data fl (recovery_start k s) P B Y"
  by (rule data_thread [OF d]) (use dataD(3) [OF d] t in \<open>auto simp: progress_def recovery_start_def\<close>)

lemma data_enter:
  assumes inv: "control s" and d: "data fl s P B Y" and t: "sync_thread s = SyncWait b"
    and f: "fl' \<longleftrightarrow> b \<and> recovery_cp s \<noteq> 0 \<and> list_ex spare (mirrors s)"
  shows "data fl' (sync_enter b s) P B Y"
proof (rule data_thread [OF d])
  show "sync_pos (sync_thread (sync_enter b s)) = sync_pos (sync_thread s) \<or> no_sync s" using idle_no_sync [OF inv] t by blast
  have "spare_at (sync_enter b s) i = spare_at s i" for i by (simp add: spare_at_iff sync_enter_def)
  then show "progress fl' (sync_enter b s) Y" using spare_none [of s] f by (auto simp: progress_def sync_enter_def)
qed (simp_all add: sync_enter_def)

lemma data_skip:
  assumes inv: "control s" and d: "data fl s P B Y" and t: "sync_thread s = SyncWait b"
  shows "data True (sync_skip s) P B Y"
proof (rule data_thread [OF d])
  show "sync_pos (sync_thread (sync_skip s)) = sync_pos (sync_thread s) \<or> no_sync s" using idle_no_sync [OF inv] t by blast
qed (simp_all add: sync_skip_def progress_def)

lemma data_reset:
  assumes d: "data fl s P B Y" and t: "sync_thread s = SyncIdle"
  shows "data fl (recovery_reset s) P B Y"
  by (rule data_thread [OF d]) (use dataD(3) [OF d] t in \<open>auto simp: recovery_reset_def progress_def\<close>)

lemma data_collect:
  assumes inv: "control s" and d: "data fl s P B Y" and t: "sync_thread s = SyncDone j"
    and f: "\<not> (fl \<and> \<not> recovery_err s \<and> \<not> recovery_intr s \<and> list_ex spare (mirrors s))"
  shows "data fl (recovery_collect s) P B (\<lambda>_. False)"
proof -
  note D = dataD [OF d]
  have ns: "no_sync s" using idle_no_sync [OF inv] t by blast
  define s1 where "s1 = (if \<not> recovery_err s \<and> \<not> recovery_intr s then raid1_spare_active s else s)"
  have e: "recovery_collect s = s1\<lparr>recovery_err := False, recovery_intr := False, sync_thread := SyncIdle\<rparr>" by (simp add: recovery_collect_def s1_def)
  let ?s = "recovery_collect s"
  have q: "req_at ?s m = req_at s m" for m by (simp add: e s1_def raid1_spare_active_def Let_def)
  have md: "md_size ?s = md_size s" by (simp add: e s1_def raid1_spare_active_def Let_def)
  have rd: "rdev_at ?s i = (if \<not> recovery_err s \<and> \<not> recovery_intr s then map_option join_rdev (rdev_at s i) else rdev_at s i)" for i
    by (simp add: e s1_def rdev_at_active)
  have all: "Y x" if "\<not> recovery_err s" "\<not> recovery_intr s" "spare_at s i" "x < max_sector s" for x i
  proof -
    have "\<not> fl" using f that(1,2) spare_none [of s i] that(3) by blast
    then show ?thesis using D(3) t that ns unfolding progress_def no_sync_def by (auto dest: less_le_trans)
  qed
  have old: "\<exists>rd0. rdev_at s i = Some rd0 \<and> view rd = view rd0 \<and> (rv_in_sync rd0 \<or> \<not> rv_faulty rd0 \<and> (\<forall>x < max_sector s. Y x))"
    if a: "rdev_at ?s i = Some rd" "rv_in_sync rd" for i rd
  proof (cases "\<not> recovery_err s \<and> \<not> recovery_intr s")
    case True
    then obtain rd0 where b: "rdev_at s i = Some rd0" "rd = join_rdev rd0" using a(1) rd by auto
    have "spare_at s i" if "\<not> rv_in_sync rd0" using that a(2) b by (auto simp: spare_at_iff join_rdev_def split: if_splits)
    then show ?thesis using b a(2) all True by (auto simp: join_rdev_def split: if_splits)
  qed (use a rd in auto)
  have L: "layout ?s" by (rule layout_sub [OF D(1)]) (use q md ns in auto)
  have "disk_data ?s P B (\<lambda>_. False)" unfolding disk_data_def
  proof (intro allI impI)
    fix x i rd assume a: "x < max_sector ?s" "\<not> B x" "\<forall>n r. req_at ?s n = Some r \<longrightarrow> writing r \<longrightarrow> \<not> covers r x" "rdev_at ?s i = Some rd" "rv_in_sync rd \<or> \<not> rv_faulty rd \<and> False"
    obtain rd0 where "rdev_at s i = Some rd0" "view rd = view rd0" "rv_in_sync rd0 \<or> \<not> rv_faulty rd0 \<and> Y x" using old [OF a(4)] a(1,5) md by auto
    then show "view rd x = P x" using D(2) a(1-3) q md unfolding disk_data_def by metis
  qed
  moreover have "progress fl ?s (\<lambda>_. False)" by (simp add: progress_def e)
  moreover have "req_data ?s P B (\<lambda>_. False) r" if r: "req_at ?s n = Some r" for n r
  proof -
    have r0: "req_at s n = Some r" "\<not> r_is_sync r" using r ns q by (auto simp: no_sync_def)
    have R: "req_data s P B Y r" using D(4) [OF r0(1)] .
    have lim: "r_sector r < max_sector s" using layoutD(1,2) [OF D(1) r0(1)] by blast
    have "write_data ?s (\<lambda>_. False) r" if w: "write_data s Y r" unfolding write_data_def
    proof (intro allI impI)
      fix i rd assume a: "rdev_at ?s i = Some rd" "rv_in_sync rd \<or> \<not> rv_faulty rd \<and> (\<exists>x. False)"
      then obtain rd0 where b: "rdev_at s i = Some rd0" "view rd = view rd0" "rv_in_sync rd0 \<or> \<not> rv_faulty rd0 \<and> (\<forall>x < max_sector s. Y x)" using old [OF a(1)] by auto
      then have c: "rv_in_sync rd0 \<or> \<not> rv_faulty rd0 \<and> (\<exists>x. Y x)" using lim by blast
      show "(bios r ! i \<in> {Picked, Sent, Good} \<or> bios r ! i = Failed \<and> rv_in_sync rd) \<and> (bios r ! i = Good \<longrightarrow> (\<forall>x. covers r x \<longrightarrow> view rd x = r_data r x))"
        using w b(1,2) c a(2) unfolding write_data_def by auto
    qed
    moreover have "read_data ?s P B r" if "read_data s P B r"
      using that unfolding read_data_def rd by (auto simp: join_rdev_def split: if_splits)
    ultimately show ?thesis using R r0(2) by (simp add: req_data_def split: if_splits)
  qed
  ultimately show ?thesis using L by (simp add: data_def)
qed

subsection \<open>No section fails\<close>

text \<open>What every section keeps, also after a disk was activated that is no copy. A request that is answered has all its parts
  back; a write is answered with success when some disk has taken it.\<close>

definition taken :: "raid1 \<Rightarrow> r1bio \<Rightarrow> bool" where
  "taken s r \<longleftrightarrow> \<not> r_is_sync r \<and> (r_uptodate r \<longleftrightarrow> r_is_write r \<longrightarrow> (\<exists>i < raid_disks s. bios r ! i = Good))"

definition sound :: "raid1 \<Rightarrow> raid1 \<Rightarrow> bool" where
  "sound s s' \<longleftrightarrow> control s' \<and> layout s' \<and> (ended s' = ended s \<or> (\<exists>r. ended s' = r # ended s \<and> taken s r))"

lemma layout_request:
  assumes "layout s" "req_at s n = Some r" "request_step n q F s s'" "\<And>r'. q = Some r' \<Longrightarrow> geometry r' = geometry r"
  shows "layout s'"
  by (rule layout_sub [OF assms(1)]) (use assms(2-4) in \<open>auto simp: request_step_def split: if_splits\<close>)

lemma sound_request:
  assumes "layout s" "req_at s n = Some r" "request_step n q F s s'" "\<And>r'. q = Some r' \<Longrightarrow> geometry r' = geometry r"
    "ended s' = ended s \<or> (\<exists>r. ended s' = r # ended s \<and> taken s r)"
  shows "sound s s'"
  using layout_request [OF assms(1-4)] assms(3,5) by (simp add: sound_def request_step_def)

lemma sound_members:
  assumes "layout s" "control s'" "\<And>m. req_at s' m = req_at s m" "sync_pos (sync_thread s') = sync_pos (sync_thread s) \<or> no_sync s" "md_size s' = md_size s" "ended s' = ended s"
  shows "sound s s'"
  using layout_sub [OF assms(1) _ assms(4,5)] assms(2,3,6) by (simp add: sound_def)

lemma uptodate_iff:
  assumes "req_ok k r" "r_is_write r" "\<not> r_is_sync r" "r_stage r \<noteq> Entered"
  shows "r_uptodate r \<longleftrightarrow> (\<exists>i < k. bios r ! i = Good)" "length (bios r) = k"
  using assms by (auto simp: req_ok_def write_ok_def)

lemma sound_end_write:
  assumes inv: "control s" and l: "layout s" and r: "req_at s n = Some r" and i: "i < raid_disks s" "bios r ! i = Sent" "r_is_write r \<or> r_is_sync r \<and> i \<noteq> read_disk r"
  shows "\<exists>s'. end_write n r i ok junk s = Inr s' \<and> sound s s'"
proof -
  define r' where "r' = r\<lparr>bios := (bios r)[i := if ok then Good else Failed], r_uptodate := (if r_is_sync r then r_uptodate r else ok \<or> r_uptodate r), remaining := remaining r - 1\<rparr>"
  obtain s' where s': "end_write n r i ok junk s = Inr s'" "control s'" "\<And>m. req_at s' m = (if m = n then if remaining r' = 0 then None else Some r' else req_at s m)"
      "ended s' = (if remaining r' = 0 \<and> \<not> r_is_sync r then r' # ended s else ended s)" "sync_thread s' = sync_thread s" "md_size s' = md_size s"
    by (rule end_write_spec [OF inv r i r'_def, where junk = junk]) blast
  have L: "layout s'" by (rule layout_sub [OF l]) (use s' r in \<open>auto simp: r'_def geometry_def split: if_splits\<close>)
  have "taken s r'" if ns: "\<not> r_is_sync r"
  proof -
    have rk: "req_ok (raid_disks s) r" using controlD(9) [OF inv r] .
    have "r_stage r \<noteq> Entered" using part_sending(1) [OF rk i] by (auto simp: sending_def split: stage.splits)
    note U = uptodate_iff [OF rk _ ns this]
    have "(\<exists>j < raid_disks s. bios r' ! j = Good) \<longleftrightarrow> ok \<or> (\<exists>j < raid_disks s. bios r ! j = Good)" if "r_is_write r"
    proof -
      have "bios r' ! j = Good \<longleftrightarrow> (if j = i then ok else bios r ! j = Good)" if "j < raid_disks s" for j using that U(2) [OF \<open>r_is_write r\<close>] by (simp add: r'_def nth_list_update)
      moreover have "bios r ! i \<noteq> Good" using i(2) by simp
      ultimately show ?thesis by (metis i(1))
    qed
    then show ?thesis using ns U(1) i(3) by (auto simp: taken_def r'_def)
  qed
  then have "sound s s'" using s'(2,4) L by (auto simp: sound_def)
  then show ?thesis using s'(1) by blast
qed

lemma sound_issue:
  assumes inv: "control s" and l: "layout s" and r: "req_at s n = Some r" and k: "r_stage r = Issue k"
  shows "\<exists>s'. (if k < raid_disks s then issue_part n r k s else issue_end n r s) = Inr s' \<and> sound s s'"
proof (cases "k < raid_disks s")
  case True
  obtain s' r' where "issue_part n r k s = Inr s'" "request_step n (Some r') (\<lambda>j. more_pending (of_bool (j = k \<and> bios r ! k = Picked \<and> r_is_sync r))) s s'" "ended s' = ended s"
      "geometry r' = geometry r"
    by (rule issue_part_spec [OF inv r k True refl]) (auto simp: geometry_def)
  then show ?thesis using sound_request [OF l r, of "Some r'"] True by auto
next
  case False
  define r' where "r' = r\<lparr>remaining := remaining r - 1, r_stage := Issued\<rparr>"
  obtain s' where s': "issue_end n r s = Inr s'" "request_step n (if remaining r' = 0 then None else Some r') (\<lambda>j. more_pending 0) s s'"
      "ended s' = (if remaining r' = 0 \<and> \<not> r_is_sync r then r' # ended s else ended s)"
    by (rule issue_end_spec [OF inv r k False r'_def])
  have "taken s r'" if ns: "\<not> r_is_sync r"
    using uptodate_iff(1) [OF controlD(9) [OF inv r] _ ns] issuing_ok(2) [OF controlD(9) [OF inv r] k] ns k by (auto simp: taken_def r'_def)
  then have "sound s s'" by (intro sound_request [OF l r s'(2)]) (use s'(3) in \<open>auto simp: r'_def geometry_def split: if_splits\<close>)
  then show ?thesis using s'(1) False by auto
qed

lemma sound_start:
  assumes inv: "control s" and l: "layout s" and r: "req_at s n = Some r" "r_stage r = Entered"
  shows "sound s (if r_is_write r then start_write n r s else start_read n r s)"
proof (cases "r_is_write r")
  case True
  note W = start_write_spec [OF inv r True refl]
  show ?thesis using sound_request [OF l r(1) W(3)] W(1) True by (simp add: geometry_def)
next
  case False
  show ?thesis
  proof (rule start_read_spec [OF inv r False])
    fix d assume R: "ended (start_read n r s) = ended s"
      "request_step n (Some (r\<lparr>read_disk := d, bios := (replicate (raid_disks s) NoPart)[d := Sent], r_stage := Issued\<rparr>)) (\<lambda>j. more_pending (of_bool (j = d))) s (start_read n r s)"
    show ?thesis using sound_request [OF l r(1) R(2)] R(1) False by (simp add: geometry_def)
  qed
qed

lemma sound_end_read:
  assumes inv: "control s" and l: "layout s" and r: "req_at s n = Some r" "r_stage r = Issued" "\<not> r_is_write r" "bios r ! read_disk r = Sent"
  shows "\<exists>s'. end_read n r ok s = Inr s' \<and> sound s s'"
proof -
  obtain s' rd r' where s': "end_read n r ok s = Inr s'"
      "r' = r\<lparr>r_data := (if ok then view rd else r_data r), bios := (bios r)[read_disk r := if ok then Good else Failed], r_uptodate := ok \<or> r_uptodate r\<rparr>"
      "request_step n (if ok \<and> \<not> r_is_sync r then None else Some r') (\<lambda>j. if j = read_disk r then end_read_rdev s ok else more_pending 0) s s'"
      "ended s' = (if ok \<and> \<not> r_is_sync r then r' # ended s else ended s)"
    by (rule end_read_spec [OF inv r]) blast
  have "sound s s'" by (rule sound_request [OF l r(1) s'(3)]) (use s'(2,4) r(3) in \<open>auto simp: geometry_def taken_def split: if_splits\<close>)
  then show ?thesis using s'(1) by blast
qed

lemma sound_daemon:
  assumes inv: "control s" and l: "layout s" and q: "retry_list s \<noteq> []"
  shows "\<exists>s'. raid1d s = Inr s' \<and> sound s s'"
proof (rule raid1d_spec [OF inv q])
  let ?n = "last (retry_list s)"
  fix r s' assume n: "req_at s ?n = Some r" "raid1d s = Inr s'" "ended s' = ended s"
    "\<not> r_is_sync r \<Longrightarrow> \<exists>d. in_sync_at s d \<and> request_step ?n (Some (r\<lparr>read_disk := d, bios := (replicate (raid_disks s) NoPart)[d := Sent], r_stage := Issued\<rparr>)) (\<lambda>j. more_pending (of_bool (j = d))) s s'"
    "r_is_sync r \<Longrightarrow> request_step ?n (if r_uptodate r then Some (r\<lparr>remaining := 1, r_stage := Issue 0\<rparr>) else None) (\<lambda>j. more_pending 0) s s'"
  have "\<exists>p F. request_step ?n p F s s' \<and> (\<forall>r'. p = Some r' \<longrightarrow> geometry r' = geometry r)"
    by (cases "r_is_sync r") (use n(4,5) in \<open>force simp: geometry_def split: if_splits\<close>)+
  then have "sound s s'" using sound_request [OF l n(1)] n(3) by blast
  then show ?thesis using n(2) by blast
qed

lemma sound_member:
  assumes inv: "control s" and l: "layout s" and e: "e = FailDisk i \<or> e = AddDisk rd \<or> e = RemoveDisk i" and act: "r1_act e s = Some y"
  shows "\<exists>s'. y = Inr s' \<and> sound s s'"
  using e
proof (elim disjE)
  assume e: "e = FailDisk i"
  have "sound s (md_error i s)" by (rule sound_members [OF l control_md_error [OF inv]]) simp_all
  then show ?thesis using e act by auto
next
  assume e: "e = AddDisk rd"
  then have p: "sync_thread s = SyncIdle" "\<not> rv_in_sync rd" "rv_pending rd = 0" using act by (auto split: if_splits)
  have "sound s (snd (raid1_add_disk rd s))"
    by (rule sound_members [OF l control_add [OF inv p]]) (auto simp: raid1_add_disk_def split: option.split)
  then show ?thesis using e act by (auto split: if_splits)
next
  assume e: "e = RemoveDisk i"
  then obtain rd where p: "sync_thread s = SyncIdle" "rdev_at s i = Some rd" "rv_faulty rd \<or> \<not> rv_in_sync rd" "rv_pending rd = 0"
    using act by (auto split: if_splits option.splits)
  obtain s' where R: "raid1_remove_disk i s = Inr s'" "control s'" "s' = s\<lparr>mirrors := (mirrors s)[i := (mirrors s ! i)\<lparr>m_rdev := None\<rparr>]\<rparr>"
    by (rule remove_spec [OF inv p])
  have "sound s s'" by (rule sound_members [OF l R(2)]) (simp_all add: R(3))
  then show ?thesis using e act R(1) p by auto
qed

lemma sound_thread:
  assumes "layout s" "control s'" "reqs s' = reqs s" "sync_pos (sync_thread s') = sync_pos (sync_thread s) \<or> no_sync s" "md_size s' = md_size s" "ended s' = ended s"
  shows "sound s s'"
  by (rule sound_members [OF assms(1,2) _ assms(4-6)]) (simp add: req_at_def assms(3))

lemma act_sound:
  assumes inv: "control s" and l: "layout s" and act: "r1_act e s = Some y"
  shows "\<exists>s'. y = Inr s' \<and> sound s s'"
proof (cases e)
  case (Arrive w sector sectors dat)
  then have m: "may_arrive w sector sectors s" using act by (simp split: if_splits)
  have "sound s (arrive w sector sectors dat s)"
    using control_arrive [OF inv] layout_arrive [OF inv l m] m by (simp add: sound_def may_arrive_def) (simp add: arrive_def)
  then show ?thesis using act Arrive m by auto
next
  case (Start n)
  then show ?thesis using act sound_start [OF inv l, of n] by (auto simp: on_req_def split: option.splits if_splits)
next
  case (IssueNext n)
  then show ?thesis using act sound_issue [OF inv l, of n] by (auto simp: on_req_def split: option.splits stage.splits)
next
  case (EndRead n ok)
  then show ?thesis using act sound_end_read [OF inv l, of n] by (auto simp: on_req_def split: option.splits if_splits)
next
  case (EndWrite n i ok junk)
  then show ?thesis using act sound_end_write [OF inv l, of n _ i ok junk] by (auto simp: on_req_def split: option.splits if_splits)
next
  case Daemon
  then show ?thesis using act sound_daemon [OF inv l] by (auto split: if_splits)
next
  case RecoveryReset
  then show ?thesis using act sound_thread [OF l control_reset [OF inv]] by (auto simp: recovery_reset_def split: if_splits)
next
  case (RecoveryStart k)
  then show ?thesis using act sound_thread [OF l control_start [OF inv], of k] by (auto simp: recovery_start_def split: if_splits)
next
  case SyncEnter
  then obtain b where p: "sync_thread s = SyncWait b" using act by (auto split: sync_pc.splits)
  then show ?thesis using act SyncEnter sound_thread [OF l control_enter [OF inv p]] idle_no_sync [OF inv] by (auto simp: sync_enter_def)
next
  case SyncSkip
  then obtain b where p: "sync_thread s = SyncWait b" using act by (auto split: sync_pc.splits)
  then show ?thesis using act SyncSkip sound_thread [OF l control_skip [OF inv p]] idle_no_sync [OF inv] by (auto simp: sync_skip_def)
next
  case BarrierUp
  then obtain j where p: "sync_thread s = SyncLoop j" "j < max_sector s" using act by (auto split: sync_pc.splits if_splits)
  then show ?thesis using act BarrierUp sound_thread [OF l control_barrier_up [OF inv p]] by (auto simp: barrier_up_def)
next
  case BarrierPass
  then obtain f j where p: "sync_thread s = SyncUp f j" "f \<longrightarrow> nr_pending s = 0" using act by (auto split: sync_pc.splits if_splits)
  obtain s' where R: "barrier_pass f j s = Inr s'" "control s'" "s' = s\<lparr>next_resync := j + RESYNC_SECTORS, sync_thread := SyncIn j\<rparr>"
    by (rule barrier_pass_spec [OF inv p(1,2)])
  have "sound s s'" by (rule sound_thread [OF l R(2)]) (use p R(3) in auto)
  then show ?thesis using act BarrierPass p R(1) by (cases "barrier s < RESYNC_DEPTH") auto
next
  case (SyncRequest k st)
  then obtain j where j: "sync_thread s = SyncIn j" "0 < k" "k \<le> RESYNC_PAGES" using act by (auto split: sync_pc.splits if_splits)
  obtain s' where s': "sync_request k st j s = Inr s'" "control s'" "layout s'" "ended s' = ended s" by (rule layout_sync_request [OF inv l j])
  then have "y = Inr s'" "sound s s'" using act SyncRequest j by (simp_all add: sound_def)
  then show ?thesis by blast
next
  case (SyncLeave signal)
  then obtain j where p: "sync_thread s = SyncLoop j" using act by (auto split: sync_pc.splits if_splits)
  then show ?thesis using act SyncLeave sound_thread [OF l control_leave [OF inv p]] by (auto simp: sync_leave_def split: if_splits)
next
  case SyncClose
  then obtain j where p: "sync_thread s = SyncOut j" "barrier s = 0" using act by (auto split: sync_pc.splits if_splits)
  then show ?thesis using act SyncClose sound_thread [OF l control_close [OF inv p]] by (auto simp: sync_close_def Let_def split: if_splits)
next
  case RecoveryCollect
  then obtain j where p: "sync_thread s = SyncDone j" using act by (auto split: sync_pc.splits)
  have "sound s (recovery_collect s)"
    by (rule sound_thread [OF l control_collect [OF inv p]])
      (use idle_no_sync [OF inv] p in \<open>auto simp: recovery_collect_def raid1_spare_active_def Let_def\<close>)
  then show ?thesis using act RecoveryCollect p by auto
qed (use sound_member [OF inv l _ act] in blast)+

subsection \<open>Every step\<close>

definition whole :: "r1_sys \<Rightarrow> bool" where
  "whole g \<longleftrightarrow> control (arr g) \<and> data (flawed g) (arr g) (spec g) (bad g) (synced g)"

text \<open>What the answer to a request says. A read has the contents of the last write. A write that no disk in use has failed is
  answered with success and is the last write from then on.\<close>

definition answer :: "r1_sys \<Rightarrow> r1_sys \<Rightarrow> r1bio \<Rightarrow> bool" where
  "answer g g' r \<longleftrightarrow>
     (if r_is_write r
      then (\<forall>x. \<not> covers r x \<longrightarrow> spec g' x = spec g x \<and> bad g' x = bad g x) \<and>
        (if none_failed (arr g') r
        then r_uptodate r \<and> (\<forall>x. covers r x \<longrightarrow> spec g' x = r_data r x \<and> \<not> bad g' x \<and>
          (\<forall>i rd. rdev_at (arr g') i = Some rd \<longrightarrow> rv_in_sync rd \<longrightarrow> view rd x = r_data r x))
        else \<forall>x. covers r x \<longrightarrow> bad g' x)
      else r_uptodate r \<and> (\<forall>x. covers r x \<longrightarrow> \<not> bad g x \<longrightarrow> r_data r x = spec g x))"

definition step_ok :: "r1_sys \<Rightarrow> r1_sys \<Rightarrow> bool" where
  "step_ok g g' \<longleftrightarrow> whole g' \<and> (ended (arr g') = ended (arr g) \<or> (\<exists>r. ended (arr g') = r # ended (arr g) \<and> \<not> r_is_sync r \<and> answer g g' r))"

definition no_note :: "r1_event \<Rightarrow> bool" where
  "no_note e = (case e of SyncEnter \<Rightarrow> False | SyncSkip \<Rightarrow> False | RecoveryCollect \<Rightarrow> False | Daemon \<Rightarrow> False | IssueNext n \<Rightarrow> False | EndWrite n i ok junk \<Rightarrow> False | _ \<Rightarrow> True)"

lemma next_same:
  assumes "r1_act e (arr g) = Some (Inr s')" "ended s' = ended (arr g)" "no_note e"
  shows "r1_next e g = Some (Inr (g\<lparr>arr := s'\<rparr>))"
proof -
  have "sync_note e (arr g) (g\<lparr>arr := s'\<rparr>) = g\<lparr>arr := s'\<rparr>" using assms(3) by (cases e) (simp_all add: sync_note_def no_note_def)
  then show ?thesis using assms(1,2) by (simp add: r1_next_def)
qed

lemma step_same:
  assumes "r1_act e (arr g) = Some (Inr s')" "ended s' = ended (arr g)" "no_note e"
    and "control s'" "data (flawed g) s' (spec g) (bad g) (synced g)" "r1_next e g = Some res"
  shows "\<exists>g'. res = Inr g' \<and> step_ok g g'"
  using next_same [OF assms(1-3)] assms(2,4-6) by (auto simp: step_ok_def whole_def)

lemma settle_sel:
  assumes "r_is_write r"
  shows "arr (settle r g) = arr g" "synced (settle r g) = synced g" "flawed (settle r g) = flawed g"
    "spec (settle r g) = (if none_failed (arr g) r then (\<lambda>x. if covers r x then r_data r x else spec g x) else spec g)"
    "bad (settle r g) = (if none_failed (arr g) r then (\<lambda>x. bad g x \<and> \<not> covers r x) else (\<lambda>x. bad g x \<or> covers r x))"
  using assms by (simp_all add: settle_def)

text \<open>The answer to a write.\<close>

lemma answer_write:
  assumes inv: "control s'" and s: "arr g' = s'" and r: "r_is_write r" "write_data s' Y r" "\<And>i. i < raid_disks s' \<Longrightarrow> bios r ! i \<noteq> Picked \<and> bios r ! i \<noteq> Sent"
    and u: "\<And>i. i < raid_disks s' \<Longrightarrow> bios r ! i = Good \<Longrightarrow> r_uptodate r"
    and P: "spec g' = (if none_failed s' r then (\<lambda>x. if covers r x then r_data r x else spec g x) else spec g)"
      "bad g' = (if none_failed s' r then (\<lambda>x. bad g x \<and> \<not> covers r x) else (\<lambda>x. bad g x \<or> covers r x))"
  shows "answer g g' r"
proof (cases "none_failed s' r")
  case True
  have good: "bios r ! i = Good \<and> i < raid_disks s'" if i: "in_sync_at s' i" for i
  proof -
    obtain rd where rd: "rdev_at s' i = Some rd" "rv_in_sync rd" using i by (auto simp: in_sync_at_iff)
    have "bios r ! i \<noteq> Failed" using True i by (simp add: none_failed_iff)
    then show ?thesis using r(2) r(3) [OF rdev_at_bound [OF rd(1)]] rd rdev_at_bound [OF rd(1)] unfolding write_data_def by blast
  qed
  obtain j where j: "in_sync_at s' j" using some_in_sync [OF inv] .
  then have "bios r ! j = Good" "j < raid_disks s'" using good by blast+
  moreover have "view rd x = r_data r x" if "rdev_at s' i = Some rd" "rv_in_sync rd" "covers r x" for i rd x
    using that good [of i] r(2) unfolding write_data_def in_sync_at_iff by blast
  ultimately show ?thesis using u True s P r(1) by (simp add: answer_def)
qed (use s r(1) P in \<open>simp add: answer_def\<close>)

lemma settle_step:
  assumes inv: "control s'" and en: "ended s' = r # ended (arr g)" and r: "r_is_write r" "\<not> r_is_sync r" "write_data s' (synced g) r"
      "\<And>i. i < raid_disks s' \<Longrightarrow> bios r ! i \<noteq> Picked \<and> bios r ! i \<noteq> Sent" "\<And>i. i < raid_disks s' \<Longrightarrow> bios r ! i = Good \<Longrightarrow> r_uptodate r"
    and d: "data (flawed g) s' (if none_failed s' r then (\<lambda>x. if covers r x then r_data r x else spec g x) else spec g)
      (if none_failed s' r then (\<lambda>x. bad g x \<and> \<not> covers r x) else (\<lambda>x. bad g x \<or> covers r x)) (synced g)"
  shows "step_ok g (settle r (g\<lparr>arr := s'\<rparr>))"
proof -
  let ?g = "settle r (g\<lparr>arr := s'\<rparr>)"
  have S: "arr ?g = s'" "synced ?g = synced g" "flawed ?g = flawed g"
      "spec ?g = (if none_failed s' r then (\<lambda>x. if covers r x then r_data r x else spec g x) else spec g)"
      "bad ?g = (if none_failed s' r then (\<lambda>x. bad g x \<and> \<not> covers r x) else (\<lambda>x. bad g x \<or> covers r x))"
    using settle_sel [OF r(1), of "g\<lparr>arr := s'\<rparr>"] by (simp_all cong: if_cong)
  have "whole ?g" unfolding whole_def S using d inv by simp
  moreover have "answer g ?g r" by (rule answer_write [OF inv S(1) r(1,3-5) S(4,5)])
  ultimately show ?thesis using S(1) en r(2) by (auto simp: step_ok_def)
qed

lemma end_write_step:
  assumes ok: "whole g" and r: "req_at (arr g) n = Some r" and i: "i < raid_disks (arr g)" "bios r ! i = Sent" "r_is_write r \<or> r_is_sync r \<and> i \<noteq> read_disk r"
  shows "\<exists>g'. r1_next (EndWrite n i ok' junk) g = Some (Inr g') \<and> step_ok g g'"
proof -
  define s where "s = arr g"
  have inv: "control s" and d: "data (flawed g) s (spec g) (bad g) (synced g)" using ok by (simp_all add: whole_def s_def)
  note rr = r [folded s_def] and ii = i [folded s_def]
  define r' where "r' = r\<lparr>bios := (bios r)[i := if ok' then Good else Failed], r_uptodate := (if r_is_sync r then r_uptodate r else ok' \<or> r_uptodate r), remaining := remaining r - 1\<rparr>"
  define q where "q = (if remaining r' = 0 then None else Some r')"
  obtain s' where s': "end_write n r i ok' junk s = Inr s'" "control s'" "\<And>m. req_at s' m = (if m = n then if remaining r' = 0 then None else Some r' else req_at s m)"
      "\<And>j. rdev_at s' j = (if j = i then map_option (end_rdev s r ok' junk) (rdev_at s i) else rdev_at s j)"
      "ended s' = (if remaining r' = 0 \<and> \<not> r_is_sync r then r' # ended s else ended s)"
      "sync_thread s' = sync_thread s" "md_size s' = md_size s" "recovery_err s \<longrightarrow> recovery_err s'" "recovery_intr s \<longrightarrow> recovery_intr s'" "raid_disks s' = raid_disks s"
    by (rule end_write_spec [OF inv rr ii r'_def, where junk = junk]) blast
  have st: "request_step n q (end_F s r i ok' junk) s s'" using s' by (auto simp: request_step_def q_def end_F_def)
  have act: "r1_act (EndWrite n i ok' junk) s = Some (Inr s')" using rr ii s'(1) by (simp add: on_req_def)
  note D = data_end_write [OF inv d rr ii r'_def q_def st]
  show ?thesis
  proof (cases "r_is_sync r")
    case True
    have qn: "req_at s' n = None \<longleftrightarrow> q = None" using s'(3) by (simp add: q_def)
    have "r1_next (EndWrite n i ok' junk) g =
        Some (Inr (g\<lparr>arr := s', synced := (\<lambda>x. synced g x \<or> q = None \<and> covers r x), bad := spoil s' r i ok' (bad g)\<rparr>))"
      using act True s'(5) rr qn by (cases "q = None") (auto simp: r1_next_def sync_note_def s_def [symmetric] Let_def spoil_def)
    then show ?thesis using D(1) [OF True] s'(2,5) True by (auto simp: step_ok_def whole_def s_def)
  next
    case False
    have w: "r_is_write r" using False i(3) by simp
    show ?thesis
    proof (cases "q = None")
      case True
      then have rem: "remaining r' = 0" by (simp add: q_def split: if_splits)
      have n: "r1_next (EndWrite n i ok' junk) g = Some (Inr (settle r' (g\<lparr>arr := s'\<rparr>)))"
        using act False s'(5) rem rr by (simp add: r1_next_def sync_note_def s_def [symmetric])
      have rk: "req_ok (raid_disks s) r" using controlD(9) [OF inv rr] .
      note Sd = part_sending [OF rk ii]
      have stg: "r_stage r \<noteq> Entered" using Sd(1) by (auto simp: sending_def split: stage.splits)
      note U = uptodate_iff [OF rk w False stg]
      have "step_ok g (settle r' (g\<lparr>arr := s'\<rparr>))"
      proof (rule settle_step [OF s'(2) _ _ _ _ _ _ D(3) [OF False True]])
        show "write_data s' (synced g) r'" using end_part_data [OF inv d rr ii r'_def st] w False stg by (simp add: req_data_def r'_def)
        show "bios r' ! j \<noteq> Picked \<and> bios r' ! j \<noteq> Sent" if "j < raid_disks s'" for j
          using sending_ended(3) [OF Sd(1) _ ii(2) _ r'_def rem] ii(1) U(2) that s'(10) by auto
        show "r_uptodate r'" if "j < raid_disks s'" "bios r' ! j = Good" for j
          using U that False ii s'(10) by (cases "j = i") (auto simp: r'_def split: if_splits)
      qed (use s'(5) rem False w in \<open>auto simp: s_def r'_def\<close>)
      then show ?thesis using n by blast
    next
      case q: False
      then have rem: "remaining r' \<noteq> 0" by (simp add: q_def split: if_splits)
      have "r1_next (EndWrite n i ok' junk) g = Some (Inr (g\<lparr>arr := s'\<rparr>))"
        using act False s'(5) rem rr by (simp add: r1_next_def sync_note_def s_def [symmetric])
      then show ?thesis using D(2) [OF False q] s'(2,5) rem by (auto simp: step_ok_def whole_def s_def)
    qed
  qed
qed

lemma issue_end_step:
  assumes ok: "whole g" and r: "req_at (arr g) n = Some r" "r_stage r = Issue k" "\<not> k < raid_disks (arr g)"
  shows "\<exists>g'. r1_next (IssueNext n) g = Some (Inr g') \<and> step_ok g g'"
proof -
  define s where "s = arr g"
  have inv: "control s" and d: "data (flawed g) s (spec g) (bad g) (synced g)" using ok by (simp_all add: whole_def s_def)
  note rr = r(1,2) [folded s_def] and False = r(3) [folded s_def]
  define r' where "r' = r\<lparr>remaining := remaining r - 1, r_stage := Issued\<rparr>"
  define q where "q = (if remaining r' = 0 then None else Some r')"
  obtain s' where s': "issue_end n r s = Inr s'" "request_step n q (\<lambda>j. more_pending 0) s s'" "ended s' = (if remaining r' = 0 \<and> \<not> r_is_sync r then r' # ended s else ended s)"
    using issue_end_spec [OF inv rr False r'_def] unfolding q_def by blast
  have C: "control s'" "raid_disks s' = raid_disks s" "req_at s' n = q" "\<And>j. rdev_at s' j = rdev_at s j" using s'(2) by (simp_all add: request_step_def)
  have act: "r1_act (IssueNext n) s = Some (Inr s')" using rr False s'(1) by (simp add: on_req_def)
  note D = data_issue_end [OF inv d rr False r'_def q_def s'(2)] and S = issuing_ok [OF controlD(9) [OF inv rr(1)] rr(2)]
  consider "r_is_sync r" | "\<not> r_is_sync r" "q = None" | "\<not> r_is_sync r" "q \<noteq> None" by blast
  then show ?thesis
  proof cases
    case 1
    have "r1_next (IssueNext n) g = Some (Inr (g\<lparr>arr := s', synced := (\<lambda>x. synced g x \<or> q = None \<and> covers r x)\<rparr>))"
      using act 1 s'(3) rr C(3) by (cases "q = None") (auto simp: r1_next_def sync_note_def s_def [symmetric])
    then show ?thesis using D(1) [OF 1] C(1) s'(3) 1 by (auto simp: step_ok_def whole_def s_def)
  next
    case 2
    then have rem: "remaining r' = 0" and w: "r_is_write r" using S(2) by (simp_all add: q_def split: if_splits)
    note U = uptodate_iff [OF controlD(9) [OF inv rr(1)] w 2(1)]
    have n: "r1_next (IssueNext n) g = Some (Inr (settle r' (g\<lparr>arr := s'\<rparr>)))"
      using act 2(1) s'(3) rem rr by (simp add: r1_next_def sync_note_def s_def [symmetric])
    have "step_ok g (settle r' (g\<lparr>arr := s'\<rparr>))"
    proof (rule settle_step [OF C(1) _ _ _ _ _ _ D(3) [OF 2]])
      have "write_data s (synced g) r" using dataD(4) [OF d rr(1)] w 2(1) rr(2) by (simp add: req_data_def)
      then show "write_data s' (synced g) r'" by (simp add: write_data_def r'_def covers_def C(4))
      show "bios r' ! j \<noteq> Picked \<and> bios r' ! j \<noteq> Sent" if "j < raid_disks s'" for j
        using sending_issued(3) [OF S(1) rr(2) _ r'_def rem] False U(2) rr(2) that C(2) by auto
      show "r_uptodate r'" if "j < raid_disks s'" "bios r' ! j = Good" for j using U(1) that C(2) rr(2) by (auto simp: r'_def)
    qed (use s'(3) rem w 2 in \<open>auto simp: s_def r'_def\<close>)
    then show ?thesis using n by blast
  next
    case 3
    then have rem: "remaining r' \<noteq> 0" by (simp add: q_def split: if_splits)
    have "r1_next (IssueNext n) g = Some (Inr (g\<lparr>arr := s'\<rparr>))"
      using act 3(1) s'(3) rem rr by (simp add: r1_next_def sync_note_def s_def [symmetric])
    then show ?thesis using D(2) [OF 3] C(1) s'(3) rem by (auto simp: step_ok_def whole_def s_def)
  qed
qed

lemma issue_part_step:
  assumes ok: "whole g" and r: "req_at (arr g) n = Some r" "r_stage r = Issue k" "k < raid_disks (arr g)"
  shows "\<exists>g'. r1_next (IssueNext n) g = Some (Inr g') \<and> step_ok g g'"
proof -
  let ?s = "arr g"
  have inv: "control ?s" and d: "data (flawed g) ?s (spec g) (bad g) (synced g)" using ok by (simp_all add: whole_def)
  define r' where "r' = (if bios r ! k = Picked then r\<lparr>bios := (bios r)[k := Sent], remaining := remaining r + 1, r_stage := Issue (Suc k)\<rparr> else r\<lparr>r_stage := Issue (Suc k)\<rparr>)"
  obtain s' where s': "issue_part n r k ?s = Inr s'" "request_step n (Some r') (\<lambda>j. more_pending (of_bool (j = k \<and> bios r ! k = Picked \<and> r_is_sync r))) ?s s'" "ended s' = ended ?s"
    by (rule issue_part_spec [OF inv r r'_def])
  have "req_at s' n = Some r'" using s'(2) by (simp add: request_step_def)
  then have "r1_next (IssueNext n) g = Some (Inr (g\<lparr>arr := s'\<rparr>))" using s'(1,3) r by (simp add: r1_next_def on_req_def sync_note_def)
  moreover have "data (flawed g) s' (spec g) (bad g) (synced g)" by (rule data_issue_part [OF inv d r r'_def s'(2)])
  ultimately show ?thesis using s' by (auto simp: step_ok_def whole_def request_step_def)
qed

lemma end_read_step:
  assumes ok: "whole g" and r: "req_at (arr g) n = Some r" "r_stage r = Issued" "\<not> r_is_write r" "bios r ! read_disk r = Sent"
  shows "\<exists>g'. r1_next (EndRead n ok') g = Some (Inr g') \<and> step_ok g g'"
proof -
  define s where "s = arr g"
  have inv: "control s" and d: "data (flawed g) s (spec g) (bad g) (synced g)" using ok by (simp_all add: whole_def s_def)
  note rr = r [folded s_def]
  obtain s' rd r' where s': "end_read n r ok' s = Inr s'" "rdev_at s (read_disk r) = Some rd"
      "r' = r\<lparr>r_data := (if ok' then view rd else r_data r), bios := (bios r)[read_disk r := if ok' then Good else Failed], r_uptodate := ok' \<or> r_uptodate r\<rparr>"
      "request_step n (if ok' \<and> \<not> r_is_sync r then None else Some r') (\<lambda>j. if j = read_disk r then end_read_rdev s ok' else more_pending 0) s s'"
      "ended s' = (if ok' \<and> \<not> r_is_sync r then r' # ended s else ended s)"
    by (rule end_read_spec [OF inv rr])
  note D = data_end_read [OF inv d rr s'(2,3,4)]
  have C: "control s'" using s'(4) by (simp add: request_step_def)
  have act: "r1_act (EndRead n ok') s = Some (Inr s')" using rr s'(1) by (simp add: on_req_def)
  have w: "\<not> r_is_write r'" "\<not> r_is_sync r \<Longrightarrow> \<not> r_is_sync r'" "covers r' = covers r" using r(3) by (simp_all add: s'(3) covers_def fun_eq_iff)
  have n: "r1_next (EndRead n ok') g = Some (Inr (g\<lparr>arr := s'\<rparr>))"
    using act s'(5) w(1) by (simp add: r1_next_def sync_note_def s_def [symmetric] settle_def)
  have "answer g (g\<lparr>arr := s'\<rparr>) r'" if "ok'" using w that D(2) by (simp add: answer_def) (simp add: s'(3))
  then show ?thesis using n C D(1) s'(5) w(2) by (auto simp: step_ok_def whole_def s_def)
qed

lemma next_act:
  assumes "r1_next e g = Some res"
  obtains y where "r1_act e (arr g) = Some y"
  using assms by (cases "r1_act e (arr g)") (simp_all add: r1_next_def)

lemma wholeD: "whole g \<Longrightarrow> control (arr g)" "whole g \<Longrightarrow> data (flawed g) (arr g) (spec g) (bad g) (synced g)"
  by (simp_all add: whole_def)

lemma start_step:
  assumes ok: "whole g" and nx: "r1_next (Start n) g = Some res"
  shows "\<exists>g'. res = Inr g' \<and> step_ok g g'"
proof -
  note inv = wholeD(1) [OF ok] and d = wholeD(2) [OF ok]
  obtain r where r: "req_at (arr g) n = Some r" "r_stage r = Entered"
    by (rule next_act [OF nx]) (auto simp: on_req_def split: option.splits if_splits)
  show ?thesis
  proof (cases "r_is_write r")
    case True
    note W = start_write_spec [OF inv r True refl]
    show ?thesis
      by (rule step_same [OF _ _ _ _ _ nx, of "start_write n r (arr g)"])
        (use r True W(1) W(3) data_start_write [OF inv d r(1) True W(2) refl W(3)] in \<open>auto simp: no_note_def on_req_def request_step_def\<close>)
  next
    case False
    show ?thesis
    proof (rule start_read_spec [OF inv r False])
      let ?s = "arr g"
      fix i assume R: "in_sync_at ?s i" "ended (start_read n r ?s) = ended ?s" "\<not> r_is_sync r"
        "request_step n (Some (r\<lparr>read_disk := i, bios := (replicate (raid_disks ?s) NoPart)[i := Sent], r_stage := Issued\<rparr>)) (\<lambda>j. more_pending (of_bool (j = i))) ?s (start_read n r ?s)"
      show ?thesis
        by (rule step_same [OF _ _ _ _ _ nx, of "start_read n r ?s"])
          (use r False R data_read_sent [OF inv d r(1) False R(3,1) refl R(4)] in \<open>auto simp: no_note_def on_req_def request_step_def\<close>)
    qed
  qed
qed

lemma daemon_step:
  assumes ok: "whole g" and nx: "r1_next Daemon g = Some res"
  shows "\<exists>g'. res = Inr g' \<and> step_ok g g'"
proof -
  let ?s = "arr g" let ?n = "last (retry_list ?s)"
  note inv = wholeD(1) [OF ok] and d = wholeD(2) [OF ok]
  have l: "retry_list ?s \<noteq> []" by (rule next_act [OF nx]) (auto split: if_splits)
  obtain r s' where n: "req_at ?s ?n = Some r" "raid1d ?s = Inr s'" "ended s' = ended ?s" "r_is_sync r \<Longrightarrow> \<not> r_uptodate r \<Longrightarrow> recovery_err s'"
      "\<not> r_is_sync r \<Longrightarrow> \<exists>i. in_sync_at ?s i \<and> request_step ?n (Some (r\<lparr>read_disk := i, bios := (replicate (raid_disks ?s) NoPart)[i := Sent], r_stage := Issued\<rparr>)) (\<lambda>j. more_pending (of_bool (j = i))) ?s s'"
      "r_is_sync r \<Longrightarrow> request_step ?n (if r_uptodate r then Some (r\<lparr>remaining := 1, r_stage := Issue 0\<rparr>) else None) (\<lambda>j. more_pending 0) ?s s'"
    by (rule raid1d_spec [OF inv l]) blast
  define B where "B = (\<lambda>x. bad g x \<or> unread r \<and> covers r x)"
  have nxt: "r1_next Daemon g = Some (Inr (g\<lparr>arr := s', bad := B\<rparr>))"
    using l n(1-3) by (cases "unread r") (simp_all add: r1_next_def sync_note_def B_def)
  have "queued ?s ?n" using controlD(11) [OF inv, of ?n] l by simp
  then have w: "\<not> r_is_write r" "bios r ! read_disk r = Good \<or> bios r ! read_disk r = Failed" using n(1) by (auto simp: queued_def)
  have "control s' \<and> data (flawed g) s' (spec g) B (synced g)"
  proof (cases "r_is_sync r")
    case True
    have "B x \<longleftrightarrow> bad g x \<or> (r_uptodate r \<and> bios r ! read_disk r = Failed) \<and> covers r x" for x using True by (simp add: B_def unread_def)
    then have "data (flawed g) s' (spec g) B (synced g)" by (intro data_copy [OF inv d n(1) True w n(6) [OF True] n(4) [OF True]])
    then show ?thesis using n(6) [OF True] by (simp add: request_step_def)
  next
    case False
    obtain i where R: "in_sync_at ?s i" "request_step ?n (Some (r\<lparr>read_disk := i, bios := (replicate (raid_disks ?s) NoPart)[i := Sent], r_stage := Issued\<rparr>)) (\<lambda>j. more_pending (of_bool (j = i))) ?s s'"
      using n(5) [OF False] by blast
    have "B = bad g" using False by (simp add: B_def unread_def)
    then show ?thesis using data_read_sent [OF inv d n(1) w(1) False R(1) refl R(2)] R(2) by (simp add: request_step_def)
  qed
  then show ?thesis using nx nxt n(3) by (auto simp: step_ok_def whole_def)
qed

lemma member_step:
  assumes ok: "whole g" and nx: "r1_next e g = Some res" and e: "e = FailDisk i \<or> e = AddDisk rd \<or> e = RemoveDisk i"
  shows "\<exists>g'. res = Inr g' \<and> step_ok g g'"
proof -
  let ?s = "arr g"
  note inv = wholeD(1) [OF ok] and d = wholeD(2) [OF ok]
  obtain y where act: "r1_act e ?s = Some y" by (rule next_act [OF nx])
  from e show ?thesis
  proof (elim disjE)
    assume e: "e = FailDisk i"
    show ?thesis
      by (rule step_same [OF _ _ _ _ _ nx, of "md_error i ?s"]) (use e control_md_error [OF inv] data_fail [OF d] in \<open>auto simp: no_note_def\<close>)
  next
    assume e: "e = AddDisk rd"
    then have p: "sync_thread ?s = SyncIdle" "\<not> rv_in_sync rd" "rv_pending rd = 0" using act by (auto split: if_splits)
    show ?thesis
      by (rule step_same [OF _ _ _ _ _ nx, of "snd (raid1_add_disk rd ?s)"])
        (use e act control_add [OF inv p] data_add [OF inv d p(1,2)] in \<open>auto simp: no_note_def raid1_add_disk_def split: if_splits option.splits\<close>)
  next
    assume e: "e = RemoveDisk i"
    then obtain rd where p: "sync_thread ?s = SyncIdle" "rdev_at ?s i = Some rd" "rv_faulty rd \<or> \<not> rv_in_sync rd" "rv_pending rd = 0"
      using act by (auto split: if_splits option.splits)
    obtain s' where R: "raid1_remove_disk i ?s = Inr s'" "control s'" "s' = ?s\<lparr>mirrors := (mirrors ?s)[i := (mirrors ?s ! i)\<lparr>m_rdev := None\<rparr>]\<rparr>"
      by (rule remove_spec [OF inv p])
    show ?thesis by (rule step_same [OF _ _ _ _ _ nx, of s']) (use e p R data_remove [OF inv d p] in \<open>auto simp: no_note_def\<close>)
  qed
qed

text \<open>The thread's own steps.\<close>

lemma thread_step:
  assumes ok: "whole g" and nx: "r1_next e g = Some res" and act: "r1_act e (arr g) = Some (Inr s')" and s': "control s'" "ended s' = ended (arr g)" "no_note e"
    and same: "mirrors s' = mirrors (arr g)" "reqs s' = reqs (arr g)" "md_size s' = md_size (arr g)" "sync_pos (sync_thread s') = sync_pos (sync_thread (arr g))"
      "recovery_err s' = recovery_err (arr g)" "recovery_intr (arr g) \<longrightarrow> recovery_intr s'"
    and o: "\<And>j. sync_thread s' = SyncOut j \<or> sync_thread s' = SyncDone j \<Longrightarrow>
      sync_thread (arr g) = SyncOut j \<or> sync_thread (arr g) = SyncDone j \<or> max_sector (arr g) \<le> j \<or> recovery_err s' \<or> recovery_intr s'"
  shows "\<exists>g'. res = Inr g' \<and> step_ok g g'"
proof (rule step_same [OF act s'(2,3,1) _ nx])
  note d = wholeD(2) [OF ok]
  show "data (flawed g) s' (spec g) (bad g) (synced g)"
    by (rule data_thread [OF d same(1-3) disjI1 [OF same(4)] progress_thread [OF dataD(3) [OF d] same o]])
qed

lemma sync_step:
  assumes ok: "whole g" and nx: "r1_next e g = Some res" and e: "e = RecoveryReset \<or> e = RecoveryStart k \<or> e = SyncEnter \<or> e = SyncSkip \<or> e = SyncRequest k st \<or> e = RecoveryCollect"
  shows "\<exists>g'. res = Inr g' \<and> (uncopied g' \<or> step_ok g g')"
proof -
  let ?s = "arr g"
  note inv = wholeD(1) [OF ok] and d = wholeD(2) [OF ok]
  obtain y where act: "r1_act e ?s = Some y" by (rule next_act [OF nx])
  from e show ?thesis
  proof (elim disjE)
    assume e: "e = RecoveryReset"
    then have p: "sync_thread ?s = SyncIdle" using act by (simp split: if_splits)
    have "\<exists>g'. res = Inr g' \<and> step_ok g g'"
      by (rule step_same [OF _ _ _ _ _ nx, of "recovery_reset ?s"])
        (use e p control_reset [OF inv] data_reset [OF d p] in \<open>auto simp: no_note_def recovery_reset_def\<close>)
    then show ?thesis by blast
  next
    assume e: "e = RecoveryStart k"
    then have p: "sync_thread ?s = SyncIdle" using act by (auto split: if_splits)
    have "\<exists>g'. res = Inr g' \<and> step_ok g g'"
      by (rule step_same [OF _ _ _ _ _ nx, of "recovery_start k ?s"])
        (use e act control_start [OF inv p] data_start [OF inv d p] in \<open>auto simp: no_note_def recovery_start_def split: if_splits\<close>)
    then show ?thesis by blast
  next
    assume e: "e = SyncEnter"
    then obtain b where p: "sync_thread ?s = SyncWait b" using act by (auto split: sync_pc.splits)
    let ?f = "b \<and> recovery_cp ?s \<noteq> 0 \<and> list_ex spare (mirrors ?s)"
    have en: "ended (sync_enter b ?s) = ended ?s" by (simp add: sync_enter_def)
    then have "r1_next e g = Some (Inr (g\<lparr>arr := sync_enter b ?s, flawed := ?f\<rparr>))" using e p by (simp add: r1_next_def sync_note_def)
    then show ?thesis using nx control_enter [OF inv p] data_enter [OF inv d p, of ?f] en by (auto simp: step_ok_def whole_def)
  next
    assume e: "e = SyncSkip"
    then obtain b where p: "sync_thread ?s = SyncWait b" using act by (auto split: sync_pc.splits)
    have en: "ended (sync_skip ?s) = ended ?s" by (simp add: sync_skip_def)
    then have "r1_next e g = Some (Inr (g\<lparr>arr := sync_skip ?s, flawed := True\<rparr>))" using e p by (simp add: r1_next_def sync_note_def)
    then show ?thesis using nx control_skip [OF inv p] data_skip [OF inv d p] en by (auto simp: step_ok_def whole_def)
  next
    assume e: "e = SyncRequest k st"
    then obtain j where j: "sync_thread ?s = SyncIn j" "0 < k" "k \<le> RESYNC_PAGES" using act by (auto split: sync_pc.splits if_splits)
    obtain s' where R: "sync_request k st j ?s = Inr s'" "control s'" "data (flawed g) s' (spec g) (bad g) (synced g)" "ended s' = ended ?s"
      by (rule data_sync_request [OF inv d j])
    have "\<exists>g'. res = Inr g' \<and> step_ok g g'" by (rule step_same [OF _ _ _ _ _ nx, of s']) (use e act j R in \<open>auto simp: no_note_def\<close>)
    then show ?thesis by blast
  next
    assume e: "e = RecoveryCollect"
    then obtain j where p: "sync_thread ?s = SyncDone j" using act by (auto split: sync_pc.splits)
    have en: "ended (recovery_collect ?s) = ended ?s" by (simp add: recovery_collect_def raid1_spare_active_def Let_def)
    let ?f = "flawed g \<and> \<not> recovery_err ?s \<and> \<not> recovery_intr ?s \<and> list_ex spare (mirrors ?s)"
    have "r1_next e g = Some (Inr (g\<lparr>arr := recovery_collect ?s, synced := (\<lambda>_. False), uncopied := uncopied g \<or> ?f\<rparr>))"
      using e p en by (simp add: r1_next_def sync_note_def)
    then show ?thesis using nx control_collect [OF inv p] data_collect [OF inv d p] en by (cases ?f) (auto simp: step_ok_def whole_def)
  qed
qed

lemma whole_step:
  assumes ok: "whole g" and nx: "r1_next e g = Some res"
  shows "\<exists>g'. res = Inr g' \<and> (uncopied g' \<or> step_ok g g')"
proof -
  let ?s = "arr g"
  note inv = wholeD(1) [OF ok] and d = wholeD(2) [OF ok]
  obtain y where act: "r1_act e ?s = Some y" by (rule next_act [OF nx])
  have other: ?thesis if "\<exists>g'. res = Inr g' \<and> step_ok g g'" using that by blast
  show ?thesis
  proof (cases e)
    case (Arrive w sector sectors dat)
    then have m: "may_arrive w sector sectors ?s" using act by (simp split: if_splits)
    show ?thesis
      by (rule other, rule step_same [OF _ _ _ _ _ nx, of "arrive w sector sectors dat ?s"])
        (use Arrive m control_arrive [OF inv] data_arrive [OF inv d m] in \<open>auto simp: no_note_def may_arrive_def arrive_def\<close>)
  next
    case (IssueNext n)
    then obtain r k where r: "req_at ?s n = Some r" "r_stage r = Issue k" using act by (auto simp: on_req_def split: option.splits stage.splits)
    show ?thesis using issue_part_step [OF ok r] issue_end_step [OF ok r] nx IssueNext by (cases "k < raid_disks ?s") auto
  next
    case (EndRead n ok')
    then obtain r where r: "req_at ?s n = Some r" "r_stage r = Issued" "\<not> r_is_write r" "bios r ! read_disk r = Sent"
      using act by (auto simp: on_req_def split: option.splits if_splits)
    show ?thesis using end_read_step [OF ok r, of ok'] nx EndRead by auto
  next
    case (EndWrite n i ok' junk)
    then obtain r where r: "req_at ?s n = Some r" "i < raid_disks ?s" "bios r ! i = Sent" "r_is_write r \<or> r_is_sync r \<and> i \<noteq> read_disk r"
      using act by (auto simp: on_req_def split: option.splits if_splits)
    show ?thesis using end_write_step [OF ok r, of ok' junk] nx EndWrite by auto
  next
    case BarrierUp
    then obtain j where p: "sync_thread ?s = SyncLoop j" "j < max_sector ?s" using act by (auto split: sync_pc.splits if_splits)
    show ?thesis by (rule other, rule thread_step [OF ok nx, of "barrier_up j ?s"]) (use BarrierUp p control_barrier_up [OF inv p] in \<open>auto simp: no_note_def barrier_up_def\<close>)
  next
    case BarrierPass
    then obtain f j where p: "sync_thread ?s = SyncUp f j" "f \<longrightarrow> nr_pending ?s = 0" "barrier ?s < RESYNC_DEPTH"
      using act by (auto split: sync_pc.splits if_splits)
    obtain s' where R: "barrier_pass f j ?s = Inr s'" "control s'" "s' = ?s\<lparr>next_resync := j + RESYNC_SECTORS, sync_thread := SyncIn j\<rparr>"
      by (rule barrier_pass_spec [OF inv p(1,2)])
    show ?thesis by (rule other, rule thread_step [OF ok nx, of s']) (use BarrierPass p R in \<open>auto simp: no_note_def\<close>)
  next
    case (SyncLeave signal)
    then obtain j where p: "sync_thread ?s = SyncLoop j" "max_sector ?s \<le> j \<or> recovery_err ?s \<or> recovery_intr ?s \<or> signal" using act by (auto split: sync_pc.splits if_splits)
    show ?thesis by (rule other, rule thread_step [OF ok nx, of "sync_leave signal j ?s"]) (use SyncLeave p control_leave [OF inv p(1)] in \<open>auto simp: no_note_def sync_leave_def\<close>)
  next
    case SyncClose
    then obtain j where p: "sync_thread ?s = SyncOut j" "recovery_active ?s = 0" "barrier ?s = 0" using act by (auto split: sync_pc.splits if_splits)
    show ?thesis by (rule other, rule thread_step [OF ok nx, of "sync_close j ?s"]) (use SyncClose p control_close [OF inv p(1,3)] in \<open>auto simp: no_note_def sync_close_def Let_def\<close>)
  qed (use start_step [OF ok] daemon_step [OF ok] member_step [OF ok nx] sync_step [OF ok nx] nx in blast)+
qed

text \<open>The invariant of the array with the contents that it should have. A disk that is no copy but in use ends what is known of the data.\<close>

definition sys_ok :: "r1_sys \<Rightarrow> bool" where
  "sys_ok g \<longleftrightarrow> control (arr g) \<and> layout (arr g) \<and> (\<not> uncopied g \<longrightarrow> whole g)"

lemma next_arr:
  assumes "r1_next e g = Some (Inr g')"
  shows "r1_act e (arr g) = Some (Inr (arr g'))" "uncopied g \<Longrightarrow> uncopied g'"
proof -
  obtain s where s: "r1_act e (arr g) = Some (Inr s)" using assms by (auto simp: r1_next_def split: option.splits sum.splits)
  have n: "arr (sync_note e t h) = arr h" "uncopied h \<Longrightarrow> uncopied (sync_note e t h)" for t h
    by (cases e; simp add: sync_note_def Let_def split: option.split)+
  have t: "arr (settle r h) = arr h" "uncopied (settle r h) = uncopied h" for r h by (simp_all add: settle_def)
  show "r1_act e (arr g) = Some (Inr (arr g'))" "uncopied g \<Longrightarrow> uncopied g'"
    using assms s by (auto simp: r1_next_def Let_def n t)
qed

lemma r1_step:
  assumes ok: "sys_ok g" and nx: "r1_next e g = Some res"
  shows "\<exists>g'. res = Inr g' \<and> sys_ok g' \<and> sound (arr g) (arr g') \<and> (\<not> uncopied g' \<longrightarrow> step_ok g g')"
proof -
  obtain y where y: "r1_act e (arr g) = Some y" by (rule next_act [OF nx])
  obtain s' where "y = Inr s'" "sound (arr g) s'" using act_sound [OF _ _ y] ok by (auto simp: sys_ok_def)
  then obtain g' where g': "res = Inr g'" using y nx by (auto simp: r1_next_def Let_def)
  note N = next_arr [OF nx [unfolded g']]
  have s: "sound (arr g) (arr g')" using \<open>y = Inr s'\<close> \<open>sound (arr g) s'\<close> y N(1) by simp
  have "step_ok g g'" if "\<not> uncopied g'" using whole_step [of g e res] nx ok g' that N(2) by (auto simp: sys_ok_def)
  then show ?thesis using g' s by (auto simp: sys_ok_def sound_def step_ok_def)
qed

end
