(* ===== verification/Md_Raid1_Array.thy ===== *)
theory Md_Raid1_Array
  imports Md_Raid1_Data
begin

text \<open>
  The mirrored array as a whole: the states that \<open>run\<close> builds satisfy the invariants, so every state that any sequence of events
  reaches does. The properties of the array follow, with runs on concrete disks.
\<close>

subsection \<open>Assembly\<close>

definition synced_mirror :: "mirror_info \<Rightarrow> bool" where
  "synced_mirror m = (case m_rdev m of None \<Rightarrow> False | Some rd \<Rightarrow> rv_in_sync rd)"

lemma assemble_spec:
  assumes "assemble rds (ms, w) = (ms', w')" "list_all (\<lambda>rd. rv_in_sync rd \<longrightarrow> \<not> rv_faulty rd) rds" "distinct (map rv_raid_disk rds)"
    "\<And>rd i. rd \<in> set rds \<Longrightarrow> i < length ms \<Longrightarrow> rv_raid_disk rd = int i \<Longrightarrow> m_rdev (ms ! i) = None" "w = int (length (filter synced_mirror ms))"
  shows "length ms' = length ms \<and> w' = int (length (filter synced_mirror ms')) \<and> (\<forall>m \<in> set ms'. m \<in> set ms \<or> (\<exists>rd \<in> set rds. m_rdev m = Some rd))"
  using assms
proof (induction rds arbitrary: ms w)
  case (Cons rd rds)
  show ?case
  proof (cases "int (length ms) \<le> rv_raid_disk rd \<or> rv_raid_disk rd < 0")
    case True
    then have "length ms' = length ms \<and> w' = int (length (filter synced_mirror ms')) \<and> (\<forall>m \<in> set ms'. m \<in> set ms \<or> (\<exists>rd \<in> set rds. m_rdev m = Some rd))"
      by (intro Cons.IH [of ms w]) (use Cons.prems in auto)
    then show ?thesis by auto
  next
    case False
    define k where "k = nat (rv_raid_disk rd)"
    have k: "k < length ms" "rv_raid_disk rd = int k" using False by (auto simp: k_def)
    let ?m = "\<lparr>m_rdev = Some rd, head_position = 0\<rparr>" let ?ms = "ms[k := ?m]" let ?w = "if \<not> rv_faulty rd \<and> rv_in_sync rd then w + 1 else w"
    have n: "m_rdev (ms ! k) = None" using Cons.prems(4) k by auto
    have "?w = int (length (filter synced_mirror ?ms))"
      using Cons.prems(2,5) k(1) synced_mirror_def [of "ms ! k"] synced_mirror_def [of ?m] n by (auto simp: filter_update)
    moreover have "m_rdev (?ms ! i) = None" if "rd' \<in> set rds" "i < length ?ms" "rv_raid_disk rd' = int i" for rd' i

    proof (cases "i = k")
      case True
      then have "rv_raid_disk rd \<in> rv_raid_disk ` set rds" using that k(2) by force
      then show ?thesis using Cons.prems(3) by simp
    qed (use that Cons.prems(4) [of rd' i] in simp)
    ultimately have "length ms' = length ?ms \<and> w' = int (length (filter synced_mirror ms')) \<and> (\<forall>m \<in> set ms'. m \<in> set ?ms \<or> (\<exists>rd \<in> set rds. m_rdev m = Some rd))"
      by (intro Cons.IH [of ?ms ?w]) (use Cons.prems False in \<open>auto simp: k_def\<close>)
    then show ?thesis using set_update_subset_insert [of ms k ?m] by auto
  qed
qed simp

text \<open>A running array: it is smaller than 1 TiB, its members have no requests, none is in sync and faulty at once, no two claim the same
  slot, and the sectors whose contents are known have them on every member in sync.\<close>

definition r1_init :: "r1_sys \<Rightarrow> bool" where
  "r1_init g \<longleftrightarrow> (\<exists>disks cp rds. raid1_run disks (md_size (arr g)) cp rds = Inr (arr g) \<and> md_size (arr g) < 2 ^ 30 \<and>
     list_all (\<lambda>rd. rv_pending rd = 0 \<and> (rv_in_sync rd \<longrightarrow> \<not> rv_faulty rd)) rds \<and> distinct (map rv_raid_disk rds) \<and> (\<forall>x. \<not> synced g x) \<and> \<not> uncopied g \<and>
     (\<forall>x rd. rd \<in> set rds \<longrightarrow> rv_in_sync rd \<longrightarrow> x < max_sector (arr g) \<longrightarrow> \<not> bad g x \<longrightarrow> view rd x = spec g x))"

definition r1_trans :: "r1_sys \<Rightarrow> r1_sys \<Rightarrow> bool" where
  "r1_trans g g' \<longleftrightarrow> (\<exists>e. r1_next e g = Some (Inr g'))"

lemma run_members:
  assumes "raid1_run disks sz cp rds = Inr s" "list_all (\<lambda>rd. rv_pending rd = 0 \<and> (rv_in_sync rd \<longrightarrow> \<not> rv_faulty rd)) rds" "distinct (map rv_raid_disk rds)"
  shows "rdev_at s i = Some rd \<Longrightarrow> rd \<in> set rds" "working_disks s = int (card {i. in_sync_at s i})" "0 < working_disks s" "last_used s < raid_disks s"
    "reqs s = []" "retry_list s = []" "nr_pending s = 0" "barrier s = 0" "recovery_active s = 0" "sync_thread s = SyncIdle" "md_size s = sz"
proof -
  obtain ms w where a: "assemble rds (replicate disks \<lparr>m_rdev = None, head_position = 0\<rparr>, 0) = (ms, w)" by (cases "assemble rds (replicate disks \<lparr>m_rdev = None, head_position = 0\<rparr>, 0)")
  have A: "length ms = disks" "w = int (length (filter synced_mirror ms))" "\<And>m. m \<in> set ms \<Longrightarrow> m_rdev m = None \<or> (\<exists>rd \<in> set rds. m_rdev m = Some rd)"
    using assemble_spec [OF a] assms(2,3) by (auto simp: list_all_iff synced_mirror_def split: if_splits)
  have w: "w \<noteq> 0" using assms(1) by (auto simp: raid1_run_def a Let_def split: if_splits)
  have s: "mirrors s = ms" "working_disks s = w" "reqs s = []" "retry_list s = []" "nr_pending s = 0" "barrier s = 0" "recovery_active s = 0" "sync_thread s = SyncIdle" "md_size s = sz"
    using assms(1) by (auto simp: raid1_run_def a Let_def split: if_splits)
  show "reqs s = []" "retry_list s = []" "nr_pending s = 0" "barrier s = 0" "recovery_active s = 0" "sync_thread s = SyncIdle" "md_size s = sz" by (fact s)+
  show "rd \<in> set rds" if "rdev_at s i = Some rd" using that A(3) [of "ms ! i"] s(1) by (auto simp: rdev_at_def split: if_splits)
  have "{i. i < length ms \<and> synced_mirror (ms ! i)} = {i. in_sync_at s i}" by (auto simp: synced_mirror_def in_sync_at_def rdev_at_def s(1) split: option.splits if_splits)
  then show wk: "working_disks s = int (card {i. in_sync_at s i})" using A(2) s(2) by (simp add: length_filter_conv_card)
  show "0 < working_disks s" using w unfolding s(2) A(2) by simp
  then obtain j where j: "in_sync_at s j" using wk by (cases "{i. in_sync_at s i} = {}") auto
  then have jl: "j < disks" using rdev_at_bound [of s j] s(1) A(1) by (auto simp: in_sync_at_iff)
  define t where "t = s\<lparr>last_used := 0\<rparr>"
  have it: "in_sync_at t = in_sync_at s" by (simp add: t_def in_sync_at_def fun_eq_iff)
  have "last_used s = (case first_in_sync t disks 0 of Some j \<Rightarrow> j | None \<Rightarrow> disks)"
    using assms(1) by (auto simp: raid1_run_def a Let_def t_def split: if_splits)
  then show "last_used s < raid_disks s"
    using first_in_sync_None [of t disks 0 j] first_in_sync_Some [of t disks 0] j jl it rdev_at_bound [of s "last_used s"]
    by (cases "first_in_sync t disks 0") (auto simp: in_sync_at_iff)
qed

lemma init_sys_ok:
  assumes "r1_init g"
  shows "sys_ok g"
proof -
  obtain disks cp rds where i: "raid1_run disks (md_size (arr g)) cp rds = Inr (arr g)" "md_size (arr g) < 2 ^ 30"
      "list_all (\<lambda>rd. rv_pending rd = 0 \<and> (rv_in_sync rd \<longrightarrow> \<not> rv_faulty rd)) rds" "distinct (map rv_raid_disk rds)" "\<And>x. \<not> synced g x"
      "\<And>x rd. rd \<in> set rds \<Longrightarrow> rv_in_sync rd \<Longrightarrow> x < max_sector (arr g) \<Longrightarrow> \<not> bad g x \<Longrightarrow> view rd x = spec g x"
    using assms unfolding r1_init_def by blast
  note M = run_members [OF i(1,3,4)]
  have q: "req_at (arr g) n = None" for n by (simp add: req_at_def M(5))
  have T: "total_of f (arr g) = 0" for f by (simp add: total_of_def M(5))
  have "rdev_ok (arr g) j" for j using M(1) [of j] i(3) by (auto simp: rdev_ok_def T list_all_iff split: option.split)
  then have "control (arr g)"
    unfolding control_def using M(2-10) i(2) by (auto simp: T q excluded_def no_sync_def placed_def barred_def)
  moreover have "data (flawed g) (arr g) (spec g) (bad g) (synced g)"
    using M(1,10) i(5,6) by (simp add: data_def layout_def disk_data_def progress_def q)
  ultimately show ?thesis using dataD(1) by (auto simp: sys_ok_def whole_def)
qed

interpretation raid1_array: transition_system r1_init r1_trans sys_ok
  by unfold_locales (use init_sys_ok r1_step in \<open>auto simp: r1_trans_def\<close>)

subsection \<open>Runs on concrete disks\<close>

definition ex_disk :: "int \<Rightarrow> bool \<Rightarrow> block \<Rightarrow> r1_rdev" where
  "ex_disk i ok b = \<lparr>rv_in_sync = ok, rv_faulty = False, rv_pending = 0, rv_data_offset = 2, rv_raid_disk = i, rv_disk = (\<lambda>_. b)\<rparr>"

definition ex_array :: "nat \<Rightarrow> sector_t \<Rightarrow> sector_t \<Rightarrow> r1_rdev list \<Rightarrow> r1_sys" where
  "ex_array disks size' cp rds = \<lparr>arr = (case raid1_run disks size' cp rds of Inr s \<Rightarrow> s), spec = (\<lambda>_. [1]), bad = (\<lambda>_. False), synced = (\<lambda>_. False),
     flawed = False, uncopied = False\<rparr>"

abbreviation ex_sys :: "r1_rdev list \<Rightarrow> r1_sys" where "ex_sys \<equiv> ex_array 2 64 MaxSector"

lemma ex_sys_init:
  assumes "rds = [ex_disk 0 True [1], ex_disk 1 True [1]] \<or> rds = [ex_disk 0 True [1]]"
  shows "r1_init (ex_sys rds)"
proof -
  have "\<not> isl (raid1_run 2 64 MaxSector rds)" "md_size (arr (ex_sys rds)) = 64"
    using assms by (elim disjE; simp only:; code_simp)+
  then have "raid1_run 2 (md_size (arr (ex_sys rds))) MaxSector rds = Inr (arr (ex_sys rds))"
    by (cases "raid1_run 2 64 MaxSector rds") (simp_all add: ex_array_def)
  then show ?thesis unfolding r1_init_def
    using assms \<open>md_size (arr (ex_sys rds)) = 64\<close>
    by (intro exI [of _ 2] exI [of _ MaxSector] exI [of _ rds]) (auto simp: ex_array_def ex_disk_def view_def)
qed

definition ex_write :: "block \<Rightarrow> nat \<Rightarrow> r1_event list" where
  "ex_write b n = [Arrive True 2 3 (\<lambda>_. b), Start n, IssueNext n, IssueNext n, IssueNext n]"

definition ex_read :: "nat \<Rightarrow> r1_event list" where
  "ex_read n = [Arrive False 3 2 (\<lambda>_. []), Start n]"

text \<open>The requests that a run answers, with their kind, their result and the contents of sector 3.\<close>

definition ex_answers :: "r1_event list \<Rightarrow> r1_sys \<Rightarrow> (bool \<times> bool \<times> block) list" where
  "ex_answers es g = (case r1_trace es g of Some (Inr g') \<Rightarrow> map (\<lambda>r. (r_is_write r, r_uptodate r, r_data r 3)) (ended (arr g')) | _ \<Rightarrow> [])"

lemma trace_reach: "r1_trace es g = Some (Inr g') \<Longrightarrow> r1_trans\<^sup>*\<^sup>* g g'"
proof (induction es arbitrary: g)
  case (Cons e es)
  then obtain h where h: "r1_next e g = Some (Inr h)" "r1_trace es h = Some (Inr g')" by (auto split: option.splits sum.splits)
  then have "r1_trans g h" by (auto simp: r1_trans_def)
  then show ?case using Cons.IH [OF h(2)] by (rule converse_rtranclp_into_rtranclp)
qed simp

lemma trace_tail:
  assumes "sys_ok g" "r1_trace es g = Some (Inr g')"
  shows "\<exists>rs. ended (arr g') = rs @ ended (arr g)"
  using assms
proof (induction es arbitrary: g)
  case (Cons e es)
  then obtain h where h: "r1_next e g = Some (Inr h)" "r1_trace es h = Some (Inr g')" by (auto split: option.splits sum.splits)
  have s: "sys_ok h" "sound (arr g) (arr h)" using r1_step [OF Cons.prems(1) h(1)] by auto
  then have "\<exists>rs. ended (arr h) = rs @ ended (arr g)" unfolding sound_def by (metis append_Cons append_Nil)
  then show ?case using Cons.IH [OF s(1) h(2)] by (metis append_assoc)
qed simp

text \<open>The states before and after the last event of a run.\<close>

definition ex_last :: "r1_event list \<Rightarrow> r1_event \<Rightarrow> r1_sys \<Rightarrow> (r1_sys \<times> r1_sys) option" where
  "ex_last es e g = (case r1_trace es g of Some (Inr h) \<Rightarrow> (case r1_next e h of Some (Inr h') \<Rightarrow> Some (h, h') | _ \<Rightarrow> None) | _ \<Rightarrow> None)"

lemma ex_runE:
  assumes "case ex_last es e g of None \<Rightarrow> False | Some (h, h') \<Rightarrow> Q h h' \<and> (case r1_trace fs h' of Some (Inr k) \<Rightarrow> R k h' | _ \<Rightarrow> False)"
  obtains h h' k where "ex_last es e g = Some (h, h')" "Q h h'" "r1_trace fs h' = Some (Inr k)" "R k h'"
proof (cases "ex_last es e g")
  case (Some p)
  then obtain h h' where p: "ex_last es e g = Some (h, h')" by (cases p) auto
  then have "case r1_trace fs h' of Some (Inr k) \<Rightarrow> R k h' | _ \<Rightarrow> False" "Q h h'" using assms by simp_all
  moreover from this obtain k where "r1_trace fs h' = Some (Inr k)" by (cases "r1_trace fs h'") (auto split: sum.splits)
  ultimately show thesis using that [OF p] by simp
qed (use assms in simp)

lemma ex_lastD:
  assumes "ex_last es e g = Some (h, h')"
  shows "r1_trans\<^sup>*\<^sup>* g h" "r1_next e h = Some (Inr h')" "r1_trans\<^sup>*\<^sup>* g h'"
proof -
  have a: "r1_trace es g = Some (Inr h)" "r1_next e h = Some (Inr h')" using assms by (auto simp: ex_last_def split: option.splits sum.splits)
  show r: "r1_trans\<^sup>*\<^sup>* g h" "r1_next e h = Some (Inr h')" using trace_reach [OF a(1)] a(2) by simp_all
  have "r1_trans h h'" using r(2) unfolding r1_trans_def by blast
  with r(1) show "r1_trans\<^sup>*\<^sup>* g h'" by (rule rtranclp.rtrancl_into_rtrancl)
qed

lemma reachable_step:
  assumes "r1_init g0" "r1_trans\<^sup>*\<^sup>* g0 g" "r1_next e g = Some (Inr g')"
  shows "sys_ok g" "sound (arr g) (arr g')" "\<not> uncopied g' \<Longrightarrow> step_ok g g'"
proof -
  show ok: "sys_ok g" using assms(1,2) by (rule raid1_array.reachable_inv)
  show "sound (arr g) (arr g')" "\<not> uncopied g' \<Longrightarrow> step_ok g g'" using r1_step [OF ok assms(3)] by auto
qed

lemma ex_answered:
  assumes "r1_init g0" "r1_trans\<^sup>*\<^sup>* g0 g" "r1_next e g = Some (Inr g')" "length (ended (arr g)) < length (ended (arr g'))"
  shows "ended (arr g') = hd (ended (arr g')) # ended (arr g)"
  using reachable_step(2) [OF assms(1-3)] assms(4) by (auto simp: sound_def)

text \<open>A disk delivers the data of a read.\<close>

lemma read_delivered:
  assumes ok: "sys_ok g" and nx: "r1_next (EndRead n True) g = Some (Inr g')" and q: "req_at (arr g) n = Some q" "\<not> r_is_sync q"
  shows "\<exists>r. ended (arr g') = r # ended (arr g) \<and> r_uptodate r \<and> r_sector r = r_sector q \<and> r_sectors r = r_sectors q"
proof -
  note N = next_arr(1) [OF nx]
  have r: "r_stage q = Issued" "\<not> r_is_write q" "bios q ! read_disk q = Sent" "end_read n q True (arr g) = Inr (arr g')"
    using N q(1) by (auto simp: on_req_def split: if_splits)
  have inv: "control (arr g)" using ok by (simp add: sys_ok_def)
  obtain s' rd r' where s': "end_read n q True (arr g) = Inr s'" "r' = q\<lparr>r_data := (if True then view rd else r_data q), bios := (bios q)[read_disk q := if True then Good else Failed], r_uptodate := True \<or> r_uptodate q\<rparr>"
      "ended s' = (if True \<and> \<not> r_is_sync q then r' # ended (arr g) else ended (arr g))"
    by (rule end_read_spec [OF inv q(1) r(1-3)])
  then show ?thesis using r(4) q(2) by auto
qed

subsection \<open>Properties\<close>

text \<open>C2. Reads of a mirrored array below 1 TiB return the last write. When a disk delivers the data of a read, the read is answered
  with success; and every read that is answered, whatever disks failed, left, came and were rebuilt meanwhile and however the parts of
  the requests interleaved, has in every sector that is not bad the contents of the last write. A sector is bad when a disk that stays in
  use failed to write it, or when the resync wrote pages that it could not read; and the claim ends when a rebuild that was
  skipped, or that began behind the first sector, has activated its disk (\<open>uncopied\<close>).\<close>

theorem raid1_read_last_write:
  assumes "r1_init g0" "r1_trans\<^sup>*\<^sup>* g0 g" "r1_next e g = Some (Inr g')" "\<not> uncopied g'"
  shows "(\<forall>n q. e = EndRead n True \<longrightarrow> req_at (arr g) n = Some q \<longrightarrow> \<not> r_is_sync q \<longrightarrow>
       (\<exists>r. ended (arr g') = r # ended (arr g) \<and> r_uptodate r \<and> r_sector r = r_sector q \<and> r_sectors r = r_sectors q)) \<and>
    (\<forall>r x. ended (arr g') = r # ended (arr g) \<longrightarrow> \<not> r_is_write r \<longrightarrow> covers r x \<longrightarrow> \<not> bad g x \<longrightarrow> r_data r x = spec g x)"
  using reachable_step(3) [OF assms] read_delivered [OF reachable_step(1) [OF assms(1-3)]] assms(3) by (auto simp: step_ok_def answer_def)

theorem raid1_read_last_write_witness:
  "\<exists>g0 g g' r. r1_init g0 \<and> r1_trans\<^sup>*\<^sup>* g0 g \<and> r1_next (EndRead 1 True) g = Some (Inr g') \<and> ended (arr g') = r # ended (arr g) \<and>
     r_uptodate r \<and> r_data r 3 = spec g 3 \<and> spec g 3 = [7]"
proof -
  let ?g = "ex_sys [ex_disk 0 True [1], ex_disk 1 True [1]]" let ?es = "ex_write [7] 0 @ [EndWrite 0 0 False (\<lambda>_. []), EndWrite 0 1 True (\<lambda>_. [])] @ ex_read 1"
  have "case ex_last ?es (EndRead 1 True) ?g of None \<Rightarrow> False | Some (g, g') \<Rightarrow> length (ended (arr g)) < length (ended (arr g')) \<and>
      \<not> r_is_write (hd (ended (arr g'))) \<and> covers (hd (ended (arr g'))) 3 \<and> \<not> bad g 3 \<and> spec g 3 = [7] \<and> \<not> uncopied g' \<and>
      map_option r_is_sync (req_at (arr g) 1) = Some False" by code_simp
  then obtain g g' q where l: "ex_last ?es (EndRead 1 True) ?g = Some (g, g')" "length (ended (arr g)) < length (ended (arr g'))"
      "\<not> r_is_write (hd (ended (arr g')))" "covers (hd (ended (arr g'))) 3" "\<not> bad g 3" "spec g 3 = [7]" "\<not> uncopied g'" "req_at (arr g) 1 = Some q" "\<not> r_is_sync q"
    by (auto split: option.splits)
  have i: "r1_init ?g" by (rule ex_sys_init) simp
  note E = ex_answered [OF i ex_lastD(1,2) [OF l(1)] l(2)] and R = raid1_read_last_write [OF i ex_lastD(1,2) [OF l(1)] l(7)]
  have "r_uptodate (hd (ended (arr g')))" using R l(8,9) E by fastforce
  moreover have "r_data (hd (ended (arr g'))) 3 = spec g 3" using R l(3-5) E by blast
  ultimately show ?thesis using i ex_lastD(1,2) [OF l(1)] E l(6) by blast
qed

text \<open>A read is never answered with an error: on the last disk in sync it is repeated without end, although the comment in \<open>error\<close>
  says that the next level up gets to know.\<close>

lemma raid1_read_never_fails:
  assumes "r1_init g0" "r1_trans\<^sup>*\<^sup>* g0 g" "r1_next e g = Some (Inr g')" "ended (arr g') = r # ended (arr g)" "\<not> r_is_write r"
  shows "r_uptodate r"
  using reachable_step(2) [OF assms(1-3)] assms(4,5) by (auto simp: sound_def taken_def)

text \<open>C4. A write of a mirrored array below 1 TiB reaches every disk: when a write is answered and no disk in sync has failed its part of it,
  the answer is success, all disks in sync have taken it and hold its contents, and it is the last write of its sectors from then on. Nothing
  changes for the other sectors. (As for reads, no rebuild may have activated a disk that is not a copy.)\<close>

theorem raid1_write_recorded:
  assumes "r1_init g0" "r1_trans\<^sup>*\<^sup>* g0 g" "r1_next e g = Some (Inr g')" "\<not> uncopied g'" "ended (arr g') = r # ended (arr g)" "r_is_write r"
    "\<And>i. in_sync_at (arr g') i \<Longrightarrow> bios r ! i \<noteq> Failed"
  shows "r_uptodate r \<and> (\<forall>x. if covers r x
      then spec g' x = r_data r x \<and> \<not> bad g' x \<and> (\<forall>i rd. rdev_at (arr g') i = Some rd \<longrightarrow> rv_in_sync rd \<longrightarrow> view rd x = r_data r x)
      else spec g' x = spec g x \<and> bad g' x = bad g x)"
proof -
  have "none_failed (arr g') r" using assms(7) by (simp add: none_failed_iff)
  then show ?thesis using reachable_step(3) [OF assms(1-4)] assms(5,6) by (auto simp: step_ok_def answer_def)
qed

theorem raid1_write_recorded_witness:
  "\<exists>g0 g g' r. r1_init g0 \<and> r1_trans\<^sup>*\<^sup>* g0 g \<and> r1_next (EndWrite 0 1 True (\<lambda>_. [])) g = Some (Inr g') \<and> ended (arr g') = r # ended (arr g) \<and>
     r_uptodate r \<and> r_data r 3 = [7] \<and> spec g 3 = [1] \<and> spec g' 3 = [7]"
proof -
  let ?g = "ex_sys [ex_disk 0 True [1], ex_disk 1 True [1]]" let ?es = "ex_write [7] 0 @ [EndWrite 0 0 False (\<lambda>_. [])]" let ?e = "EndWrite 0 1 True (\<lambda>_. [])"
  have "case ex_last ?es ?e ?g of None \<Rightarrow> False | Some (g, g') \<Rightarrow> length (ended (arr g)) < length (ended (arr g')) \<and>
      r_is_write (hd (ended (arr g'))) \<and> covers (hd (ended (arr g'))) 3 \<and> spec g 3 = [1] \<and> r_data (hd (ended (arr g'))) 3 = [7] \<and> none_failed (arr g') (hd (ended (arr g'))) \<and>
      \<not> uncopied g'" by code_simp
  then obtain g g' where l: "ex_last ?es ?e ?g = Some (g, g')" "length (ended (arr g)) < length (ended (arr g'))"
      "r_is_write (hd (ended (arr g')))" "covers (hd (ended (arr g'))) 3" "spec g 3 = [1]" "r_data (hd (ended (arr g'))) 3 = [7]" "none_failed (arr g') (hd (ended (arr g')))"
      "\<not> uncopied g'"
    by (auto split: option.splits)
  have i: "r1_init ?g" by (rule ex_sys_init) simp
  note E = ex_answered [OF i ex_lastD(1,2) [OF l(1)] l(2)]
  have "bios (hd (ended (arr g'))) ! j \<noteq> Failed" if "in_sync_at (arr g') j" for j using l(7) that by (simp add: none_failed_iff)
  from raid1_write_recorded [OF i ex_lastD(1,2) [OF l(1)] l(8) E l(3) this] show ?thesis using i ex_lastD(1,2) [OF l(1)] E l(4-6) by metis
qed

text \<open>C12. A mirrored array below 1 TiB stays in service: whatever happens, no section of the code dereferences a missing disk or request or fails an
  assertion, and the last disk in sync is never given up; \<open>working_disks\<close> is the number of disks in sync.\<close>

theorem raid1_stays_in_service:
  assumes "r1_init g0" "r1_trans\<^sup>*\<^sup>* g0 g"
  shows "r1_next e g \<noteq> Some (Inl f) \<and> working_disks (arr g) = int (card {i. in_sync_at (arr g) i}) \<and> 0 < working_disks (arr g)"
proof -
  have ok: "sys_ok g" using assms by (rule raid1_array.reachable_inv)
  then have "r1_next e g \<noteq> Some (Inl f)" using r1_step [OF ok] by blast
  then show ?thesis using controlD(3,4) [of "arr g"] ok by (simp add: sys_ok_def)
qed

theorem raid1_stays_in_service_witness:
  "\<exists>g0 g. r1_init g0 \<and> r1_trans\<^sup>*\<^sup>* g0 g \<and> working_disks (arr g) = 1 \<and> card {i. in_sync_at (arr g) i} = 1"
proof -
  let ?g = "ex_sys [ex_disk 0 True [1], ex_disk 1 True [1]]"
  have "case ex_last [FailDisk 0] (FailDisk 1) ?g of None \<Rightarrow> False | Some (g, g') \<Rightarrow> working_disks (arr g') = 1" by code_simp
  then obtain g g' where l: "ex_last [FailDisk 0] (FailDisk 1) ?g = Some (g, g')" "working_disks (arr g') = 1" by (auto split: option.splits)
  have i: "r1_init ?g" by (rule ex_sys_init) simp
  note r = ex_lastD(3) [OF l(1)]
  show ?thesis using i r l(2) raid1_stays_in_service [OF i r, of Daemon BUG] by (intro exI [of _ ?g] exI [of _ g']) simp
qed

text \<open>C3. The disks of a mirrored array below 1 TiB mirror each other: a sector that is not bad and that no running write covers has the
  contents of its last write on every disk in sync, the disks that a rebuild has filled and activated included, unless a rebuild that was
  skipped, or that began behind the first sector although a spare was a member, has activated a disk (\<open>uncopied\<close>).\<close>

theorem raid1_mirrors_agree:
  assumes "r1_init g0" "r1_trans\<^sup>*\<^sup>* g0 g" "\<not> uncopied g" "x < max_sector (arr g)" "\<not> bad g x" "rdev_at (arr g) i = Some rd" "rv_in_sync rd"
    "\<And>n r. req_at (arr g) n = Some r \<Longrightarrow> covers r x \<Longrightarrow> r_is_write r \<Longrightarrow> r_stage r = Entered"
  shows "view rd x = spec g x"
proof -
  have "sys_ok g" using assms(1,2) by (rule raid1_array.reachable_inv)
  then have "disk_data (arr g) (spec g) (bad g) (synced g)" using dataD(2) [OF wholeD(2)] assms(3) by (simp add: sys_ok_def)
  moreover have "\<not> covers r x" if "req_at (arr g) n = Some r" "writing r" for n r using assms(8) that by (auto simp: writing_def)
  ultimately show ?thesis using assms(4-7) unfolding disk_data_def by blast
qed

text \<open>A new disk is filled.\<close>

definition ex_fill :: "r1_event list" where
  "ex_fill = [AddDisk (ex_disk (- 1) False [5]), RecoveryStart 1, SyncEnter, BarrierUp, BarrierPass, SyncRequest 16 True, EndRead 0 True, Daemon,
     IssueNext 0, IssueNext 0, IssueNext 0, EndWrite 0 1 True (\<lambda>_. []), SyncLeave False, SyncClose]"

theorem raid1_mirrors_agree_witness:
  "\<exists>g0 g rd. r1_init g0 \<and> r1_trans\<^sup>*\<^sup>* g0 g \<and> rdev_at (arr g) 1 = Some rd \<and> rv_in_sync rd \<and> view rd 3 = spec g 3 \<and> spec g 3 = [1]"
proof -
  let ?g = "ex_sys [ex_disk 0 True [1]]"
  have "case ex_last ex_fill RecoveryCollect ?g of None \<Rightarrow> False | Some (g, g') \<Rightarrow> max_sector (arr g') = 128 \<and> \<not> bad g' 3 \<and> reqs (arr g') = [None] \<and> spec g' 3 = [1] \<and>
      in_sync_at (arr g') 1 \<and> \<not> uncopied g'" by code_simp
  then obtain g g' where l: "ex_last ex_fill RecoveryCollect ?g = Some (g, g')" "max_sector (arr g') = 128" "\<not> bad g' 3" "reqs (arr g') = [None]" "spec g' 3 = [1]" "in_sync_at (arr g') 1" "\<not> uncopied g'"
    by (auto split: option.splits)
  have i: "r1_init ?g" by (rule ex_sys_init) simp
  obtain rd where rd: "rdev_at (arr g') 1 = Some rd" "rv_in_sync rd" using l(6) by (auto simp: in_sync_at_iff)
  have "req_at (arr g') n = None" for n by (simp add: req_at_def l(4) nth_Cons')
  then have "view rd 3 = spec g' 3" by (intro raid1_mirrors_agree [OF i ex_lastD(3) [OF l(1)] l(7) _ l(3) rd]) (simp_all only: l(2), simp_all)
  then show ?thesis using i ex_lastD(3) [OF l(1)] rd l(5) by blast
qed

text \<open>C11. Resync and requests of a mirrored array below 1 TiB exclude each other: while a resync request is in progress the barrier is up, no other request is, and two
  resync requests have no sector in common.\<close>

theorem raid1_resync_alone:
  assumes "r1_init g0" "r1_trans\<^sup>*\<^sup>* g0 g" "req_at (arr g) m = Some r" "r_is_sync r" "req_at (arr g) n = Some q"
  shows "r_is_sync q \<and> 0 < barrier (arr g) \<and> (m \<noteq> n \<longrightarrow> \<not> (covers r x \<and> covers q x))"
proof -
  have ok: "sys_ok g" using assms(1,2) by (rule raid1_array.reachable_inv)
  have inv: "control (arr g)" and L: "layout (arr g)" using ok by (simp_all add: sys_ok_def)
  have "r_is_sync q" using excluded_cases(1) [OF inv assms(3,4)] assms(5) by (auto simp: quiet_def)
  then show ?thesis using barrier_pos [OF inv assms(3,4)] layoutD(4) [OF L assms(5,3), of x] assms(4) by (auto simp: plain_read_def)
qed

theorem raid1_resync_alone_witness:
  "\<exists>g0 g r q. r1_init g0 \<and> r1_trans\<^sup>*\<^sup>* g0 g \<and> req_at (arr g) 0 = Some r \<and> req_at (arr g) 1 = Some q \<and> covers r 3 \<and> \<not> covers q 3 \<and> r_is_sync q \<and> 0 < barrier (arr g)"
proof -
  let ?g = "ex_sys [ex_disk 0 True [1]]" let ?es = "[AddDisk (ex_disk (- 1) False [5]), RecoveryStart 1, SyncEnter, BarrierUp, BarrierPass, SyncRequest 4 False, BarrierUp, BarrierPass]"
  have "case ex_last ?es (SyncRequest 4 False) ?g of None \<Rightarrow> False | Some (g, g') \<Rightarrow>
      (case (req_at (arr g') 0, req_at (arr g') 1) of (Some r, Some q) \<Rightarrow> r_is_sync r \<and> covers r 3 | _ \<Rightarrow> False)" by code_simp
  then obtain g g' r q where l: "ex_last ?es (SyncRequest 4 False) ?g = Some (g, g')" "req_at (arr g') 0 = Some r" "req_at (arr g') 1 = Some q" "r_is_sync r" "covers r 3"
    by (auto split: option.splits)
  have i: "r1_init ?g" by (rule ex_sys_init) simp
  note r = ex_lastD(3) [OF l(1)]
  show ?thesis using raid1_resync_alone [OF i r l(2,4,3), of 3] i r l(2,3,5) by auto
qed

text \<open>C40. A write can be lost although it is answered with success: a write that every disk in sync has failed, but that another disk,
  such as one that is being rebuilt, has taken, is answered with success, and the contents of its sectors are open from then on. (The
  witness is a run with a rebuild, in which the disk in sync fails the write and a later read returns other contents.)\<close>

theorem raid1_lost_write:
  assumes "r1_init g0" "r1_trans\<^sup>*\<^sup>* g0 g" "r1_next e g = Some (Inr g')" "\<not> uncopied g'" "ended (arr g') = r # ended (arr g)" "r_is_write r"
    "\<And>i. in_sync_at (arr g') i \<Longrightarrow> bios r ! i = Failed" "bios r ! j = Good" "j < raid_disks (arr g)"
  shows "r_uptodate r \<and> \<not> in_sync_at (arr g') j \<and> (\<forall>x. covers r x \<longrightarrow> bad g' x)"
proof -
  have "sys_ok g'" using r1_step [OF reachable_step(1) [OF assms(1-3)] assms(3)] by auto
  then obtain i where "in_sync_at (arr g') i" using some_in_sync [of "arr g'"] by (auto simp: sys_ok_def)
  then have "\<not> none_failed (arr g') r" using assms(7) by (auto simp: none_failed_iff)
  then show ?thesis using reachable_step(2,3) [OF assms(1-3)] assms(4-9) by (auto simp: sound_def taken_def step_ok_def answer_def)
qed

theorem raid1_lost_write_witness:
  "\<exists>g0 g g' g'' r q. r1_init g0 \<and> r1_trans\<^sup>*\<^sup>* g0 g \<and> sync_thread (arr g) = SyncLoop 0 \<and> r1_next (EndWrite 0 1 True (\<lambda>_. [])) g = Some (Inr g') \<and>
     ended (arr g') = r # ended (arr g) \<and> r_uptodate r \<and> bad g' 3 \<and> r_data r 3 = [7] \<and>
     r1_trace (ex_read 1 @ [EndRead 1 True]) g' = Some (Inr g'') \<and> ended (arr g'') = q # ended (arr g') \<and> r_uptodate q \<and> covers q 3 \<and> r_data q 3 = [9]"
proof -
  let ?g = "ex_sys [ex_disk 0 True [1]]" let ?e = "EndWrite 0 1 True (\<lambda>_. [])" let ?rd = "ex_read 1 @ [EndRead 1 True]"
  let ?es = "[AddDisk (ex_disk (- 1) False [1]), RecoveryStart 1, SyncEnter] @ ex_write [7] 0 @ [EndWrite 0 0 False (\<lambda>_. [9])]"
  let ?Q = "\<lambda>g g'. sync_thread (arr g) = SyncLoop 0 \<and> length (ended (arr g)) < length (ended (arr g')) \<and>
      r_is_write (hd (ended (arr g'))) \<and> bios (hd (ended (arr g'))) = [Failed, Good] \<and> covers (hd (ended (arr g'))) 3 \<and> r_data (hd (ended (arr g'))) 3 = [7] \<and>
      \<not> in_sync_at (arr g') 1 \<and> raid_disks (arr g) = 2 \<and> raid_disks (arr g') = 2 \<and> \<not> uncopied g'"
  let ?R = "\<lambda>g'' g'. ended (arr g'') \<noteq> [] \<and> length (tl (ended (arr g''))) = length (ended (arr g')) \<and> r_uptodate (hd (ended (arr g''))) \<and>
      covers (hd (ended (arr g''))) 3 \<and> r_data (hd (ended (arr g''))) 3 = [9]"
  have run: "case ex_last ?es ?e ?g of None \<Rightarrow> False | Some (g, g') \<Rightarrow> ?Q g g' \<and> (case r1_trace ?rd g' of Some (Inr g'') \<Rightarrow> ?R g'' g' | _ \<Rightarrow> False)" by code_simp
  obtain g g' g'' where l0: "ex_last ?es ?e ?g = Some (g, g')" "?Q g g'" "r1_trace ?rd g' = Some (Inr g'')" "?R g'' g'"
    by (rule ex_runE [where Q = ?Q and R = ?R, OF run])
  then have l: "ex_last ?es ?e ?g = Some (g, g')" "sync_thread (arr g) = SyncLoop 0" "length (ended (arr g)) < length (ended (arr g'))"
      "r_is_write (hd (ended (arr g')))" "bios (hd (ended (arr g'))) = [Failed, Good]" "covers (hd (ended (arr g'))) 3" "r_data (hd (ended (arr g'))) 3 = [7]"
      "\<not> in_sync_at (arr g') 1" "raid_disks (arr g) = 2" "raid_disks (arr g') = 2" "\<not> uncopied g'" "r1_trace ?rd g' = Some (Inr g'')"
      "ended (arr g'') \<noteq> []" "length (tl (ended (arr g''))) = length (ended (arr g'))" "r_uptodate (hd (ended (arr g'')))" "covers (hd (ended (arr g''))) 3" "r_data (hd (ended (arr g''))) 3 = [9]"
    by blast+
  have i: "r1_init ?g" by (rule ex_sys_init) simp
  note E = ex_answered [OF i ex_lastD(1,2) [OF l(1)] l(3)]
  have f: "bios (hd (ended (arr g'))) ! k = Failed" if "in_sync_at (arr g') k" for k
  proof -
    have "k < 2" using that l(10) rdev_at_bound [of "arr g'" k] by (auto simp: in_sync_at_iff)
    then have "k = 0" using that l(8) by (cases "k = 1") auto
    then show ?thesis by (simp add: l(5))
  qed
  have L: "r_uptodate (hd (ended (arr g'))) \<and> bad g' 3"
    using raid1_lost_write [OF i ex_lastD(1,2) [OF l(1)] l(11) E l(4) f, of 1] l(5,6,9) by simp
  have "sys_ok g'" using i ex_lastD(3) [OF l(1)] by (rule raid1_array.reachable_inv)
  then obtain rs where rs: "ended (arr g'') = rs @ ended (arr g')" using trace_tail [OF _ l(12)] by blast
  have "length (ended (arr g'')) = Suc (length (ended (arr g')))" using l(13,14) by (cases "ended (arr g'')") simp_all
  then have "length rs = 1" using rs by simp
  then have "ended (arr g'') = hd (ended (arr g'')) # ended (arr g')" using rs by (cases rs) auto
  then show ?thesis using i ex_lastD(1,2) [OF l(1)] E L l(2,7,12,15-17) by blast
qed

text \<open>Four details of the code spoil a rebuild or hang it.\<close>

text \<open>When the pool hands out a used request, its bit \<open>R1BIO_Uptodate\<close> is still set: the disk cannot be read, and the pages are
  written to the other disk in sync all the same.\<close>

lemma stale_uptodate:
  "case r1_trace [RecoveryStart 0, SyncEnter, BarrierUp, BarrierPass, SyncRequest 16 True, EndRead 0 False, Daemon, IssueNext 0, IssueNext 0, IssueNext 0,
       EndWrite 0 1 True (\<lambda>_. [])] (ex_array 2 64 0 [ex_disk 0 True [1], ex_disk 1 True [1]]) of
     Some (Inr g) \<Rightarrow> (case rdev_at (arr g) 1 of None \<Rightarrow> False | Some rd \<Rightarrow> rv_in_sync rd \<and> view rd 3 = [] \<and> bad g 3)
   | _ \<Rightarrow> False"
  by code_simp

text \<open>In an array of 1 TiB the number of the sectors that are left is negative when the last target of a resync fails: the count of the
  sectors being copied never goes back to zero, for which the thread waits.\<close>

lemma negative_count:
  "case r1_trace [AddDisk (ex_disk (- 1) False [5]), RecoveryStart 1, SyncEnter, BarrierUp, BarrierPass, FailDisk 1, SyncRequest 16 False]
     (ex_array 2 (push_bit 30 1) MaxSector [ex_disk 0 True [1]]) of
     Some (Inr g) \<Rightarrow> sync_thread (arr g) = SyncOut 0 \<and> reqs (arr g) = [] \<and> recovery_active (arr g) = 2147483648
   | _ \<Rightarrow> False"
  by code_simp

text \<open>A signal before the first copy ends the thread without a trace, and the new disk is taken for a copy.\<close>

lemma skip_activates:
  "case r1_trace [AddDisk (ex_disk (- 1) False [5]), RecoveryStart 1, SyncSkip, RecoveryCollect] (ex_sys [ex_disk 0 True [1]]) of
     Some (Inr g) \<Rightarrow> (case rdev_at (arr g) 1 of None \<Rightarrow> False | Some rd \<Rightarrow> rv_in_sync rd \<and> view rd 3 = [5] \<and> uncopied g)
   | _ \<Rightarrow> False"
  by code_simp

text \<open>A spare that is still a member, because a request referred to it when spares are removed and added, is not counted: a resync that
  starts at the checkpoint, and not at the beginning, activates it.\<close>

lemma lingering_spare:
  "case r1_trace [AddDisk (ex_disk (- 1) False [5]), Arrive True 2 1 (\<lambda>_. [7]), Start 0, RecoveryStart 0, SyncEnter, SyncLeave False, SyncClose, RecoveryCollect]
     (ex_array 3 64 128 [ex_disk 0 True [1], ex_disk 1 True [1]]) of
     Some (Inr g) \<Rightarrow> (case rdev_at (arr g) 2 of None \<Rightarrow> False | Some rd \<Rightarrow> rv_in_sync rd \<and> view rd 3 = [5] \<and> uncopied g)
   | _ \<Rightarrow> False"
  by code_simp

end
