(* ===== verification/Cred.thy ===== *)
theory Cred
  imports Prelude
begin

text \<open>
  Credentials: the user and group identity calls of \<open>kernel/sys.c\<close>, the supplementary groups
  with their Shell sort and binary search, the capability rules of \<open>security/commoncap.c\<close>
  (the kernel is configured without \<open>CONFIG_SECURITY\<close>, so the hooks \<open>security_task_setuid\<close>,
  \<open>security_task_setgid\<close> and \<open>security_task_setgroups\<close> return 0 and
  \<open>security_task_post_setuid\<close> is \<open>cap_task_post_setuid\<close>), \<open>sys_capget\<close> and \<open>sys_capset\<close> of
  \<open>kernel/capability.c\<close>, and the per-user accounting of \<open>kernel/user.c\<close>. Key rings are
  configured out. A capability set is a 32-bit word, as in the code.

  A call takes the calling task and the table of users, and returns its result with both. A
  call changes nothing but these.
\<close>

subsection \<open>Tasks, capabilities and users\<close>

type_synonym id_t = u32
type_synonym kernel_cap_t = u32

record task =
  t_pid :: int
  t_tgid :: int
  t_pgrp :: int
  t_uid :: id_t
  t_euid :: id_t
  t_suid :: id_t
  t_fsuid :: id_t
  t_gid :: id_t
  t_egid :: id_t
  t_sgid :: id_t
  t_fsgid :: id_t
  t_group_info :: "id_t list"
  t_cap_effective :: kernel_cap_t
  t_cap_inheritable :: kernel_cap_t
  t_cap_permitted :: kernel_cap_t
  t_keep_capabilities :: bool
  t_superpriv :: bool
  t_dumpable :: bool
  t_user :: id_t
  t_rlim_nproc :: u32

record user_struct =
  u_count :: u32
  u_processes :: u32

type_synonym users = "id_t \<rightharpoonup> user_struct"
type_synonym cred_state = "task \<times> users"
type_synonym cred_call = "cred_state \<Rightarrow> int res \<times> cred_state"

definition CAP_SETGID :: nat where "CAP_SETGID = 6"
definition CAP_SETUID :: nat where "CAP_SETUID = 7"
definition CAP_SETPCAP :: nat where "CAP_SETPCAP = 8"
definition CAP_FS_MASK :: kernel_cap_t where "CAP_FS_MASK = 0x1f"
definition SECURE_NOROOT :: nat where "SECURE_NOROOT = 0"
definition SECURE_NO_SETUID_FIXUP :: nat where "SECURE_NO_SETUID_FIXUP = 2"

definition CAP_TO_MASK :: "nat \<Rightarrow> kernel_cap_t" where "CAP_TO_MASK x = push_bit x 1"
definition cap_raised :: "kernel_cap_t \<Rightarrow> nat \<Rightarrow> bool" where "cap_raised c flag \<longleftrightarrow> c AND CAP_TO_MASK flag \<noteq> 0"
definition cap_combine :: "kernel_cap_t \<Rightarrow> kernel_cap_t \<Rightarrow> kernel_cap_t" where "cap_combine a b = a OR b"
definition cap_intersect :: "kernel_cap_t \<Rightarrow> kernel_cap_t \<Rightarrow> kernel_cap_t" where "cap_intersect a b = a AND b"
definition cap_issubset :: "kernel_cap_t \<Rightarrow> kernel_cap_t \<Rightarrow> bool" where "cap_issubset a s \<longleftrightarrow> a AND NOT s = 0"

text \<open>\<open>issecure(X)\<close> with \<open>SECUREBITS_DEFAULT = 0\<close> reads the variable \<open>securebits\<close>.\<close>

definition issecure :: "u32 \<Rightarrow> nat \<Rightarrow> bool" where
  "issecure securebits x \<longleftrightarrow> push_bit x 1 AND securebits \<noteq> 0"

definition capable :: "nat \<Rightarrow> task \<Rightarrow> bool \<times> task" where
  "capable cap t =
     (if cap_raised (t_cap_effective t) cap then (True, t\<lparr>t_superpriv := True\<rparr>) else (False, t))"

subsection \<open>Users\<close>

text \<open>The table of users, by user id, stands for the hash chains of \<open>uidhash_table\<close>; the flag
  \<open>mem\<close> is the answer of \<open>kmem_cache_alloc\<close>.\<close>

definition uid_hash_find :: "id_t \<Rightarrow> users \<Rightarrow> users option" where
  "uid_hash_find uid m =
     (case m uid of None \<Rightarrow> None | Some u \<Rightarrow> Some (m(uid \<mapsto> u\<lparr>u_count := u_count u + 1\<rparr>)))"

definition alloc_uid :: "bool \<Rightarrow> id_t \<Rightarrow> users \<Rightarrow> users option" where
  "alloc_uid mem uid m =
     (case uid_hash_find uid m of
        Some m' \<Rightarrow> Some m'
      | None \<Rightarrow> if \<not> mem then None else Some (m(uid \<mapsto> \<lparr>u_count = 1, u_processes = 0\<rparr>)))"

definition free_uid :: "id_t \<Rightarrow> users \<Rightarrow> users" where
  "free_uid uid m =
     (case m uid of
        None \<Rightarrow> m
      | Some u \<Rightarrow> if u_count u - 1 = 0 then m(uid := None) else m(uid \<mapsto> u\<lparr>u_count := u_count u - 1\<rparr>))"

definition switch_uid :: "id_t \<Rightarrow> cred_state \<Rightarrow> cred_state" where
  "switch_uid new_user s =
     (let (t, m) = s;
          old_user = t_user t;
          m = (case m new_user of None \<Rightarrow> m | Some u \<Rightarrow> m(new_user \<mapsto> u\<lparr>u_processes := u_processes u + 1\<rparr>));
          m = (case m old_user of None \<Rightarrow> m | Some u \<Rightarrow> m(old_user \<mapsto> u\<lparr>u_processes := u_processes u - 1\<rparr>))
      in (t\<lparr>t_user := new_user\<rparr>, free_uid old_user m))"

text \<open>\<open>new_user != &root_user\<close> is the test that the user id is not 0. \<open>False\<close> is \<open>-EAGAIN\<close>.\<close>

definition set_user :: "bool \<Rightarrow> id_t \<Rightarrow> bool \<Rightarrow> cred_state \<Rightarrow> bool \<times> cred_state" where
  "set_user mem new_ruid dumpclear s =
     (let (t, m) = s in
      case alloc_uid mem new_ruid m of
        None \<Rightarrow> (False, s)
      | Some m \<Rightarrow>
          case m new_ruid of
            None \<Rightarrow> (False, s)
          | Some u \<Rightarrow>
              if t_rlim_nproc t \<le> u_processes u \<and> new_ruid \<noteq> 0
              then (False, (t, free_uid new_ruid m))
              else
                let (t, m) = switch_uid new_ruid (t, m);
                    t = (if dumpclear then t\<lparr>t_dumpable := False\<rparr> else t)
                in (True, (t\<lparr>t_uid := new_ruid\<rparr>, m)))"

subsection \<open>Capabilities follow the user ids\<close>

definition cap_emulate_setxuid :: "id_t \<Rightarrow> id_t \<Rightarrow> id_t \<Rightarrow> task \<Rightarrow> task" where
  "cap_emulate_setxuid old_ruid old_euid old_suid t =
     (let t = (if (old_ruid = 0 \<or> old_euid = 0 \<or> old_suid = 0) \<and>
                  (t_uid t \<noteq> 0 \<and> t_euid t \<noteq> 0 \<and> t_suid t \<noteq> 0) \<and> \<not> t_keep_capabilities t
               then t\<lparr>t_cap_permitted := 0, t_cap_effective := 0\<rparr> else t);
          t = (if old_euid = 0 \<and> t_euid t \<noteq> 0 then t\<lparr>t_cap_effective := 0\<rparr> else t)
      in if old_euid \<noteq> 0 \<and> t_euid t = 0 then t\<lparr>t_cap_effective := t_cap_permitted t\<rparr> else t)"

datatype setid_flags = LSM_SETID_ID | LSM_SETID_RE | LSM_SETID_RES | LSM_SETID_FS

definition cap_task_post_setuid :: "u32 \<Rightarrow> id_t \<Rightarrow> id_t \<Rightarrow> id_t \<Rightarrow> setid_flags \<Rightarrow> task \<Rightarrow> task" where
  "cap_task_post_setuid securebits old_ruid old_euid old_suid flags t =
     (case flags of
        LSM_SETID_FS \<Rightarrow>
          let old_fsuid = old_ruid in
          if \<not> issecure securebits SECURE_NO_SETUID_FIXUP
          then
            let t = (if old_fsuid = 0 \<and> t_fsuid t \<noteq> 0
                     then t\<lparr>t_cap_effective := t_cap_effective t AND NOT CAP_FS_MASK\<rparr> else t)
            in if old_fsuid \<noteq> 0 \<and> t_fsuid t = 0
               then t\<lparr>t_cap_effective := t_cap_effective t OR (t_cap_permitted t AND CAP_FS_MASK)\<rparr>
               else t
          else t
      | _ \<Rightarrow>
          if \<not> issecure securebits SECURE_NO_SETUID_FIXUP
          then cap_emulate_setxuid old_ruid old_euid old_suid t else t)"

subsection \<open>User ids\<close>

text \<open>\<open>(uid_t) -1\<close> leaves an id unchanged. A permission test calls \<open>capable\<close>, which marks the task,
  only when the tests before it have failed.\<close>

definition id_or_capable :: "bool \<Rightarrow> nat \<Rightarrow> task \<Rightarrow> bool \<times> task" where
  "id_or_capable ok cap t = (if ok then (True, t) else capable cap t)"

definition sys_setreuid :: "bool \<Rightarrow> u32 \<Rightarrow> id_t \<Rightarrow> id_t \<Rightarrow> cred_call" where
  "sys_setreuid mem securebits ruid euid s =
     (let (t, m) = s;
          old_ruid = t_uid t; old_euid = t_euid t; old_suid = t_suid t;
          new_ruid = (if ruid \<noteq> -1 then ruid else old_ruid);
          new_euid = (if euid \<noteq> -1 then euid else old_euid);
          (ok, t) = id_or_capable (ruid = -1 \<or> old_ruid = ruid \<or> t_euid t = ruid) CAP_SETUID t
      in if \<not> ok then (Inl (Errno EPERM), (t, m))
         else
          let (ok, t) = id_or_capable (euid = -1 \<or> old_ruid = euid \<or> t_euid t = euid \<or> t_suid t = euid) CAP_SETUID t
          in if \<not> ok then (Inl (Errno EPERM), (t, m))
             else
              let (ok, (t, m)) = (if new_ruid \<noteq> old_ruid then set_user mem new_ruid (new_euid \<noteq> old_euid) (t, m)
                                  else (True, (t, m)))
              in if \<not> ok then (Inl (Errno EAGAIN), (t, m))
                 else
                  let t = (if new_euid \<noteq> old_euid then t\<lparr>t_dumpable := False\<rparr> else t);
                      t = t\<lparr>t_euid := new_euid, t_fsuid := new_euid\<rparr>;
                      t = (if ruid \<noteq> -1 \<or> (euid \<noteq> -1 \<and> euid \<noteq> old_ruid) then t\<lparr>t_suid := t_euid t\<rparr> else t);
                      t = t\<lparr>t_fsuid := t_euid t\<rparr>
                  in (Inr 0, (cap_task_post_setuid securebits old_ruid old_euid old_suid LSM_SETID_RE t, m)))"

definition sys_setuid :: "bool \<Rightarrow> u32 \<Rightarrow> id_t \<Rightarrow> cred_call" where
  "sys_setuid mem securebits uid s =
     (let (t, m) = s;
          old_euid = t_euid t; old_ruid = t_uid t; old_suid = t_suid t;
          (priv, t) = capable CAP_SETUID t;
          finish = (\<lambda>new_suid t m.
            let t = (if old_euid \<noteq> uid then t\<lparr>t_dumpable := False\<rparr> else t);
                t = t\<lparr>t_euid := uid, t_fsuid := uid, t_suid := new_suid\<rparr>
            in (Inr 0, (cap_task_post_setuid securebits old_ruid old_euid old_suid LSM_SETID_ID t, m)))
      in if priv
         then let (ok, (t, m)) = (if uid \<noteq> old_ruid then set_user mem uid (old_euid \<noteq> uid) (t, m) else (True, (t, m)))
              in if \<not> ok then (Inl (Errno EAGAIN), (t, m)) else finish uid t m
         else if uid \<noteq> t_uid t \<and> uid \<noteq> old_suid then (Inl (Errno EPERM), (t, m))
         else finish old_suid t m)"

definition res_allowed :: "id_t \<Rightarrow> id_t \<Rightarrow> id_t \<Rightarrow> id_t \<Rightarrow> bool" where
  "res_allowed x a b c \<longleftrightarrow> x = -1 \<or> x = a \<or> x = b \<or> x = c"

definition sys_setresuid :: "bool \<Rightarrow> u32 \<Rightarrow> id_t \<Rightarrow> id_t \<Rightarrow> id_t \<Rightarrow> cred_call" where
  "sys_setresuid mem securebits ruid euid suid s =
     (let (t, m) = s;
          old_ruid = t_uid t; old_euid = t_euid t; old_suid = t_suid t;
          (priv, t) = capable CAP_SETUID t
      in if \<not> priv \<and> \<not> res_allowed ruid (t_uid t) (t_euid t) (t_suid t) then (Inl (Errno EPERM), (t, m))
         else if \<not> priv \<and> \<not> res_allowed euid (t_uid t) (t_euid t) (t_suid t) then (Inl (Errno EPERM), (t, m))
         else if \<not> priv \<and> \<not> res_allowed suid (t_uid t) (t_euid t) (t_suid t) then (Inl (Errno EPERM), (t, m))
         else
          let (ok, (t, m)) = (if ruid \<noteq> -1 \<and> ruid \<noteq> t_uid t then set_user mem ruid (euid \<noteq> t_euid t) (t, m)
                              else (True, (t, m)))
          in if \<not> ok then (Inl (Errno EAGAIN), (t, m))
             else
              let t = (if euid \<noteq> -1
                       then (if euid \<noteq> t_euid t then t\<lparr>t_dumpable := False\<rparr> else t)\<lparr>t_euid := euid\<rparr>
                       else t);
                  t = t\<lparr>t_fsuid := t_euid t\<rparr>;
                  t = (if suid \<noteq> -1 then t\<lparr>t_suid := suid\<rparr> else t)
              in (Inr 0, (cap_task_post_setuid securebits old_ruid old_euid old_suid LSM_SETID_RES t, m)))"

definition sys_getresuid :: "task \<Rightarrow> id_t \<times> id_t \<times> id_t" where
  "sys_getresuid t = (t_uid t, t_euid t, t_suid t)"

text \<open>\<open>sys_setfsuid\<close> returns the old id, as an \<open>int\<close>, whether or not it changed it.\<close>

definition sys_setfsuid :: "u32 \<Rightarrow> id_t \<Rightarrow> cred_call" where
  "sys_setfsuid securebits uid s =
     (let (t, m) = s;
          old_fsuid = t_fsuid t;
          (ok, t) = id_or_capable (uid = t_uid t \<or> uid = t_euid t \<or> uid = t_suid t \<or> uid = t_fsuid t) CAP_SETUID t;
          t = (if ok then (if uid \<noteq> old_fsuid then t\<lparr>t_dumpable := False\<rparr> else t)\<lparr>t_fsuid := uid\<rparr> else t)
      in (Inr (sint old_fsuid), (cap_task_post_setuid securebits old_fsuid (-1) (-1) LSM_SETID_FS t, m)))"

subsection \<open>Group ids\<close>

definition sys_setregid :: "id_t \<Rightarrow> id_t \<Rightarrow> cred_call" where
  "sys_setregid rgid egid s =
     (let (t, m) = s;
          old_rgid = t_gid t; old_egid = t_egid t;
          (ok, t) = id_or_capable (rgid = -1 \<or> old_rgid = rgid \<or> t_egid t = rgid) CAP_SETGID t
      in if \<not> ok then (Inl (Errno EPERM), (t, m))
         else
          let new_rgid = (if rgid \<noteq> -1 then rgid else old_rgid);
              (ok, t) = id_or_capable (egid = -1 \<or> old_rgid = egid \<or> t_egid t = egid \<or> t_sgid t = egid) CAP_SETGID t
          in if \<not> ok then (Inl (Errno EPERM), (t, m))
             else
              let new_egid = (if egid \<noteq> -1 then egid else old_egid);
                  t = (if new_egid \<noteq> old_egid then t\<lparr>t_dumpable := False\<rparr> else t);
                  t = (if rgid \<noteq> -1 \<or> (egid \<noteq> -1 \<and> egid \<noteq> old_rgid) then t\<lparr>t_sgid := new_egid\<rparr> else t)
              in (Inr 0, (t\<lparr>t_fsgid := new_egid, t_egid := new_egid, t_gid := new_rgid\<rparr>, m)))"

definition sys_setgid :: "id_t \<Rightarrow> cred_call" where
  "sys_setgid gid s =
     (let (t, m) = s;
          old_egid = t_egid t;
          (priv, t) = capable CAP_SETGID t;
          clear = (\<lambda>t. if old_egid \<noteq> gid then t\<lparr>t_dumpable := False\<rparr> else t)
      in if priv then (Inr 0, ((clear t)\<lparr>t_gid := gid, t_egid := gid, t_sgid := gid, t_fsgid := gid\<rparr>, m))
         else if gid = t_gid t \<or> gid = t_sgid t
         then (Inr 0, ((clear t)\<lparr>t_egid := gid, t_fsgid := gid\<rparr>, m))
         else (Inl (Errno EPERM), (t, m)))"

definition sys_setresgid :: "id_t \<Rightarrow> id_t \<Rightarrow> id_t \<Rightarrow> cred_call" where
  "sys_setresgid rgid egid sgid s =
     (let (t, m) = s;
          (priv, t) = capable CAP_SETGID t
      in if \<not> priv \<and> \<not> res_allowed rgid (t_gid t) (t_egid t) (t_sgid t) then (Inl (Errno EPERM), (t, m))
         else if \<not> priv \<and> \<not> res_allowed egid (t_gid t) (t_egid t) (t_sgid t) then (Inl (Errno EPERM), (t, m))
         else if \<not> priv \<and> \<not> res_allowed sgid (t_gid t) (t_egid t) (t_sgid t) then (Inl (Errno EPERM), (t, m))
         else
          let t = (if egid \<noteq> -1
                   then (if egid \<noteq> t_egid t then t\<lparr>t_dumpable := False\<rparr> else t)\<lparr>t_egid := egid\<rparr>
                   else t);
              t = t\<lparr>t_fsgid := t_egid t\<rparr>;
              t = (if rgid \<noteq> -1 then t\<lparr>t_gid := rgid\<rparr> else t);
              t = (if sgid \<noteq> -1 then t\<lparr>t_sgid := sgid\<rparr> else t)
          in (Inr 0, (t, m)))"

definition sys_getresgid :: "task \<Rightarrow> id_t \<times> id_t \<times> id_t" where
  "sys_getresgid t = (t_gid t, t_egid t, t_sgid t)"

definition sys_setfsgid :: "id_t \<Rightarrow> cred_call" where
  "sys_setfsgid gid s =
     (let (t, m) = s;
          old_fsgid = t_fsgid t;
          (ok, t) = id_or_capable (gid = t_gid t \<or> gid = t_egid t \<or> gid = t_sgid t \<or> gid = t_fsgid t) CAP_SETGID t;
          t = (if ok then (if gid \<noteq> old_fsgid then t\<lparr>t_dumpable := False\<rparr> else t)\<lparr>t_fsgid := gid\<rparr> else t)
      in (Inr (sint old_fsgid), (t, m)))"

subsection \<open>Supplementary groups\<close>

text \<open>A \<open>group_info\<close> is the list of its \<open>ngroups\<close> entries; \<open>GROUP_AT\<close> is access by index. The
  start value of the Shell sort's stride: the first of 1, 4, 13, ... that is not below \<open>n\<close>.\<close>

function sort_stride :: "nat \<Rightarrow> nat \<Rightarrow> nat" where
  "sort_stride n stride = (if stride < n then sort_stride n (3 * stride + 1) else stride)"
  by pat_completeness auto
termination by (relation "measure (\<lambda>(n, stride). n - stride)") auto

declare sort_stride.simps [simp del]

text \<open>The inner loop, from the index \<open>left\<close> down in steps of \<open>stride\<close>: the sort runs it with a
  positive stride only.\<close>

function groups_shift :: "nat \<Rightarrow> id_t \<Rightarrow> int \<Rightarrow> nat \<Rightarrow> id_t list \<Rightarrow> id_t list" where
  "groups_shift stride tmp left right g =
     (if 0 < stride \<and> 0 \<le> left \<and> tmp < g ! nat left
      then groups_shift stride tmp (left - int stride) (nat left) (g[right := g ! nat left])
      else g[right := tmp])"
  by pat_completeness auto
termination by (relation "measure (\<lambda>(stride, tmp, left, right, g). nat (left + 1))") auto

declare groups_shift.simps [simp del]

fun groups_pass :: "nat \<Rightarrow> nat list \<Rightarrow> id_t list \<Rightarrow> id_t list" where
  "groups_pass stride [] g = g"
| "groups_pass stride (base # bases) g =
     groups_pass stride bases (groups_shift stride (g ! (base + stride)) (int base) (base + stride) g)"

function groups_strides :: "nat \<Rightarrow> id_t list \<Rightarrow> id_t list" where
  "groups_strides stride g =
     (if stride = 0 then g
      else groups_strides (stride div 3) (groups_pass stride [0..<length g - stride] g))"
  by pat_completeness auto
termination by (relation "measure fst") auto

declare groups_strides.simps [simp del]

definition groups_sort :: "id_t list \<Rightarrow> id_t list" where
  "groups_sort g = groups_strides (sort_stride (length g) 1 div 3) g"

text \<open>The binary search. \<open>int cmp = grp - GROUP_AT(...)\<close> is a 32-bit difference read as a signed
  number.\<close>

function groups_bsearch :: "id_t list \<Rightarrow> id_t \<Rightarrow> nat \<Rightarrow> nat \<Rightarrow> bool" where
  "groups_bsearch g grp left right =
     (if left < right
      then
        let mid = (left + right) div 2;
            cmp = sint (grp - g ! mid)
        in if 0 < cmp then groups_bsearch g grp (mid + 1) right
           else if cmp < 0 then groups_bsearch g grp left mid
           else True
      else False)"
  by pat_completeness auto
termination by (relation "measure (\<lambda>(g, grp, left, right). right - left)") auto

declare groups_bsearch.simps [simp del]

definition groups_search :: "id_t list \<Rightarrow> id_t \<Rightarrow> bool" where
  "groups_search g grp = groups_bsearch g grp 0 (length g)"

definition set_current_groups :: "id_t list \<Rightarrow> task \<Rightarrow> task" where
  "set_current_groups g t = t\<lparr>t_group_info := groups_sort g\<rparr>"

definition NGROUPS_MAX :: int where "NGROUPS_MAX = 65536"

text \<open>The readable part of the user's buffer: \<open>copy_from_user\<close> faults past it. The flag is the
  answer of \<open>groups_alloc\<close>.\<close>

definition sys_setgroups :: "bool \<Rightarrow> int \<Rightarrow> id_t list \<Rightarrow> cred_call" where
  "sys_setgroups mem gidsetsize grouplist s =
     (let (t, m) = s;
          (priv, t) = capable CAP_SETGID t
      in if \<not> priv then (Inl (Errno EPERM), (t, m))
         else if gidsetsize < 0 \<or> NGROUPS_MAX < gidsetsize then (Inl (Errno EINVAL), (t, m))
         else if \<not> mem then (Inl (Errno ENOMEM), (t, m))
         else if length grouplist < nat gidsetsize then (Inl (Errno EFAULT), (t, m))
         else (Inr 0, (set_current_groups (take (nat gidsetsize) grouplist) t, m)))"

definition sys_getgroups :: "bool \<Rightarrow> int \<Rightarrow> task \<Rightarrow> (int \<times> id_t list) res" where
  "sys_getgroups writable gidsetsize t =
     (let i = int (length (t_group_info t)) in
      if gidsetsize < 0 then Inl (Errno EINVAL)
      else if gidsetsize = 0 then Inr (i, [])
      else if gidsetsize < i then Inl (Errno EINVAL)
      else if \<not> writable then Inl (Errno EFAULT)
      else Inr (i, t_group_info t))"

definition in_group_p :: "id_t \<Rightarrow> task \<Rightarrow> bool" where
  "in_group_p grp t = (if grp \<noteq> t_fsgid t then groups_search (t_group_info t) grp else True)"

definition in_egroup_p :: "id_t \<Rightarrow> task \<Rightarrow> bool" where
  "in_egroup_p grp t = (if grp \<noteq> t_egid t then groups_search (t_group_info t) grp else True)"

subsection \<open>Capability calls\<close>

definition cap_capset_check :: "task \<Rightarrow> task \<Rightarrow> kernel_cap_t \<Rightarrow> kernel_cap_t \<Rightarrow> kernel_cap_t \<Rightarrow> bool" where
  "cap_capset_check current target effective inheritable permitted =
     (if \<not> cap_issubset inheritable (cap_combine (t_cap_inheritable target) (t_cap_permitted current)) then False
      else if \<not> cap_issubset permitted (cap_combine (t_cap_permitted target) (t_cap_permitted current)) then False
      else if \<not> cap_issubset effective permitted then False
      else True)"

definition cap_capset_set :: "kernel_cap_t \<Rightarrow> kernel_cap_t \<Rightarrow> kernel_cap_t \<Rightarrow> task \<Rightarrow> task" where
  "cap_capset_set effective inheritable permitted target =
     target\<lparr>t_cap_effective := effective, t_cap_inheritable := inheritable, t_cap_permitted := permitted\<rparr>"

text \<open>All tasks of the system as a list, the caller at index \<open>cur\<close>. The loop over the targets at
  the given indices; it returns the tasks, and whether one was changed.\<close>

fun capset_loop :: "nat \<Rightarrow> kernel_cap_t \<Rightarrow> kernel_cap_t \<Rightarrow> kernel_cap_t \<Rightarrow> nat list \<Rightarrow> task list \<times> bool \<Rightarrow> task list \<times> bool" where
  "capset_loop cur e i p [] (ts, ret) = (ts, ret)"
| "capset_loop cur e i p (k # ks) (ts, ret) =
     (if cap_capset_check (ts ! cur) (ts ! k) e i p
      then capset_loop cur e i p ks (ts[k := cap_capset_set e i p (ts ! k)], True)
      else capset_loop cur e i p ks (ts, ret))"

definition capset_result :: "bool \<Rightarrow> bool \<Rightarrow> int res" where
  "capset_result found ret = (if ret \<or> \<not> found then Inr 0 else Inl (Errno EPERM))"

text \<open>The threads of a process are a ring, here in the order of the list of tasks. \<open>while_each_thread\<close> moves on before its
  body runs, and stops when it is back at \<open>g\<close>: these are the tasks for which the body runs. The ring has at most as many tasks
  as the system, so that this number of turns is enough (lemma \<open>while_each_thread_ring\<close>).\<close>

definition next_thread :: "task list \<Rightarrow> nat \<Rightarrow> nat" where
  "next_thread ts k =
     (case List.find (\<lambda>j. t_tgid (ts ! j) = t_tgid (ts ! k)) ([Suc k..<length ts] @ [0..<Suc k]) of Some j \<Rightarrow> j | None \<Rightarrow> k)"

fun while_each_thread :: "nat \<Rightarrow> task list \<Rightarrow> nat \<Rightarrow> nat \<Rightarrow> nat list" where
  "while_each_thread 0 ts g t = []"
| "while_each_thread (Suc n) ts g t =
     (let t = next_thread ts t in if t = g then [] else t # while_each_thread n ts g t)"

text \<open>The leaders of the thread groups: only they are on the list of a process group and on the list of all processes.\<close>

definition leaders :: "task list \<Rightarrow> nat list" where
  "leaders ts = filter (\<lambda>g. t_pid (ts ! g) = t_tgid (ts ! g)) [0..<length ts]"

text \<open>\<open>cap_set_pg\<close>: \<open>do_each_task_pid\<close> with \<open>target = g\<close> and \<open>while_each_thread\<close> inside.\<close>

definition pg_targets :: "int \<Rightarrow> task list \<Rightarrow> nat list" where
  "pg_targets pgrp ts =
     concat (map (\<lambda>g. while_each_thread (length ts) ts g g) (filter (\<lambda>g. t_pgrp (ts ! g) = pgrp) (leaders ts)))"

definition cap_set_pg :: "int \<Rightarrow> nat \<Rightarrow> kernel_cap_t \<Rightarrow> kernel_cap_t \<Rightarrow> kernel_cap_t \<Rightarrow> task list \<Rightarrow> int res \<times> task list" where
  "cap_set_pg pgrp cur e i p ts =
     (let (ts', ret) = capset_loop cur e i p (pg_targets pgrp ts) (ts, False)
      in (capset_result (pg_targets pgrp ts \<noteq> []) ret, ts'))"

text \<open>\<open>cap_set_all\<close>: \<open>do_each_thread\<close> is a \<open>do\<close> loop, whose body runs for the leader, too.\<close>

definition cap_set_all :: "nat \<Rightarrow> kernel_cap_t \<Rightarrow> kernel_cap_t \<Rightarrow> kernel_cap_t \<Rightarrow> task list \<Rightarrow> int res \<times> task list" where
  "cap_set_all cur e i p ts =
     (let targets = filter (\<lambda>k. \<not> (k = cur \<or> t_pid (ts ! k) = 1))
            (concat (map (\<lambda>g. g # while_each_thread (length ts) ts g g) (leaders ts)));
          (ts', ret) = capset_loop cur e i p targets (ts, False)
      in (capset_result (targets \<noteq> []) ret, ts'))"

definition LINUX_CAPABILITY_VERSION :: u32 where "LINUX_CAPABILITY_VERSION = 0x19980330"

definition find_task_by_pid :: "int \<Rightarrow> task list \<Rightarrow> nat option" where
  "find_task_by_pid pid ts = List.find (\<lambda>k. t_pid (ts ! k) = pid) [0..<length ts]"

text \<open>The header and the data are read from user space: \<open>None\<close> is a fault.\<close>

definition sys_capset :: "nat \<Rightarrow> u32 option \<Rightarrow> int option \<Rightarrow> (kernel_cap_t \<times> kernel_cap_t \<times> kernel_cap_t) option \<Rightarrow>
    task list \<Rightarrow> int res \<times> task list" where
  "sys_capset cur version header_pid data ts =
     (case version of
        None \<Rightarrow> (Inl (Errno EFAULT), ts)
      | Some v \<Rightarrow>
          if v \<noteq> LINUX_CAPABILITY_VERSION then (Inl (Errno EINVAL), ts)
          else (case header_pid of
            None \<Rightarrow> (Inl (Errno EFAULT), ts)
          | Some pid \<Rightarrow>
              let (ok, t) = id_or_capable (pid = 0 \<or> pid = t_pid (ts ! cur)) CAP_SETPCAP (ts ! cur);
                  ts = ts[cur := t]
              in if \<not> ok then (Inl (Errno EPERM), ts)
                 else (case data of
                   None \<Rightarrow> (Inl (Errno EFAULT), ts)
                 | Some (effective, inheritable, permitted) \<Rightarrow>
                     let target = (if 0 < pid \<and> pid \<noteq> t_pid (ts ! cur) then find_task_by_pid pid ts else Some cur)
                     in (case target of
                       None \<Rightarrow> (Inl (Errno ESRCH), ts)
                     | Some k \<Rightarrow>
                         if pid < 0
                         then if pid = -1 then cap_set_all cur effective inheritable permitted ts
                              else cap_set_pg (- pid) cur effective inheritable permitted ts
                         else if cap_capset_check (ts ! cur) (ts ! k) effective inheritable permitted
                              then (Inr 0, ts[k := cap_capset_set effective inheritable permitted (ts ! k)])
                              else (Inl (Errno EPERM), ts)))))"

definition sys_capget :: "nat \<Rightarrow> u32 option \<Rightarrow> int option \<Rightarrow> bool \<Rightarrow> task list \<Rightarrow>
    (kernel_cap_t \<times> kernel_cap_t \<times> kernel_cap_t) res" where
  "sys_capget cur version header_pid writable ts =
     (case version of
        None \<Rightarrow> Inl (Errno EFAULT)
      | Some v \<Rightarrow>
          if v \<noteq> LINUX_CAPABILITY_VERSION then Inl (Errno EINVAL)
          else (case header_pid of
            None \<Rightarrow> Inl (Errno EFAULT)
          | Some pid \<Rightarrow>
              if pid < 0 then Inl (Errno EINVAL)
              else (case (if pid \<noteq> 0 \<and> pid \<noteq> t_pid (ts ! cur) then find_task_by_pid pid ts else Some cur) of
                None \<Rightarrow> Inl (Errno ESRCH)
              | Some k \<Rightarrow>
                  if \<not> writable then Inl (Errno EFAULT)
                  else Inr (t_cap_effective (ts ! k), t_cap_inheritable (ts ! k), t_cap_permitted (ts ! k)))))"

text \<open>The prctl options on this state.\<close>

definition prctl_set_keepcaps :: "u32 \<Rightarrow> cred_call" where
  "prctl_set_keepcaps arg2 s =
     (let (t, m) = s in
      if arg2 \<noteq> 0 \<and> arg2 \<noteq> 1 then (Inl (Errno EINVAL), s)
      else (Inr 0, (t\<lparr>t_keep_capabilities := (arg2 = 1)\<rparr>, m)))"

definition prctl_set_dumpable :: "u32 \<Rightarrow> cred_call" where
  "prctl_set_dumpable arg2 s =
     (let (t, m) = s in
      if arg2 \<noteq> 0 \<and> arg2 \<noteq> 1 then (Inl (Errno EINVAL), s)
      else (Inr 0, (t\<lparr>t_dumpable := (arg2 = 1)\<rparr>, m)))"

subsection \<open>Sequences of calls\<close>

text \<open>What a task can do to its own credentials without executing a new program. \<open>sys_capset\<close> for
  the caller itself is the call with pid 0.\<close>

datatype cred_op = Setreuid id_t id_t | Setuid id_t | Setresuid id_t id_t id_t | Setfsuid id_t
  | Setregid id_t id_t | Setgid id_t | Setresgid id_t id_t id_t | Setfsgid id_t
  | Setgroups int "id_t list" | Keepcaps u32 | Dumpable u32
  | Capset kernel_cap_t kernel_cap_t kernel_cap_t

fun cred_exec :: "bool \<Rightarrow> u32 \<Rightarrow> cred_op \<Rightarrow> cred_call" where
  "cred_exec mem sb (Setreuid r e) s = sys_setreuid mem sb r e s"
| "cred_exec mem sb (Setuid u) s = sys_setuid mem sb u s"
| "cred_exec mem sb (Setresuid r e v) s = sys_setresuid mem sb r e v s"
| "cred_exec mem sb (Setfsuid u) s = sys_setfsuid sb u s"
| "cred_exec mem sb (Setregid r e) s = sys_setregid r e s"
| "cred_exec mem sb (Setgid g) s = sys_setgid g s"
| "cred_exec mem sb (Setresgid r e v) s = sys_setresgid r e v s"
| "cred_exec mem sb (Setfsgid g) s = sys_setfsgid g s"
| "cred_exec mem sb (Setgroups n g) s = sys_setgroups mem n g s"
| "cred_exec mem sb (Keepcaps a) s = prctl_set_keepcaps a s"
| "cred_exec mem sb (Dumpable a) s = prctl_set_dumpable a s"
| "cred_exec mem sb (Capset e i p) s =
     (case sys_capset 0 (Some LINUX_CAPABILITY_VERSION) (Some 0) (Some (e, i, p)) [fst s] of
        (r, ts) \<Rightarrow> (r, (hd ts, snd s)))"

fun cred_run :: "u32 \<Rightarrow> (bool \<times> cred_op) list \<Rightarrow> cred_state \<Rightarrow> cred_state" where
  "cred_run sb [] s = s"
| "cred_run sb ((mem, c) # cs) s = cred_run sb cs (snd (cred_exec mem sb c s))"

subsection \<open>Sets of capabilities\<close>

lemma cap_raised_bit: "cap_raised c n \<longleftrightarrow> bit c n"
  by (simp add: cap_raised_def CAP_TO_MASK_def push_bit_eq_mult and_exp_eq_0_iff_not_bit)

lemma cap_issubset_bit: "cap_issubset a b \<longleftrightarrow> (\<forall>n. bit a n \<longrightarrow> bit b n)"
  using bit_imp_le_length [of a] by (auto simp: cap_issubset_def bit_eq_iff bit_simps)

lemma cap_issubset_refl [simp]: "cap_issubset a a"
  by (simp add: cap_issubset_bit)

lemma cap_issubset_zero [simp]: "cap_issubset 0 a"
  by (simp add: cap_issubset_bit)

lemma cap_issubset_trans: "cap_issubset a b \<Longrightarrow> cap_issubset b c \<Longrightarrow> cap_issubset a c"
  by (simp add: cap_issubset_bit)

lemma cap_raised_subset: "cap_issubset a b \<Longrightarrow> cap_raised a n \<Longrightarrow> cap_raised b n"
  by (simp add: cap_issubset_bit cap_raised_bit)

lemma cap_combine_same [simp]: "cap_combine a a = a"
  by (simp add: cap_combine_def)

lemma cap_fs_subset:
  "cap_issubset e p \<Longrightarrow> cap_issubset (e AND NOT m) p"
  "cap_issubset e p \<Longrightarrow> cap_issubset (e OR (p AND m)) p"
  by (auto simp: cap_issubset_bit bit_simps)

subsection \<open>An unprivileged task stays confined\<close>

text \<open>The ids are within \<open>U\<close> and \<open>G\<close>, the groups are \<open>gs\<close>, the permitted capabilities are within
  \<open>P\<close> and the effective ones within the permitted.\<close>

definition confined :: "id_t set \<Rightarrow> id_t set \<Rightarrow> id_t list \<Rightarrow> kernel_cap_t \<Rightarrow> cred_state \<Rightarrow> bool" where
  "confined U G gs P s \<longleftrightarrow>
     (let t = fst s in
      {t_uid t, t_euid t, t_suid t, t_fsuid t} \<subseteq> U \<and> {t_gid t, t_egid t, t_sgid t, t_fsgid t} \<subseteq> G \<and>
      t_group_info t = gs \<and> cap_issubset (t_cap_permitted t) P \<and>
      cap_issubset (t_cap_effective t) (t_cap_permitted t))"

definition unprivileged :: "kernel_cap_t \<Rightarrow> bool" where
  "unprivileged P \<longleftrightarrow> \<not> cap_raised P CAP_SETUID \<and> \<not> cap_raised P CAP_SETGID"

lemma not_capable:
  assumes "unprivileged P" "cap_issubset (t_cap_effective t) (t_cap_permitted t)" "cap_issubset (t_cap_permitted t) P"
  shows "capable CAP_SETUID t = (False, t)" "capable CAP_SETGID t = (False, t)"
    "id_or_capable b CAP_SETUID t = (b, t)" "id_or_capable b CAP_SETGID t = (b, t)"
  using assms by (auto simp: capable_def unprivileged_def id_or_capable_def
      dest: cap_raised_subset [OF assms(2)] cap_raised_subset [OF assms(3)])

lemma set_user_task:
  assumes "set_user mem u d (t, m) = (ok, (t', m'))"
  shows "t' = (if \<not> ok then t else if d then t\<lparr>t_user := u, t_dumpable := False, t_uid := u\<rparr>
    else t\<lparr>t_user := u, t_uid := u\<rparr>)"
  using assms
  by (auto simp: set_user_def switch_uid_def Let_def split: option.splits if_splits)

lemma post_setuid_ids:
  "t_uid (cap_task_post_setuid sb r e v f t) = t_uid t" "t_euid (cap_task_post_setuid sb r e v f t) = t_euid t"
  "t_suid (cap_task_post_setuid sb r e v f t) = t_suid t" "t_fsuid (cap_task_post_setuid sb r e v f t) = t_fsuid t"
  "t_gid (cap_task_post_setuid sb r e v f t) = t_gid t" "t_egid (cap_task_post_setuid sb r e v f t) = t_egid t"
  "t_sgid (cap_task_post_setuid sb r e v f t) = t_sgid t" "t_fsgid (cap_task_post_setuid sb r e v f t) = t_fsgid t"
  "t_group_info (cap_task_post_setuid sb r e v f t) = t_group_info t"
  by (simp_all add: cap_task_post_setuid_def cap_emulate_setxuid_def Let_def split: setid_flags.split)

lemma post_setuid_caps:
  assumes "cap_issubset (t_cap_effective t) (t_cap_permitted t)"
  shows "cap_issubset (t_cap_permitted (cap_task_post_setuid sb r e v f t)) (t_cap_permitted t)"
    "cap_issubset (t_cap_effective (cap_task_post_setuid sb r e v f t))
       (t_cap_permitted (cap_task_post_setuid sb r e v f t))"
  using assms
  by (simp_all add: cap_task_post_setuid_def cap_emulate_setxuid_def Let_def cap_fs_subset split: setid_flags.split)

lemma confined_iff:
  "confined U G gs P (t, m) \<longleftrightarrow> t_uid t \<in> U \<and> t_euid t \<in> U \<and> t_suid t \<in> U \<and> t_fsuid t \<in> U \<and>
     t_gid t \<in> G \<and> t_egid t \<in> G \<and> t_sgid t \<in> G \<and> t_fsgid t \<in> G \<and> t_group_info t = gs \<and>
     cap_issubset (t_cap_permitted t) P \<and> cap_issubset (t_cap_effective t) (t_cap_permitted t)"
  by (simp add: confined_def)

lemma confined_post:
  "confined U G gs P (t, m) \<Longrightarrow> confined U G gs P (cap_task_post_setuid sb r e v f t, m')"
  using cap_issubset_trans [OF post_setuid_caps(1)] by (simp add: confined_iff post_setuid_ids post_setuid_caps)

text \<open>The optional \<open>set_user\<close> of the three calls that change the real user id.\<close>

lemma maybe_set_user:
  obtains ok t' m' where "(if c then set_user mem u d (t, m) else (True, (t, m))) = (ok, (t', m'))"
    "t' = t \<or> c \<and> t' = t\<lparr>t_user := u, t_dumpable := False, t_uid := u\<rparr> \<or> c \<and> t' = t\<lparr>t_user := u, t_uid := u\<rparr>"
proof -
  obtain ok t' m' where r: "(if c then set_user mem u d (t, m) else (True, (t, m))) = (ok, (t', m'))"
    by (metis prod.exhaust)
  then show thesis using that [OF r] set_user_task [of mem u d t m ok t' m'] by (auto split: if_splits)
qed

lemma confined_setreuid:
  assumes P: "unprivileged P" and c: "confined U G gs P (t, m)"
  shows "confined U G gs P (snd (sys_setreuid mem sb r e (t, m)))"
proof -
  have C: "cap_issubset (t_cap_effective t) (t_cap_permitted t)" "cap_issubset (t_cap_permitted t) P"
    using c by (simp_all add: confined_iff)
  note N = not_capable [OF P C]
  let ?nr = "if r \<noteq> - 1 then r else t_uid t" and ?ne = "if e \<noteq> - 1 then e else t_euid t"
  obtain ok t' m' where su: "(if ?nr \<noteq> t_uid t then set_user mem ?nr (?ne \<noteq> t_euid t) (t, m) else (True, (t, m))) = (ok, (t', m'))"
    "t' = t \<or> ?nr \<noteq> t_uid t \<and> t' = t\<lparr>t_user := ?nr, t_dumpable := False, t_uid := ?nr\<rparr> \<or>
     ?nr \<noteq> t_uid t \<and> t' = t\<lparr>t_user := ?nr, t_uid := ?nr\<rparr>"
    by (rule maybe_set_user)
  show ?thesis
  proof (cases "(r = -1 \<or> t_uid t = r \<or> t_euid t = r) \<and> (e = -1 \<or> t_uid t = e \<or> t_euid t = e \<or> t_suid t = e)")
    case False
    then show ?thesis using c by (auto simp: sys_setreuid_def Let_def N)
  next
    case True
    then have "?nr \<in> U" "?ne \<in> U" using c by (auto simp: confined_iff)
    moreover from this have "confined U G gs P (t', m')" using su(2) c by (elim disjE) (simp_all add: confined_iff)
    ultimately show ?thesis using True su(1)
      by (simp add: sys_setreuid_def Let_def N) (intro conjI impI confined_post; simp add: confined_iff)
  qed
qed

lemma confined_setuid:
  assumes P: "unprivileged P" and c: "confined U G gs P (t, m)"
  shows "confined U G gs P (snd (sys_setuid mem sb u (t, m)))"
proof -
  have C: "cap_issubset (t_cap_effective t) (t_cap_permitted t)" "cap_issubset (t_cap_permitted t) P"
    using c by (simp_all add: confined_iff)
  note N = not_capable [OF P C]
  show ?thesis
    using c by (simp add: sys_setuid_def Let_def N) (intro conjI impI confined_post; auto simp: confined_iff)
qed

lemma confined_setresuid:
  assumes P: "unprivileged P" and c: "confined U G gs P (t, m)"
  shows "confined U G gs P (snd (sys_setresuid mem sb r e v (t, m)))"
proof -
  have C: "cap_issubset (t_cap_effective t) (t_cap_permitted t)" "cap_issubset (t_cap_permitted t) P"
    using c by (simp_all add: confined_iff)
  note N = not_capable [OF P C]
  obtain ok t' m' where su: "(if r \<noteq> -1 \<and> r \<noteq> t_uid t then set_user mem r (e \<noteq> t_euid t) (t, m) else (True, (t, m))) = (ok, (t', m'))"
    "t' = t \<or> (r \<noteq> -1 \<and> r \<noteq> t_uid t) \<and> t' = t\<lparr>t_user := r, t_dumpable := False, t_uid := r\<rparr> \<or>
     (r \<noteq> -1 \<and> r \<noteq> t_uid t) \<and> t' = t\<lparr>t_user := r, t_uid := r\<rparr>"
    by (rule maybe_set_user)
  let ?ok = "\<lambda>x. res_allowed x (t_uid t) (t_euid t) (t_suid t)"
  show ?thesis
  proof (cases "?ok r \<and> ?ok e \<and> ?ok v")
    case False
    then show ?thesis using c by (auto simp: sys_setresuid_def Let_def N)
  next
    case True
    then have "r = -1 \<or> r \<in> U" "e = -1 \<or> e \<in> U" "v = -1 \<or> v \<in> U" using c by (auto simp: confined_iff res_allowed_def)
    moreover from this have "confined U G gs P (t', m')" using su(2) c by (elim disjE) (simp_all add: confined_iff)
    ultimately show ?thesis using True su(1)
      by (simp add: sys_setresuid_def Let_def N) (intro conjI impI confined_post; simp add: confined_iff)
  qed
qed

lemma confined_setfsuid:
  assumes P: "unprivileged P" and c: "confined U G gs P (t, m)"
  shows "confined U G gs P (snd (sys_setfsuid sb u (t, m)))"
proof -
  have C: "cap_issubset (t_cap_effective t) (t_cap_permitted t)" "cap_issubset (t_cap_permitted t) P"
    using c by (simp_all add: confined_iff)
  note N = not_capable [OF P C]
  show ?thesis
    using c by (simp add: sys_setfsuid_def Let_def N) (intro conjI impI confined_post; auto simp: confined_iff)
qed

lemma confined_gids:
  assumes P: "unprivileged P" and c: "confined U G gs P (t, m)"
  shows "confined U G gs P (snd (sys_setregid r e (t, m)))"
    "confined U G gs P (snd (sys_setgid g (t, m)))"
    "confined U G gs P (snd (sys_setresgid r e v (t, m)))"
    "confined U G gs P (snd (sys_setfsgid g (t, m)))"
    "confined U G gs P (snd (sys_setgroups mem n gl (t, m)))"
proof -
  have C: "cap_issubset (t_cap_effective t) (t_cap_permitted t)" "cap_issubset (t_cap_permitted t) P"
    using c by (simp_all add: confined_iff)
  note N = not_capable [OF P C]
  show "confined U G gs P (snd (sys_setregid r e (t, m)))"
    using c by (auto simp: sys_setregid_def Let_def N confined_iff)
  show "confined U G gs P (snd (sys_setgid g (t, m)))"
    using c by (auto simp: sys_setgid_def Let_def N confined_iff)
  show "confined U G gs P (snd (sys_setresgid r e v (t, m)))"
    using c by (simp add: sys_setresgid_def Let_def N res_allowed_def) (auto simp: confined_iff)
  show "confined U G gs P (snd (sys_setfsgid g (t, m)))"
    using c by (auto simp: sys_setfsgid_def Let_def N confined_iff)
  show "confined U G gs P (snd (sys_setgroups mem n gl (t, m)))"
    using c by (simp add: sys_setgroups_def Let_def N)
qed

lemma capset_self:
  "sys_capset 0 (Some LINUX_CAPABILITY_VERSION) (Some 0) (Some (e, i, p)) [t] =
     (if cap_capset_check t t e i p then (Inr 0, [cap_capset_set e i p t]) else (Inl (Errno EPERM), [t]))"
  by (simp add: sys_capset_def id_or_capable_def Let_def)

lemma confined_exec:
  assumes P: "unprivileged P" and c: "confined U G gs P s"
  shows "confined U G gs P (snd (cred_exec mem sb op s))"
proof -
  obtain t m where s: "s = (t, m)" by force
  note c' = c [unfolded s]
  show ?thesis
  proof (cases op)
    case (Capset e i p)
    show ?thesis
      using c' by (auto simp: Capset s capset_self confined_iff cap_capset_check_def cap_capset_set_def
          split: if_splits intro: cap_issubset_trans)
  qed (use c' in \<open>simp_all add: s confined_setreuid [OF P] confined_setuid [OF P] confined_setresuid [OF P]
      confined_setfsuid [OF P] confined_gids [OF P] prctl_set_keepcaps_def prctl_set_dumpable_def\<close>,
      simp_all add: confined_iff)
qed

text \<open>One call of the task, as a step of a transition system.\<close>

definition cred_step :: "cred_state \<Rightarrow> cred_state \<Rightarrow> bool" where
  "cred_step s s' \<longleftrightarrow> (\<exists>mem sb c. s' = snd (cred_exec mem sb c s))"

interpretation cred: transition_system
  "\<lambda>s. unprivileged P \<and> confined U G gs P s" cred_step "\<lambda>s. unprivileged P \<and> confined U G gs P s" for U G gs P
  by unfold_locales (auto simp: cred_step_def confined_exec)

lemma cred_run_steps: "cred_step\<^sup>*\<^sup>* s (cred_run sb cs s)"
proof (induction cs arbitrary: s)
  case Nil
  then show ?case by simp
next
  case (Cons c cs)
  obtain mem op where c: "c = (mem, op)" by force
  have "cred_step s (snd (cred_exec mem sb op s))" by (auto simp: cred_step_def)
  with Cons [of "snd (cred_exec mem sb op s)"] show ?case by (simp add: c)
qed

lemma confined_run: "unprivileged P \<Longrightarrow> confined U G gs P s \<Longrightarrow> confined U G gs P (cred_run sb cs s)"
  using cred.reachable_inv [OF _ cred_run_steps] by blast

subsection \<open>Dropping privileges\<close>

lemma setuid_drops:
  assumes cap: "cap_raised (t_cap_effective t) CAP_SETUID"
    and root: "t_uid t = 0 \<or> t_euid t = 0 \<or> t_suid t = 0" and u: "u \<noteq> 0"
    and keep: "\<not> t_keep_capabilities t" and sb: "\<not> issecure sb SECURE_NO_SETUID_FIXUP"
    and r: "sys_setuid mem sb u (t, m) = (Inr v, (t', m'))"
  shows "t_uid t' = u" "t_euid t' = u" "t_suid t' = u" "t_fsuid t' = u" "t_cap_permitted t' = 0"
    "t_cap_effective t' = 0" "t_gid t' = t_gid t" "t_egid t' = t_egid t" "t_sgid t' = t_sgid t"
    "t_fsgid t' = t_fsgid t" "t_group_info t' = t_group_info t"
proof -
  let ?t = "t\<lparr>t_superpriv := True\<rparr>"
  obtain ok t1 m1 where su: "(if u \<noteq> t_uid t then set_user mem u (t_euid t \<noteq> u) (?t, m) else (True, (?t, m))) = (ok, (t1, m1))"
    by (metis prod.exhaust)
  have ok: "ok" and t': "t' = cap_task_post_setuid sb (t_uid t) (t_euid t) (t_suid t) LSM_SETID_ID
      ((if t_euid t \<noteq> u then t1\<lparr>t_dumpable := False\<rparr> else t1)\<lparr>t_euid := u, t_fsuid := u, t_suid := u\<rparr>)"
    using r cap su by (auto simp: sys_setuid_def capable_def Let_def split: if_splits)
  have t1: "t_uid t1 = u" "t_keep_capabilities t1 = t_keep_capabilities t" "t_gid t1 = t_gid t" "t_egid t1 = t_egid t"
    "t_sgid t1 = t_sgid t" "t_fsgid t1 = t_fsgid t" "t_group_info t1 = t_group_info t"
    using su set_user_task [of mem u "t_euid t \<noteq> u" ?t m ok t1 m1] ok by (auto split: if_splits)
  show "t_uid t' = u" "t_euid t' = u" "t_suid t' = u" "t_fsuid t' = u" "t_gid t' = t_gid t" "t_egid t' = t_egid t"
    "t_sgid t' = t_sgid t" "t_fsgid t' = t_fsgid t" "t_group_info t' = t_group_info t"
    using t1 by (simp_all add: t' post_setuid_ids)
  show "t_cap_permitted t' = 0" "t_cap_effective t' = 0"
    using t1 root u keep sb by (auto simp: t' cap_task_post_setuid_def cap_emulate_setxuid_def Let_def)
qed

subsection \<open>The Shell sort\<close>

lemma groups_shift_mset:
  "right < length g \<Longrightarrow> nat left < length g \<Longrightarrow>
   mset (groups_shift stride tmp left right g) = mset (g[right := tmp])"
proof (induction stride tmp left right g rule: groups_shift.induct)
  case (1 stride tmp left right g)
  show ?case
  proof (cases "0 < stride \<and> 0 \<le> left \<and> tmp < g ! nat left")
    case False
    then show ?thesis by (simp only: groups_shift.simps [of stride tmp left] if_False)
  next
    case True
    let ?h = "g[right := tmp]"
    have "mset ((g[right := g ! nat left])[nat left := tmp]) = mset ?h"
    proof (cases "nat left = right")
      case False
      have "(g[right := g ! nat left])[nat left := tmp] = ?h[right := ?h ! nat left, nat left := ?h ! right]"
        using False "1.prems" by simp
      then show ?thesis using mset_swap [of "nat left" ?h right] "1.prems" by (simp only: length_list_update)
    qed simp
    moreover have "nat (left - int stride) < length g" using True "1.prems" by linarith
    ultimately show ?thesis
      using "1.IH" [OF True] "1.prems" True by (simp add: groups_shift.simps [of stride tmp left])
  qed
qed

lemma groups_shift_length [simp]: "length (groups_shift stride tmp left right g) = length g"
proof (induction stride tmp left right g rule: groups_shift.induct)
  case (1 stride tmp left right g)
  then show ?case by (simp add: groups_shift.simps [of stride tmp left])
qed

lemma groups_pass_mset:
  "\<forall>b \<in> set bases. b + stride < length g \<Longrightarrow> mset (groups_pass stride bases g) = mset g"
  by (induction bases arbitrary: g) (simp_all add: groups_shift_mset)

lemma groups_pass_length [simp]: "length (groups_pass stride bases g) = length g"
  by (induction bases arbitrary: g) simp_all

lemma groups_strides_mset: "mset (groups_strides stride g) = mset g"
proof (induction stride g rule: groups_strides.induct)
  case (1 stride g)
  show ?case
  proof (cases "stride = 0")
    case False
    have "mset (groups_pass stride [0..<length g - stride] g) = mset g" by (intro groups_pass_mset) auto
    with 1 [OF False] False show ?thesis by (simp add: groups_strides.simps [of stride])
  qed (simp add: groups_strides.simps)
qed

text \<open>With stride 1 the inner loop inserts into the sorted front part.\<close>

lemma groups_shift_one:
  "sorted xs \<Longrightarrow> groups_shift (Suc 0) tmp (int (length xs) - 1) (length xs) (xs @ h # ys) =
     takeWhile (\<lambda>y. y \<le> tmp) xs @ tmp # dropWhile (\<lambda>y. y \<le> tmp) xs @ ys"
proof (induction xs arbitrary: h ys rule: rev_induct)
  case Nil
  then show ?case by (simp add: groups_shift.simps)
next
  case (snoc x xs)
  have srt: "sorted xs" "\<forall>y \<in> set xs. y \<le> x" using snoc.prems by (auto simp: sorted_append)
  show ?case
  proof (cases "tmp < x")
    case True
    have "groups_shift (Suc 0) tmp (int (length xs)) (Suc (length xs)) ((xs @ [x]) @ h # ys) =
        groups_shift (Suc 0) tmp (int (length xs) - 1) (length xs) (xs @ x # x # ys)"
      using True by (simp add: groups_shift.simps [of "Suc 0" tmp "int (length xs)"] nth_append list_update_append)
    moreover have "\<not> x \<le> tmp" using True by simp
    ultimately show ?thesis using snoc.IH [OF srt(1)] by (simp add: takeWhile_append dropWhile_append)
  next
    case False
    then have "\<forall>y \<in> set (xs @ [x]). y \<le> tmp" using srt(2) by force
    then have "takeWhile (\<lambda>y. y \<le> tmp) (xs @ [x]) = xs @ [x]" "dropWhile (\<lambda>y. y \<le> tmp) (xs @ [x]) = []"
      by (simp_all only: takeWhile_eq_all_conv dropWhile_eq_Nil_conv)
    with False show ?thesis
      by (simp add: groups_shift.simps [of "Suc 0" tmp "int (length xs)"] nth_append list_update_append)
  qed
qed

lemma insert_sorted:
  assumes "sorted xs"
  shows "sorted (takeWhile (\<lambda>y. y \<le> x) xs @ x # dropWhile (\<lambda>y. y \<le> x) (xs :: id_t list))"
  using assms
proof (induction xs)
  case Nil
  then show ?case by simp
next
  case (Cons y ys)
  have "\<forall>z \<in> set ys. y \<le> z" using Cons.prems by simp
  then have "\<forall>z \<in> set (takeWhile (\<lambda>y. y \<le> x) ys) \<union> set (dropWhile (\<lambda>y. y \<le> x) ys). y \<le> z"
    by (metis UnE set_takeWhileD set_dropWhileD)
  with Cons show ?case by auto
qed

lemma take_front: "length xs = n \<Longrightarrow> take n (xs @ ys) = xs"
  by simp

lemma groups_shift_sorts:
  assumes "b + 1 < length g" "sorted (take (b + 1) g)"
  shows "sorted (take (b + 2) (groups_shift 1 (g ! (b + 1)) (int b) (b + 1) g))"
proof -
  let ?xs = "take (b + 1) g" and ?x = "g ! (b + 1)"
  have g: "g = ?xs @ ?x # drop (b + 2) g" using assms(1) id_take_nth_drop [of "b + 1" g] by simp
  have len: "length ?xs = b + 1" using assms(1) by simp
  have "groups_shift 1 ?x (int b) (b + 1) g = takeWhile (\<lambda>y. y \<le> ?x) ?xs @ ?x # dropWhile (\<lambda>y. y \<le> ?x) ?xs @ drop (b + 2) g"
    using groups_shift_one [OF assms(2), of ?x ?x "drop (b + 2) g"] g len by (simp del: take_Suc)
  moreover have "length (takeWhile (\<lambda>y. y \<le> ?x) ?xs @ ?x # dropWhile (\<lambda>y. y \<le> ?x) ?xs) = b + 2"
    using len arg_cong [OF takeWhile_dropWhile_id [of "\<lambda>y. y \<le> ?x" ?xs], of length]
    by (simp only: length_append list.size)
  ultimately have "take (b + 2) (groups_shift 1 ?x (int b) (b + 1) g) =
      takeWhile (\<lambda>y. y \<le> ?x) ?xs @ ?x # dropWhile (\<lambda>y. y \<le> ?x) ?xs"
    using take_front [of "takeWhile (\<lambda>y. y \<le> ?x) ?xs @ ?x # dropWhile (\<lambda>y. y \<le> ?x) ?xs" "b + 2" "drop (b + 2) g"]
    by (simp only: append_assoc append_Cons)
  with insert_sorted [OF assms(2)] show ?thesis by simp
qed

lemma groups_pass_sorts:
  "k + n < length g \<Longrightarrow> sorted (take (k + 1) g) \<Longrightarrow> sorted (take (k + n + 1) (groups_pass 1 [k..<k + n] g))"
proof (induction n arbitrary: k g)
  case 0
  then show ?case by simp
next
  case (Suc n)
  let ?g = "groups_shift 1 (g ! (k + 1)) (int k) (k + 1) g"
  have "sorted (take (k + 2) ?g)" using Suc.prems by (intro groups_shift_sorts) auto
  then have "sorted (take (Suc k + n + 1) (groups_pass 1 [Suc k..<Suc k + n] ?g))"
    using Suc.prems by (intro Suc.IH) auto
  moreover have "[k..<k + Suc n] = k # [Suc k..<Suc k + n]" by (simp add: upt_conv_Cons)
  ultimately show ?case by simp
qed

text \<open>The strides are 1, 4, 13, ..., so that the last pass has stride 1.\<close>

fun stride_seq :: "nat \<Rightarrow> nat" where
  "stride_seq 0 = 1"
| "stride_seq (Suc k) = 3 * stride_seq k + 1"

lemma sort_stride_seq: "\<exists>j. sort_stride n (stride_seq k) = stride_seq j \<and> k \<le> j \<and> n \<le> stride_seq j"
proof (induction "n - stride_seq k" arbitrary: k rule: less_induct)
  case less
  show ?case
  proof (cases "stride_seq k < n")
    case True
    then have "n - stride_seq (Suc k) < n - stride_seq k" by simp
    from less [OF this] True show ?thesis
      by (subst sort_stride.simps) (auto intro: Suc_leD)
  next
    case False
    then show ?thesis by (subst sort_stride.simps) auto
  qed
qed

lemma groups_strides_sorts:
  "sorted (groups_strides (stride_seq k) g)"
proof (induction k arbitrary: g)
  case 0
  have "sorted (groups_pass 1 [0..<length g - 1] g)"
  proof (cases "length g \<le> 1")
    case True
    then show ?thesis by (cases g) auto
  next
    case False
    have "sorted (take (0 + (length g - 1) + 1) (groups_pass 1 [0..<0 + (length g - 1)] g))"
      using False by (intro groups_pass_sorts) (auto simp: sorted_iff_nth_mono)
    with False show ?thesis by simp
  qed
  then show ?case by (simp add: groups_strides.simps [of "Suc 0"] groups_strides.simps [of 0])
next
  case (Suc k)
  have "(3 * stride_seq k + 1) div 3 = stride_seq k" by simp
  with Suc show ?case by (simp add: groups_strides.simps [of "Suc (3 * stride_seq k)"])
qed

lemma groups_sort_sorts: "sorted (groups_sort g) \<and> mset (groups_sort g) = mset g"
proof -
  obtain j where j: "sort_stride (length g) 1 = stride_seq j" "length g \<le> stride_seq j"
    using sort_stride_seq [of "length g" 0] by auto
  have "sorted (groups_strides (stride_seq j div 3) g)"
  proof (cases j)
    case 0
    then have "length g \<le> 1" using j(2) by simp
    then have "sorted g" by (cases g) auto
    then show ?thesis by (simp add: 0 groups_strides.simps)
  next
    case (Suc i)
    then have "stride_seq j div 3 = stride_seq i" by simp
    then show ?thesis by (simp add: groups_strides_sorts)
  qed
  then show ?thesis by (simp only: groups_sort_def j(1) groups_strides_mset simp_thms)
qed

subsection \<open>The binary search\<close>

lemma sint_diff_small:
  fixes a b :: id_t
  assumes "unat a < 2 ^ 31" "unat b < 2 ^ 31"
  shows "sint (a - b) = int (unat a) - int (unat b)"
proof -
  have "sint (a - b) = sint (word_of_int (uint a - uint b) :: id_t)" by simp
  also have "\<dots> = signed_take_bit 31 (uint a - uint b)" by (subst sint_sbintrunc') simp
  also have "\<dots> = uint a - uint b"
  proof (rule signed_take_bit_int_eq_self)
    have "int (unat a) < int (2 ^ 31)" "int (unat b) < int (2 ^ 31)" using assms by (simp_all only: of_nat_less_iff)
    then have "uint a < 2147483648" "uint b < 2147483648" by simp_all
    moreover have "0 \<le> uint a" "0 \<le> uint b" by simp_all
    ultimately have "- 2147483648 \<le> uint a - uint b \<and> uint a - uint b < 2147483648" by linarith
    then show "- (2 ^ 31) \<le> uint a - uint b" "uint a - uint b < 2 ^ 31" by simp_all
  qed
  finally show ?thesis by simp
qed

lemma groups_bsearch_iff:
  assumes srt: "sorted g" and small: "\<forall>x \<in> set g. unat x < 2 ^ 31" "unat grp < 2 ^ 31"
  shows "r \<le> length g \<Longrightarrow> groups_bsearch g grp l r \<longleftrightarrow> (\<exists>i. l \<le> i \<and> i < r \<and> g ! i = grp)"
proof (induction "r - l" arbitrary: l r rule: less_induct)
  case less
  show ?case
  proof (cases "l < r")
    case False
    then show ?thesis by (subst groups_bsearch.simps) auto
  next
    case True
    define mid where "mid = (l + r) div 2"
    have m: "l \<le> mid" "mid < r" using True by (auto simp: mid_def)
    then have ml: "mid < length g" using less.prems by simp
    then have "unat (g ! mid) < 2 ^ 31" using small(1) nth_mem by blast
    then have cmp: "sint (grp - g ! mid) = int (unat grp) - int (unat (g ! mid))"
      using small(2) by (intro sint_diff_small) auto
    have step: "groups_bsearch g grp l r =
        (if g ! mid < grp then groups_bsearch g grp (mid + 1) r
         else if grp < g ! mid then groups_bsearch g grp l mid else True)"
      using True by (subst groups_bsearch.simps) (simp add: cmp Let_def word_less_def flip: mid_def)
    have mono: "g ! i \<le> g ! j" if "i \<le> j" "j < length g" for i j using srt that by (simp add: sorted_nth_mono)
    consider "g ! mid < grp" | "grp < g ! mid" | "g ! mid = grp" by fastforce
    then show ?thesis
    proof cases
      case 1
      have gt: "mid + 1 \<le> i" if "g ! i = grp" "i < r" for i
      proof (rule ccontr)
        assume "\<not> mid + 1 \<le> i"
        then have "g ! i \<le> g ! mid" using ml by (intro mono) simp_all
        with 1 that(1) show False by simp
      qed
      have "(l \<le> i \<and> i < r \<and> g ! i = grp) = (mid + 1 \<le> i \<and> i < r \<and> g ! i = grp)" for i
        using gt [of i] m(1) by auto
      with less.hyps [of r "mid + 1"] m less.prems 1 step show ?thesis by simp
    next
      case 2
      have lt: "i < mid" if "g ! i = grp" "i < r" for i
      proof (rule ccontr)
        assume "\<not> i < mid"
        then have "g ! mid \<le> g ! i" using that less.prems by (intro mono) simp_all
        with 2 that(1) show False by simp
      qed
      have "(l \<le> i \<and> i < r \<and> g ! i = grp) = (l \<le> i \<and> i < mid \<and> g ! i = grp)" for i
        using lt [of i] m(2) by auto
      moreover have "groups_bsearch g grp l mid \<longleftrightarrow> (\<exists>i. l \<le> i \<and> i < mid \<and> g ! i = grp)"
        using m less.prems by (intro less.hyps) auto
      moreover have "\<not> g ! mid < grp" using 2 by simp
      ultimately show ?thesis using step 2 by (simp only: if_True if_False)
    next
      case 3
      then have "\<not> g ! mid < grp" "\<not> grp < g ! mid" by simp_all
      with step m 3 show ?thesis by (auto intro!: exI [of _ mid])
    qed
  qed
qed

lemma groups_search_iff:
  assumes "sorted g" "\<forall>x \<in> set g. unat x < 2 ^ 31" "unat grp < 2 ^ 31"
  shows "groups_search g grp \<longleftrightarrow> grp \<in> set g"
  using groups_bsearch_iff [OF assms order_refl] by (auto simp: groups_search_def in_set_conv_nth)

lemma setgroups_effect:
  assumes "cap_raised (t_cap_effective t) CAP_SETGID" "length g \<le> 65536"
  shows "sys_setgroups True (int (length g)) g (t, m) =
    (Inr 0, (t\<lparr>t_superpriv := True, t_group_info := groups_sort g\<rparr>, m))"
  using assms by (simp add: sys_setgroups_def capable_def set_current_groups_def NGROUPS_MAX_def)

subsection \<open>Properties\<close>

text \<open>C10. A task whose permitted capabilities hold neither \<open>CAP_SETUID\<close> nor \<open>CAP_SETGID\<close> can do
  what it likes with the set*id calls, \<open>setgroups\<close>, \<open>prctl\<close> and \<open>capset\<close>, in any order and
  whatever the allocations and limits answer: its user and group ids never leave the sets they
  started from, its groups never change, its permitted capabilities never grow and its
  effective ones stay within the permitted.\<close>

theorem cred_unprivileged_confined:
  assumes "unprivileged P" "confined U G gs P s"
  shows "confined U G gs P (cred_run sb cs s)"
  using assms by (rule confined_run)

definition ex_task :: task where
  "ex_task = \<lparr>t_pid = 42, t_tgid = 42, t_pgrp = 42, t_uid = 1000, t_euid = 0, t_suid = 0, t_fsuid = 0,
     t_gid = 100, t_egid = 100, t_sgid = 100, t_fsgid = 100, t_group_info = [4, 100],
     t_cap_effective = 0xFFFFFEFF, t_cap_inheritable = 0, t_cap_permitted = 0xFFFFFEFF,
     t_keep_capabilities = False, t_superpriv = False, t_dumpable = True, t_user = 1000, t_rlim_nproc = 256\<rparr>"

definition ex_users :: users where
  "ex_users = [0 \<mapsto> \<lparr>u_count = 30, u_processes = 30\<rparr>, 1000 \<mapsto> \<lparr>u_count = 2, u_processes = 2\<rparr>]"

theorem cred_unprivileged_confined_witness:
  "confined {1000, 0} {100} [4, 100] 0x3F
    (cred_run 0 [(True, Setreuid 0 1000), (True, Capset 1 1 1), (True, Setgid 0)]
      (ex_task\<lparr>t_cap_effective := 0x1F, t_cap_permitted := 0x3F\<rparr>, ex_users))"
proof (rule cred_unprivileged_confined)
  show "unprivileged 0x3F" by (simp add: unprivileged_def cap_raised_def CAP_TO_MASK_def CAP_SETUID_def CAP_SETGID_def)
  show "confined {1000, 0} {100} [4, 100] 0x3F (ex_task\<lparr>t_cap_effective := 0x1F, t_cap_permitted := 0x3F\<rparr>, ex_users)"
    by (simp add: confined_iff ex_task_def cap_issubset_def)
qed

text \<open>C20. Dropping root is for good: when a task with \<open>CAP_SETUID\<close> and a user id 0 calls
  \<open>setuid(u)\<close> for an ordinary user (without \<open>keep_capabilities\<close>, default secure bits) and the
  call succeeds, all its user ids are \<open>u\<close> and its capabilities are empty, and no sequence of
  further credential calls ever changes them back.\<close>

theorem setuid_drops_root_for_good:
  assumes "cap_raised (t_cap_effective t) CAP_SETUID" "t_uid t = 0 \<or> t_euid t = 0 \<or> t_suid t = 0" "u \<noteq> 0"
    "\<not> t_keep_capabilities t" "\<not> issecure sb SECURE_NO_SETUID_FIXUP"
    "sys_setuid mem sb u (t, m) = (Inr v, s)"
  shows "confined {u} {t_gid t, t_egid t, t_sgid t, t_fsgid t} (t_group_info t) 0 (cred_run sb' cs s)"
proof -
  obtain t' m' where s: "s = (t', m')" by force
  note D = setuid_drops [OF assms(1-5) assms(6) [unfolded s]]
  show ?thesis
  proof (rule confined_run)
    show "unprivileged 0" by (simp add: unprivileged_def cap_raised_def)
    show "confined {u} {t_gid t, t_egid t, t_sgid t, t_fsgid t} (t_group_info t) 0 s"
      using D by (simp add: s confined_iff)
  qed
qed

lemma ex_setuid: "fst (sys_setuid True 0 1000 (ex_task, ex_users)) = Inr 0"
  by (simp add: sys_setuid_def capable_def cap_raised_def CAP_TO_MASK_def CAP_SETUID_def ex_task_def Let_def)

theorem setuid_drops_root_for_good_witness:
  "confined {1000} {100} [4, 100] 0
    (cred_run 0 [(True, Setuid 0), (True, Setresuid 0 0 0)] (snd (sys_setuid True 0 1000 (ex_task, ex_users))))"
  using setuid_drops_root_for_good [of ex_task 1000 0 True ex_users 0 "snd (sys_setuid True 0 1000 (ex_task, ex_users))" 0
      "[(True, Setuid 0), (True, Setresuid 0 0 0)]"] ex_setuid
  by (cases "sys_setuid True 0 1000 (ex_task, ex_users)")
    (simp add: ex_task_def issecure_def cap_raised_def CAP_TO_MASK_def CAP_SETUID_def)

text \<open>C33. The Shell sort of the supplementary groups is a sort: for every list, of any length,
  it ends and its result is the sorted list.\<close>

theorem groups_sort_is_sort: "groups_sort g = sort g"
  using groups_sort_sorts [of g] by (metis properties_for_sort)

text \<open>What \<open>setgroups\<close> stores, \<open>in_group_p\<close> finds: for group ids below \<open>2 ^ 31\<close> a task is in a
  group after the call exactly if the group was in the list or is its file-system group.\<close>

lemma setgroups_in_group:
  assumes "cap_raised (t_cap_effective t) CAP_SETGID" "length g \<le> 65536"
    "\<forall>x \<in> set g. unat x < 2 ^ 31" "unat grp < 2 ^ 31"
  shows "\<exists>t'. sys_setgroups True (int (length g)) g (t, m) = (Inr 0, (t', m)) \<and>
    (in_group_p grp t' \<longleftrightarrow> grp = t_fsgid t \<or> grp \<in> set g)"
proof -
  have "set (groups_sort g) = set g" using groups_sort_sorts [of g] by (metis mset_eq_setD)
  then have "groups_search (groups_sort g) grp \<longleftrightarrow> grp \<in> set g"
    using groups_sort_sorts [of g] assms(3,4) by (subst groups_search_iff) auto
  then show ?thesis by (simp add: setgroups_effect [OF assms(1,2)] in_group_p_def)
qed

lemma setgroups_in_group_example:
  "\<exists>t'. sys_setgroups True 4 [50, 7, 20, 7] (ex_task, ex_users) = (Inr 0, (t', ex_users)) \<and> in_group_p 20 t'"
  using setgroups_in_group [of ex_task "[50, 7, 20, 7]" 20 ex_users]
  by (auto simp: ex_task_def cap_raised_def CAP_TO_MASK_def CAP_SETGID_def)

text \<open>The search compares by the sign of a wrapped difference, so that it misses members when
  group ids lie \<open>2 ^ 31\<close> or more apart, although the list is sorted.\<close>

lemma groups_search_misses:
  "\<exists>g grp. sorted g \<and> grp \<in> set g \<and> \<not> groups_search g grp"
proof (intro exI conjI)
  show "sorted [1, 0x80000002 :: id_t]" by simp
  show "(1 :: id_t) \<in> set [1, 0x80000002]" by simp
  show "\<not> groups_search [1, 0x80000002] (1 :: id_t)"
    by (simp add: groups_search_def groups_bsearch.simps)
qed

text \<open>The ring of threads that starts after \<open>t\<close>.\<close>

definition ring :: "nat \<Rightarrow> nat \<Rightarrow> nat list" where
  "ring n t = [Suc t..<n] @ [0..<Suc t]"

lemma ring_rotate: "t < n \<Longrightarrow> ring n t = rotate (Suc t) [0..<n]"
  by (cases "Suc t = n") (simp_all add: ring_def rotate_drop_take drop_upt take_upt)

lemma ring_step:
  assumes "t < n" "ring n t = A @ u # B"
  shows "ring n u = B @ A @ [u]" "u < n"
proof -
  have n: "length (A @ u # B) = n" using assms by (metis length_rotate length_upt minus_nat.diff_0 ring_rotate)
  have "u = rotate (Suc t) [0..<n] ! length A" using assms by (metis nth_append_length ring_rotate)
  also have "\<dots> = (Suc t + length A) mod n" using n by (subst nth_rotate) (auto simp: add.commute)
  finally have u: "u = (Suc t + length A) mod n" .
  then show "u < n" using assms(1) by simp
  have "B @ A @ [u] = rotate (length A + 1) (A @ u # B)" using rotate_append [of "A @ [u]" B] by simp
  also have "\<dots> = rotate (length A + 1 + Suc t) [0..<n]" using assms by (simp only: ring_rotate rotate_rotate flip: assms(2))
  also have "\<dots> = rotate (Suc u) [0..<n]"
    by (subst (1 2) rotate_conv_mod) (simp add: u mod_Suc_eq add_ac)
  finally show "ring n u = B @ A @ [u]" using ring_rotate [OF \<open>u < n\<close>] by simp
qed

lemma find_first: "List.find P xs = Some x \<Longrightarrow> \<exists>ys zs. xs = ys @ x # zs \<and> P x \<and> (\<forall>y \<in> set ys. \<not> P y)"
proof (induction xs)
  case (Cons a xs)
  show ?case
  proof (cases "P a")
    case True
    then show ?thesis using Cons.prems by (intro exI [of _ "[]"] exI [of _ xs]) simp
  next
    case False
    then obtain ys zs where "xs = ys @ x # zs \<and> P x \<and> (\<forall>y \<in> set ys. \<not> P y)" using Cons by auto
    then show ?thesis using False by (intro exI [of _ "a # ys"] exI [of _ zs]) simp
  qed
qed simp

text \<open>The body runs for every other task of the thread group, once.\<close>

lemma while_each_thread_walk:
  assumes "t < length ts" "ring (length ts) t = R @ g # S" "t_tgid (ts ! t) = t_tgid (ts ! g)"
    "length (filter (\<lambda>j. t_tgid (ts ! j) = t_tgid (ts ! g)) R) < m"
  shows "while_each_thread m ts g t = filter (\<lambda>j. t_tgid (ts ! j) = t_tgid (ts ! g)) R"
  using assms
proof (induction m arbitrary: t R S)
  case 0
  then show ?case by simp
next
  case (Suc m)
  let ?P = "\<lambda>j. t_tgid (ts ! j) = t_tgid (ts ! g)"
  have nx: "next_thread ts t = (case List.find ?P (R @ g # S) of Some j \<Rightarrow> j | None \<Rightarrow> t)"
    using Suc.prems(2,3) by (simp add: next_thread_def ring_def)
  have d: "distinct (R @ g # S)" using Suc.prems(1,2) by (metis distinct_rotate distinct_upt ring_rotate)
  show ?case
  proof (cases "List.find ?P R")
    case None
    then have "List.find ?P (R @ g # S) = Some g" "filter ?P R = []"
      by (induction R) (auto split: if_splits)
    then show ?thesis by (simp add: nx)
  next
    case (Some u)
    then obtain R1 R2 where R: "R = R1 @ u # R2" "?P u" "\<forall>y \<in> set R1. \<not> ?P y" using find_first by fastforce
    have "List.find ?P (R @ g # S) = Some u" using Some by (induction R) (auto split: if_splits)
    then have u: "next_thread ts t = u" by (simp add: nx)
    have "u \<noteq> g" using d by (auto simp: R(1))
    have rs: "ring (length ts) u = R2 @ g # (S @ R1 @ [u])" "u < length ts"
      using ring_step [OF Suc.prems(1), of R1 u "R2 @ g # S"] Suc.prems(2) by (simp_all add: R(1))
    have "filter ?P R1 = []" using R(3) by (simp add: filter_empty_conv)
    then have f: "filter ?P R = u # filter ?P R2" using R(1,2) by simp
    have "while_each_thread m ts g u = filter ?P R2"
      by (rule Suc.IH [OF rs(2,1) R(2)]) (use Suc.prems(4) f in simp)
    then show ?thesis using u \<open>u \<noteq> g\<close> f by (simp add: Let_def)
  qed
qed

lemma while_each_thread_ring:
  assumes "g < length ts" "length ts \<le> m"
  shows "while_each_thread m ts g g = filter (\<lambda>j. t_tgid (ts ! j) = t_tgid (ts ! g)) ([Suc g..<length ts] @ [0..<g])"
proof (rule while_each_thread_walk [OF assms(1)])
  show "ring (length ts) g = ([Suc g..<length ts] @ [0..<g]) @ g # []" by (simp add: ring_def)
  have "length (filter (\<lambda>j. t_tgid (ts ! j) = t_tgid (ts ! g)) ([Suc g..<length ts] @ [0..<g])) \<le> length ([Suc g..<length ts] @ [0..<g])"
    by (rule length_filter_le)
  also have "\<dots> < m" using assms by simp
  finally show "length (filter (\<lambda>j. t_tgid (ts ! j) = t_tgid (ts ! g)) ([Suc g..<length ts] @ [0..<g])) < m" .
qed simp

lemma pg_target:
  assumes "k \<in> set (pg_targets pgrp ts)"
  obtains g where "g < length ts" "t_pid (ts ! g) = t_tgid (ts ! g)" "t_pgrp (ts ! g) = pgrp" "k < length ts" "k \<noteq> g"
    "t_tgid (ts ! k) = t_tgid (ts ! g)"
proof -
  obtain g where g: "g < length ts" "t_pid (ts ! g) = t_tgid (ts ! g)" "t_pgrp (ts ! g) = pgrp" "k \<in> set (while_each_thread (length ts) ts g g)"
    using assms by (auto simp: pg_targets_def leaders_def)
  then have "k < length ts" "k \<noteq> g" "t_tgid (ts ! k) = t_tgid (ts ! g)" by (auto simp: while_each_thread_ring)
  then show thesis using that g(1-3) by blast
qed

lemma capset_loop_other: "k \<notin> set ks \<Longrightarrow> fst (capset_loop cur e i p ks (ts, ret)) ! k = ts ! k"
  by (induction ks arbitrary: ts ret) auto

text \<open>C38. \<open>capset\<close> for a process group passes over the leader of every thread group: whatever it does with the other threads,
  the capabilities of the leaders stay, and when each process of the group has a single thread, the call reports success and
  changes nothing but the caller's mark of having used a capability.\<close>

theorem capset_pg_skips_leaders:
  assumes "cap_raised (t_cap_effective (ts ! cur)) CAP_SETPCAP" "cur < length ts" "1 < pgrp" "0 \<le> t_pid (ts ! cur)"
    "distinct (map t_pid ts)"
  shows "let r = sys_capset cur (Some LINUX_CAPABILITY_VERSION) (Some (- pgrp)) (Some (e, i, p)) ts;
      ts' = ts[cur := (ts ! cur)\<lparr>t_superpriv := True\<rparr>]
    in (\<forall>g. g < length ts \<and> t_pid (ts ! g) = t_tgid (ts ! g) \<longrightarrow> snd r ! g = ts' ! g) \<and>
    ((\<forall>g k. g < length ts \<and> k < length ts \<and> t_pgrp (ts ! g) = pgrp \<and> t_pid (ts ! g) = t_tgid (ts ! g) \<and>
        t_tgid (ts ! k) = t_tgid (ts ! g) \<longrightarrow> k = g) \<longrightarrow> r = (Inr 0, ts'))"
proof -
  define r where "r = sys_capset cur (Some LINUX_CAPABILITY_VERSION) (Some (- pgrp)) (Some (e, i, p)) ts"
  define ts' where "ts' = ts[cur := (ts ! cur)\<lparr>t_superpriv := True\<rparr>]"
  have same: "t_pid (ts' ! k) = t_pid (ts ! k)" "t_tgid (ts' ! k) = t_tgid (ts ! k)" "t_pgrp (ts' ! k) = t_pgrp (ts ! k)" "length ts' = length ts" for k
    using assms(2) by (simp_all add: ts'_def nth_list_update)
  have r: "r = cap_set_pg pgrp cur e i p ts'"
    using assms(1-4) by (simp add: r_def ts'_def sys_capset_def id_or_capable_def capable_def Let_def)
  have s: "snd r = fst (capset_loop cur e i p (pg_targets pgrp ts') (ts', False))"
    by (simp add: r cap_set_pg_def Let_def case_prod_unfold)
  have A: "snd r ! g = ts' ! g" if g: "g < length ts \<and> t_pid (ts ! g) = t_tgid (ts ! g)" for g
  proof -
    have "g \<notin> set (pg_targets pgrp ts')"
    proof
      assume "g \<in> set (pg_targets pgrp ts')"
      then obtain h where "h < length ts" "t_pid (ts ! h) = t_tgid (ts ! h)" "g \<noteq> h" "t_tgid (ts ! g) = t_tgid (ts ! h)"
        by (rule pg_target) (simp add: same)
      then show False using g assms(5) by (metis distinct_conv_nth length_map nth_map)
    qed
    then show "snd r ! g = ts' ! g" unfolding s by (rule capset_loop_other)
  qed
  have B: "r = (Inr 0, ts')" if single: "\<forall>g k. g < length ts \<and> k < length ts \<and> t_pgrp (ts ! g) = pgrp \<and> t_pid (ts ! g) = t_tgid (ts ! g) \<and>
      t_tgid (ts ! k) = t_tgid (ts ! g) \<longrightarrow> k = g"
  proof -
    have "k \<notin> set (pg_targets pgrp ts')" for k
      using single by (auto elim!: pg_target simp: same)
    then have "pg_targets pgrp ts' = []" by (metis list.set_intros(1) neq_Nil_conv)
    then show ?thesis by (simp add: r cap_set_pg_def capset_result_def)
  qed
  show ?thesis using A B unfolding Let_def r_def [symmetric] ts'_def [symmetric] by blast
qed

theorem capset_pg_skips_leaders_witness:
  "sys_capset 0 (Some LINUX_CAPABILITY_VERSION) (Some (- 42)) (Some (0, 0, 0)) [ex_task\<lparr>t_cap_effective := 0x1FF\<rparr>] =
    (Inr 0, [ex_task\<lparr>t_cap_effective := 0x1FF, t_superpriv := True\<rparr>])"
  using capset_pg_skips_leaders [of "[ex_task\<lparr>t_cap_effective := 0x1FF\<rparr>]" 0 42 0 0 0]
  by (simp add: ex_task_def cap_raised_def CAP_TO_MASK_def CAP_SETPCAP_def Let_def)

end
