(* ===== verification/Rwsem.thy ===== *)
theory Rwsem
  imports Prelude
begin

text \<open>
  Read/write semaphores, \<open>lib/rwsem-spinlock.c\<close>: the generic spinlock implementation, which the
  kernel is configured with. Every operation runs under \<open>wait_lock\<close> and is one atomic step. A
  task that cannot have the lock queues a waiter and sleeps until a release clears its
  \<open>waiter.task\<close>; a release hands the lock over to the tasks it wakes.

  The operations of the code are functions on the semaphore. The tasks around it are a
  transition system: a task may acquire when it is idle and release what it holds, in any order.
\<close>

datatype waiting = RWSEM_WAITING_FOR_READ | RWSEM_WAITING_FOR_WRITE

record rwsem_waiter =
  w_task :: nat
  w_flags :: waiting

record rw_semaphore =
  activity :: int
  wait_list :: "rwsem_waiter list"

definition init_rwsem :: rw_semaphore where
  "init_rwsem = \<lparr>activity = 0, wait_list = []\<rparr>"

subsection \<open>Waking\<close>

text \<open>The loop over the readers at the front of the queue: the waiters it wakes, and the rest.\<close>

fun wake_readers :: "rwsem_waiter list \<Rightarrow> rwsem_waiter list \<times> rwsem_waiter list" where
  "wake_readers [] = ([], [])"
| "wake_readers (w # ws) =
     (if w_flags w = RWSEM_WAITING_FOR_READ
      then let (woken, rest) = wake_readers ws in (w # woken, rest)
      else ([], w # ws))"

text \<open>\<open>sem->wait_list.next\<close> of an empty list is not a waiter. The first component of a result is
  the waiters that were woken, in order.\<close>

definition u_rwsem_do_wake :: "rw_semaphore \<Rightarrow> bool \<Rightarrow> (rwsem_waiter list \<times> rw_semaphore) res" where
  "u_rwsem_do_wake sem wakewrite =
     (case wait_list sem of
        [] \<Rightarrow> Inl OutOfBounds
      | w # ws \<Rightarrow>
          if \<not> wakewrite \<and> w_flags w = RWSEM_WAITING_FOR_WRITE then Inr ([], sem)
          else if wakewrite \<and> w_flags w = RWSEM_WAITING_FOR_WRITE
          then Inr ([w], sem\<lparr>activity := -1, wait_list := ws\<rparr>)
          else let (woken, rest) = wake_readers (w # ws)
               in Inr (woken, sem\<lparr>activity := activity sem + int (length woken), wait_list := rest\<rparr>))"

definition u_rwsem_wake_one_writer :: "rw_semaphore \<Rightarrow> (rwsem_waiter list \<times> rw_semaphore) res" where
  "u_rwsem_wake_one_writer sem =
     (case wait_list sem of
        [] \<Rightarrow> Inl OutOfBounds
      | w # ws \<Rightarrow> Inr ([w], sem\<lparr>activity := -1, wait_list := ws\<rparr>))"

subsection \<open>Acquiring\<close>

text \<open>The flag says whether the lock was granted at once; otherwise the task is queued and sleeps.\<close>

definition u_down_read :: "nat \<Rightarrow> rw_semaphore \<Rightarrow> bool \<times> rw_semaphore" where
  "u_down_read tsk sem =
     (if 0 \<le> activity sem \<and> wait_list sem = [] then (True, sem\<lparr>activity := activity sem + 1\<rparr>)
      else (False, sem\<lparr>wait_list := wait_list sem @ [\<lparr>w_task = tsk, w_flags = RWSEM_WAITING_FOR_READ\<rparr>]\<rparr>))"

definition u_down_read_trylock :: "rw_semaphore \<Rightarrow> bool \<times> rw_semaphore" where
  "u_down_read_trylock sem =
     (if 0 \<le> activity sem \<and> wait_list sem = [] then (True, sem\<lparr>activity := activity sem + 1\<rparr>) else (False, sem))"

definition u_down_write :: "nat \<Rightarrow> rw_semaphore \<Rightarrow> bool \<times> rw_semaphore" where
  "u_down_write tsk sem =
     (if activity sem = 0 \<and> wait_list sem = [] then (True, sem\<lparr>activity := -1\<rparr>)
      else (False, sem\<lparr>wait_list := wait_list sem @ [\<lparr>w_task = tsk, w_flags = RWSEM_WAITING_FOR_WRITE\<rparr>]\<rparr>))"

definition u_down_write_trylock :: "rw_semaphore \<Rightarrow> bool \<times> rw_semaphore" where
  "u_down_write_trylock sem =
     (if activity sem = 0 \<and> wait_list sem = [] then (True, sem\<lparr>activity := -1\<rparr>) else (False, sem))"

subsection \<open>Releasing\<close>

definition u_up_read :: "rw_semaphore \<Rightarrow> (rwsem_waiter list \<times> rw_semaphore) res" where
  "u_up_read sem =
     (let sem = sem\<lparr>activity := activity sem - 1\<rparr>
      in if activity sem = 0 \<and> wait_list sem \<noteq> [] then u_rwsem_wake_one_writer sem else Inr ([], sem))"

definition u_up_write :: "rw_semaphore \<Rightarrow> (rwsem_waiter list \<times> rw_semaphore) res" where
  "u_up_write sem =
     (let sem = sem\<lparr>activity := 0\<rparr>
      in if wait_list sem \<noteq> [] then u_rwsem_do_wake sem True else Inr ([], sem))"

definition u_downgrade_write :: "rw_semaphore \<Rightarrow> (rwsem_waiter list \<times> rw_semaphore) res" where
  "u_downgrade_write sem =
     (let sem = sem\<lparr>activity := 1\<rparr>
      in if wait_list sem \<noteq> [] then u_rwsem_do_wake sem False else Inr ([], sem))"

subsection \<open>The tasks around a semaphore\<close>

datatype phase = Idle | Waiting | Reading | Writing

record rw_system =
  sem :: rw_semaphore
  phase :: "nat \<Rightarrow> phase"

text \<open>A woken task returns from the call it sleeps in: it believes to hold what it asked for,
  whatever the releasing task meant to grant.\<close>

definition granted :: "waiting \<Rightarrow> phase" where
  "granted f = (case f of RWSEM_WAITING_FOR_READ \<Rightarrow> Reading | RWSEM_WAITING_FOR_WRITE \<Rightarrow> Writing)"

definition wake :: "rwsem_waiter list \<Rightarrow> (nat \<Rightarrow> phase) \<Rightarrow> nat \<Rightarrow> phase" where
  "wake ws ph t = (case List.find (\<lambda>w. w_task w = t) ws of None \<Rightarrow> ph t | Some w \<Rightarrow> granted (w_flags w))"

definition rw_init :: "rw_system \<Rightarrow> bool" where
  "rw_init s \<longleftrightarrow> sem s = init_rwsem \<and> (\<forall>t. phase s t = Idle)"

inductive rw_step :: "rw_system \<Rightarrow> rw_system \<Rightarrow> bool" where
  down_read: "phase s t = Idle \<Longrightarrow> u_down_read t (sem s) = (g, m) \<Longrightarrow>
    rw_step s \<lparr>sem = m, phase = (phase s)(t := if g then Reading else Waiting)\<rparr>"
| down_write: "phase s t = Idle \<Longrightarrow> u_down_write t (sem s) = (g, m) \<Longrightarrow>
    rw_step s \<lparr>sem = m, phase = (phase s)(t := if g then Writing else Waiting)\<rparr>"
| down_read_trylock: "phase s t = Idle \<Longrightarrow> u_down_read_trylock (sem s) = (g, m) \<Longrightarrow>
    rw_step s \<lparr>sem = m, phase = (phase s)(t := if g then Reading else Idle)\<rparr>"
| down_write_trylock: "phase s t = Idle \<Longrightarrow> u_down_write_trylock (sem s) = (g, m) \<Longrightarrow>
    rw_step s \<lparr>sem = m, phase = (phase s)(t := if g then Writing else Idle)\<rparr>"
| up_read: "phase s t = Reading \<Longrightarrow> u_up_read (sem s) = Inr (ws, m) \<Longrightarrow>
    rw_step s \<lparr>sem = m, phase = wake ws ((phase s)(t := Idle))\<rparr>"
| up_write: "phase s t = Writing \<Longrightarrow> u_up_write (sem s) = Inr (ws, m) \<Longrightarrow>
    rw_step s \<lparr>sem = m, phase = wake ws ((phase s)(t := Idle))\<rparr>"
| downgrade_write: "phase s t = Writing \<Longrightarrow> u_downgrade_write (sem s) = Inr (ws, m) \<Longrightarrow>
    rw_step s \<lparr>sem = m, phase = wake ws ((phase s)(t := Reading))\<rparr>"

inductive_cases rw_stepE: "rw_step s s'"

subsection \<open>The invariant\<close>

abbreviation is_reader :: "rwsem_waiter \<Rightarrow> bool" where
  "is_reader w \<equiv> w_flags w = RWSEM_WAITING_FOR_READ"

definition readers :: "(nat \<Rightarrow> phase) \<Rightarrow> nat set" where
  "readers ph = {t. ph t = Reading}"

text \<open>\<open>activity\<close> counts the holders; the queue is the sleeping tasks; nobody sleeps while the lock is
  free; and while readers hold it, the first sleeper is a writer.\<close>

definition queue_inv :: "rwsem_waiter list \<Rightarrow> (nat \<Rightarrow> phase) \<Rightarrow> bool" where
  "queue_inv q ph \<longleftrightarrow> distinct (map w_task q) \<and> (\<forall>t. ph t = Waiting \<longleftrightarrow> t \<in> w_task ` set q)"

definition hold_inv :: "int \<Rightarrow> (nat \<Rightarrow> phase) \<Rightarrow> bool" where
  "hold_inv a ph \<longleftrightarrow> finite (readers ph) \<and>
     (if a = -1 then readers ph = {} \<and> (\<exists>t. \<forall>u. ph u = Writing \<longleftrightarrow> u = t)
      else a = int (card (readers ph)) \<and> (\<forall>u. ph u \<noteq> Writing))"

definition rw_inv :: "rw_system \<Rightarrow> bool" where
  "rw_inv s \<longleftrightarrow> queue_inv (wait_list (sem s)) (phase s) \<and> hold_inv (activity (sem s)) (phase s) \<and>
     (activity (sem s) = 0 \<longrightarrow> wait_list (sem s) = []) \<and>
     (0 < activity (sem s) \<longrightarrow> wait_list (sem s) = [] \<or> \<not> is_reader (hd (wait_list (sem s))))"

lemma wake_readers_eq: "wake_readers ws = (takeWhile is_reader ws, dropWhile is_reader ws)"
  by (induction ws) (auto simp: Let_def)

lemma wake_Nil [simp]: "wake [] ph = ph"
  by (simp add: wake_def fun_eq_iff)

lemma wake_single [simp]: "wake [w] ph = ph(w_task w := granted (w_flags w))"
  by (auto simp: wake_def fun_eq_iff)

lemma wake_all_readers:
  "\<forall>w \<in> set ws. is_reader w \<Longrightarrow> wake ws ph = (\<lambda>t. if t \<in> w_task ` set ws then Reading else ph t)"
  by (induction ws) (auto simp: wake_def granted_def fun_eq_iff split: if_splits)

lemma queue_push:
  "queue_inv q ph \<Longrightarrow> ph t = Idle \<Longrightarrow> queue_inv (q @ [\<lparr>w_task = t, w_flags = f\<rparr>]) (ph(t := Waiting))"
  by (auto simp: queue_inv_def) (metis image_eqI phase.distinct(1))

lemma queue_other: "queue_inv q ph \<Longrightarrow> ph t \<noteq> Waiting \<Longrightarrow> x \<noteq> Waiting \<Longrightarrow> queue_inv q (ph(t := x))"
  by (auto simp: queue_inv_def)

lemma queue_pop_readers:
  "queue_inv (xs @ q) ph \<Longrightarrow> queue_inv q (\<lambda>t. if t \<in> w_task ` set xs then Reading else ph t)"
  by (auto simp: queue_inv_def)

lemma queue_pop: "queue_inv (w # q) ph \<Longrightarrow> queue_inv q (ph(w_task w := granted f))"
  by (auto simp: queue_inv_def granted_def split: waiting.splits)

lemma queue_waiting: "queue_inv q ph \<Longrightarrow> w \<in> set q \<Longrightarrow> ph (w_task w) = Waiting"
  by (auto simp: queue_inv_def)

lemma readers_upd: "readers (ph(t := x)) = (if x = Reading then insert t (readers ph) else readers ph - {t})"
  by (auto simp: readers_def)

lemma hold_wait: "hold_inv a ph \<Longrightarrow> ph t = Idle \<or> ph t = Waiting \<Longrightarrow> x = Idle \<or> x = Waiting \<Longrightarrow> hold_inv a (ph(t := x))"
proof -
  assume h: "hold_inv a ph" and t: "ph t = Idle \<or> ph t = Waiting" and x: "x = Idle \<or> x = Waiting"
  have "readers (ph(t := x)) = readers ph" using t x by (auto simp: readers_def)
  moreover have "(ph(t := x)) u = Writing \<longleftrightarrow> ph u = Writing" for u using t x by auto
  ultimately show ?thesis using h unfolding hold_inv_def by simp
qed

lemma hold_read: "hold_inv a ph \<Longrightarrow> 0 \<le> a \<Longrightarrow> ph t \<noteq> Reading \<Longrightarrow> hold_inv (a + 1) (ph(t := Reading))"
  by (auto simp: hold_inv_def readers_upd) (auto simp: readers_def)

lemma hold_write: "hold_inv 0 ph \<Longrightarrow> hold_inv (-1) (ph(t := Writing))"
  by (auto simp: hold_inv_def readers_upd)

lemma hold_reading: "hold_inv a ph \<Longrightarrow> ph t = Reading \<Longrightarrow> 0 < a"
  by (auto simp: hold_inv_def readers_def card_gt_0_iff split: if_splits)

lemma hold_unread: "hold_inv a ph \<Longrightarrow> ph t = Reading \<Longrightarrow> hold_inv (a - 1) (ph(t := Idle))"
proof -
  assume h: "hold_inv a ph" and t: "ph t = Reading"
  have a: "0 < a" by (rule hold_reading [OF h t])
  have r: "readers (ph(t := Idle)) = readers ph - {t}" by (simp add: readers_upd)
  have "t \<in> readers ph" using t by (simp add: readers_def)
  then have "int (card (readers ph - {t})) = int (card (readers ph)) - 1"
    using h by (metis card_Diff_singleton card_gt_0_iff empty_iff hold_inv_def int_ops(2) of_nat_diff One_nat_def Suc_leI)
  with h a show ?thesis by (auto simp: hold_inv_def r)
qed

lemma hold_writing: "hold_inv a ph \<Longrightarrow> ph t = Writing \<Longrightarrow> a = -1"
  by (auto simp: hold_inv_def split: if_splits)

lemma hold_unwrite: "hold_inv a ph \<Longrightarrow> ph t = Writing \<Longrightarrow> hold_inv 0 (ph(t := Idle))"
  by (auto simp: hold_inv_def readers_upd split: if_splits)

lemma hold_readers:
  assumes h: "hold_inv a ph" and a: "0 \<le> a" and d: "distinct (map w_task ws)"
    and w: "\<forall>w \<in> set ws. ph (w_task w) = Waiting"
  shows "hold_inv (a + int (length ws)) (\<lambda>t. if t \<in> w_task ` set ws then Reading else ph t)"
proof -
  let ?ph = "\<lambda>t. if t \<in> w_task ` set ws then Reading else ph t"
  have r: "readers ?ph = readers ph \<union> w_task ` set ws" by (auto simp: readers_def)
  have "readers ph \<inter> w_task ` set ws = {}" using w by (auto simp: readers_def)
  moreover have "card (w_task ` set ws) = length ws" using d by (metis distinct_card length_map list.set_map)
  ultimately have "card (readers ?ph) = card (readers ph) + length ws"
    using h r by (simp add: hold_inv_def card_Un_disjoint)
  with h a r show ?thesis by (auto simp: hold_inv_def)
qed

lemma takeWhile_all: "\<forall>x \<in> set (takeWhile P xs). P x"
  by (auto dest: set_takeWhileD)

lemma dropWhile_hd: "dropWhile P xs = [] \<or> \<not> P (hd (dropWhile P xs))"
  using hd_dropWhile [of P xs] by blast

text \<open>Waking from the front of the queue: with the lock free for the writer or the readers there.\<close>

lemma do_wake_inv:
  assumes q: "queue_inv (wait_list m) ph" and ne: "wait_list m \<noteq> []" and h: "hold_inv (activity m) ph"
    and a: "if ww then activity m = 0 else activity m = 1"
  obtains ws m' where "u_rwsem_do_wake m ww = Inr (ws, m')" "rw_inv \<lparr>sem = m', phase = wake ws ph\<rparr>"
    "wait_list m = ws @ wait_list m'"
proof -
  obtain w q' where wl: "wait_list m = w # q'" using ne by (cases "wait_list m") auto
  show thesis
  proof (cases "is_reader w")
    case True
    let ?ws = "takeWhile is_reader (w # q')" and ?r = "dropWhile is_reader (w # q')"
    let ?m = "m\<lparr>activity := activity m + int (length ?ws), wait_list := ?r\<rparr>"
    have split: "wait_list m = ?ws @ ?r" by (simp only: wl takeWhile_dropWhile_id)
    have rd: "\<forall>w \<in> set ?ws. is_reader w" by (rule takeWhile_all)
    have dw: "u_rwsem_do_wake m ww = Inr (?ws, ?m)"
      using True by (simp add: u_rwsem_do_wake_def wl wake_readers_eq Let_def)
    have d: "distinct (map w_task ?ws)" using q unfolding split queue_inv_def by simp
    have wt: "\<forall>w \<in> set ?ws. ph (w_task w) = Waiting"
      using queue_waiting [OF q] unfolding split by (auto simp only: set_append Un_iff)
    have "hold_inv (activity m + int (length ?ws)) (\<lambda>t. if t \<in> w_task ` set ?ws then Reading else ph t)"
      using a by (intro hold_readers [OF h _ d wt]) (simp split: if_splits)
    moreover have "queue_inv ?r (\<lambda>t. if t \<in> w_task ` set ?ws then Reading else ph t)"
      using q unfolding split by (rule queue_pop_readers)
    moreover have "0 < activity m + int (length ?ws)" using True a by (auto split: if_splits)
    moreover have "?r = [] \<or> \<not> is_reader (hd ?r)" by (rule dropWhile_hd)
    ultimately have "rw_inv \<lparr>sem = ?m, phase = wake ?ws ph\<rparr>"
      unfolding wake_all_readers [OF rd] by (simp add: rw_inv_def del: takeWhile.simps dropWhile.simps)
    then show thesis using that [OF dw] split by simp
  next
    case False
    then have fl: "w_flags w = RWSEM_WAITING_FOR_WRITE" by (cases "w_flags w") auto
    show thesis
    proof (cases ww)
      case True
      have dw: "u_rwsem_do_wake m ww = Inr ([w], m\<lparr>activity := -1, wait_list := q'\<rparr>)"
        using fl True by (simp add: u_rwsem_do_wake_def wl)
      have "queue_inv q' (ph(w_task w := Writing))"
        using queue_pop [of w q' ph RWSEM_WAITING_FOR_WRITE] q by (simp add: wl granted_def)
      moreover have "hold_inv (-1) (ph(w_task w := Writing))" using h a True by (intro hold_write) simp
      ultimately have "rw_inv \<lparr>sem = m\<lparr>activity := -1, wait_list := q'\<rparr>, phase = wake [w] ph\<rparr>"
        by (simp add: rw_inv_def fl granted_def)
      then show thesis using that [OF dw] wl by simp
    next
      case F: False
      have "u_rwsem_do_wake m ww = Inr ([], m)" using fl F by (simp add: u_rwsem_do_wake_def wl)
      moreover have "rw_inv \<lparr>sem = m, phase = wake [] ph\<rparr>"
        using q h a F fl by (simp add: rw_inv_def wl)
      ultimately show thesis using that [of "[]" m] by simp
    qed
  qed
qed

lemma rw_invD:
  assumes "rw_inv s"
  shows "queue_inv (wait_list (sem s)) (phase s)" "hold_inv (activity (sem s)) (phase s)"
    "activity (sem s) = 0 \<Longrightarrow> wait_list (sem s) = []"
    "0 < activity (sem s) \<Longrightarrow> wait_list (sem s) = [] \<or> \<not> is_reader (hd (wait_list (sem s)))"
    "activity (sem s) = -1 \<or> 0 \<le> activity (sem s)"
  using assms by (auto simp: rw_inv_def hold_inv_def split: if_splits)

lemma up_read_spec:
  assumes s: "rw_inv s" and t: "phase s t = Reading"
  obtains ws m where "u_up_read (sem s) = Inr (ws, m)"
    "rw_inv \<lparr>sem = m, phase = wake ws ((phase s)(t := Idle))\<rparr>" "wait_list (sem s) = ws @ wait_list m"
proof -
  note I = rw_invD [OF s]
  let ?ph = "(phase s)(t := Idle)" and ?m = "(sem s)\<lparr>activity := activity (sem s) - 1\<rparr>"
  have a: "0 < activity (sem s)" by (rule hold_reading [OF I(2) t])
  have q: "queue_inv (wait_list ?m) ?ph" using I(1) t by (simp add: queue_other)
  have h: "hold_inv (activity ?m) ?ph" using hold_unread [OF I(2) t] by simp
  show thesis
  proof (cases "activity ?m = 0 \<and> wait_list ?m \<noteq> []")
    case False
    then have "u_up_read (sem s) = Inr ([], ?m)" by (auto simp: u_up_read_def Let_def)
    moreover have "rw_inv \<lparr>sem = ?m, phase = wake [] ?ph\<rparr>"
      using False q h I(4) [OF a] a by (auto simp: rw_inv_def)
    ultimately show thesis using that by simp
  next
    case True
    then obtain w q' where wl: "wait_list (sem s) = w # q'" by (cases "wait_list (sem s)") auto
    then have fl: "w_flags w = RWSEM_WAITING_FOR_WRITE" using I(4) [OF a] by (cases "w_flags w") auto
    let ?m' = "?m\<lparr>activity := -1, wait_list := q'\<rparr>"
    have "u_up_read (sem s) = Inr ([w], ?m')"
      using True wl by (simp add: u_up_read_def u_rwsem_wake_one_writer_def Let_def)
    moreover have "queue_inv q' (?ph(w_task w := Writing))"
      using queue_pop [of w q' ?ph RWSEM_WAITING_FOR_WRITE] q wl by (simp add: granted_def)
    moreover have "hold_inv (-1) (?ph(w_task w := Writing))" using h True by (intro hold_write) simp
    ultimately show thesis using that [of "[w]" ?m'] wl by (simp add: rw_inv_def fl granted_def)
  qed
qed

lemma up_write_spec:
  assumes s: "rw_inv s" and t: "phase s t = Writing"
  obtains ws m where "u_up_write (sem s) = Inr (ws, m)"
    "rw_inv \<lparr>sem = m, phase = wake ws ((phase s)(t := Idle))\<rparr>" "wait_list (sem s) = ws @ wait_list m"
proof -
  note I = rw_invD [OF s]
  let ?ph = "(phase s)(t := Idle)" and ?m = "(sem s)\<lparr>activity := 0\<rparr>"
  have q: "queue_inv (wait_list ?m) ?ph" using I(1) t by (simp add: queue_other)
  have h: "hold_inv (activity ?m) ?ph" using hold_unwrite [OF I(2) t] by simp
  show thesis
  proof (cases "wait_list ?m = []")
    case True
    then have "u_up_write (sem s) = Inr ([], ?m)" by (simp add: u_up_write_def)
    moreover have "rw_inv \<lparr>sem = ?m, phase = wake [] ?ph\<rparr>" using True q h by (simp add: rw_inv_def)
    ultimately show thesis using that by simp
  next
    case False
    from do_wake_inv [OF q False h, of True] obtain ws m where "u_rwsem_do_wake ?m True = Inr (ws, m)"
      "rw_inv \<lparr>sem = m, phase = wake ws ?ph\<rparr>" "wait_list ?m = ws @ wait_list m" by auto
    with False show thesis using that [of ws m] by (simp add: u_up_write_def)
  qed
qed

lemma downgrade_spec:
  assumes s: "rw_inv s" and t: "phase s t = Writing"
  obtains ws m where "u_downgrade_write (sem s) = Inr (ws, m)"
    "rw_inv \<lparr>sem = m, phase = wake ws ((phase s)(t := Reading))\<rparr>" "wait_list (sem s) = ws @ wait_list m"
proof -
  note I = rw_invD [OF s]
  let ?ph = "(phase s)(t := Reading)" and ?m = "(sem s)\<lparr>activity := 1\<rparr>"
  have q: "queue_inv (wait_list ?m) ?ph" using I(1) t by (simp add: queue_other)
  have "hold_inv (0 + 1) (((phase s)(t := Idle))(t := Reading))"
    using hold_unwrite [OF I(2) t] by (intro hold_read) simp_all
  then have h: "hold_inv (activity ?m) ?ph" by simp
  show thesis
  proof (cases "wait_list ?m = []")
    case True
    then have "u_downgrade_write (sem s) = Inr ([], ?m)" by (simp add: u_downgrade_write_def)
    moreover have "rw_inv \<lparr>sem = ?m, phase = wake [] ?ph\<rparr>" using True q h by (simp add: rw_inv_def)
    ultimately show thesis using that by simp
  next
    case False
    from do_wake_inv [OF q False h, of False] obtain ws m where "u_rwsem_do_wake ?m False = Inr (ws, m)"
      "rw_inv \<lparr>sem = m, phase = wake ws ?ph\<rparr>" "wait_list ?m = ws @ wait_list m" by auto
    with False show thesis using that [of ws m] by (simp add: u_downgrade_write_def)
  qed
qed

lemma down_read_inv:
  assumes s: "rw_inv s" and t: "phase s t = Idle" and r: "u_down_read t (sem s) = (g, m)"
  shows "rw_inv \<lparr>sem = m, phase = (phase s)(t := if g then Reading else Waiting)\<rparr>"
proof -
  note I = rw_invD [OF s]
  show ?thesis
  proof (cases "0 \<le> activity (sem s) \<and> wait_list (sem s) = []")
    case True
    then show ?thesis using r t I(1) hold_read [OF I(2), of t]
      by (auto simp: u_down_read_def rw_inv_def queue_inv_def)
  next
    case False
    then have "\<not> is_reader (hd (wait_list m))" if "0 < activity (sem s)"
      using that I(4) r by (auto simp: u_down_read_def hd_append)
    then show ?thesis using False r t queue_push [OF I(1) t] hold_wait [OF I(2), of t Waiting] I(3)
      by (auto simp: u_down_read_def rw_inv_def)
  qed
qed

lemma down_write_inv:
  assumes s: "rw_inv s" and t: "phase s t = Idle" and r: "u_down_write t (sem s) = (g, m)"
  shows "rw_inv \<lparr>sem = m, phase = (phase s)(t := if g then Writing else Waiting)\<rparr>"
proof -
  note I = rw_invD [OF s]
  show ?thesis
  proof (cases "activity (sem s) = 0 \<and> wait_list (sem s) = []")
    case True
    then show ?thesis using r t I(1,2) hold_write [of "phase s" t]
      by (auto simp: u_down_write_def rw_inv_def queue_inv_def)
  next
    case False
    then have "\<not> is_reader (hd (wait_list m))" if "0 < activity (sem s)"
      using that I(4) r by (auto simp: u_down_write_def hd_append split: if_splits)
    then show ?thesis using False r t queue_push [OF I(1) t] hold_wait [OF I(2), of t Waiting] I(3)
      by (auto simp: u_down_write_def rw_inv_def)
  qed
qed

lemma trylock_inv:
  assumes s: "rw_inv s" and t: "phase s t = Idle"
  shows "u_down_read_trylock (sem s) = (g, m) \<Longrightarrow> rw_inv \<lparr>sem = m, phase = (phase s)(t := if g then Reading else Idle)\<rparr>"
    "u_down_write_trylock (sem s) = (g, m) \<Longrightarrow> rw_inv \<lparr>sem = m, phase = (phase s)(t := if g then Writing else Idle)\<rparr>"
proof -
  have same: "rw_inv \<lparr>sem = sem s, phase = (phase s)(t := Idle)\<rparr>" using s t by (simp add: rw_inv_def fun_upd_idem)
  show "rw_inv \<lparr>sem = m, phase = (phase s)(t := if g then Reading else Idle)\<rparr>"
    if "u_down_read_trylock (sem s) = (g, m)"
    using that same down_read_inv [OF s t, of g m]
    by (auto simp: u_down_read_trylock_def u_down_read_def split: if_splits)
  show "rw_inv \<lparr>sem = m, phase = (phase s)(t := if g then Writing else Idle)\<rparr>"
    if "u_down_write_trylock (sem s) = (g, m)"
    using that same down_write_inv [OF s t, of g m]
    by (auto simp: u_down_write_trylock_def u_down_write_def split: if_splits)
qed

interpretation rwsem: transition_system rw_init rw_step rw_inv
proof (unfold_locales, goal_cases)
  case (1 s)
  then show ?case by (simp add: rw_init_def rw_inv_def init_rwsem_def queue_inv_def hold_inv_def readers_def)
next
  case (2 s s')
  from 2(2) show ?case
  proof (cases rule: rw_step.cases)
    case (up_read t ws m)
    then show ?thesis using up_read_spec [OF 2(1), of t] by (metis Inr_inject prod.inject)
  next
    case (up_write t ws m)
    then show ?thesis using up_write_spec [OF 2(1), of t] by (metis Inr_inject prod.inject)
  next
    case (downgrade_write t ws m)
    then show ?thesis using downgrade_spec [OF 2(1), of t] by (metis Inr_inject prod.inject)
  qed (use 2(1) in \<open>simp_all add: down_read_inv down_write_inv trylock_inv del: fun_upd_apply\<close>)
qed

subsection \<open>Properties\<close>

text \<open>C13. Mutual exclusion: in every state that tasks reach by any interleaving of acquiring,
  trying, releasing and downgrading, a task that writes is alone.\<close>

theorem rwsem_mutual_exclusion:
  assumes "rw_init s0" "rw_step\<^sup>*\<^sup>* s0 s" "phase s t = Writing" "u \<noteq> t"
  shows "phase s u = Idle \<or> phase s u = Waiting"
proof -
  have "hold_inv (activity (sem s)) (phase s)" using rwsem.reachable_inv [OF assms(1,2)] by (rule rw_invD)
  with assms(3,4) show ?thesis by (cases "phase s u") (auto simp: hold_inv_def readers_def split: if_splits)
qed

definition ex_rw :: rw_system where
  "ex_rw = \<lparr>sem = init_rwsem, phase = \<lambda>_. Idle\<rparr>"

lemma ex_rw_init: "rw_init ex_rw"
  by (simp add: rw_init_def ex_rw_def)

definition ex_rw2 :: rw_system where
  "ex_rw2 = \<lparr>sem = \<lparr>activity = -1, wait_list = [\<lparr>w_task = 2, w_flags = RWSEM_WAITING_FOR_READ\<rparr>]\<rparr>,
     phase = (\<lambda>_. Idle)(1 := Writing, 2 := Waiting)\<rparr>"

lemma ex_rw2_reached: "rw_step\<^sup>*\<^sup>* ex_rw ex_rw2"
proof -
  let ?m = "\<lparr>sem = \<lparr>activity = -1, wait_list = []\<rparr>, phase = (\<lambda>_. Idle)(1 := Writing)\<rparr>"
  have "rw_step ex_rw ?m"
    using rw_step.down_write [of ex_rw 1 True "\<lparr>activity = -1, wait_list = []\<rparr>"]
    by (simp add: ex_rw_def u_down_write_def init_rwsem_def)
  moreover have "rw_step ?m ex_rw2"
    using rw_step.down_read [of ?m 2 False "sem ex_rw2"]
    by (simp add: ex_rw2_def u_down_read_def)
  ultimately show ?thesis by auto
qed

theorem rwsem_mutual_exclusion_witness: "phase ex_rw2 2 = Idle \<or> phase ex_rw2 2 = Waiting"
  using rwsem_mutual_exclusion [OF ex_rw_init ex_rw2_reached, of 1 2] by (simp add: ex_rw2_def)

text \<open>C24. No wakeup is lost: in every reachable state somebody holds the lock whenever somebody
  waits for it.\<close>

theorem rwsem_waiters_have_a_holder:
  assumes "rw_init s0" "rw_step\<^sup>*\<^sup>* s0 s" "phase s t = Waiting"
  shows "\<exists>u. phase s u = Reading \<or> phase s u = Writing"
proof -
  have I: "rw_inv s" using assms(1,2) by (rule rwsem.reachable_inv)
  have "wait_list (sem s) \<noteq> []" using rw_invD(1) [OF I] assms(3) by (auto simp: queue_inv_def)
  then have "activity (sem s) \<noteq> 0" using rw_invD(3) [OF I] by auto
  then show ?thesis using rw_invD(2) [OF I]
    by (auto simp: hold_inv_def readers_def split: if_splits)
qed

theorem rwsem_waiters_have_a_holder_witness: "\<exists>u. phase ex_rw2 u = Reading \<or> phase ex_rw2 u = Writing"
  using rwsem_waiters_have_a_holder [OF ex_rw_init ex_rw2_reached, of 2] by (simp add: ex_rw2_def)

text \<open>Releases hand the lock over in the order of the queue and never fail: \<open>__up_read\<close> and
  \<open>__up_write\<close> wake a front part of the queue, and it is not empty when the lock would
  otherwise be free.\<close>

lemma rwsem_release_hands_over:
  assumes "rw_init s0" "rw_step\<^sup>*\<^sup>* s0 s"
    "phase s t = Reading \<and> r = u_up_read (sem s) \<or> phase s t = Writing \<and> r = u_up_write (sem s)"
  shows "\<exists>ws m. r = Inr (ws, m) \<and> wait_list (sem s) = ws @ wait_list m \<and>
    (activity m = 0 \<longrightarrow> wait_list (sem s) = [])"
proof -
  have I: "rw_inv s" using assms(1,2) by (rule rwsem.reachable_inv)
  from assms(3) obtain ws m where r: "r = Inr (ws, m)" "wait_list (sem s) = ws @ wait_list m"
    "rw_inv \<lparr>sem = m, phase = wake ws ((phase s)(t := Idle))\<rparr>"
    by (elim disjE conjE) (metis up_read_spec [OF I], metis up_write_spec [OF I])
  have "ws = []" if "activity m = 0"
  proof (rule ccontr)
    assume "ws \<noteq> []"
    then obtain w ws' where w: "ws = w # ws'" by (cases ws) auto
    then have "wake ws ((phase s)(t := Idle)) (w_task w) = granted (w_flags w)" by (simp add: wake_def)
    moreover have "hold_inv 0 (wake ws ((phase s)(t := Idle)))" using rw_invD(2) [OF r(3)] that by simp
    ultimately show False
      using hold_reading [of 0 _ "w_task w"] hold_writing [of 0 _ "w_task w"]
      by (cases "w_flags w") (auto simp: granted_def)
  qed
  then have "activity m = 0 \<longrightarrow> wait_list (sem s) = []" using rw_invD(3) [OF r(3)] r(2) by auto
  with r(1,2) show ?thesis by blast
qed

lemma rwsem_release_hands_over_example:
  "\<exists>ws m. u_up_write (sem ex_rw2) = Inr (ws, m) \<and> wait_list (sem ex_rw2) = ws @ wait_list m \<and>
    (activity m = 0 \<longrightarrow> wait_list (sem ex_rw2) = [])"
  using rwsem_release_hands_over [OF ex_rw_init ex_rw2_reached, of 1 "u_up_write (sem ex_rw2)"]
  by (simp add: ex_rw2_def)

end
