(* ===== verification/Resource.thy ===== *)
theory Resource
  imports Prelude
begin

text \<open>
  The tree of memory and I/O regions, \<open>kernel/resource.c\<close>. A region has a range of addresses and
  a list of sub-regions; the code links the children of a region through \<open>child\<close> and
  \<open>sibling\<close> in ascending order. Here a region is a datatype with the list of its children, and
  an operation on a region returns the region with its new children; \<open>parent\<close> pointers are the
  position in the tree. All operations run under \<open>resource_lock\<close>.
\<close>

datatype resource = Res (r_name: nat) (r_start: u32) (r_end: u32) (r_busy: bool) (r_child: "resource list")

definition with_child :: "resource \<Rightarrow> resource list \<Rightarrow> resource" where
  "with_child r cs = Res (r_name r) (r_start r) (r_end r) (r_busy r) cs"

subsection \<open>Requesting and releasing\<close>

text \<open>What \<open>__request_resource\<close> returns: no conflict, with the new list of children, or the root
  itself, or the child at an index.\<close>

datatype request = Granted "resource list" | Conflict_root | Conflict nat

fun request_scan :: "resource \<Rightarrow> resource list \<Rightarrow> request" where
  "request_scan new [] = Granted [new]"
| "request_scan new (tmp # rest) =
     (if r_end new < r_start tmp then Granted (new # tmp # rest)
      else if r_end tmp < r_start new
      then case request_scan new rest of
             Granted cs \<Rightarrow> Granted (tmp # cs)
           | Conflict_root \<Rightarrow> Conflict_root
           | Conflict i \<Rightarrow> Conflict (Suc i)
      else Conflict 0)"

definition u_request_resource :: "resource \<Rightarrow> resource \<Rightarrow> request" where
  "u_request_resource root new =
     (if r_end new < r_start new then Conflict_root
      else if r_start new < r_start root then Conflict_root
      else if r_end root < r_end new then Conflict_root
      else request_scan new (r_child root))"

text \<open>The result of an operation is the root with its new children, or \<open>-EBUSY\<close>.\<close>

definition request_resource :: "resource \<Rightarrow> resource \<Rightarrow> resource res" where
  "request_resource root new =
     (case u_request_resource root new of Granted cs \<Rightarrow> Inr (with_child root cs) | _ \<Rightarrow> Inl (Errno EBUSY))"

text \<open>\<open>__release_resource\<close> looks for the region by its address; a region is known here by its name.\<close>

fun release_scan :: "nat \<Rightarrow> resource list \<Rightarrow> resource list option" where
  "release_scan old [] = None"
| "release_scan old (tmp # rest) =
     (if r_name tmp = old then Some rest else map_option ((#) tmp) (release_scan old rest))"

definition release_resource :: "resource \<Rightarrow> nat \<Rightarrow> resource res" where
  "release_resource parent old =
     (case release_scan old (r_child parent) of
        Some cs \<Rightarrow> Inr (with_child parent cs) | None \<Rightarrow> Inl (Errno EINVAL))"

subsection \<open>Allocating\<close>

text \<open>The loop over the gaps between the children. \<open>alignf\<close> is the caller's callback on the start
  and the end of the candidate; a null pointer is the identity. The result is the range.\<close>

definition slot_start :: "u32 \<Rightarrow> u32 \<Rightarrow> u32 \<Rightarrow> u32" where
  "slot_start start mn align = ((if start < mn then mn else start) + align - 1) AND NOT (align - 1)"

definition slot_fits :: "u32 \<Rightarrow> u32 \<times> u32 \<Rightarrow> bool" where
  "slot_fits sz se \<longleftrightarrow> fst se < snd se \<and> sz - 1 \<le> snd se - fst se"

definition candidate :: "(u32 \<times> u32 \<Rightarrow> u32 \<times> u32) \<Rightarrow> u32 \<Rightarrow> u32 \<Rightarrow> u32 \<Rightarrow> u32 \<Rightarrow> u32 \<Rightarrow> u32 \<times> u32" where
  "candidate alignf mn mx align start fin = alignf (slot_start start mn align, if mx < fin then mx else fin)"

fun find_scan :: "(u32 \<times> u32 \<Rightarrow> u32 \<times> u32) \<Rightarrow> u32 \<Rightarrow> u32 \<Rightarrow> u32 \<Rightarrow> u32 \<Rightarrow> u32 \<Rightarrow> u32 \<Rightarrow> resource list \<Rightarrow> (u32 \<times> u32) option" where
  "find_scan alignf root_end sz mn mx align start [] =
     (let se = candidate alignf mn mx align start root_end
      in if slot_fits sz se then Some (fst se, fst se + sz - 1) else None)"
| "find_scan alignf root_end sz mn mx align start (this # rest) =
     (let se = candidate alignf mn mx align start (r_start this - 1)
      in if slot_fits sz se then Some (fst se, fst se + sz - 1)
         else find_scan alignf root_end sz mn mx align (r_end this + 1) rest)"

definition find_resource :: "(u32 \<times> u32 \<Rightarrow> u32 \<times> u32) \<Rightarrow> resource \<Rightarrow> u32 \<Rightarrow> u32 \<Rightarrow> u32 \<Rightarrow> u32 \<Rightarrow> (u32 \<times> u32) option" where
  "find_resource alignf root sz mn mx align =
     (case r_child root of
        this # rest \<Rightarrow>
          if r_start this = 0 then find_scan alignf (r_end root) sz mn mx align (r_end this + 1) rest
          else find_scan alignf (r_end root) sz mn mx align (r_start root) (this # rest)
      | [] \<Rightarrow> find_scan alignf (r_end root) sz mn mx align (r_start root) [])"

definition allocate_resource :: "(u32 \<times> u32 \<Rightarrow> u32 \<times> u32) \<Rightarrow> resource \<Rightarrow> nat \<Rightarrow> u32 \<Rightarrow> u32 \<Rightarrow> u32 \<Rightarrow> u32 \<Rightarrow>
    (resource \<times> u32 \<times> u32) res" where
  "allocate_resource alignf root new sz mn mx align =
     (case find_resource alignf root sz mn mx align of
        None \<Rightarrow> Inl (Errno EBUSY)
      | Some (s, e) \<Rightarrow>
          (case u_request_resource root (Res new s e False []) of
             Granted cs \<Rightarrow> Inr (with_child root cs, s, e) | _ \<Rightarrow> Inl (Errno EBUSY)))"

subsection \<open>Inserting\<close>

text \<open>From the first conflicting child on, the children that lie inside the new region: \<open>None\<close> when
  one of them overlaps it partially.\<close>

fun insert_span :: "resource \<Rightarrow> resource list \<Rightarrow> (resource list \<times> resource list) option" where
  "insert_span new [] = Some ([], [])"
| "insert_span new (nxt # rest) =
     (if r_start nxt < r_start new \<or> r_end new < r_end nxt then None
      else case rest of
             [] \<Rightarrow> Some ([nxt], [])
           | sib # _ \<Rightarrow>
               if r_end new < r_start sib then Some ([nxt], rest)
               else map_option (\<lambda>(ins, outs). (nxt # ins, outs)) (insert_span new rest))"

lemma conflict_index: "request_scan new cs = Conflict i \<Longrightarrow> i < length cs"
  by (induction new cs arbitrary: i rule: request_scan.induct) (auto split: if_splits request.splits)

function insert_resource :: "resource \<Rightarrow> resource \<Rightarrow> resource res" where
  "insert_resource parent new =
     (case u_request_resource parent new of
        Granted cs \<Rightarrow> Inr (with_child parent cs)
      | Conflict_root \<Rightarrow> Inl (Errno EBUSY)
      | Conflict i \<Rightarrow>
          let first = r_child parent ! i in
          if r_start first \<le> r_start new \<and> r_end new \<le> r_end first
          then case insert_resource first new of
                 Inl e \<Rightarrow> Inl e
               | Inr first' \<Rightarrow> Inr (with_child parent ((r_child parent)[i := first']))
          else case insert_span new (drop i (r_child parent)) of
                 None \<Rightarrow> Inl (Errno EBUSY)
               | Some (ins, outs) \<Rightarrow>
                   Inr (with_child parent (take i (r_child parent) @ with_child new ins # outs)))"
  by pat_completeness auto
termination
proof (relation "measure (\<lambda>(parent, new). size parent)", simp, goal_cases)
  case (1 parent new i x)
  then have "i < length (r_child parent)" by (auto simp: u_request_resource_def dest: conflict_index split: if_splits)
  then have "r_child parent ! i \<in> set (r_child parent)" by simp
  then show ?case using 1 size_list_estimation' [of "r_child parent ! i" "r_child parent" _ size]
    by (cases parent) (auto simp: less_Suc_eq_le)
qed

declare insert_resource.simps [simp del]

subsection \<open>Adjusting\<close>

text \<open>The child at index \<open>i\<close> of \<open>parent\<close> gets the range from \<open>start\<close> of the given size.\<close>

definition adjust_resource :: "resource \<Rightarrow> nat \<Rightarrow> u32 \<Rightarrow> u32 \<Rightarrow> resource res" where
  "adjust_resource parent i start sz =
     (let cs = r_child parent; r = cs ! i; fin = start + sz - 1 in
      if start < r_start parent \<or> r_end parent < fin then Inl (Errno EBUSY)
      else if \<exists>tmp \<in> set (r_child r). r_start tmp < start \<or> fin < r_end tmp then Inl (Errno EBUSY)
      else if Suc i < length cs \<and> r_start (cs ! Suc i) \<le> fin then Inl (Errno EBUSY)
      else if 0 < i \<and> start \<le> r_end (cs ! (i - 1)) then Inl (Errno EBUSY)
      else Inr (with_child parent (cs[i := Res (r_name r) start fin (r_busy r) (r_child r)])))"

subsection \<open>Busy regions\<close>

text \<open>The loop of \<open>__request_region\<close> goes down through conflicting regions that are not busy;
  \<open>None\<close> is the null pointer.\<close>

function request_region_loop :: "resource \<Rightarrow> resource \<Rightarrow> resource option" where
  "request_region_loop parent new =
     (case u_request_resource parent new of
        Granted cs \<Rightarrow> Some (with_child parent cs)
      | Conflict_root \<Rightarrow> None
      | Conflict i \<Rightarrow>
          if r_busy (r_child parent ! i) then None
          else case request_region_loop (r_child parent ! i) new of
                 None \<Rightarrow> None
               | Some c \<Rightarrow> Some (with_child parent ((r_child parent)[i := c])))"
  by pat_completeness auto
termination
proof (relation "measure (\<lambda>(parent, new). size parent)", simp, goal_cases)
  case (1 parent new i)
  then have "i < length (r_child parent)" by (auto simp: u_request_resource_def dest: conflict_index split: if_splits)
  then have "r_child parent ! i \<in> set (r_child parent)" by simp
  then show ?case using 1 size_list_estimation' [of "r_child parent ! i" "r_child parent" _ size]
    by (cases parent) (auto simp: less_Suc_eq_le)
qed

declare request_region_loop.simps [simp del]

definition u_request_region :: "bool \<Rightarrow> resource \<Rightarrow> nat \<Rightarrow> u32 \<Rightarrow> u32 \<Rightarrow> resource option" where
  "u_request_region mem parent name start n =
     (if mem then request_region_loop parent (Res name start (start + n - 1) True []) else None)"

text \<open>\<open>__release_region\<close>: \<open>None\<close> when the warning about a nonexistent resource is printed.\<close>

fun release_region_scan :: "u32 \<Rightarrow> u32 \<Rightarrow> resource list \<Rightarrow> resource list option" where
  "release_region_scan start fin [] = None"
| "release_region_scan start fin (Res name s e busy cs # rest) =
     (if s \<le> start \<and> fin \<le> e
      then if \<not> busy
           then map_option (\<lambda>cs'. Res name s e busy cs' # rest) (release_region_scan start fin cs)
           else if s \<noteq> start \<or> e \<noteq> fin then None
           else Some rest
      else map_option ((#) (Res name s e busy cs)) (release_region_scan start fin rest))"

definition u_release_region :: "resource \<Rightarrow> u32 \<Rightarrow> u32 \<Rightarrow> resource" where
  "u_release_region parent start n =
     (case release_region_scan start (start + n - 1) (r_child parent) of
        None \<Rightarrow> parent | Some cs \<Rightarrow> with_child parent cs)"

text \<open>\<open>__check_region\<close> requests and releases again.\<close>

definition u_check_region :: "bool \<Rightarrow> resource \<Rightarrow> u32 \<Rightarrow> u32 \<Rightarrow> int res" where
  "u_check_region mem parent start n =
     (case u_request_region mem parent 0 start n of None \<Rightarrow> Inl (Errno EBUSY) | Some _ \<Rightarrow> Inr 0)"

subsection \<open>Well-formed trees\<close>

text \<open>The ranges of the children are not empty, lie inside the region, and are in ascending order
  without overlap, and so on downwards.\<close>

definition before :: "resource \<Rightarrow> resource \<Rightarrow> bool" where
  "before a b \<longleftrightarrow> r_end a < r_start b"

fun res_wf :: "resource \<Rightarrow> bool" where
  "res_wf (Res nm s e busy cs) \<longleftrightarrow>
     s \<le> e \<and> sorted_wrt before cs \<and> (\<forall>c \<in> set cs. s \<le> r_start c \<and> r_end c \<le> e \<and> res_wf c)"

lemma res_wf_iff:
  "res_wf r \<longleftrightarrow> r_start r \<le> r_end r \<and> sorted_wrt before (r_child r) \<and>
     (\<forall>c \<in> set (r_child r). r_start r \<le> r_start c \<and> r_end c \<le> r_end r \<and> res_wf c)"
  by (cases r) simp

lemma with_child_sel [simp]:
  "r_start (with_child r cs) = r_start r" "r_end (with_child r cs) = r_end r" "r_child (with_child r cs) = cs"
  "r_busy (with_child r cs) = r_busy r" "r_name (with_child r cs) = r_name r"
  by (simp_all add: with_child_def)

definition overlap :: "resource \<Rightarrow> resource \<Rightarrow> bool" where
  "overlap a b \<longleftrightarrow> r_start a \<le> r_end b \<and> r_start b \<le> r_end a"

lemma request_scan_granted:
  assumes "sorted_wrt before cs" "r_start new \<le> r_end new" "\<forall>c \<in> set cs. r_start c \<le> r_end c"
  shows "request_scan new cs = Granted cs' \<Longrightarrow>
    sorted_wrt before cs' \<and> (\<exists>xs ys. cs = xs @ ys \<and> cs' = xs @ new # ys) \<and> (\<forall>c \<in> set cs. \<not> overlap new c)"
  using assms
proof (induction new cs arbitrary: cs' rule: request_scan.induct)
  case (1 new)
  then show ?case by auto
next
  case (2 new tmp rest)
  consider "r_end new < r_start tmp" | "r_end tmp < r_start new" "\<not> r_end new < r_start tmp"
    using "2.prems"(1) by (auto split: if_splits)
  then show ?case
  proof cases
    case 1
    then have cs': "cs' = new # tmp # rest" using "2.prems"(1) by simp
    have lt: "r_end new < r_start c" if "c \<in> set rest" for c
    proof -
      have "r_end tmp < r_start c" using "2.prems"(2) that by (simp add: before_def)
      with 1 "2.prems"(4) show ?thesis by (meson less_le_trans less_trans list.set_intros(1))
    qed
    have "\<exists>xs ys. tmp # rest = xs @ ys \<and> cs' = xs @ new # ys" by (intro exI [of _ "[]"] exI [of _ "tmp # rest"]) (simp add: cs')
    moreover have "sorted_wrt before cs'" using 1 lt "2.prems"(2) by (auto simp: cs' before_def [of new])
    moreover have "\<not> overlap new c" if "c \<in> set (tmp # rest)" for c
      using 1 lt [of c] that by (auto simp: overlap_def not_le)
    ultimately show ?thesis by blast
  next
    case 2
    then obtain cs2 where cs2: "request_scan new rest = Granted cs2" "cs' = tmp # cs2"
      using "2.prems"(1) by (auto split: request.splits)
    have IH: "sorted_wrt before cs2" "\<forall>c \<in> set rest. \<not> overlap new c" "\<exists>xs ys. rest = xs @ ys \<and> cs2 = xs @ new # ys"
      using "2.IH" [OF 2(2,1) cs2(1)] "2.prems" by simp_all
    then obtain xs ys where xy: "rest = xs @ ys" "cs2 = xs @ new # ys" by blast
    have "\<forall>c \<in> set cs2. before tmp c" using "2.prems"(2) 2(1) by (auto simp: xy before_def)
    moreover have "\<exists>us vs. tmp # rest = us @ vs \<and> cs' = us @ new # vs"
      by (intro exI [of _ "tmp # xs"] exI [of _ ys]) (simp add: cs2 xy)
    ultimately show ?thesis using IH(1,2) 2(1) by (simp add: cs2(2) overlap_def not_le)
  qed
qed

lemma request_scan_conflict:
  "request_scan new cs = Conflict i \<Longrightarrow> i < length cs \<and> overlap new (cs ! i) \<and> (\<forall>j < i. r_end (cs ! j) < r_start new)"
proof (induction new cs arbitrary: i rule: request_scan.induct)
  case (2 new tmp rest)
  show ?case
  proof (cases i)
    case 0
    with "2.prems" show ?thesis by (auto simp: overlap_def not_less split: if_splits request.splits)
  next
    case (Suc k)
    then have "r_end tmp < r_start new" "\<not> r_end new < r_start tmp" "request_scan new rest = Conflict k"
      using "2.prems" by (auto split: if_splits request.splits)
    with "2.IH" Suc show ?thesis by (auto simp: less_Suc_eq_0_disj)
  qed
qed simp

lemma request_scan_not_root: "request_scan new cs \<noteq> Conflict_root"
  by (induction new cs rule: request_scan.induct) (auto split: request.splits)

definition fits_in :: "resource \<Rightarrow> resource \<Rightarrow> bool" where
  "fits_in new root \<longleftrightarrow> r_start root \<le> r_start new \<and> r_end new \<le> r_end root"

lemma u_request_granted:
  assumes root: "res_wf root" and new: "res_wf new" and g: "u_request_resource root new = Granted cs"
  shows "res_wf (with_child root cs)" "fits_in new root" "\<forall>c \<in> set (r_child root). \<not> overlap new c"
    "\<exists>xs ys. r_child root = xs @ ys \<and> cs = xs @ new # ys"
proof -
  have R: "request_scan new (r_child root) = Granted cs" and fit: "fits_in new root"
    using g by (auto simp: u_request_resource_def fits_in_def not_less split: if_splits)
  have W: "sorted_wrt before (r_child root)" "r_start new \<le> r_end new" "\<forall>c \<in> set (r_child root). r_start c \<le> r_end c"
    using root new by (simp_all add: res_wf_iff [of root] res_wf_iff [of new]) (meson res_wf_iff)
  note S = request_scan_granted [OF W R]
  show "fits_in new root" by (rule fit)
  show "\<forall>c \<in> set (r_child root). \<not> overlap new c" "\<exists>xs ys. r_child root = xs @ ys \<and> cs = xs @ new # ys"
    using S by simp_all
  show "res_wf (with_child root cs)"
    using S fit root new by (subst res_wf_iff) (auto simp: fits_in_def res_wf_iff [of root])
qed

lemma u_request_conflict:
  assumes "u_request_resource root new = Conflict i"
  shows "i < length (r_child root)" "overlap new (r_child root ! i)" "fits_in new root"
    "\<forall>j < i. r_end (r_child root ! j) < r_start new" "r_start new \<le> r_end new"
  using assms request_scan_conflict [of new "r_child root" i]
  by (auto simp: u_request_resource_def fits_in_def not_less split: if_splits)

lemma wf_replace_child:
  assumes "res_wf r" "i < length (r_child r)" "res_wf c" "r_start c = r_start (r_child r ! i)" "r_end c = r_end (r_child r ! i)"
  shows "res_wf (with_child r ((r_child r)[i := c]))"
proof -
  have "sorted_wrt before ((r_child r)[i := c])"
    using assms(1,2,4,5) by (auto simp: res_wf_iff [of r] sorted_wrt_iff_nth_less nth_list_update before_def)
  moreover have "\<forall>x \<in> set ((r_child r)[i := c]). r_start r \<le> r_start x \<and> r_end x \<le> r_end r \<and> res_wf x"
    using assms by (auto simp: res_wf_iff [of r] dest!: set_update_subset_insert [THEN subsetD])
  ultimately show ?thesis using assms(1) by (subst res_wf_iff) (simp add: res_wf_iff [of r])
qed

lemma insert_span_spec:
  assumes "sorted_wrt before cs" "\<forall>c \<in> set cs. r_start c \<le> r_end c"
  shows "insert_span new cs = Some (ins, outs) \<Longrightarrow>
    cs = ins @ outs \<and> (\<forall>c \<in> set ins. fits_in c new) \<and> (\<forall>c \<in> set outs. r_end new < r_start c)"
  using assms
proof (induction new cs arbitrary: ins outs rule: insert_span.induct)
  case (1 new)
  then show ?case by simp
next
  case (2 new nxt rest)
  have fit: "fits_in nxt new" using "2.prems"(1) by (auto simp: fits_in_def not_less split: if_splits)
  show ?case
  proof (cases rest)
    case Nil
    with "2.prems" fit show ?thesis by (auto split: if_splits)
  next
    case (Cons sib more)
    show ?thesis
    proof (cases "r_end new < r_start sib")
      case True
      have "r_end new < r_start c" if "c \<in> set rest" for c
      proof -
        have "c = sib \<or> r_end sib < r_start c" "r_start sib \<le> r_end sib"
          using that "2.prems"(2,3) by (auto simp: Cons before_def)
        with True show ?thesis by (meson less_le_trans less_trans)
      qed
      moreover have "ins = [nxt]" "outs = rest" using True "2.prems"(1) by (auto simp: Cons split: if_splits)
      ultimately show ?thesis using fit by simp
    next
      case False
      then obtain ins' where ins': "insert_span new rest = Some (ins', outs)" "ins = nxt # ins'"
        using "2.prems"(1) by (auto simp: Cons split: if_splits)
      have "\<not> (r_start nxt < r_start new \<or> r_end new < r_end nxt)" using fit by (auto simp: fits_in_def not_less)
      from "2.IH" [OF this Cons False ins'(1)] "2.prems"(2,3) fit show ?thesis by (simp add: ins'(2))
    qed
  qed
qed

lemma insert_resource_wf:
  "res_wf parent \<Longrightarrow> res_wf new \<Longrightarrow> insert_resource parent new = Inr parent' \<Longrightarrow>
   res_wf parent' \<and> r_start parent' = r_start parent \<and> r_end parent' = r_end parent"
proof (induction parent new arbitrary: parent' rule: insert_resource.induct)
  case (1 parent new)
  show ?case
  proof (cases "u_request_resource parent new")
    case (Granted cs)
    with "1.prems" u_request_granted(1) [OF "1.prems"(1,2) Granted] show ?thesis
      by (auto simp: insert_resource.simps [of parent])
  next
    case Conflict_root
    with "1.prems" show ?thesis by (simp add: insert_resource.simps [of parent])
  next
    case (Conflict i)
    note C = u_request_conflict [OF Conflict]
    let ?f = "r_child parent ! i"
    have f: "res_wf ?f" using "1.prems"(1) C(1) by (simp add: res_wf_iff [of parent])
    show ?thesis
    proof (cases "r_start ?f \<le> r_start new \<and> r_end new \<le> r_end ?f")
      case True
      then obtain f' where f': "insert_resource ?f new = Inr f'" "parent' = with_child parent ((r_child parent)[i := f'])"
        using "1.prems"(3) Conflict by (auto simp: insert_resource.simps [of parent] Let_def split: sum.splits)
      from "1.IH" [OF Conflict refl True f "1.prems"(2) f'(1)] show ?thesis
        using wf_replace_child [OF "1.prems"(1) C(1)] f'(2) by simp
    next
      case False
      then obtain ins outs where span: "insert_span new (drop i (r_child parent)) = Some (ins, outs)"
        "parent' = with_child parent (take i (r_child parent) @ with_child new ins # outs)"
        using "1.prems"(3) Conflict by (auto simp: insert_resource.simps [of parent] Let_def split: option.splits if_splits)
      have W: "sorted_wrt before (r_child parent)"
        "\<forall>c \<in> set (r_child parent). r_start parent \<le> r_start c \<and> r_end c \<le> r_end parent \<and> res_wf c"
        using "1.prems"(1) by (simp_all add: res_wf_iff [of parent])
      have le: "\<forall>c \<in> set (drop i (r_child parent)). r_start c \<le> r_end c"
        using W(2) by (meson in_set_dropD res_wf_iff)
      from insert_span_spec [OF sorted_wrt_drop [OF W(1)] le span(1)]
      have S: "drop i (r_child parent) = ins @ outs" "\<forall>c \<in> set ins. fits_in c new" "\<forall>c \<in> set outs. r_end new < r_start c" by auto
      have cs: "r_child parent = take i (r_child parent) @ ins @ outs" by (simp flip: S(1))
      have tk: "\<forall>c \<in> set (take i (r_child parent)). r_end c < r_start new"
        using C(1,4) by (auto simp: in_set_conv_nth)
      have srt: "sorted_wrt before (take i (r_child parent) @ ins @ outs)" using W(1) cs by simp
      have sub: "set ins \<subseteq> set (r_child parent)" "set outs \<subseteq> set (r_child parent)"
        "set (take i (r_child parent)) \<subseteq> set (r_child parent)" by (subst cs; auto)+
      have "res_wf (with_child new ins)"
        using srt S(2) sub(1) W(2) C(5) by (subst res_wf_iff) (auto simp: sorted_wrt_append fits_in_def)
      moreover have "sorted_wrt before (take i (r_child parent) @ with_child new ins # outs)"
        using srt tk S(3) by (auto simp: sorted_wrt_append before_def)
      ultimately have "res_wf parent'"
        using sub W(2) C(3) "1.prems"(1) unfolding span(2)
        by (subst res_wf_iff) (auto simp: fits_in_def res_wf_iff [of parent])
      then show ?thesis using span(2) by simp
    qed
  qed
qed

subsection \<open>Exact requests\<close>

lemma request_scan_free:
  assumes "\<forall>c \<in> set cs. \<not> overlap new c"
  shows "\<exists>cs'. request_scan new cs = Granted cs'"
  using assms by (induction new cs rule: request_scan.induct) (auto simp: overlap_def not_le not_less)

lemma u_request_granted_iff:
  assumes "res_wf root" "res_wf new"
  shows "(\<exists>cs. u_request_resource root new = Granted cs) \<longleftrightarrow>
    fits_in new root \<and> (\<forall>c \<in> set (r_child root). \<not> overlap new c)"
proof
  assume "\<exists>cs. u_request_resource root new = Granted cs"
  then show "fits_in new root \<and> (\<forall>c \<in> set (r_child root). \<not> overlap new c)"
    using u_request_granted(2,3) [OF assms] by blast
next
  assume R: "fits_in new root \<and> (\<forall>c \<in> set (r_child root). \<not> overlap new c)"
  have "r_start new \<le> r_end new" using assms(2) by (simp add: res_wf_iff [of new])
  then show "\<exists>cs. u_request_resource root new = Granted cs"
    using R request_scan_free [of "r_child root" new] by (auto simp: u_request_resource_def fits_in_def not_less)
qed

subsection \<open>Busy regions\<close>

lemma with_child_id [simp]: "with_child r (r_child r) = r"
  by (simp add: with_child_def)

lemma with_child_twice [simp]: "with_child (with_child r cs) ds = with_child r ds"
  by (simp add: with_child_def)

abbreviation region :: "nat \<Rightarrow> u32 \<Rightarrow> u32 \<Rightarrow> resource" where
  "region nm s e \<equiv> Res nm s e True []"

text \<open>A busy region somewhere below a region.\<close>

inductive busy_below :: "resource \<Rightarrow> resource \<Rightarrow> bool" where
  here: "b \<in> set (r_child r) \<Longrightarrow> r_busy b \<Longrightarrow> busy_below r b"
| below: "c \<in> set (r_child r) \<Longrightarrow> busy_below c b \<Longrightarrow> busy_below r b"

lemma busy_below_within: "busy_below r b \<Longrightarrow> res_wf r \<Longrightarrow> fits_in b r \<and> r_start b \<le> r_end b"
proof (induction rule: busy_below.induct)
  case (here b r)
  then have "res_wf b" by (auto simp: res_wf_iff [of r])
  with here show ?case by (simp add: fits_in_def res_wf_iff [of r] res_wf_iff [of b])
next
  case (below c r b)
  then show ?case by (auto simp: fits_in_def res_wf_iff [of r] intro: order_trans)
qed

text \<open>How the loop of \<open>__request_region\<close> ends.\<close>

lemma request_region_cases:
  assumes "request_region_loop parent new = Some p'"
  obtains (granted) cs where "u_request_resource parent new = Granted cs" "p' = with_child parent cs"
  | (down) i c where "u_request_resource parent new = Conflict i" "\<not> r_busy (r_child parent ! i)"
      "request_region_loop (r_child parent ! i) new = Some c" "p' = with_child parent ((r_child parent)[i := c])"
  using assms by (subst (asm) request_region_loop.simps) (auto split: request.splits if_splits option.splits)

lemma request_region_fits:
  "request_region_loop parent new = Some p' \<Longrightarrow> fits_in new parent"
  by (erule request_region_cases)
    (auto simp: u_request_resource_def fits_in_def not_less split: if_splits)

lemma request_region_wf:
  "res_wf parent \<Longrightarrow> res_wf new \<Longrightarrow> r_busy new \<Longrightarrow> request_region_loop parent new = Some p' \<Longrightarrow>
   res_wf p' \<and> r_start p' = r_start parent \<and> r_end p' = r_end parent \<and> r_busy p' = r_busy parent \<and>
   r_name p' = r_name parent \<and> busy_below p' new"
proof (induction parent new arbitrary: p' rule: request_region_loop.induct)
  case (1 parent new)
  from "1.prems"(4) show ?case
  proof (cases rule: request_region_cases)
    case (granted cs)
    with u_request_granted(1,4) [OF "1.prems"(1,2)] "1.prems"(3) show ?thesis
      by (auto intro!: busy_below.here)
  next
    case (down i c)
    note C = u_request_conflict [OF down(1)]
    have "res_wf (r_child parent ! i)" using "1.prems"(1) C(1) by (simp add: res_wf_iff [of parent])
    from "1.IH" [OF down(1,2) this "1.prems"(2,3) down(3)]
    have c: "res_wf c" "r_start c = r_start (r_child parent ! i)" "r_end c = r_end (r_child parent ! i)" "busy_below c new"
      by simp_all
    have "c \<in> set ((r_child parent)[i := c])" using C(1) by (rule set_update_memI)
    then have "busy_below p' new" using c(4) down(4) by (auto intro: busy_below.below)
    with wf_replace_child [OF "1.prems"(1) C(1) c(1-3)] down(4) show ?thesis by simp
  qed
qed

lemma request_region_refuses:
  "res_wf parent \<Longrightarrow> busy_below parent b \<Longrightarrow> overlap new b \<Longrightarrow> request_region_loop parent new = None"
proof (induction parent new rule: request_region_loop.induct)
  case (1 parent new)
  show ?case
  proof (rule ccontr)
    assume "request_region_loop parent new \<noteq> None"
    then obtain p' where p': "request_region_loop parent new = Some p'" by blast
    from "1.prems"(2) obtain c where c: "c \<in> set (r_child parent)" "c = b \<and> r_busy b \<or> busy_below c b"
      by (auto elim: busy_below.cases)
    have wfc: "res_wf c" using "1.prems"(1) c(1) by (simp add: res_wf_iff [of parent])
    have ovc: "overlap new c"
      using c(2) "1.prems"(3) busy_below_within [OF _ wfc] by (auto simp: overlap_def fits_in_def intro: order_trans)
    from p' show False
    proof (cases rule: request_region_cases)
      case (granted cs)
      have "request_scan new (r_child parent) = Granted cs" "r_start new \<le> r_end new"
        using granted(1) by (auto simp: u_request_resource_def not_less split: if_splits)
      moreover have "\<forall>c \<in> set (r_child parent). r_start c \<le> r_end c"
        using "1.prems"(1) by (meson res_wf_iff)
      moreover have "sorted_wrt before (r_child parent)" using "1.prems"(1) by (simp add: res_wf_iff [of parent])
      ultimately show False using request_scan_granted c(1) ovc by blast
    next
      case (down i d)
      note C = u_request_conflict [OF down(1)]
      let ?c = "r_child parent ! i"
      have wfi: "res_wf ?c" using "1.prems"(1) C(1) by (simp add: res_wf_iff [of parent])
      have fit: "fits_in new ?c" by (rule request_region_fits [OF down(3)])
      show False
      proof (cases "c = ?c")
        case True
        then have "busy_below ?c b" using c(2) down(2) by auto
        from "1.IH" [OF down(1,2) wfi this "1.prems"(3)] down(3) show False by simp
      next
        case False
        obtain j where j: "j < length (r_child parent)" "c = r_child parent ! j" using c(1) by (auto simp: in_set_conv_nth)
        have "before c ?c \<or> before ?c c"
          using False j C(1) "1.prems"(1) by (cases i j rule: linorder_cases)
            (auto simp: res_wf_iff [of parent] sorted_wrt_iff_nth_less)
        then show False using ovc fit by (auto simp: before_def overlap_def fits_in_def)
      qed
    qed
  qed
qed

lemma release_scan_skip:
  assumes "\<forall>c \<in> set xs. \<not> overlap (region nm s e) c" "s \<le> e"
  shows "release_region_scan s e (xs @ ys) = map_option ((@) xs) (release_region_scan s e ys)"
  using assms(1)
proof (induction xs)
  case Nil
  show ?case by (simp add: option.map_ident_strong)
next
  case (Cons x xs)
  then have "\<not> (r_start x \<le> s \<and> e \<le> r_end x)"
    using assms(2) by (auto simp: overlap_def dest: order_trans)
  with Cons show ?case by (cases x) (auto simp: option.map_comp o_def)
qed

lemma release_scan_child:
  assumes "\<not> r_busy c" "r_start c \<le> s" "e \<le> r_end c" "release_region_scan s e (r_child c) = Some cs"
  shows "release_region_scan s e (c # ys) = Some (with_child c cs # ys)"
  using assms by (cases c) (simp add: with_child_def)

lemma region_roundtrip:
  "res_wf parent \<Longrightarrow> s \<le> e \<Longrightarrow> request_region_loop parent (region nm s e) = Some p' \<Longrightarrow>
   release_region_scan s e (r_child p') = Some (r_child parent)"
proof (induction parent "region nm s e" arbitrary: p' rule: request_region_loop.induct)
  case (1 parent)
  let ?new = "region nm s e"
  have new: "res_wf ?new" using "1.prems"(2) by simp
  from "1.prems"(3) show ?case
  proof (cases rule: request_region_cases)
    case (granted cs)
    note G = u_request_granted [OF "1.prems"(1) new granted(1)]
    obtain xs ys where xy: "r_child parent = xs @ ys" "cs = xs @ ?new # ys" using G(4) by blast
    then have "release_region_scan s e cs = map_option ((@) xs) (release_region_scan s e (?new # ys))"
      using G(3) "1.prems"(2) by (simp only: xy(2)) (intro release_scan_skip [of _ nm], simp_all)
    with granted(2) xy(1) show ?thesis by simp
  next
    case (down i c)
    note C = u_request_conflict [OF down(1)]
    let ?ci = "r_child parent ! i" and ?xs = "take i (r_child parent)" and ?ys = "drop (Suc i) (r_child parent)"
    have wfi: "res_wf ?ci" using "1.prems"(1) C(1) by (simp add: res_wf_iff [of parent])
    from request_region_wf [OF wfi new _ down(3)]
    have c: "r_start c = r_start ?ci" "r_end c = r_end ?ci" "r_busy c = r_busy ?ci" "r_name c = r_name ?ci" by simp_all
    have cid: "with_child c (r_child ?ci) = ?ci" using c by (cases ?ci) (simp add: with_child_def)
    have IH: "release_region_scan s e (r_child c) = Some (r_child ?ci)"
      using "1.hyps" [OF down(1,2) wfi "1.prems"(2) down(3)] .
    have "fits_in ?new ?ci" by (rule request_region_fits [OF down(3)])
    then have "release_region_scan s e (c # ?ys) = Some (?ci # ?ys)"
      using release_scan_child [of c s e "r_child ?ci" ?ys] c down(2) IH cid by (simp add: fits_in_def)
    moreover have "\<forall>x \<in> set ?xs. \<not> overlap ?new x"
      using C(1,4) by (auto simp: in_set_conv_nth overlap_def not_le)
    ultimately have "release_region_scan s e (?xs @ c # ?ys) = Some (?xs @ ?ci # ?ys)"
      using "1.prems"(2) by (simp add: release_scan_skip [of _ nm])
    moreover have "r_child p' = ?xs @ c # ?ys" using down(4) C(1) by (simp add: upd_conv_take_nth_drop)
    ultimately show ?thesis using C(1) by (simp add: Cons_nth_drop_Suc)
  qed
qed

subsection \<open>Allocation\<close>

lemma slot_start_unat:
  assumes a: "unat align = 2 ^ k" "k < 32" and fit: "max (unat start) (unat mn) + 2 ^ k \<le> 2 ^ 32"
  shows "max (unat start) (unat mn) \<le> unat (slot_start start mn align)" "2 ^ k dvd unat (slot_start start mn align)"
proof -
  define x where "x = (if start < mn then mn else start)"
  have x: "unat x = max (unat start) (unat mn)" by (simp add: x_def word_less_nat_alt max_def)
  have "x + align - 1 = x + (align - 1)" by simp
  moreover have "unat (align - 1) = 2 ^ k - 1" using a by (subst unat_sub_nowrap) auto
  ultimately have w: "unat (x + align - 1) = unat x + (2 ^ k - 1)"
    using fit x by (simp only: ) (subst unat_add_nowrap; auto simp: less_eq_Suc_le)
  have s: "unat (slot_start start mn align) = (unat x + (2 ^ k - 1)) div 2 ^ k * 2 ^ k"
    using align_down [OF a, of "x + align - 1"] unfolding w by (simp add: slot_start_def x_def)
  then show "2 ^ k dvd unat (slot_start start mn align)" by simp
  have "unat x + (2 ^ k - 1) < (unat x + (2 ^ k - 1)) div 2 ^ k * 2 ^ k + 2 ^ k"
    using div_mult_mod_eq [of "unat x + (2 ^ k - 1)" "2 ^ k"] mod_less_divisor [of "2 ^ k" "unat x + (2 ^ k - 1)"]
    by (metis add_less_cancel_left zero_less_numeral zero_less_power)
  then have "unat x < Suc ((unat x + (2 ^ k - 1)) div 2 ^ k * 2 ^ k)" by simp
  then show "max (unat start) (unat mn) \<le> unat (slot_start start mn align)" using x s by simp
qed

text \<open>At the top of the address space the round-up wraps around, to 0.\<close>

lemma slot_start_wraps:
  assumes a: "unat align = 2 ^ k" "k < 32" and wrap: "2 ^ 32 < max (unat start) (unat mn) + 2 ^ k"
  shows "slot_start start mn align = 0"
proof -
  define x where "x = (if start < mn then mn else start)"
  have x: "unat x = max (unat start) (unat mn)" by (simp add: x_def word_less_nat_alt max_def)
  have e: "x + align - 1 = x + (align - 1)" by simp
  have a1: "unat (align - 1) = 2 ^ k - 1" using a by (subst unat_sub_nowrap) auto
  have k1: "(1 :: nat) \<le> 2 ^ k" by simp
  have w: "2 ^ 32 \<le> unat x + (2 ^ k - 1)" using wrap k1 unfolding x by linarith
  have "unat (x + (align - 1)) = unat x + (2 ^ k - 1) - 2 ^ 32"
    using w unat_less_exp [of x] unat_less_exp [of "align - 1"] by (simp add: unat_word_ariths a1 mod_nat_eqI)
  moreover have "unat x < 2 ^ 32" using unat_less_exp [of x] by simp
  ultimately have "unat (x + (align - 1)) < 2 ^ k" using k1 by linarith
  then have "unat (slot_start start mn align) = 0"
    using align_down [OF a, of "x + (align - 1)"] unfolding slot_start_def x_def [symmetric] e by simp
  then show ?thesis by (simp add: unat_eq_0)
qed

lemma slot_start_aligned:
  assumes "unat align = 2 ^ k" "k < 32"
  shows "2 ^ k dvd unat (slot_start start mn align)"
  using align_down [OF assms, of "(if start < mn then mn else start) + align - 1"] by (simp add: slot_start_def)

lemma slot_start_min:
  assumes a: "unat align = 2 ^ k" "k < 32"
  shows "mn \<le> slot_start start mn align \<or> slot_start start mn align = 0"
  using slot_start_wraps [OF a, of start mn] slot_start_unat(1) [OF a, of start mn]
  by (cases "max (unat start) (unat mn) + 2 ^ k \<le> 2 ^ 32") (simp_all add: word_le_nat_alt)

text \<open>The starts that the search proposes, none of them so high that rounding up wraps around, and what the caller's
  callback may do with them: move the start of the candidate up and its end down, or nothing (as when it is NULL).\<close>

definition slot_starts :: "resource \<Rightarrow> u32 set" where
  "slot_starts root = insert (r_start root) ((\<lambda>c. r_end c + 1) ` set (r_child root))"

definition starts_low :: "resource \<Rightarrow> u32 \<Rightarrow> nat \<Rightarrow> bool" where
  "starts_low root mn k \<longleftrightarrow> unat mn + 2 ^ k \<le> 2 ^ 32 \<and> unat (r_start root) + 2 ^ k \<le> 2 ^ 32 \<and>
     (\<forall>c \<in> set (r_child root). unat (r_end c) + 1 + 2 ^ k \<le> 2 ^ 32)"

definition moves_up :: "(u32 \<times> u32 \<Rightarrow> u32 \<times> u32) \<Rightarrow> u32 set \<Rightarrow> bool" where
  "moves_up alignf S \<longleftrightarrow> (\<forall>s \<in> S. \<forall>e. s \<le> fst (alignf (s, e)) \<and> snd (alignf (s, e)) \<le> e)"

definition unmoved :: "(u32 \<times> u32 \<Rightarrow> u32 \<times> u32) \<Rightarrow> bool" where
  "unmoved alignf \<longleftrightarrow> (\<forall>se. alignf se = se)"

lemma slot_fits_unat:
  assumes "slot_fits sz (s, e)" "0 < unat sz"
  shows "unat s + unat sz - 1 \<le> unat e" "unat (s + sz - 1) = unat s + unat sz - 1"
proof -
  have "s < e" "sz - 1 \<le> e - s" using assms(1) by (simp_all add: slot_fits_def)
  then have "unat (sz - 1) \<le> unat (e - s)" "unat s < unat e" by (simp_all add: word_le_nat_alt word_less_nat_alt)
  moreover have "unat (sz - 1) = unat sz - 1" using assms(2) by (subst unat_sub_nowrap) auto
  ultimately show le: "unat s + unat sz - 1 \<le> unat e" by (simp add: unat_sub_nowrap)
  have "s + sz - 1 = s + (sz - 1)" by simp
  moreover have "unat s + unat (sz - 1) < 2 ^ 32" using le \<open>unat (sz - 1) = _\<close> unat_less_exp [of e] assms(2) by simp
  ultimately have "unat (s + sz - 1) = unat s + unat (sz - 1)" by (simp only:) (rule unat_add_nowrap, simp)
  then show "unat (s + sz - 1) = unat s + unat sz - 1" using \<open>unat (sz - 1) = _\<close> assms(2) by simp
qed

text \<open>A range that \<open>find_resource\<close> reports is the start of a candidate that fits.\<close>

lemma find_scan_candidate:
  assumes "find_scan alignf hi sz mn mx align start cs = Some (s, e)"
  shows "\<exists>x fin. slot_fits sz (candidate alignf mn mx align x fin) \<and> s = fst (candidate alignf mn mx align x fin) \<and> e = s + sz - 1"
  using assms by (induction cs arbitrary: start) (auto simp: Let_def split: if_splits)

lemma find_resource_candidate:
  assumes "find_resource alignf root sz mn mx align = Some (s, e)"
  shows "\<exists>x fin. slot_fits sz (candidate alignf mn mx align x fin) \<and> s = fst (candidate alignf mn mx align x fin) \<and> e = s + sz - 1"
  using assms unfolding find_resource_def by (cases "r_child root") (auto simp del: find_scan.simps dest!: find_scan_candidate split: if_splits)

text \<open>A range inside the root and the limits, apart from the children.\<close>

definition good_slot :: "u32 \<Rightarrow> u32 \<Rightarrow> u32 \<Rightarrow> u32 \<Rightarrow> resource list \<Rightarrow> u32 \<times> u32 \<Rightarrow> bool" where
  "good_slot lo hi mn mx cs se \<longleftrightarrow> lo \<le> fst se \<and> mn \<le> fst se \<and> snd se \<le> hi \<and> snd se \<le> mx \<and> fst se \<le> snd se \<and>
     (\<forall>c \<in> set cs. \<not> (fst se \<le> r_end c \<and> r_start c \<le> snd se))"

lemma candidate_slot:
  assumes al: "unat align = 2 ^ k" "k < 32" and up: "moves_up alignf {slot_start start mn align}"
    and fit: "unat start + 2 ^ k \<le> 2 ^ 32" "unat mn + 2 ^ k \<le> 2 ^ 32"
    and sl: "slot_fits sz (candidate alignf mn mx align start fin)" "0 < unat sz"
  defines "s \<equiv> fst (candidate alignf mn mx align start fin)"
  shows "start \<le> s" "mn \<le> s" "s + sz - 1 \<le> fin" "s + sz - 1 \<le> mx" "s \<le> s + sz - 1"
proof -
  let ?e = "if mx < fin then mx else fin"
  obtain e where c: "candidate alignf mn mx align start fin = (s, e)" and e: "e \<le> ?e" and up: "slot_start start mn align \<le> s"
    using up by (cases "candidate alignf mn mx align start fin") (auto simp: candidate_def moves_up_def s_def dest!: spec [of _ ?e])
  note F = slot_fits_unat [OF sl(1) [unfolded c] sl(2)]
  have "max (unat start) (unat mn) + 2 ^ k \<le> 2 ^ 32" using fit by simp
  from slot_start_unat(1) [OF al this] show "start \<le> s" "mn \<le> s" using up by (simp_all add: word_le_nat_alt)
  have "s + sz - 1 \<le> ?e" using F e by (simp add: word_le_nat_alt)
  then show "s + sz - 1 \<le> fin" "s + sz - 1 \<le> mx" by (auto simp: not_less split: if_splits)
  show "s \<le> s + sz - 1" using F(2) sl(2) by (simp add: word_le_nat_alt)
qed

lemma find_scan_sound:
  assumes al: "unat align = 2 ^ k" "k < 32" and sz: "0 < unat sz" and mn: "unat mn + 2 ^ k \<le> 2 ^ 32"
  shows "sorted_wrt before cs \<Longrightarrow>
    \<forall>c \<in> set cs. 0 < r_start c \<and> start \<le> r_start c \<and> r_start c \<le> r_end c \<and> r_end c \<le> hi \<and> unat (r_end c) + 1 + 2 ^ k \<le> 2 ^ 32 \<Longrightarrow>
    unat start + 2 ^ k \<le> 2 ^ 32 \<Longrightarrow>
    moves_up alignf ((\<lambda>x. slot_start x mn align) ` insert start ((\<lambda>c. r_end c + 1) ` set cs)) \<Longrightarrow>
    find_scan alignf hi sz mn mx align start cs = Some se \<Longrightarrow> good_slot start hi mn mx cs se"
proof (induction cs arbitrary: start)
  case Nil
  have up: "moves_up alignf {slot_start start mn align}" using Nil.prems(4) by (simp add: moves_up_def)
  have sl: "slot_fits sz (candidate alignf mn mx align start hi)"
    and se: "se = (fst (candidate alignf mn mx align start hi), fst (candidate alignf mn mx align start hi) + sz - 1)"
    using Nil.prems(5) by (auto simp: Let_def split: if_splits)
  from candidate_slot [OF al up Nil.prems(3) mn sl sz] show ?case by (simp add: good_slot_def se)
next
  case (Cons c cs)
  let ?fin = "r_start c - 1"
  have c: "0 < r_start c" "r_start c \<le> r_end c" "r_end c \<le> hi" "start \<le> r_start c" "unat (r_end c) + 1 + 2 ^ k \<le> 2 ^ 32" using Cons.prems(2) by simp_all
  have "0 < unat (r_start c)" using c(1) by (simp add: word_less_nat_alt)
  then have fin: "unat ?fin = unat (r_start c) - 1" by (subst unat_sub_nowrap) auto
  then have before_c: "x < r_start c" if "x \<le> ?fin" for x
    using that \<open>0 < unat (r_start c)\<close> by (simp add: word_le_nat_alt word_less_nat_alt)
  have later: "r_end c < r_start d" if "d \<in> set cs" for d using Cons.prems(1) that by (simp add: before_def)
  show ?case
  proof (cases "slot_fits sz (candidate alignf mn mx align start ?fin)")
    case True
    then have se: "se = (fst (candidate alignf mn mx align start ?fin), fst (candidate alignf mn mx align start ?fin) + sz - 1)"
      using Cons.prems(5) by (simp add: Let_def)
    have up: "moves_up alignf {slot_start start mn align}" using Cons.prems(4) by (simp add: moves_up_def)
    note S = candidate_slot [OF al up Cons.prems(3) mn True sz]
    have lt: "snd se < r_start c" using before_c S(3) by (simp add: se)
    moreover have "snd se < r_start d" if "d \<in> set cs" for d
      using lt c(2) later [OF that] by (meson less_le_trans less_trans)
    moreover have "snd se \<le> hi" using lt c(2,3) by (meson less_imp_le less_le_trans order_trans)
    ultimately show ?thesis using S by (auto simp: good_slot_def se not_le)
  next
    case False
    then have f: "find_scan alignf hi sz mn mx align (r_end c + 1) cs = Some se" using Cons.prems(5) by (simp add: Let_def)
    have "(1 :: nat) \<le> 2 ^ k" by simp
    then have "unat (r_end c) + 1 < 2 ^ 32" using c(5) by linarith
    then have e1: "unat (r_end c + 1) = unat (r_end c) + 1" by (subst unat_add_nowrap) auto
    have nxt: "r_end c + 1 \<le> r_start d" if "d \<in> set cs" for d
      using later [OF that] e1 by (simp add: word_le_nat_alt word_less_nat_alt Suc_le_eq)
    have IH: "good_slot (r_end c + 1) hi mn mx cs se"
      using Cons.prems(1,2,4) f e1 c(5) nxt by (intro Cons.IH) (auto simp: moves_up_def)
    have "start \<le> r_end c + 1" "r_end c < r_end c + 1"
      using e1 c(2,4) by (simp_all add: word_le_nat_alt word_less_nat_alt)
    then show ?thesis using IH by (auto simp: good_slot_def intro: order_trans dest: less_le_trans)
  qed
qed

lemma find_resource_sound:
  assumes al: "unat align = 2 ^ k" "k < 32" and sz: "0 < unat sz" and low: "starts_low root mn k"
    and up: "moves_up alignf ((\<lambda>x. slot_start x mn align) ` slot_starts root)"
    and wf: "res_wf root" and f: "find_resource alignf root sz mn mx align = Some se"
  shows "good_slot (r_start root) (r_end root) mn mx (r_child root) se"
proof -
  have top: "unat mn + 2 ^ k \<le> 2 ^ 32" "unat (r_start root) + 2 ^ k \<le> 2 ^ 32" "\<forall>c \<in> set (r_child root). unat (r_end c) + 1 + 2 ^ k \<le> 2 ^ 32"
    using low by (simp_all add: starts_low_def)
  note S = find_scan_sound [OF al sz top(1)]
  have W: "sorted_wrt before (r_child root)" "r_start root \<le> r_end root"
    "\<forall>c \<in> set (r_child root). r_start root \<le> r_start c \<and> r_start c \<le> r_end c \<and> r_end c \<le> r_end root"
    using wf by (simp_all add: res_wf_iff [of root]) (meson res_wf_iff)
  have pos: "0 < r_start d" if "before c d" for c d
    using that by (auto simp: before_def dest: order_le_less_trans [OF word_zero_le])
  show ?thesis
  proof (cases "r_child root")
    case Nil
    then show ?thesis using f S [where cs = "[]" and start = "r_start root" and se = se] top(2) up
      by (simp add: find_resource_def slot_starts_def)
  next
    case (Cons c cs)
    have cs: "\<forall>d \<in> set cs. 0 < r_start d \<and> r_end c < r_start d" using W(1) pos by (auto simp: Cons before_def)
    have c: "r_start root \<le> r_start c" "r_start c \<le> r_end c" "r_end c \<le> r_end root" "unat (r_end c) + 1 + 2 ^ k \<le> 2 ^ 32"
      using W(3) top(3) by (simp_all add: Cons)
    show ?thesis
    proof (cases "r_start c = 0")
      case False
      then have pos_c: "0 < r_start c" by (simp add: word_neq_0_conv)
      have "find_scan alignf (r_end root) sz mn mx align (r_start root) (c # cs) = Some se"
        using f False by (simp only: find_resource_def Cons list.case if_False)
      then show ?thesis unfolding Cons using W cs pos_c top up
        by (intro S) (auto simp only: Cons list.set insert_iff slot_starts_def image_insert)
    next
      case True
      have "(1 :: nat) \<le> 2 ^ k" by simp
      then have "unat (r_end c) + 1 < 2 ^ 32" using c(4) by linarith
      then have e1: "unat (r_end c + 1) = unat (r_end c) + 1" by (subst unat_add_nowrap) auto
      have nxt: "r_end c + 1 \<le> r_start d" if "d \<in> set cs" for d
        using cs that e1 by (simp add: word_le_nat_alt word_less_nat_alt Suc_le_eq)
      have "find_scan alignf (r_end root) sz mn mx align (r_end c + 1) cs = Some se"
        using f True by (simp add: find_resource_def Cons)
      then have "good_slot (r_end c + 1) (r_end root) mn mx cs se"
        using W cs nxt top(3) e1 c(4) up by (intro S) (auto simp: Cons moves_up_def slot_starts_def)
      moreover have "r_start root \<le> r_end c + 1" "r_end c < r_end c + 1"
        using e1 c by (simp_all add: word_le_nat_alt word_less_nat_alt)
      ultimately show ?thesis by (auto simp: good_slot_def Cons intro: order_trans dest: less_le_trans)
    qed
  qed
qed

subsection \<open>Properties\<close>

text \<open>C27. \<open>request_resource\<close> is exact: it succeeds if and only if the range lies inside the root and
  overlaps none of its children, it then adds exactly the new region and keeps the tree
  ordered and free of overlaps, and it answers \<open>-EBUSY\<close> otherwise.\<close>

theorem request_resource_exact:
  assumes "res_wf root" "res_wf new"
  shows "if fits_in new root \<and> (\<forall>c \<in> set (r_child root). \<not> overlap new c)
    then \<exists>root'. request_resource root new = Inr root' \<and> res_wf root' \<and>
      set (r_child root') = insert new (set (r_child root))
    else request_resource root new = Inl (Errno EBUSY)"
proof (cases "\<exists>cs. u_request_resource root new = Granted cs")
  case True
  then obtain cs where cs: "u_request_resource root new = Granted cs" by blast
  note G = u_request_granted [OF assms cs]
  have "set cs = insert new (set (r_child root))" using G(4) by auto
  with G(1) cs True u_request_granted_iff [OF assms] show ?thesis by (simp add: request_resource_def)
next
  case False
  then show ?thesis
    using u_request_granted_iff [OF assms] by (auto simp: request_resource_def split: request.split)
qed

definition ex_root :: resource where
  "ex_root = Res 0 0 0xFFFF False [Res 1 0x100 0x1FF True [], Res 2 0x400 0x7FF False [Res 3 0x500 0x5FF True []]]"

lemma ex_root_wf: "res_wf ex_root"
  by (simp add: ex_root_def before_def)

theorem request_resource_exact_witness:
  "\<exists>root'. request_resource ex_root (Res 4 0x200 0x3FF False []) = Inr root' \<and> res_wf root'"
  using request_resource_exact [OF ex_root_wf, of "Res 4 0x200 0x3FF False []"]
  by (auto simp: ex_root_def fits_in_def overlap_def)

text \<open>C28. \<open>insert_resource\<close>, which goes down into a region that contains the new one and takes the
  regions that the new one contains as its children, ends and keeps the tree well-formed.\<close>

theorem insert_resource_keeps_tree:
  assumes "res_wf parent" "res_wf new" "insert_resource parent new = Inr parent'"
  shows "res_wf parent' \<and> r_start parent' = r_start parent \<and> r_end parent' = r_end parent"
  using assms by (rule insert_resource_wf)

theorem insert_resource_keeps_tree_witness:
  "\<exists>p. insert_resource ex_root (Res 4 0 0x3FF False []) = Inr p \<and> res_wf p"
proof -
  have "insert_resource ex_root (Res 4 0 0x3FF False []) = Inr (Res 0 0 0xFFFF False
      [Res 4 0 0x3FF False [Res 1 0x100 0x1FF True []], Res 2 0x400 0x7FF False [Res 3 0x500 0x5FF True []]])"
    by (simp add: insert_resource.simps ex_root_def u_request_resource_def Let_def with_child_def)
  then show ?thesis using insert_resource_keeps_tree [OF ex_root_wf, of "Res 4 0 0x3FF False []"] by auto
qed

text \<open>C16. Busy regions are exclusive: after \<open>__request_region\<close> has given out a region, a request for
  any range that overlaps it fails, wherever in the tree it lies.\<close>

theorem request_region_exclusive:
  assumes "res_wf parent" "start \<le> start + n - 1" "u_request_region True parent nm start n = Some p"
    "start2 \<le> start + n - 1" "start \<le> start2 + n2 - 1"
  shows "u_request_region mem p nm2 start2 n2 = None"
proof -
  have R: "request_region_loop parent (region nm start (start + n - 1)) = Some p"
    using assms(3) by (simp add: u_request_region_def)
  have new: "res_wf (region nm start (start + n - 1))" using assms(2) by simp
  have "res_wf p \<and> busy_below p (region nm start (start + n - 1))"
    using request_region_wf [OF assms(1) new _ R] by simp
  then have "request_region_loop p (region nm2 start2 (start2 + n2 - 1)) = None"
    using assms(4,5) by (intro request_region_refuses) (auto simp: overlap_def)
  then show ?thesis by (simp add: u_request_region_def)
qed

lemma ex_region: "u_request_region True ex_root 9 0x440 0x20 =
  Some (Res 0 0 0xFFFF False [Res 1 0x100 0x1FF True [],
    Res 2 0x400 0x7FF False [Res 9 0x440 0x45F True [], Res 3 0x500 0x5FF True []]])"
  by (simp add: u_request_region_def request_region_loop.simps ex_root_def u_request_resource_def with_child_def)

theorem request_region_exclusive_witness:
  "u_request_region True (Res 0 0 0xFFFF False [Res 1 0x100 0x1FF True [],
    Res 2 0x400 0x7FF False [Res 9 0x440 0x45F True [], Res 3 0x500 0x5FF True []]]) 8 0x450 0x100 = None"
  using request_region_exclusive [OF ex_root_wf _ ex_region, where ?start2.0 = "0x450" and ?n2.0 = "0x100"
    and mem = True and ?nm2.0 = 8] by simp

text \<open>C29. \<open>__release_region\<close> undoes \<open>__request_region\<close>: the tree is the same as before.\<close>

theorem release_undoes_request_region:
  assumes "res_wf parent" "start \<le> start + n - 1" "u_request_region True parent nm start n = Some p"
  shows "u_release_region p start n = parent"
proof -
  have R: "request_region_loop parent (region nm start (start + n - 1)) = Some p"
    using assms(3) by (simp add: u_request_region_def)
  have new: "res_wf (region nm start (start + n - 1))" using assms(2) by simp
  have "release_region_scan start (start + n - 1) (r_child p) = Some (r_child parent)"
    by (rule region_roundtrip [OF assms(1,2) R])
  moreover have "with_child p (r_child parent) = parent"
    using request_region_wf [OF assms(1) new _ R] by (cases parent) (simp add: with_child_def)
  ultimately show ?thesis by (simp add: u_release_region_def)
qed

theorem release_undoes_request_region_witness:
  "u_release_region (Res 0 0 0xFFFF False [Res 1 0x100 0x1FF True [],
    Res 2 0x400 0x7FF False [Res 9 0x440 0x45F True [], Res 3 0x500 0x5FF True []]]) 0x440 0x20 = ex_root"
  using release_undoes_request_region [OF ex_root_wf _ ex_region] by simp

text \<open>C30. What \<open>allocate_resource\<close> allocates, whatever the limits and the callback: a range of the requested size inside the
  root that overlaps none of its children, and exactly this range is added to the tree. Without a callback it is aligned, ends at the maximum or
  below, and starts at the minimum or above, or at 0 (where the round-up has wrapped around). As long as no start that the
  search proposes is less than an alignment below the top of the address space, and the callback moves these starts only up and
  the end only down, the range that \<open>find_resource\<close> reports is within both limits, and the request for it cannot fail.\<close>

theorem allocate_resource_sound:
  assumes "res_wf root" "unat align = 2 ^ k" "k < 32" "0 < unat sz"
  shows "(\<forall>root' s e. allocate_resource alignf root nm sz mn mx align = Inr (root', s, e) \<longrightarrow>
      res_wf root' \<and> set (r_child root') = insert (Res nm s e False []) (set (r_child root)) \<and>
      fits_in (Res nm s e False []) root \<and> (\<forall>c \<in> set (r_child root). \<not> overlap (Res nm s e False []) c) \<and>
      unat e + 1 = unat s + unat sz \<and>
      (unmoved alignf \<longrightarrow> 2 ^ k dvd unat s \<and> e \<le> mx \<and> (mn \<le> s \<or> s = 0))) \<and>
    (starts_low root mn k \<and> moves_up alignf ((\<lambda>x. slot_start x mn align) ` slot_starts root) \<longrightarrow>
      (\<forall>s e. find_resource alignf root sz mn mx align = Some (s, e) \<longrightarrow>
        (\<exists>root'. allocate_resource alignf root nm sz mn mx align = Inr (root', s, e)) \<and> mn \<le> s \<and> e \<le> mx))"
proof (intro conjI allI impI)
  fix root' s e assume A: "allocate_resource alignf root nm sz mn mx align = Inr (root', s, e)"
  let ?new = "Res nm s e False []"
  obtain cs where f: "find_resource alignf root sz mn mx align = Some (s, e)" and g: "u_request_resource root ?new = Granted cs"
      and r: "root' = with_child root cs"
    using A by (auto simp: allocate_resource_def split: option.splits prod.splits request.splits)
  have "s \<le> e" using g by (auto simp: u_request_resource_def not_less split: if_splits)
  then have new: "res_wf ?new" by simp
  note G = u_request_granted [OF assms(1) new g]
  have "fits_in ?new root \<and> (\<forall>c \<in> set (r_child root). \<not> overlap ?new c)" using u_request_granted_iff [OF assms(1) new] g by blast
  then show "res_wf root'" "set (r_child root') = insert ?new (set (r_child root))" "fits_in ?new root" "\<forall>c \<in> set (r_child root). \<not> overlap ?new c"
    using G unfolding r by auto
  obtain x fin where c: "slot_fits sz (candidate alignf mn mx align x fin)" "s = fst (candidate alignf mn mx align x fin)" "e = s + sz - 1"
    using find_resource_candidate [OF f] by blast
  then have sl: "slot_fits sz (s, snd (candidate alignf mn mx align x fin))" by simp
  note F = slot_fits_unat [OF sl assms(4)]
  show "unat e + 1 = unat s + unat sz" using F(2) assms(4) c(3) by simp
  assume "unmoved alignf"
  then have u: "candidate alignf mn mx align x fin = (slot_start x mn align, if mx < fin then mx else fin)"
    by (simp add: candidate_def unmoved_def)
  then show "2 ^ k dvd unat s" "mn \<le> s \<or> s = 0" using slot_start_aligned [OF assms(2,3)] slot_start_min [OF assms(2,3)] c(2) by simp_all
  have "e \<le> (if mx < fin then mx else fin)" using F u c(3) by (simp add: word_le_nat_alt)
  then show "e \<le> mx" by (auto simp: not_less split: if_splits)
next
  fix s e assume L: "starts_low root mn k \<and> moves_up alignf ((\<lambda>x. slot_start x mn align) ` slot_starts root)"
    and f: "find_resource alignf root sz mn mx align = Some (s, e)"
  have S: "good_slot (r_start root) (r_end root) mn mx (r_child root) (s, e)"
    using find_resource_sound [OF assms(2-4) _ _ assms(1) f] L by blast
  then show "mn \<le> s" "e \<le> mx" by (simp_all add: good_slot_def)
  let ?new = "Res nm s e False []"
  have new: "res_wf ?new" using S by (simp add: good_slot_def)
  have "fits_in ?new root \<and> (\<forall>c \<in> set (r_child root). \<not> overlap ?new c)"
    using S by (simp add: good_slot_def fits_in_def overlap_def)
  then obtain cs where "u_request_resource root ?new = Granted cs"
    using u_request_granted_iff [OF assms(1) new] by blast
  then show "\<exists>root'. allocate_resource alignf root nm sz mn mx align = Inr (root', s, e)"
    using f by (simp add: allocate_resource_def)
qed

theorem allocate_resource_sound_witness:
  "\<exists>root'. allocate_resource id ex_root 4 0x80 0x110 0xFFF 0x100 = Inr (root', 0x200, 0x27F) \<and> res_wf root'"
proof -
  note A = allocate_resource_sound [where alignf = id and align = "0x100" and k = 8 and sz = "0x80" and root = ex_root
      and mn = "0x110" and mx = "0xFFF" and nm = 4, OF ex_root_wf]
  have "find_resource id ex_root 0x80 0x110 0xFFF 0x100 = Some (0x200, 0x27F)"
    by (simp add: ex_root_def find_resource_def candidate_def slot_start_def slot_fits_def Let_def)
  moreover have "starts_low ex_root 0x110 8" "moves_up id ((\<lambda>x. slot_start x 0x110 0x100) ` slot_starts ex_root)"
    by (simp_all add: starts_low_def moves_up_def ex_root_def)
  ultimately obtain root' where "allocate_resource id ex_root 4 0x80 0x110 0xFFF 0x100 = Inr (root', 0x200, 0x27F)" using A by auto
  then show ?thesis using A by auto
qed

text \<open>Near the top of the address space the alignment wraps around to 0: \<open>allocate_resource\<close> can
  succeed with a range below the minimum that the caller asked for.\<close>

lemma allocate_resource_ignores_min:
  "\<exists>root sz mn mx align root' s e. res_wf root \<and>
    allocate_resource id root 1 sz mn mx align = Inr (root', s, e) \<and> s < mn"
proof -
  let ?root = "Res 0 0 0xFFFFFFFF False [Res 2 0x10000 0x1FFFF True []]"
  have "allocate_resource id ?root 1 0x10 0xFFFF8000 0xFFFFFFFF 0x10000 =
      Inr (Res 0 0 0xFFFFFFFF False [Res 1 0 0xF False [], Res 2 0x10000 0x1FFFF True []], 0, 0xF)"
    by (simp add: allocate_resource_def find_resource_def candidate_def slot_start_def slot_fits_def
        u_request_resource_def with_child_def Let_def)
  moreover have "res_wf ?root" by (simp add: before_def)
  moreover have "(0::u32) < 0xFFFF8000" by simp
  ultimately show ?thesis by blast
qed

end
