(* ===== verification/Mtd.thy ===== *)
theory Mtd
  imports Prelude
begin

text \<open>
  Flash memory: the interface of an MTD device (\<open>include/linux/mtd/mtd.h\<close>), the table of the
  registered devices (\<open>drivers/mtd/mtdcore.c\<close>) and the driver that keeps a device in memory
  (\<open>drivers/mtd/devices/mtdram.c\<close>).

  \<open>struct mtd_info\<close> is a record whose function pointers are functions on the state of the device;
  a null pointer is \<open>None\<close>, and calling it is the fault \<open>NullPointer\<close>. \<open>*retlen\<close> is part of the
  result: the number of bytes written, or the length of the list of bytes read. An erasure also
  changes the caller's \<open>struct erase_info\<close>, which it gets and returns with the state. \<open>loff_t\<close> is an
  integer (its 64 bits are signed, and their overflow is undefined), \<open>size_t\<close> has 32 bits.
\<close>

subsection \<open>Devices\<close>

record mtd_erase_region_info =
  reg_offset :: u32
  reg_erasesize :: u32
  reg_numblocks :: u32

text \<open>The attributes of a device. \<open>mtd_addr\<close> is the address of the structure, by which the code
  compares devices; \<open>numeraseregions\<close> is the length of \<open>eraseregions\<close>; \<open>oobinfo\<close> stands for
  the layout of the spare area, which the modelled code only passes on.\<close>

record mtd_attr =
  mtd_addr :: nat
  mtd_type :: u8
  mtd_flags :: u32
  mtd_size :: u32
  mtd_erasesize :: u32
  mtd_oobblock :: u32
  mtd_oobsize :: u32
  mtd_ecctype :: u32
  mtd_eccsize :: u32
  mtd_name :: string
  mtd_oobinfo :: nat
  mtd_eraseregions :: "mtd_erase_region_info list"
  mtd_bank_size :: u32
  mtd_owner :: nat

datatype erase_state = MTD_ERASE_PENDING | MTD_ERASING | MTD_ERASE_SUSPEND | MTD_ERASE_DONE | MTD_ERASE_FAILED

text \<open>Of the field \<open>mtd\<close> of \<open>struct erase_info\<close> the model keeps what \<open>mtd_erase_callback\<close> reads:
  the offset of the device on its master when the device is a partition.\<close>

record erase_info =
  e_part :: "u32 option"
  e_addr :: u32
  e_len :: u32
  e_fail_addr :: u32
  e_state :: erase_state

type_synonym ('s, 'a) io = "'s \<Rightarrow> 'a res \<times> 's"

record 's mtd_info = mtd_attr +
  mtd_erase :: "('s \<times> erase_info, unit) io option"
  mtd_point :: "(int \<Rightarrow> u32 \<Rightarrow> ('s, int \<times> u32) io) option"
  mtd_unpoint :: "(int \<Rightarrow> int \<Rightarrow> u32 \<Rightarrow> ('s, unit) io) option"
  mtd_read :: "(int \<Rightarrow> u32 \<Rightarrow> ('s, u8 list) io) option"
  mtd_write :: "(int \<Rightarrow> u32 \<Rightarrow> u8 list \<Rightarrow> ('s, u32) io) option"
  mtd_read_ecc :: "(int \<Rightarrow> u32 \<Rightarrow> u8 list option \<Rightarrow> nat option \<Rightarrow> ('s, u8 list) io) option"
  mtd_write_ecc :: "(int \<Rightarrow> u32 \<Rightarrow> u8 list \<Rightarrow> u8 list option \<Rightarrow> nat option \<Rightarrow> ('s, u32) io) option"
  mtd_read_oob :: "(int \<Rightarrow> u32 \<Rightarrow> ('s, u8 list) io) option"
  mtd_write_oob :: "(int \<Rightarrow> u32 \<Rightarrow> u8 list \<Rightarrow> ('s, u32) io) option"
  mtd_read_user_prot_reg :: "(int \<Rightarrow> u32 \<Rightarrow> ('s, u8 list) io) option"
  mtd_read_fact_prot_reg :: "(int \<Rightarrow> u32 \<Rightarrow> ('s, u8 list) io) option"
  mtd_write_user_prot_reg :: "(int \<Rightarrow> u32 \<Rightarrow> u8 list \<Rightarrow> ('s, u32) io) option"
  mtd_readv :: "(u32 list \<Rightarrow> int \<Rightarrow> ('s, u8 list list) io) option"
  mtd_readv_ecc :: "(u32 list \<Rightarrow> int \<Rightarrow> u8 list option \<Rightarrow> nat option \<Rightarrow> ('s, u8 list list) io) option"
  mtd_writev :: "(u8 list list \<Rightarrow> int \<Rightarrow> ('s, u32) io) option"
  mtd_writev_ecc :: "(u8 list list \<Rightarrow> int \<Rightarrow> u8 list option \<Rightarrow> nat option \<Rightarrow> ('s, u32) io) option"
  mtd_sync :: "('s, unit) io option"
  mtd_lock :: "(int \<Rightarrow> u32 \<Rightarrow> ('s, unit) io) option"
  mtd_unlock :: "(int \<Rightarrow> u32 \<Rightarrow> ('s, unit) io) option"
  mtd_suspend :: "('s, unit) io option"
  mtd_resume :: "('s, unit) io option"
  mtd_block_isbad :: "(int \<Rightarrow> ('s, bool) io) option"
  mtd_block_markbad :: "(int \<Rightarrow> ('s, unit) io) option"

definition MTD_WRITEABLE :: u32 where "MTD_WRITEABLE = 3"
definition MTD_CAP_RAM :: u32 where "MTD_CAP_RAM = 11"

text \<open>Calling through a pointer that may be null.\<close>

definition invoke :: "'f option \<Rightarrow> ('f \<Rightarrow> ('s, 'a) io) \<Rightarrow> ('s, 'a) io" where
  "invoke p app s = (case p of None \<Rightarrow> (Inl NullPointer, s) | Some f \<Rightarrow> app f s)"

lemma invoke_simps [simp]: "invoke None app s = (Inl NullPointer, s)" "invoke (Some f) app s = app f s"
  by (simp_all add: invoke_def)

definition MTD_READ :: "('s, 'z) mtd_info_scheme \<Rightarrow> int \<Rightarrow> u32 \<Rightarrow> ('s, u8 list) io" where
  "MTD_READ mtd from len = invoke (mtd_read mtd) (\<lambda>f. f from len)"

definition MTD_WRITE :: "('s, 'z) mtd_info_scheme \<Rightarrow> int \<Rightarrow> u32 \<Rightarrow> u8 list \<Rightarrow> ('s, u32) io" where
  "MTD_WRITE mtd dest len buf = invoke (mtd_write mtd) (\<lambda>f. f dest len buf)"

definition MTD_ERASE :: "('s, 'z) mtd_info_scheme \<Rightarrow> ('s \<times> erase_info, unit) io" where
  "MTD_ERASE mtd = invoke (mtd_erase mtd) (\<lambda>f. f)"

text \<open>\<open>mtd_erase_callback\<close>, which a driver calls when an erasure has ended: it translates the
  addresses back into those of the partition. The caller's own callback only wakes it up.\<close>

definition mtd_erase_callback :: "erase_info \<Rightarrow> erase_info" where
  "mtd_erase_callback instr =
     (case e_part instr of
        None \<Rightarrow> instr
      | Some off \<Rightarrow>
          instr\<lparr>e_fail_addr := (if e_fail_addr instr \<noteq> 0xFFFFFFFF then e_fail_addr instr - off else e_fail_addr instr),
                e_addr := e_addr instr - off\<rparr>)"

subsection \<open>The table of devices\<close>

text \<open>The registered devices by the address of their structure, with the fields \<open>index\<close> and
  \<open>usecount\<close> of each structure, and the users to be told of devices that come and go; the calls
  of their functions are kept as a log.\<close>

datatype notification = Add nat nat | Remove nat nat

record mtd_core =
  mtd_table :: "nat option list"
  mtd_index :: "nat \<Rightarrow> nat"
  mtd_usecount :: "nat \<Rightarrow> int"
  mtd_notifiers :: "nat list"
  notified :: "notification list"

definition MAX_MTD_DEVICES :: nat where "MAX_MTD_DEVICES = 16"

text \<open>The first free slot.\<close>

fun free_slot :: "nat option list \<Rightarrow> nat option" where
  "free_slot [] = None"
| "free_slot (None # xs) = Some 0"
| "free_slot (Some a # xs) = map_option Suc (free_slot xs)"

text \<open>\<open>add_mtd_device\<close> returns 1, here \<open>False\<close>, when the table is full.\<close>

definition add_mtd_device :: "nat \<Rightarrow> mtd_core \<Rightarrow> bool \<times> mtd_core" where
  "add_mtd_device mtd c =
     (case free_slot (mtd_table c) of
        None \<Rightarrow> (False, c)
      | Some i \<Rightarrow>
          (True, c\<lparr>mtd_table := (mtd_table c)[i := Some mtd], mtd_index := (mtd_index c)(mtd := i),
                   mtd_usecount := (mtd_usecount c)(mtd := 0),
                   notified := notified c @ map (\<lambda>n. Add n mtd) (mtd_notifiers c)\<rparr>))"

definition del_mtd_device :: "nat \<Rightarrow> mtd_core \<Rightarrow> unit res \<times> mtd_core" where
  "del_mtd_device mtd c =
     (if MAX_MTD_DEVICES \<le> mtd_index c mtd then (Inl OutOfBounds, c)
      else if mtd_table c ! mtd_index c mtd \<noteq> Some mtd then (Inl (Errno ENODEV), c)
      else if mtd_usecount c mtd \<noteq> 0 then (Inl (Errno EBUSY), c)
      else (Inr (), c\<lparr>mtd_table := (mtd_table c)[mtd_index c mtd := None],
                      notified := notified c @ map (\<lambda>n. Remove n mtd) (mtd_notifiers c)\<rparr>))"

definition present :: "mtd_core \<Rightarrow> nat list" where
  "present c = List.map_filter id (mtd_table c)"

definition register_mtd_user :: "nat \<Rightarrow> mtd_core \<Rightarrow> mtd_core" where
  "register_mtd_user new c =
     c\<lparr>mtd_notifiers := new # mtd_notifiers c, notified := notified c @ map (Add new) (present c)\<rparr>"

definition unregister_mtd_user :: "nat \<Rightarrow> mtd_core \<Rightarrow> mtd_core" where
  "unregister_mtd_user old c =
     c\<lparr>mtd_notifiers := remove1 old (mtd_notifiers c), notified := notified c @ map (Remove old) (present c)\<rparr>"

text \<open>\<open>get_mtd_device(mtd, num)\<close>; \<open>alive\<close> is the answer of \<open>try_module_get\<close>.\<close>

definition get_mtd_device :: "bool \<Rightarrow> nat option \<Rightarrow> int \<Rightarrow> mtd_core \<Rightarrow> nat option res \<times> mtd_core" where
  "get_mtd_device alive mtd num c =
     (let found =
        (if num = -1 then Inr (if mtd \<in> set (mtd_table c) then mtd else None)
         else if num < int MAX_MTD_DEVICES
         then if num < 0 then Inl OutOfBounds
              else let ret = mtd_table c ! nat num in Inr (if mtd \<noteq> None \<and> mtd \<noteq> ret then None else ret)
         else Inr None)
      in case found of
           Inl e \<Rightarrow> (Inl e, c)
         | Inr None \<Rightarrow> (Inr None, c)
         | Inr (Some d) \<Rightarrow>
             if \<not> alive then (Inr None, c)
             else (Inr (Some d), c\<lparr>mtd_usecount := (mtd_usecount c)(d := mtd_usecount c d + 1)\<rparr>))"

definition put_mtd_device :: "nat \<Rightarrow> mtd_core \<Rightarrow> unit res \<times> mtd_core" where
  "put_mtd_device mtd c =
     (let n = mtd_usecount c mtd - 1; c' = c\<lparr>mtd_usecount := (mtd_usecount c)(mtd := n)\<rparr>
      in if n < 0 then (Inl BUG, c') else (Inr (), c'))"

subsection \<open>A device in memory\<close>

text \<open>The state is the memory at \<open>priv\<close>.\<close>

definition ram_erase :: "u32 \<Rightarrow> (u8 list \<times> erase_info, unit) io" where
  "ram_erase sz st =
     (let mem = fst st; instr = snd st in
      if sz < e_addr instr + e_len instr then (Inl (Errno EINVAL), mem, instr)
      else case memcpy mem (unat (e_addr instr)) (replicate (unat (e_len instr)) 0xFF) 0 (unat (e_len instr)) of
             Inl e \<Rightarrow> (Inl e, mem, instr)
           | Inr mem' \<Rightarrow> (Inr (), mem', mtd_erase_callback (instr\<lparr>e_state := MTD_ERASE_DONE\<rparr>)))"

definition ram_point :: "u32 \<Rightarrow> int \<Rightarrow> u32 \<Rightarrow> (u8 list, int \<times> u32) io" where
  "ram_point sz from len mem =
     (if uint sz < from + uint len then (Inl (Errno EINVAL), mem) else (Inr (from, len), mem))"

definition ram_unpoint :: "int \<Rightarrow> int \<Rightarrow> u32 \<Rightarrow> (u8 list, unit) io" where
  "ram_unpoint addr from len mem = (Inr (), mem)"

definition ram_read :: "u32 \<Rightarrow> int \<Rightarrow> u32 \<Rightarrow> (u8 list, u8 list) io" where
  "ram_read sz from len mem =
     (if uint sz < from + uint len then (Inl (Errno EINVAL), mem)
      else if from < 0 then (Inl OutOfBounds, mem)
      else case memcpy (replicate (unat len) 0) 0 mem (nat from) (unat len) of
             Inl e \<Rightarrow> (Inl e, mem) | Inr buf \<Rightarrow> (Inr buf, mem))"

definition ram_write :: "u32 \<Rightarrow> int \<Rightarrow> u32 \<Rightarrow> u8 list \<Rightarrow> (u8 list, u32) io" where
  "ram_write sz dest len buf mem =
     (if uint sz < dest + uint len then (Inl (Errno EINVAL), mem)
      else if dest < 0 then (Inl OutOfBounds, mem)
      else case memcpy mem (nat dest) buf 0 (unat len) of
             Inl e \<Rightarrow> (Inl e, mem) | Inr mem' \<Rightarrow> (Inr len, mem'))"

text \<open>\<open>mtdram_init_device\<close> fills in the structure and registers it.\<close>

definition ram_mtd :: "nat \<Rightarrow> u32 \<Rightarrow> u32 \<Rightarrow> string \<Rightarrow> u8 list mtd_info" where
  "ram_mtd addr sz esize name =
     \<lparr>mtd_addr = addr, mtd_type = 1, mtd_flags = MTD_CAP_RAM, mtd_size = sz, mtd_erasesize = esize,
      mtd_oobblock = 0, mtd_oobsize = 0, mtd_ecctype = 0, mtd_eccsize = 0, mtd_name = name, mtd_oobinfo = 0,
      mtd_eraseregions = [], mtd_bank_size = 0, mtd_owner = 0,
      mtd_erase = Some (ram_erase sz), mtd_point = Some (ram_point sz), mtd_unpoint = Some ram_unpoint,
      mtd_read = Some (ram_read sz), mtd_write = Some (ram_write sz), mtd_read_ecc = None, mtd_write_ecc = None,
      mtd_read_oob = None, mtd_write_oob = None, mtd_read_user_prot_reg = None, mtd_read_fact_prot_reg = None,
      mtd_write_user_prot_reg = None, mtd_readv = None, mtd_readv_ecc = None, mtd_writev = None,
      mtd_writev_ecc = None, mtd_sync = None, mtd_lock = None, mtd_unlock = None, mtd_suspend = None,
      mtd_resume = None, mtd_block_isbad = None, mtd_block_markbad = None\<rparr>"

definition mtdram_init_device :: "nat \<Rightarrow> u32 \<Rightarrow> u32 \<Rightarrow> string \<Rightarrow> mtd_core \<Rightarrow> u8 list mtd_info res \<times> mtd_core" where
  "mtdram_init_device addr sz esize name c =
     (case add_mtd_device addr c of
        (True, c') \<Rightarrow> (Inr (ram_mtd addr sz esize name), c')
      | (False, c') \<Rightarrow> (Inl (Errno EIO), c'))"

subsection \<open>Parts of a memory\<close>

definition slice :: "nat \<Rightarrow> nat \<Rightarrow> 'a list \<Rightarrow> 'a list" where
  "slice a n xs = take n (drop a xs)"

definition patch :: "nat \<Rightarrow> 'a list \<Rightarrow> 'a list \<Rightarrow> 'a list" where
  "patch a d xs = take a xs @ d @ drop (a + length d) xs"

lemma length_slice [simp]: "length (slice a n xs) = min n (length xs - a)"
  by (simp add: slice_def min.commute)

lemma length_patch [simp]: "a + length d \<le> length xs \<Longrightarrow> length (patch a d xs) = length xs"
  by (simp add: patch_def)

lemma slice_slice: "b + m \<le> n \<Longrightarrow> slice b m (slice a n xs) = slice (a + b) m xs"
  by (simp add: slice_def drop_take add.commute)

lemma nth_patch:
  "a + length d \<le> length xs \<Longrightarrow> i < length xs \<Longrightarrow>
   patch a d xs ! i = (if a \<le> i \<and> i < a + length d then d ! (i - a) else xs ! i)"
  by (auto simp: patch_def nth_append min_def)

lemma nth_slice: "a + n \<le> length xs \<Longrightarrow> i < n \<Longrightarrow> slice a n xs ! i = xs ! (a + i)"
  by (simp add: slice_def)

lemma slice_patch_same: "a + length d \<le> length xs \<Longrightarrow> n = length d \<Longrightarrow> slice a n (patch a d xs) = d"
  by (simp add: slice_def patch_def)

lemma slice_patch_inside:
  "a + length d \<le> length xs \<Longrightarrow> a \<le> b \<Longrightarrow> b + n \<le> a + length d \<Longrightarrow> slice b n (patch a d xs) = slice (b - a) n d"
  by (rule nth_equalityI) (auto simp: nth_slice nth_patch)

lemma slice_patch_disjoint:
  "a + length d \<le> length xs \<Longrightarrow> b + n \<le> length xs \<Longrightarrow> b + n \<le> a \<or> a + length d \<le> b \<Longrightarrow>
   slice b n (patch a d xs) = slice b n xs"
  by (rule nth_equalityI) (auto simp: nth_slice nth_patch)

lemma patch_patch_same: "a + length d \<le> length xs \<Longrightarrow> length d' = length d \<Longrightarrow> patch a d' (patch a d xs) = patch a d' xs"
  by (simp add: patch_def)

lemma patch_patch_disjoint:
  "a + length d \<le> length xs \<Longrightarrow> b + length d' \<le> length xs \<Longrightarrow> b + length d' \<le> a \<or> a + length d \<le> b \<Longrightarrow>
   patch a d (patch b d' xs) = patch b d' (patch a d xs)"
  by (rule nth_equalityI) (auto simp: nth_patch)

lemma patch_patch_inside:
  "a + length d \<le> length xs \<Longrightarrow> a \<le> b \<Longrightarrow> b + length d' \<le> a + length d \<Longrightarrow>
   patch a (patch (b - a) d' d) xs = patch b d' (patch a d xs)"
  by (rule nth_equalityI) (auto simp: nth_patch)

lemma patch_slice: "a + n \<le> length xs \<Longrightarrow> patch a (slice a n xs) xs = xs"
  by (rule nth_equalityI) (auto simp: nth_patch nth_slice)

text \<open>What a change at an address does to a part of the memory that holds it.\<close>

lemma slice_of_patch:
  assumes "off + sz \<le> length xs" "a + length d \<le> sz"
  shows "slice off sz (patch (off + a) d xs) = patch a d (slice off sz xs)"
  using assms by (intro nth_equalityI) (auto simp: nth_patch nth_slice)

lemma memcpy_patch: "a + n \<le> length dst \<Longrightarrow> n = length src \<Longrightarrow> memcpy dst a src 0 n = Inr (patch a src dst)"
  by (simp add: memcpy_def patch_def)

subsection \<open>The contract of a device\<close>

text \<open>What users of a device rely on for requests inside the device. A read does not change the
  contents and returns a part of them (possibly less than asked for). A write and an erasure
  change nothing outside their range, whatever they return; a write that reports success on
  erased bytes has stored the data, and an erasure that ends in \<open>MTD_ERASE_DONE\<close> has set all
  bits. \<open>good\<close> is the invariant of the device's state.\<close>

locale mtd_device =
  fixes mtd :: "'s mtd_info" and contents :: "'s \<Rightarrow> u8 list" and good :: "'s \<Rightarrow> bool"
  assumes contents_length: "good s \<Longrightarrow> length (contents s) = unat (mtd_size mtd)"
    and read_law: "good s \<Longrightarrow> from + unat len \<le> unat (mtd_size mtd) \<Longrightarrow> MTD_READ mtd (int from) len s = (r, s') \<Longrightarrow>
      good s' \<and> contents s' = contents s \<and>
      (\<forall>d. r = Inr d \<longrightarrow> length d \<le> unat len \<and> d = slice from (length d) (contents s))"
    and write_law: "good s \<Longrightarrow> dest + unat len \<le> unat (mtd_size mtd) \<Longrightarrow> unat len \<le> length buf \<Longrightarrow>
      MTD_WRITE mtd (int dest) len buf s = (r2, s') \<Longrightarrow>
      good s' \<and> (\<exists>d. length d = unat len \<and> contents s' = patch dest d (contents s) \<and>
        (r2 = Inr len \<longrightarrow> slice dest (unat len) (contents s) = replicate (unat len) 0xFF \<longrightarrow> d = take (unat len) buf))"
    and erase_law: "good s \<Longrightarrow> unat (e_addr instr) + unat (e_len instr) \<le> unat (mtd_size mtd) \<Longrightarrow>
      MTD_ERASE mtd (s, instr) = (r3, s', i) \<Longrightarrow>
      good s' \<and> (\<exists>d. length d = unat (e_len instr) \<and> contents s' = patch (unat (e_addr instr)) d (contents s) \<and>
        (r3 = Inr () \<longrightarrow> e_state i = MTD_ERASE_DONE \<longrightarrow> d = replicate (unat (e_len instr)) 0xFF))"
begin

lemma write_good: "good s \<Longrightarrow> dest + unat len \<le> unat (mtd_size mtd) \<Longrightarrow> unat len \<le> length buf \<Longrightarrow>
    MTD_WRITE mtd (int dest) len buf s = (r, s') \<Longrightarrow> good s'"
  using write_law by blast

lemma erase_good: "good s \<Longrightarrow> unat (e_addr instr) + unat (e_len instr) \<le> unat (mtd_size mtd) \<Longrightarrow>
    MTD_ERASE mtd (s, instr) = (r, s', i) \<Longrightarrow> good s'"
  using erase_law by blast

text \<open>Erasing a range and writing it.\<close>

lemma erase_then_write:
  assumes s: "good s" and range: "unat (e_addr instr) + unat (e_len instr) \<le> unat (mtd_size mtd)"
    and buf: "unat (e_len instr) \<le> length buf"
    and e: "MTD_ERASE mtd (s, instr) = (Inr (), t, i)" "e_state i = MTD_ERASE_DONE"
    and w: "MTD_WRITE mtd (int (unat (e_addr instr))) (e_len instr) buf t = (r, u)"
  shows "\<exists>d. length d = unat (e_len instr) \<and> contents u = patch (unat (e_addr instr)) d (contents s) \<and>
    (r = Inr (e_len instr) \<longrightarrow> d = take (unat (e_len instr)) buf)"
proof -
  let ?n = "unat (e_len instr)" and ?a = "unat (e_addr instr)"
  have t: "good t" by (rule erase_good [OF s range e(1)])
  have len: "length (contents s) = unat (mtd_size mtd)" by (rule contents_length [OF s])
  have ct: "contents t = patch ?a (replicate ?n 0xFF) (contents s)" using erase_law [OF s range e(1)] e(2) by auto
  then have "slice ?a ?n (contents t) = replicate ?n 0xFF" using range len by (simp add: slice_patch_same)
  then obtain d where d: "length d = ?n" "contents u = patch ?a d (contents t)" "r = Inr (e_len instr) \<longrightarrow> d = take ?n buf"
    using write_law [OF t range buf w] by auto
  moreover have "patch ?a d (contents t) = patch ?a d (contents s)"
    using d(1) range len by (simp add: ct patch_patch_same)
  ultimately show ?thesis by auto
qed

end

lemma ram_mtd_sel [simp]:
  "mtd_size (ram_mtd addr sz esize name) = sz" "mtd_erasesize (ram_mtd addr sz esize name) = esize"
  "mtd_flags (ram_mtd addr sz esize name) = MTD_CAP_RAM"
  "mtd_read_ecc (ram_mtd addr sz esize name) = None" "mtd_write_ecc (ram_mtd addr sz esize name) = None"
  by (simp_all add: ram_mtd_def)

lemma ram_read_ok:
  assumes "length mem = unat sz" "from + unat len \<le> unat sz"
  shows "ram_read sz (int from) len mem = (Inr (slice from (unat len) mem), mem)"
proof -
  have "int from + int (unat len) \<le> int (unat sz)" using assms(2) by linarith
  then have "int from + uint len \<le> uint sz" by simp
  with assms show ?thesis by (simp add: ram_read_def memcpy_def slice_def)
qed

lemma ram_write_ok:
  assumes "length mem = unat sz" "dest + unat len \<le> unat sz" "unat len \<le> length buf"
  shows "ram_write sz (int dest) len buf mem = (Inr len, patch dest (take (unat len) buf) mem)"
proof -
  have "int dest + int (unat len) \<le> int (unat sz)" using assms(2) by linarith
  then have "int dest + uint len \<le> uint sz" by simp
  with assms show ?thesis by (simp add: ram_write_def memcpy_def patch_def min_absorb2)
qed

lemma ram_erase_ok:
  assumes "length mem = unat sz" "unat (e_addr instr) + unat (e_len instr) \<le> unat sz"
  shows "ram_erase sz (mem, instr) = (Inr (),
    patch (unat (e_addr instr)) (replicate (unat (e_len instr)) 0xFF) mem,
    mtd_erase_callback (instr\<lparr>e_state := MTD_ERASE_DONE\<rparr>))"
proof -
  have "unat (e_addr instr) + unat (e_len instr) < 2 ^ LENGTH(32)"
    using assms(2) unat_less_exp [of sz] by simp
  then have "unat (e_addr instr + e_len instr) = unat (e_addr instr) + unat (e_len instr)" by (rule unat_add_nowrap)
  then have "\<not> sz < e_addr instr + e_len instr" using assms(2) by (simp add: word_less_nat_alt)
  with assms show ?thesis by (simp add: ram_erase_def memcpy_patch)
qed

lemma mtd_erase_callback_state [simp]: "e_state (mtd_erase_callback instr) = e_state instr"
  by (simp add: mtd_erase_callback_def split: option.split)

interpretation ramdev: mtd_device "ram_mtd addr sz esize name" "\<lambda>mem. mem" "\<lambda>mem. length mem = unat sz"
  for addr sz esize name
proof
  show "length s' = unat sz \<and> s' = s \<and> (\<forall>d. r = Inr d \<longrightarrow> length d \<le> unat len \<and> d = slice a (length d) s)"
    if "length s = unat sz" "a + unat len \<le> unat (mtd_size (ram_mtd addr sz esize name))"
      "MTD_READ (ram_mtd addr sz esize name) (int a) len s = (r, s')" for s a len r s'
  proof -
    have rs: "(r, s') = (Inr (slice a (unat len) s), s)"
      using that ram_read_ok [of s sz a len] by (auto simp: MTD_READ_def ram_mtd_def)
    moreover have "length (slice a (unat len) s) = unat len" using that(1,2) by simp
    ultimately show ?thesis using that(1) by simp
  qed
next
  show "length s' = unat sz \<and> (\<exists>d. length d = unat len \<and> s' = patch dest d s \<and>
      (r = Inr len \<longrightarrow> slice dest (unat len) s = replicate (unat len) 0xFF \<longrightarrow> d = take (unat len) buf))"
    if "length s = unat sz" "dest + unat len \<le> unat (mtd_size (ram_mtd addr sz esize name))" "unat len \<le> length buf"
      "MTD_WRITE (ram_mtd addr sz esize name) (int dest) len buf s = (r, s')" for s dest len buf r s'
  proof -
    have rs: "(r, s') = (Inr len, patch dest (take (unat len) buf) s)"
      using that ram_write_ok [of s sz dest len buf] by (simp add: MTD_WRITE_def ram_mtd_def)
    then show ?thesis using that(1,2,3) by (intro conjI exI [of _ "take (unat len) buf"]) auto
  qed
next
  show "length s' = unat sz \<and> (\<exists>d. length d = unat (e_len instr) \<and> s' = patch (unat (e_addr instr)) d s \<and>
      (r = Inr () \<longrightarrow> e_state i = MTD_ERASE_DONE \<longrightarrow> d = replicate (unat (e_len instr)) 0xFF))"
    if "length s = unat sz" "unat (e_addr instr) + unat (e_len instr) \<le> unat (mtd_size (ram_mtd addr sz esize name))"
      "MTD_ERASE (ram_mtd addr sz esize name) (s, instr) = (r, s', i)" for s instr r s' i
  proof -
    have "s' = patch (unat (e_addr instr)) (replicate (unat (e_len instr)) 0xFF) s"
      using that ram_erase_ok [of s sz instr] by (simp add: MTD_ERASE_def ram_mtd_def)
    then show ?thesis using that(1,2) by (intro conjI exI [of _ "replicate (unat (e_len instr)) 0xFF"]) auto
  qed
qed simp

subsection \<open>What users of the table see\<close>

text \<open>The devices a user knows of after the calls of its functions.\<close>

definition see :: "nat \<Rightarrow> notification \<Rightarrow> nat set \<Rightarrow> nat set" where
  "see n e S = (case e of Add m a \<Rightarrow> if m = n then insert a S else S | Remove m a \<Rightarrow> if m = n then S - {a} else S)"

definition seen :: "nat \<Rightarrow> notification list \<Rightarrow> nat set" where
  "seen n log = fold (see n) log {}"

lemma seen_Nil [simp]: "seen n [] = {}"
  by (simp add: seen_def)

lemma seen_snoc: "seen n (log @ [e]) = see n e (seen n log)"
  by (simp add: seen_def)

lemma seen_add_all: "seen n (log @ map (\<lambda>m. Add m a) ns) = (if n \<in> set ns then insert a (seen n log) else seen n log)"
  by (induction ns rule: rev_induct) (auto simp: seen_snoc see_def simp flip: append_assoc)

lemma seen_remove_all: "seen n (log @ map (\<lambda>m. Remove m a) ns) = (if n \<in> set ns then seen n log - {a} else seen n log)"
  by (induction ns rule: rev_induct) (auto simp: seen_snoc see_def simp flip: append_assoc)

lemma seen_add_list: "seen n (log @ map (Add m) ds) = (if m = n then seen n log \<union> set ds else seen n log)"
  by (induction ds rule: rev_induct) (auto simp: seen_snoc see_def simp flip: append_assoc)

lemma seen_remove_list: "seen n (log @ map (Remove m) ds) = (if m = n then seen n log - set ds else seen n log)"
  by (induction ds rule: rev_induct) (auto simp: seen_snoc see_def simp flip: append_assoc)

lemma set_present: "a \<in> set (present c) \<longleftrightarrow> Some a \<in> set (mtd_table c)"
  by (force simp: present_def List.map_filter_def)

lemma free_slot_Some: "free_slot xs = Some i \<Longrightarrow> i < length xs \<and> xs ! i = None"
  by (induction xs arbitrary: i rule: free_slot.induct) auto

lemma free_slot_None: "free_slot xs = None \<longleftrightarrow> None \<notin> set xs"
  by (induction xs rule: free_slot.induct) auto

definition core_inv :: "mtd_core \<Rightarrow> bool" where
  "core_inv c \<longleftrightarrow> length (mtd_table c) = MAX_MTD_DEVICES \<and>
     (\<forall>i < length (mtd_table c). \<forall>a. mtd_table c ! i = Some a \<longrightarrow> mtd_index c a = i) \<and>
     distinct (mtd_notifiers c) \<and>
     (\<forall>n. seen n (notified c) = (if n \<in> set (mtd_notifiers c) then {a. Some a \<in> set (mtd_table c)} else {}))"

definition core_init :: "mtd_core \<Rightarrow> bool" where
  "core_init c \<longleftrightarrow> mtd_table c = replicate MAX_MTD_DEVICES None \<and> mtd_notifiers c = [] \<and> notified c = []"

text \<open>A device is registered once, and a user once.\<close>

inductive core_step :: "mtd_core \<Rightarrow> mtd_core \<Rightarrow> bool" where
  add: "Some a \<notin> set (mtd_table c) \<Longrightarrow> core_step c (snd (add_mtd_device a c))"
| del: "core_step c (snd (del_mtd_device a c))"
| reg: "n \<notin> set (mtd_notifiers c) \<Longrightarrow> core_step c (register_mtd_user n c)"
| unreg: "n \<in> set (mtd_notifiers c) \<Longrightarrow> core_step c (unregister_mtd_user n c)"
| get: "core_step c (snd (get_mtd_device alive m num c))"
| put: "core_step c (snd (put_mtd_device a c))"

lemma set_update_free:
  assumes "i < length xs" "xs ! i = None"
  shows "Some b \<in> set (xs[i := Some a]) \<longleftrightarrow> b = a \<or> Some b \<in> set xs"
proof
  assume "b = a \<or> Some b \<in> set xs"
  then consider "b = a" | j where "j < length xs" "xs ! j = Some b" by (auto simp: in_set_conv_nth)
  then show "Some b \<in> set (xs[i := Some a])"
  proof cases
    case 1
    then show ?thesis using assms(1) by (simp add: set_update_memI)
  next
    case 2
    then have "i \<noteq> j" using assms(2) by auto
    then have "xs[i := Some a] ! j = Some b" using 2 by simp
    then show ?thesis using 2(1) by (metis length_list_update nth_mem)
  qed
next
  assume "Some b \<in> set (xs[i := Some a])"
  then show "b = a \<or> Some b \<in> set xs" using set_update_subset_insert [of xs i "Some a"] by auto
qed

lemma set_update_gone:
  assumes "i < length xs" "\<forall>j < length xs. xs ! j = Some a \<longrightarrow> j = i" "xs ! i = Some a"
  shows "Some b \<in> set (xs[i := None]) \<longleftrightarrow> b \<noteq> a \<and> Some b \<in> set xs"
proof
  assume "Some b \<in> set (xs[i := None])"
  then obtain j where j: "j < length xs" "xs[i := None] ! j = Some b" by (auto simp: in_set_conv_nth)
  have ji: "j \<noteq> i" using j assms(1) by (metis nth_list_update_eq option.distinct(1))
  then have xb: "xs ! j = Some b" using j(2) by simp
  then have "b \<noteq> a" using assms(2) j(1) ji by blast
  then show "b \<noteq> a \<and> Some b \<in> set xs" using nth_mem [OF j(1)] xb by simp
next
  assume "b \<noteq> a \<and> Some b \<in> set xs"
  then obtain j where j: "b \<noteq> a" "j < length xs" "xs ! j = Some b" by (auto simp: in_set_conv_nth)
  then have "xs[i := None] ! j = Some b" using assms(3) by (metis nth_list_update_neq option.inject)
  then show "Some b \<in> set (xs[i := None])" using j(2) by (metis length_list_update nth_mem)
qed

lemma add_mtd_device_inv:
  assumes "core_inv c" "Some a \<notin> set (mtd_table c)"
  shows "core_inv (snd (add_mtd_device a c))"
proof (cases "free_slot (mtd_table c)")
  case None
  with assms(1) show ?thesis by (simp add: add_mtd_device_def)
next
  case (Some i)
  note F = free_slot_Some [OF Some]
  have "mtd_table c ! j \<noteq> Some a" if "j < length (mtd_table c)" for j using assms(2) that nth_mem by metis
  with assms(1) F show ?thesis
    by (simp add: add_mtd_device_def Some core_inv_def seen_add_all set_update_free nth_list_update) auto
qed

lemma del_mtd_device_inv:
  assumes "core_inv c"
  shows "core_inv (snd (del_mtd_device a c))"
proof (cases "MAX_MTD_DEVICES \<le> mtd_index c a \<or> mtd_table c ! mtd_index c a \<noteq> Some a \<or> mtd_usecount c a \<noteq> 0")
  case True
  with assms show ?thesis by (auto simp: del_mtd_device_def)
next
  case False
  then have i: "mtd_index c a < length (mtd_table c)" "mtd_table c ! mtd_index c a = Some a"
    using assms by (simp_all add: core_inv_def)
  have u: "\<forall>j < length (mtd_table c). mtd_table c ! j = Some a \<longrightarrow> j = mtd_index c a" using assms by (simp add: core_inv_def)
  show ?thesis
    using False assms i set_update_gone [OF i(1) u i(2)]
    by (simp add: del_mtd_device_def core_inv_def seen_remove_all nth_list_update) auto
qed

lemma get_mtd_device_same:
  "mtd_table (snd (get_mtd_device alive m num c)) = mtd_table c"
  "mtd_index (snd (get_mtd_device alive m num c)) = mtd_index c"
  "mtd_notifiers (snd (get_mtd_device alive m num c)) = mtd_notifiers c"
  "notified (snd (get_mtd_device alive m num c)) = notified c"
  by (auto simp: get_mtd_device_def Let_def split: sum.split option.split)

lemma core_step_inv: "core_step c d \<Longrightarrow> core_inv c \<Longrightarrow> core_inv d"
proof (induction rule: core_step.induct)
  case (add a c)
  then show ?case by (simp add: add_mtd_device_inv)
next
  case (del c a)
  then show ?case by (simp add: del_mtd_device_inv)
next
  case (reg n c)
  then show ?case by (simp add: core_inv_def register_mtd_user_def seen_add_list) (auto simp: set_present)
next
  case (unreg n c)
  then show ?case by (simp add: core_inv_def unregister_mtd_user_def seen_remove_list) (auto simp: set_present)
next
  case (get c alive m num)
  then show ?case by (simp add: core_inv_def get_mtd_device_same)
next
  case (put c a)
  then show ?case by (simp add: core_inv_def put_mtd_device_def Let_def)
qed

interpretation mtdcore: transition_system core_init core_step core_inv
proof
  show "core_inv c" if "core_init c" for c using that by (auto simp: core_init_def core_inv_def)
qed (rule core_step_inv)

text \<open>C34. In every state of the device table that the operations of \<open>mtdcore.c\<close> reach, each device
  stands in the slot of its index and in no other, and each registered user has been told of
  exactly the devices that are present (and a user that is not registered, of none).\<close>

theorem mtd_users_see_table:
  assumes "core_init c" "core_step\<^sup>*\<^sup>* c d"
  shows "(\<forall>i < MAX_MTD_DEVICES. \<forall>a. mtd_table d ! i = Some a \<longrightarrow> mtd_index d a = i) \<and>
    (\<forall>n. seen n (notified d) = (if n \<in> set (mtd_notifiers d) then {a. Some a \<in> set (mtd_table d)} else {}))"
  using mtdcore.reachable_inv [OF assms] by (simp add: core_inv_def)

definition ex_core :: mtd_core where
  "ex_core = \<lparr>mtd_table = replicate MAX_MTD_DEVICES None, mtd_index = (\<lambda>_. 0), mtd_usecount = (\<lambda>_. 0),
     mtd_notifiers = [], notified = []\<rparr>"

theorem mtd_users_see_table_witness:
  "seen 5 (notified (snd (add_mtd_device 70 (register_mtd_user 5 ex_core)))) = {70}"
proof -
  let ?c = "register_mtd_user 5 ex_core"
  have a: "core_step ex_core ?c" by (rule core_step.reg) (simp add: ex_core_def)
  have b: "core_step ?c (snd (add_mtd_device 70 ?c))"
    by (rule core_step.add) (simp add: ex_core_def register_mtd_user_def)
  have "core_init ex_core" by (simp add: core_init_def ex_core_def)
  from mtd_users_see_table [OF this rtranclp.rtrancl_into_rtrancl [OF r_into_rtranclp [of core_step, OF a] b]]
  have "seen 5 (notified (snd (add_mtd_device 70 ?c))) = {a. Some a \<in> set (mtd_table (snd (add_mtd_device 70 ?c)))}"
    by (simp add: add_mtd_device_def register_mtd_user_def ex_core_def MAX_MTD_DEVICES_def eval_nat_numeral)
  also have "\<dots> = {70}"
    by (auto simp: add_mtd_device_def register_mtd_user_def ex_core_def MAX_MTD_DEVICES_def eval_nat_numeral)
  finally show ?thesis .
qed

end
