(* ===== verification/Mtd_Part.thy ===== *)
theory Mtd_Part
  imports Mtd
begin

text \<open>
  Partitions of a flash device, \<open>drivers/mtd/mtdpart.c\<close>, and the partition table of the DNS-323,
  \<open>drivers/mtd/maps/physmap.c\<close>. A partition is itself an MTD device, whose functions translate
  the address, limit or refuse the request, and call the master device.
\<close>

subsection \<open>Partitions\<close>

record 's mtd_part =
  p_mtd :: mtd_attr
  p_master :: "'s mtd_info"
  p_offset :: u32
  p_index :: nat
  p_registered :: bool

definition writeable :: "mtd_attr \<Rightarrow> bool" where
  "writeable mtd \<longleftrightarrow> mtd_flags mtd AND MTD_WRITEABLE \<noteq> 0"

text \<open>The adjustment of the length that the reading and writing functions share.\<close>

definition clamp :: "u32 \<Rightarrow> int \<Rightarrow> u32 \<Rightarrow> u32" where
  "clamp sz from len =
     (if uint sz \<le> from then 0 else if uint sz < from + uint len then of_int (uint sz - from) else len)"

definition part_read :: "'s mtd_part \<Rightarrow> int \<Rightarrow> u32 \<Rightarrow> ('s, u8 list) io" where
  "part_read p from len =
     (let n = clamp (mtd_size (p_mtd p)) from len; a = from + uint (p_offset p) in
      if mtd_read_ecc (p_master p) = None then invoke (mtd_read (p_master p)) (\<lambda>f. f a n)
      else invoke (mtd_read_ecc (p_master p)) (\<lambda>f. f a n None (Some (mtd_oobinfo (p_mtd p)))))"

definition part_point :: "'s mtd_part \<Rightarrow> int \<Rightarrow> u32 \<Rightarrow> ('s, int \<times> u32) io" where
  "part_point p from len =
     (let n = clamp (mtd_size (p_mtd p)) from len
      in invoke (mtd_point (p_master p)) (\<lambda>f. f (from + uint (p_offset p)) n))"

definition part_unpoint :: "'s mtd_part \<Rightarrow> int \<Rightarrow> int \<Rightarrow> u32 \<Rightarrow> ('s, unit) io" where
  "part_unpoint p addr from len = invoke (mtd_unpoint (p_master p)) (\<lambda>f. f addr (from + uint (p_offset p)) len)"

text \<open>A null \<open>oobsel\<close> means the layout of the partition.\<close>

definition part_oobsel :: "'s mtd_part \<Rightarrow> nat option \<Rightarrow> nat option" where
  "part_oobsel p oobsel = (if oobsel = None then Some (mtd_oobinfo (p_mtd p)) else oobsel)"

definition part_read_ecc :: "'s mtd_part \<Rightarrow> int \<Rightarrow> u32 \<Rightarrow> u8 list option \<Rightarrow> nat option \<Rightarrow> ('s, u8 list) io" where
  "part_read_ecc p from len eccbuf oobsel =
     (let n = clamp (mtd_size (p_mtd p)) from len
      in invoke (mtd_read_ecc (p_master p)) (\<lambda>f. f (from + uint (p_offset p)) n eccbuf (part_oobsel p oobsel)))"

definition part_read_oob :: "'s mtd_part \<Rightarrow> int \<Rightarrow> u32 \<Rightarrow> ('s, u8 list) io" where
  "part_read_oob p from len =
     (let n = clamp (mtd_size (p_mtd p)) from len
      in invoke (mtd_read_oob (p_master p)) (\<lambda>f. f (from + uint (p_offset p)) n))"

definition part_read_user_prot_reg :: "'s mtd_part \<Rightarrow> int \<Rightarrow> u32 \<Rightarrow> ('s, u8 list) io" where
  "part_read_user_prot_reg p from len = invoke (mtd_read_user_prot_reg (p_master p)) (\<lambda>f. f from len)"

definition part_read_fact_prot_reg :: "'s mtd_part \<Rightarrow> int \<Rightarrow> u32 \<Rightarrow> ('s, u8 list) io" where
  "part_read_fact_prot_reg p from len = invoke (mtd_read_fact_prot_reg (p_master p)) (\<lambda>f. f from len)"

definition part_write :: "'s mtd_part \<Rightarrow> int \<Rightarrow> u32 \<Rightarrow> u8 list \<Rightarrow> ('s, u32) io" where
  "part_write p dest len buf s =
     (if \<not> writeable (p_mtd p) then (Inl (Errno EROFS), s)
      else let n = clamp (mtd_size (p_mtd p)) dest len; a = dest + uint (p_offset p) in
        if mtd_write_ecc (p_master p) = None then invoke (mtd_write (p_master p)) (\<lambda>f. f a n buf) s
        else invoke (mtd_write_ecc (p_master p)) (\<lambda>f. f a n buf None (Some (mtd_oobinfo (p_mtd p)))) s)"

definition part_write_ecc :: "'s mtd_part \<Rightarrow> int \<Rightarrow> u32 \<Rightarrow> u8 list \<Rightarrow> u8 list option \<Rightarrow> nat option \<Rightarrow> ('s, u32) io" where
  "part_write_ecc p dest len buf eccbuf oobsel s =
     (if \<not> writeable (p_mtd p) then (Inl (Errno EROFS), s)
      else let n = clamp (mtd_size (p_mtd p)) dest len in
        invoke (mtd_write_ecc (p_master p)) (\<lambda>f. f (dest + uint (p_offset p)) n buf eccbuf (part_oobsel p oobsel)) s)"

definition part_write_oob :: "'s mtd_part \<Rightarrow> int \<Rightarrow> u32 \<Rightarrow> u8 list \<Rightarrow> ('s, u32) io" where
  "part_write_oob p dest len buf s =
     (if \<not> writeable (p_mtd p) then (Inl (Errno EROFS), s)
      else let n = clamp (mtd_size (p_mtd p)) dest len in
        invoke (mtd_write_oob (p_master p)) (\<lambda>f. f (dest + uint (p_offset p)) n buf) s)"

definition part_write_user_prot_reg :: "'s mtd_part \<Rightarrow> int \<Rightarrow> u32 \<Rightarrow> u8 list \<Rightarrow> ('s, u32) io" where
  "part_write_user_prot_reg p from len buf = invoke (mtd_write_user_prot_reg (p_master p)) (\<lambda>f. f from len buf)"

text \<open>The vectored functions do not limit the request.\<close>

definition part_writev :: "'s mtd_part \<Rightarrow> u8 list list \<Rightarrow> int \<Rightarrow> ('s, u32) io" where
  "part_writev p vecs dest s =
     (if \<not> writeable (p_mtd p) then (Inl (Errno EROFS), s)
      else if mtd_writev_ecc (p_master p) = None
      then invoke (mtd_writev (p_master p)) (\<lambda>f. f vecs (dest + uint (p_offset p))) s
      else invoke (mtd_writev_ecc (p_master p))
             (\<lambda>f. f vecs (dest + uint (p_offset p)) None (Some (mtd_oobinfo (p_mtd p)))) s)"

definition part_readv :: "'s mtd_part \<Rightarrow> u32 list \<Rightarrow> int \<Rightarrow> ('s, u8 list list) io" where
  "part_readv p vecs from =
     (if mtd_readv_ecc (p_master p) = None
      then invoke (mtd_readv (p_master p)) (\<lambda>f. f vecs (from + uint (p_offset p)))
      else invoke (mtd_readv_ecc (p_master p))
             (\<lambda>f. f vecs (from + uint (p_offset p)) None (Some (mtd_oobinfo (p_mtd p)))))"

definition part_writev_ecc :: "'s mtd_part \<Rightarrow> u8 list list \<Rightarrow> int \<Rightarrow> u8 list option \<Rightarrow> nat option \<Rightarrow> ('s, u32) io" where
  "part_writev_ecc p vecs dest eccbuf oobsel s =
     (if \<not> writeable (p_mtd p) then (Inl (Errno EROFS), s)
      else invoke (mtd_writev_ecc (p_master p)) (\<lambda>f. f vecs (dest + uint (p_offset p)) eccbuf (part_oobsel p oobsel)) s)"

definition part_readv_ecc :: "'s mtd_part \<Rightarrow> u32 list \<Rightarrow> int \<Rightarrow> u8 list option \<Rightarrow> nat option \<Rightarrow> ('s, u8 list list) io" where
  "part_readv_ecc p vecs from eccbuf oobsel =
     invoke (mtd_readv_ecc (p_master p)) (\<lambda>f. f vecs (from + uint (p_offset p)) eccbuf (part_oobsel p oobsel))"

text \<open>An erasure is refused when it starts outside the partition; its length is not looked at.
  The address in the caller's structure is changed.\<close>

definition part_erase :: "'s mtd_part \<Rightarrow> ('s \<times> erase_info, unit) io" where
  "part_erase p st =
     (let s = fst st; instr = snd st in
      if \<not> writeable (p_mtd p) then (Inl (Errno EROFS), s, instr)
      else if mtd_size (p_mtd p) \<le> e_addr instr then (Inl (Errno EINVAL), s, instr)
      else invoke (mtd_erase (p_master p)) (\<lambda>f. f) (s, instr\<lparr>e_addr := e_addr instr + p_offset p\<rparr>))"

definition part_lock :: "'s mtd_part \<Rightarrow> int \<Rightarrow> u32 \<Rightarrow> ('s, unit) io" where
  "part_lock p ofs len s =
     (if uint (mtd_size (p_mtd p)) < uint len + ofs then (Inl (Errno EINVAL), s)
      else invoke (mtd_lock (p_master p)) (\<lambda>f. f (ofs + uint (p_offset p)) len) s)"

definition part_unlock :: "'s mtd_part \<Rightarrow> int \<Rightarrow> u32 \<Rightarrow> ('s, unit) io" where
  "part_unlock p ofs len s =
     (if uint (mtd_size (p_mtd p)) < uint len + ofs then (Inl (Errno EINVAL), s)
      else invoke (mtd_unlock (p_master p)) (\<lambda>f. f (ofs + uint (p_offset p)) len) s)"

definition part_sync :: "'s mtd_part \<Rightarrow> ('s, unit) io" where
  "part_sync p = invoke (mtd_sync (p_master p)) (\<lambda>f. f)"

definition part_suspend :: "'s mtd_part \<Rightarrow> ('s, unit) io" where
  "part_suspend p = invoke (mtd_suspend (p_master p)) (\<lambda>f. f)"

definition part_resume :: "'s mtd_part \<Rightarrow> ('s, unit) io" where
  "part_resume p = invoke (mtd_resume (p_master p)) (\<lambda>f. f)"

definition part_block_isbad :: "'s mtd_part \<Rightarrow> int \<Rightarrow> ('s, bool) io" where
  "part_block_isbad p ofs s =
     (if uint (mtd_size (p_mtd p)) \<le> ofs then (Inl (Errno EINVAL), s)
      else invoke (mtd_block_isbad (p_master p)) (\<lambda>f. f (ofs + uint (p_offset p))) s)"

definition part_block_markbad :: "'s mtd_part \<Rightarrow> int \<Rightarrow> ('s, unit) io" where
  "part_block_markbad p ofs s =
     (if \<not> writeable (p_mtd p) then (Inl (Errno EROFS), s)
      else if uint (mtd_size (p_mtd p)) \<le> ofs then (Inl (Errno EINVAL), s)
      else invoke (mtd_block_markbad (p_master p)) (\<lambda>f. f (ofs + uint (p_offset p))) s)"

text \<open>The partition as a device: its functions are there when the master's are; only the first
  partition suspends and resumes the master.\<close>

definition slave_mtd :: "'s mtd_part \<Rightarrow> 's mtd_info" where
  "slave_mtd p =
     (let m = p_master p in
      mtd_attr.extend (p_mtd p)
        (mtd_info.fields
          (Some (part_erase p))
          (if mtd_point m \<noteq> None \<and> mtd_unpoint m \<noteq> None then Some (part_point p) else None)
          (if mtd_point m \<noteq> None \<and> mtd_unpoint m \<noteq> None then Some (part_unpoint p) else None)
          (Some (part_read p)) (Some (part_write p))
          (if mtd_read_ecc m \<noteq> None then Some (part_read_ecc p) else None)
          (if mtd_write_ecc m \<noteq> None then Some (part_write_ecc p) else None)
          (if mtd_read_oob m \<noteq> None then Some (part_read_oob p) else None)
          (if mtd_write_oob m \<noteq> None then Some (part_write_oob p) else None)
          (if mtd_read_user_prot_reg m \<noteq> None then Some (part_read_user_prot_reg p) else None)
          (if mtd_read_fact_prot_reg m \<noteq> None then Some (part_read_fact_prot_reg p) else None)
          (if mtd_write_user_prot_reg m \<noteq> None then Some (part_write_user_prot_reg p) else None)
          (if mtd_readv m \<noteq> None then Some (part_readv p) else None)
          (if mtd_readv_ecc m \<noteq> None then Some (part_readv_ecc p) else None)
          (if mtd_writev m \<noteq> None then Some (part_writev p) else None)
          (if mtd_writev_ecc m \<noteq> None then Some (part_writev_ecc p) else None)
          (if mtd_sync m \<noteq> None then Some (part_sync p) else None)
          (if mtd_lock m \<noteq> None then Some (part_lock p) else None)
          (if mtd_unlock m \<noteq> None then Some (part_unlock p) else None)
          (if p_index p = 0 \<and> mtd_suspend m \<noteq> None \<and> mtd_resume m \<noteq> None then Some (part_suspend p) else None)
          (if p_index p = 0 \<and> mtd_suspend m \<noteq> None \<and> mtd_resume m \<noteq> None then Some (part_resume p) else None)
          (if mtd_block_isbad m \<noteq> None then Some (part_block_isbad p) else None)
          (if mtd_block_markbad m \<noteq> None then Some (part_block_markbad p) else None)))"

subsection \<open>Creating and deleting partitions\<close>

record mtd_partition =
  pt_name :: string
  pt_size :: u32
  pt_offset :: u32
  pt_mask_flags :: u32
  pt_mtdp :: bool

definition MTDPART_OFS_NXTBLK :: u32 where "MTDPART_OFS_NXTBLK = - 2"
definition MTDPART_OFS_APPEND :: u32 where "MTDPART_OFS_APPEND = - 1"
definition MTDPART_SIZ_FULL :: u32 where "MTDPART_SIZ_FULL = 0"

text \<open>The table of devices and the list \<open>mtd_partitions\<close>, newest first.\<close>

record 's part_state =
  ps_core :: mtd_core
  mtd_partitions :: "'s mtd_part list"

fun del_partitions_loop :: "nat \<Rightarrow> 's mtd_part list \<Rightarrow> mtd_core \<Rightarrow> 's mtd_part list \<times> mtd_core" where
  "del_partitions_loop master [] c = ([], c)"
| "del_partitions_loop master (slave # rest) c =
     (if mtd_addr (p_master slave) = master
      then del_partitions_loop master rest
             (if p_registered slave then snd (del_mtd_device (mtd_addr (p_mtd slave)) c) else c)
      else let (ps, c') = del_partitions_loop master rest c in (slave # ps, c'))"

definition del_mtd_partitions :: "'s mtd_info \<Rightarrow> 's part_state \<Rightarrow> 's part_state" where
  "del_mtd_partitions master st =
     (let (ps, c) = del_partitions_loop (mtd_addr master) (mtd_partitions st) (ps_core st)
      in st\<lparr>mtd_partitions := ps, ps_core := c\<rparr>)"

text \<open>Offset and size as the definition asks for, with \<open>cur\<close> the end of the previous partition.\<close>

definition wanted_offset :: "'s mtd_info \<Rightarrow> u32 \<Rightarrow> mtd_partition \<Rightarrow> u32" where
  "wanted_offset master cur pt =
     (let off = (if pt_offset pt = MTDPART_OFS_APPEND then cur else pt_offset pt);
          emask = mtd_erasesize master - 1
      in if off = MTDPART_OFS_NXTBLK then (cur + emask) AND NOT emask else off)"

definition wanted_size :: "'s mtd_info \<Rightarrow> u32 \<Rightarrow> mtd_partition \<Rightarrow> u32" where
  "wanted_size master off pt = (if pt_size pt = MTDPART_SIZ_FULL then mtd_size master - off else pt_size pt)"

text \<open>The sanity checks: what lies outside the device is disabled or cut off.\<close>

definition sane :: "u32 \<Rightarrow> u32 \<times> u32 \<Rightarrow> u32 \<times> u32" where
  "sane msize os =
     (let (off, sz) = (if msize \<le> fst os then (0, 0) else os)
      in if msize < off + sz then (off, msize - off) else (off, sz))"

text \<open>The largest erase size of the regions that the partition touches, from the region that holds
  its first byte. When the first region starts behind the partition, the code reads \<open>regions[-1]\<close>.\<close>

fun region_max :: "u32 \<Rightarrow> u32 \<Rightarrow> mtd_erase_region_info list \<Rightarrow> u32" where
  "region_max fin es [] = es"
| "region_max fin es (r # rs) =
     (if reg_offset r < fin
      then region_max fin (if es < reg_erasesize r then reg_erasesize r else es) rs else es)"

definition part_erasesize :: "'s mtd_info \<Rightarrow> u32 \<times> u32 \<Rightarrow> u32 res" where
  "part_erasesize master os =
     (if 1 < length (mtd_eraseregions master)
      then let i = length (takeWhile (\<lambda>r. reg_offset r \<le> fst os) (mtd_eraseregions master))
           in if i = 0 then Inl OutOfBounds
              else Inr (region_max (fst os + snd os) 0 (drop (i - 1) (mtd_eraseregions master)))
      else Inr (mtd_erasesize master))"

text \<open>A partition that does not start and end on an erase block is made read-only.\<close>

definition part_flags :: "u32 \<Rightarrow> u32 \<times> u32 \<Rightarrow> u32 \<Rightarrow> u32 res" where
  "part_flags fl os es =
     (if fl AND MTD_WRITEABLE = 0 then Inr fl
      else if es = 0 then Inl DivByZero
      else if fst os mod es \<noteq> 0 then Inr (fl AND NOT MTD_WRITEABLE)
      else if snd os mod es \<noteq> 0 then Inr (fl AND NOT MTD_WRITEABLE)
      else Inr fl)"

definition setup_part :: "'s mtd_info \<Rightarrow> nat \<Rightarrow> nat \<Rightarrow> u32 \<Rightarrow> mtd_partition \<Rightarrow> ('s mtd_part \<times> u32) res" where
  "setup_part master addr i cur pt =
     (let off = wanted_offset master cur pt; sz = wanted_size master off pt;
          os = sane (mtd_size master) (off, sz) in
      case part_erasesize master os of
        Inl e \<Rightarrow> Inl e
      | Inr es \<Rightarrow>
          (case part_flags (mtd_flags master AND NOT (pt_mask_flags pt)) os es of
             Inl e \<Rightarrow> Inl e
           | Inr fl \<Rightarrow>
               Inr (\<lparr>p_mtd =
                      \<lparr>mtd_addr = addr, mtd_type = mtd_type master, mtd_flags = fl, mtd_size = snd os,
                       mtd_erasesize = es, mtd_oobblock = mtd_oobblock master, mtd_oobsize = mtd_oobsize master,
                       mtd_ecctype = mtd_ecctype master, mtd_eccsize = mtd_eccsize master, mtd_name = pt_name pt,
                       mtd_oobinfo = mtd_oobinfo master, mtd_eraseregions = [], mtd_bank_size = mtd_bank_size master,
                       mtd_owner = mtd_owner master\<rparr>,
                     p_master = master, p_offset = fst os, p_index = i, p_registered = \<not> pt_mtdp pt\<rparr>,
                    off + sz)))"

text \<open>\<open>add_mtd_partitions\<close>: \<open>alloc i\<close> is the address that \<open>kmalloc\<close> returns for partition \<open>i\<close>. The result of
  \<open>add_mtd_device\<close> is ignored. (The structure is on the list before its fields are set, which only
  matters in a fault.)\<close>

fun add_partitions_loop :: "(nat \<Rightarrow> nat option) \<Rightarrow> 's mtd_info \<Rightarrow> nat \<Rightarrow> u32 \<Rightarrow> mtd_partition list \<Rightarrow>
    's part_state \<Rightarrow> unit res \<times> 's part_state" where
  "add_partitions_loop alloc master i cur [] st = (Inr (), st)"
| "add_partitions_loop alloc master i cur (pt # rest) st =
     (case alloc i of
        None \<Rightarrow> (Inl (Errno ENOMEM), del_mtd_partitions master st)
      | Some addr \<Rightarrow>
          (case setup_part master addr i cur pt of
             Inl e \<Rightarrow> (Inl e, st)
           | Inr (slave, cur') \<Rightarrow>
               let c = (ps_core st)\<lparr>mtd_index := (mtd_index (ps_core st))(addr := 0),
                                    mtd_usecount := (mtd_usecount (ps_core st))(addr := 0)\<rparr>;
                   c' = (if pt_mtdp pt then c else snd (add_mtd_device addr c))
               in add_partitions_loop alloc master (Suc i) cur' rest
                    (st\<lparr>ps_core := c', mtd_partitions := slave # mtd_partitions st\<rparr>)))"

definition add_mtd_partitions :: "(nat \<Rightarrow> nat option) \<Rightarrow> 's mtd_info \<Rightarrow> mtd_partition list \<Rightarrow>
    's part_state \<Rightarrow> unit res \<times> 's part_state" where
  "add_mtd_partitions alloc master parts st = add_partitions_loop alloc master 0 0 parts st"

subsection \<open>Partition parsers\<close>

text \<open>A parser returns the number of partitions or an error, and the table. \<open>alive\<close> is the answer of
  \<open>try_module_get\<close> for the module of a parser.\<close>

record 's mtd_part_parser =
  pp_name :: string
  pp_owner :: nat
  parse_fn :: "'s mtd_info \<Rightarrow> u32 \<Rightarrow> int \<times> mtd_partition list"

definition get_partition_parser :: "(nat \<Rightarrow> bool) \<Rightarrow> 's mtd_part_parser list \<Rightarrow> string \<Rightarrow> 's mtd_part_parser option" where
  "get_partition_parser alive parsers name = List.find (\<lambda>p. pp_name p = name \<and> alive (pp_owner p)) parsers"

definition register_mtd_parser :: "'s mtd_part_parser \<Rightarrow> 's mtd_part_parser list \<Rightarrow> 's mtd_part_parser list" where
  "register_mtd_parser p parsers = p # parsers"

definition deregister_mtd_parser :: "string \<Rightarrow> 's mtd_part_parser list \<Rightarrow> 's mtd_part_parser list" where
  "deregister_mtd_parser name parsers =
     (case List.extract (\<lambda>p. pp_name p = name) parsers of None \<Rightarrow> parsers | Some (xs, p, ys) \<Rightarrow> xs @ ys)"

fun parse_mtd_partitions :: "(nat \<Rightarrow> bool) \<Rightarrow> 's mtd_part_parser list \<Rightarrow> 's mtd_info \<Rightarrow> u32 \<Rightarrow>
    int \<times> mtd_partition list \<Rightarrow> string list \<Rightarrow> int \<times> mtd_partition list" where
  "parse_mtd_partitions alive parsers master origin ret [] = ret"
| "parse_mtd_partitions alive parsers master origin ret (typ # types) =
     (if 0 < fst ret then ret
      else case get_partition_parser alive parsers typ of
             None \<Rightarrow> parse_mtd_partitions alive parsers master origin ret types
           | Some p \<Rightarrow> parse_mtd_partitions alive parsers master origin (parse_fn p master origin) types)"

subsection \<open>The flash of the DNS-323\<close>

definition part_def :: "string \<Rightarrow> u32 \<Rightarrow> u32 \<Rightarrow> mtd_partition" where
  "part_def name sz off = \<lparr>pt_name = name, pt_size = sz, pt_offset = off, pt_mask_flags = 0, pt_mtdp = False\<rparr>"

definition physmap_partitions :: "mtd_partition list" where
  "physmap_partitions =
     [part_def ''MTD1'' 0x00010000 0,
      part_def ''MTD2'' 0x00010000 0x00010000,
      part_def ''Linux Kernel'' 0x00180000 0x00020000,
      part_def ''File System'' 0x00630000 0x001A0000,
      part_def ''u-boot'' 0x00030000 0x007d0000]"

text \<open>\<open>init_physmap\<close>: \<open>mapped\<close> tells whether \<open>ioremap\<close> succeeds, \<open>probe\<close> is \<open>do_map_probe\<close> on the
  names of the chip drivers. The error codes of \<open>add_mtd_partitions\<close> are ignored.\<close>

fun probe_loop :: "(string \<Rightarrow> 's mtd_info option) \<Rightarrow> string list \<Rightarrow> 's mtd_info option" where
  "probe_loop probe [] = None"
| "probe_loop probe (typ # types) = (case probe typ of Some m \<Rightarrow> Some m | None \<Rightarrow> probe_loop probe types)"

definition ignore_errno :: "unit res \<times> 'a \<Rightarrow> unit res \<times> 'a" where
  "ignore_errno r = (case fst r of Inl (Errno e) \<Rightarrow> (Inr (), snd r) | _ \<Rightarrow> r)"

definition init_physmap :: "bool \<Rightarrow> (string \<Rightarrow> 's mtd_info option) \<Rightarrow> nat \<Rightarrow> (nat \<Rightarrow> bool) \<Rightarrow> 's mtd_part_parser list \<Rightarrow>
    (nat \<Rightarrow> nat option) \<Rightarrow> 's part_state \<Rightarrow> unit res \<times> 's part_state" where
  "init_physmap mapped probe this_module alive parsers alloc st =
     (if \<not> mapped then (Inl (Errno EIO), st)
      else case probe_loop probe [''cfi_probe'', ''jedec_probe'', ''map_rom''] of
             None \<Rightarrow> (Inl (Errno ENXIO), st)
           | Some m \<Rightarrow>
               let mymtd = m\<lparr>mtd_owner := this_module\<rparr>;
                   (n, tab) = parse_mtd_partitions alive parsers mymtd 0 (0, []) [''cmdlinepart'', ''RedBoot'']
               in if 0 < n then ignore_errno (add_mtd_partitions alloc mymtd (take (nat n) tab) st)
                  else ignore_errno (add_mtd_partitions alloc mymtd physmap_partitions st))"

subsection \<open>A partition of a device is a device\<close>

lemma slave_mtd_sel [simp]:
  "mtd_size (slave_mtd p) = mtd_size (p_mtd p)" "mtd_flags (slave_mtd p) = mtd_flags (p_mtd p)"
  "mtd_erasesize (slave_mtd p) = mtd_erasesize (p_mtd p)"
  "mtd_read (slave_mtd p) = Some (part_read p)" "mtd_write (slave_mtd p) = Some (part_write p)"
  "mtd_erase (slave_mtd p) = Some (part_erase p)"
  by (simp_all add: slave_mtd_def Let_def mtd_attr.defs mtd_info.defs)

lemma clamp_nat:
  "clamp sz (int a) len =
     (if unat sz \<le> a then 0 else if unat sz < a + unat len then of_nat (unat sz - a) else len)"
proof -
  have "uint sz \<le> int a \<longleftrightarrow> int (unat sz) \<le> int a" by simp
  then have le: "uint sz \<le> int a \<longleftrightarrow> unat sz \<le> a" by (simp only: of_nat_le_iff)
  have "uint sz < int a + uint len \<longleftrightarrow> int (unat sz) < int (a + unat len)" by simp
  then have lt: "uint sz < int a + uint len \<longleftrightarrow> unat sz < a + unat len" by (simp only: of_nat_less_iff)
  have "of_int (uint sz - int a) = of_nat (unat sz - a)" if "a < unat sz" using that by (simp add: of_nat_diff)
  then show ?thesis by (simp add: clamp_def le lt)
qed

lemma unat_clamp:
  assumes "a \<le> unat sz"
  shows "unat (clamp sz (int a) len) = min (unat len) (unat sz - a)"
proof -
  have "unat sz - a < 2 ^ LENGTH(32)" using unat_less_exp [of sz] by simp
  then have "unat (of_nat (unat sz - a) :: u32) = unat sz - a" by (simp add: unat_of_nat)
  then show ?thesis using assms by (auto simp: clamp_nat)
qed

lemma clamp_inside: "a + unat len \<le> unat sz \<Longrightarrow> clamp sz (int a) len = len"
  using unat_eq_zero [of len] by (auto simp: clamp_nat)

text \<open>The window of the master's contents that a partition shows.\<close>

definition window :: "'s mtd_part \<Rightarrow> u8 list \<Rightarrow> u8 list" where
  "window p xs = slice (unat (p_offset p)) (unat (mtd_size (p_mtd p))) xs"

locale mtd_partitioned = mtd_device mtd contents good
  for mtd :: "'s mtd_info" and contents good +
  fixes p :: "'s mtd_part"
  assumes master: "p_master p = mtd"
    and no_ecc: "mtd_read_ecc mtd = None" "mtd_write_ecc mtd = None"
    and inside: "unat (p_offset p) + unat (mtd_size (p_mtd p)) \<le> unat (mtd_size mtd)"
begin

lemma part_read_eq:
  assumes "a + unat len \<le> unat (mtd_size (p_mtd p))"
  shows "part_read p (int a) len s = MTD_READ mtd (int (unat (p_offset p) + a)) len s"
  using assms by (simp add: part_read_def MTD_READ_def master no_ecc clamp_inside add.commute)

lemma part_write_eq:
  assumes "writeable (p_mtd p)"
  shows "part_write p (int a) len buf s =
    MTD_WRITE mtd (int (unat (p_offset p) + a)) (clamp (mtd_size (p_mtd p)) (int a) len) buf s"
  using assms by (simp add: part_write_def MTD_WRITE_def master no_ecc add.commute)

lemma window_length: "good s \<Longrightarrow> length (window p (contents s)) = unat (mtd_size (p_mtd p))"
  using inside contents_length [of s] by (simp add: window_def)

lemma window_patch:
  assumes "good s" "a + length d \<le> unat (mtd_size (p_mtd p))"
  shows "window p (patch (unat (p_offset p) + a) d (contents s)) = patch a d (window p (contents s))"
  unfolding window_def using assms inside contents_length [OF assms(1)] by (intro slice_of_patch) auto

lemma window_unchanged:
  assumes "good s" "a + n \<le> unat (mtd_size (p_mtd p))"
  shows "length (slice a n (window p (contents s))) = n"
    "window p (contents s) = patch a (slice a n (window p (contents s))) (window p (contents s))"
  using window_length [OF assms(1)] assms(2) by (simp_all add: patch_slice)

text \<open>A write of any length from an address inside the partition.\<close>

lemma part_write_window:
  assumes s: "good s" and a: "a \<le> unat (mtd_size (p_mtd p))" and w: "part_write p (int a) len buf s = (r, s')"
  defines "n \<equiv> min (unat len) (unat (mtd_size (p_mtd p)) - a)"
  assumes buf: "n \<le> length buf"
  shows "good s' \<and> (\<exists>d. length d = n \<and> contents s' = patch (unat (p_offset p) + a) d (contents s) \<and>
    (\<forall>k. r = Inr k \<and> unat k = n \<and> slice a n (window p (contents s)) = replicate n 0xFF \<longrightarrow> d = take n buf))"
proof (cases "writeable (p_mtd p)")
  case False
  let ?d = "slice (unat (p_offset p) + a) n (contents s)"
  have "unat (p_offset p) + a + n \<le> length (contents s)" using inside a contents_length [OF s] by (simp add: n_def)
  then have "length ?d = n" "contents s = patch (unat (p_offset p) + a) ?d (contents s)" by (simp_all add: patch_slice)
  moreover have "r = Inl (Errno EROFS)" "s' = s" using w False by (simp_all add: part_write_def)
  ultimately show ?thesis using s by (intro conjI exI [of _ ?d]) simp_all
next
  case True
  let ?n = "clamp (mtd_size (p_mtd p)) (int a) len"
  have n: "unat ?n = n" using unat_clamp [OF a] by (simp add: n_def)
  have W: "MTD_WRITE mtd (int (unat (p_offset p) + a)) ?n buf s = (r, s')" using w by (simp add: part_write_eq [OF True])
  have range: "unat (p_offset p) + a + unat ?n \<le> unat (mtd_size mtd)" using inside a by (simp add: n n_def)
  obtain d where d: "good s'" "length d = n" "contents s' = patch (unat (p_offset p) + a) d (contents s)"
    "r = Inr ?n \<longrightarrow> slice (unat (p_offset p) + a) n (contents s) = replicate n 0xFF \<longrightarrow> d = take n buf"
    using write_law [OF s range _ W] buf n by auto
  have "slice a n (window p (contents s)) = slice (unat (p_offset p) + a) n (contents s)"
    using a by (simp add: window_def slice_slice n_def)
  moreover have "k = ?n" if "unat k = n" for k using that n by (metis word_unat_eq_iff)
  ultimately show ?thesis using d by (intro conjI exI [of _ d]) auto
qed

lemma part_erase_window:
  assumes s: "good s" and range: "unat (e_addr instr) + unat (e_len instr) \<le> unat (mtd_size (p_mtd p))"
    and e: "part_erase p (s, instr) = (r, s', i)"
  shows "good s' \<and> (\<exists>d. length d = unat (e_len instr) \<and>
    window p (contents s') = patch (unat (e_addr instr)) d (window p (contents s)) \<and>
    (r = Inr () \<longrightarrow> e_state i = MTD_ERASE_DONE \<longrightarrow> d = replicate (unat (e_len instr)) 0xFF))"
proof (cases "\<not> writeable (p_mtd p) \<or> mtd_size (p_mtd p) \<le> e_addr instr")
  case True
  then have "s' = s" "r \<noteq> Inr ()" using e by (auto simp: part_erase_def Let_def split: if_splits)
  then show ?thesis using s window_unchanged [OF s range] by blast
next
  case False
  let ?i = "instr\<lparr>e_addr := e_addr instr + p_offset p\<rparr>"
  have E: "MTD_ERASE mtd (s, ?i) = (r, s', i)" using e False by (simp add: part_erase_def Let_def MTD_ERASE_def master)
  have "unat (e_addr instr) + unat (p_offset p) < 2 ^ LENGTH(32)" using range inside unat_less_exp [of "mtd_size mtd"] by simp
  then have a: "unat (e_addr ?i) = unat (p_offset p) + unat (e_addr instr)" by (simp add: unat_add_nowrap)
  have "unat (e_addr ?i) + unat (e_len ?i) \<le> unat (mtd_size mtd)" unfolding a using range inside by simp
  from erase_law [OF s this E] obtain d where d: "good s'" "length d = unat (e_len instr)"
    "contents s' = patch (unat (p_offset p) + unat (e_addr instr)) d (contents s)"
    "r = Inr () \<longrightarrow> e_state i = MTD_ERASE_DONE \<longrightarrow> d = replicate (unat (e_len instr)) 0xFF" unfolding a by auto
  then show ?thesis using window_patch [OF s, of "unat (e_addr instr)" d] range by auto
qed

end

sublocale mtd_partitioned \<subseteq> part: mtd_device "slave_mtd p" "\<lambda>s. window p (contents s)" good
proof
  fix s assume s: "good s"
  show "length (window p (contents s)) = unat (mtd_size (slave_mtd p))" using window_length [OF s] by simp
  show "good s' \<and> window p (contents s') = window p (contents s) \<and>
      (\<forall>d. r = Inr d \<longrightarrow> length d \<le> unat len \<and> d = slice a (length d) (window p (contents s)))"
    if range: "a + unat len \<le> unat (mtd_size (slave_mtd p))" and r: "MTD_READ (slave_mtd p) (int a) len s = (r, s')" for a len r s'
  proof -
    have R: "MTD_READ mtd (int (unat (p_offset p) + a)) len s = (r, s')"
      using r range by (simp add: MTD_READ_def [of "slave_mtd p"] part_read_eq)
    have "unat (p_offset p) + a + unat len \<le> unat (mtd_size mtd)" using range inside by simp
    from read_law [OF s this R] range show ?thesis by (auto simp: window_def slice_slice)
  qed
  show "good s' \<and> (\<exists>d. length d = unat len \<and> window p (contents s') = patch dest d (window p (contents s)) \<and>
      (r = Inr len \<longrightarrow> slice dest (unat len) (window p (contents s)) = replicate (unat len) 0xFF \<longrightarrow> d = take (unat len) buf))"
    if range: "dest + unat len \<le> unat (mtd_size (slave_mtd p))" and buf: "unat len \<le> length buf"
      and w: "MTD_WRITE (slave_mtd p) (int dest) len buf s = (r, s')" for dest len buf r s'
  proof -
    have n: "min (unat len) (unat (mtd_size (p_mtd p)) - dest) = unat len" and a: "dest \<le> unat (mtd_size (p_mtd p))"
      using range by simp_all
    have "part_write p (int dest) len buf s = (r, s')" using w by (simp add: MTD_WRITE_def)
    from part_write_window [OF s a this, unfolded n, OF buf]
    show ?thesis using window_patch [OF s, of dest] range by (auto simp del: slice_slice)
  qed
  show "good s' \<and> (\<exists>d. length d = unat (e_len instr) \<and>
      window p (contents s') = patch (unat (e_addr instr)) d (window p (contents s)) \<and>
      (r = Inr () \<longrightarrow> e_state i = MTD_ERASE_DONE \<longrightarrow> d = replicate (unat (e_len instr)) 0xFF))"
    if "unat (e_addr instr) + unat (e_len instr) \<le> unat (mtd_size (slave_mtd p))"
      "MTD_ERASE (slave_mtd p) (s, instr) = (r, s', i)" for instr r s' i
    using that part_erase_window [OF s, of instr] by (simp add: MTD_ERASE_def)
qed

context mtd_partitioned begin

lemma part_device: "mtd_device (slave_mtd p) (\<lambda>s. window p (contents s)) good"
  by (rule part.mtd_device_axioms)

end

lemma partitionedI:
  assumes "mtd_device (p_master p) contents good" "mtd_read_ecc (p_master p) = None" "mtd_write_ecc (p_master p) = None"
    "unat (p_offset p) + unat (mtd_size (p_mtd p)) \<le> unat (mtd_size (p_master p))"
  shows "mtd_partitioned (p_master p) contents good p"
  using assms by (intro mtd_partitioned.intro mtd_partitioned_axioms.intro) simp_all

subsection \<open>Where partitions lie\<close>

lemma sane_inside:
  assumes "unat off < unat msize \<Longrightarrow> unat off + unat sz < 2 ^ 32" "sane msize (off, sz) = os"
  shows "unat (fst os) + unat (snd os) \<le> unat msize"
proof (cases "msize \<le> off")
  case True
  then show ?thesis using assms(2) by (auto simp: sane_def)
next
  case False
  then have lt: "unat off < unat msize" by (simp add: word_le_nat_alt)
  then have s: "unat (off + sz) = unat off + unat sz" using assms(1) by (simp add: unat_add_nowrap)
  have d: "unat (msize - off) = unat msize - unat off" using lt by (simp add: unat_sub_nowrap)
  show ?thesis using assms(2) False lt s d by (auto simp: sane_def word_less_nat_alt not_less)
qed

lemma part_flags_cases:
  assumes "part_flags fl os es = Inr fl'"
  shows "fl' AND NOT fl = 0"
    "fl' AND MTD_WRITEABLE \<noteq> 0 \<Longrightarrow> unat es dvd unat (fst os) \<and> unat es dvd unat (snd os) \<and> fl' = fl"
proof -
  have off: "(fl AND NOT MTD_WRITEABLE) AND MTD_WRITEABLE = 0" "(fl AND NOT MTD_WRITEABLE) AND NOT fl = 0" "fl AND NOT fl = 0"
    by (rule bit_eqI; simp add: bit_simps; blast)+
  show "fl' AND NOT fl = 0" using assms off by (auto simp: part_flags_def split: if_splits)
  have "unat es dvd unat x" if "x mod es = 0" for x
    using arg_cong [OF that, of unat] by (simp add: unat_mod dvd_eq_mod_eq_0)
  then show "unat es dvd unat (fst os) \<and> unat es dvd unat (snd os) \<and> fl' = fl" if "fl' AND MTD_WRITEABLE \<noteq> 0"
    using assms that off(1) by (auto simp: part_flags_def split: if_splits)
qed

definition part_ok :: "'s mtd_info \<Rightarrow> 's mtd_part \<Rightarrow> bool" where
  "part_ok master p \<longleftrightarrow> p_master p = master \<and>
     unat (p_offset p) + unat (mtd_size (p_mtd p)) \<le> unat (mtd_size master) \<and>
     mtd_flags (p_mtd p) AND NOT (mtd_flags master) = 0 \<and>
     (writeable (p_mtd p) \<longrightarrow> unat (mtd_erasesize (p_mtd p)) dvd unat (p_offset p) \<and>
        unat (mtd_erasesize (p_mtd p)) dvd unat (mtd_size (p_mtd p)))"

lemma setup_part_ok:
  assumes "mtd_size master \<le> 0x80000000" "pt_size pt \<le> 0x80000000" "setup_part master addr i cur pt = Inr (p, cur')"
  shows "part_ok master p"
proof -
  let ?off = "wanted_offset master cur pt"
  let ?sz = "wanted_size master ?off pt"
  obtain os where os: "sane (mtd_size master) (?off, ?sz) = os" by simp
  from assms(3) obtain es fl where es: "part_erasesize master os = Inr es"
    and fl: "part_flags (mtd_flags master AND NOT (pt_mask_flags pt)) os es = Inr fl"
    and p: "p_master p = master" "p_offset p = fst os" "mtd_size (p_mtd p) = snd os" "mtd_flags (p_mtd p) = fl"
      "mtd_erasesize (p_mtd p) = es"
    by (auto simp: setup_part_def Let_def os split: sum.splits)
  have half: "unat (mtd_size master) \<le> 2 ^ 31" "unat (pt_size pt) \<le> 2 ^ 31" using assms(1,2) by (simp_all add: word_le_nat_alt)
  have "unat ?off + unat ?sz < 2 ^ 32" if "unat ?off < unat (mtd_size master)"
    using that half by (auto simp: wanted_size_def unat_sub_nowrap)
  then have "unat (fst os) + unat (snd os) \<le> unat (mtd_size master)" using sane_inside os by blast
  moreover have "fl AND NOT (mtd_flags master) = 0"
  proof -
    have "fl AND NOT (mtd_flags master AND NOT (pt_mask_flags pt)) = 0" by (rule part_flags_cases(1) [OF fl])
    then have "\<not> bit (fl AND NOT (mtd_flags master AND NOT (pt_mask_flags pt))) n" for n by simp
    then show ?thesis by (intro bit_eqI) (auto simp: bit_simps)
  qed
  ultimately show ?thesis using part_flags_cases(2) [OF fl] p by (simp add: part_ok_def writeable_def)
qed

lemma add_partitions_loop_ok:
  assumes "mtd_size master \<le> 0x80000000"
  shows "\<forall>pt \<in> set parts. pt_size pt \<le> 0x80000000 \<Longrightarrow> add_partitions_loop alloc master i cur parts st = (Inr (), st') \<Longrightarrow>
    \<exists>new. mtd_partitions st' = new @ mtd_partitions st \<and> length new = length parts \<and> (\<forall>p \<in> set new. part_ok master p)"
proof (induction parts arbitrary: i cur st)
  case Nil
  then show ?case by simp
next
  case (Cons pt parts)
  obtain addr where a: "alloc i = Some addr" using Cons.prems(2) by (auto split: option.splits)
  obtain slave cur' where s: "setup_part master addr i cur pt = Inr (slave, cur')"
    using Cons.prems(2) a by (auto split: sum.splits)
  obtain c where c: "add_partitions_loop alloc master (Suc i) cur' parts
      (st\<lparr>ps_core := c, mtd_partitions := slave # mtd_partitions st\<rparr>) = (Inr (), st')"
    by (rule that) (use Cons.prems(2) in \<open>simp only: add_partitions_loop.simps a s option.case sum.case prod.case Let_def\<close>)
  obtain new where new: "mtd_partitions st' = new @ slave # mtd_partitions st" "length new = length parts"
    "\<forall>p \<in> set new. part_ok master p" using Cons.IH [OF _ c] Cons.prems(1) by auto
  moreover have "part_ok master slave" using setup_part_ok [OF assms _ s] Cons.prems(1) by simp
  ultimately show ?case by (intro exI [of _ "new @ [slave]"]) auto
qed

subsection \<open>Properties\<close>

text \<open>C14. A partition of a flash device is again a flash device, on the window of the master's contents
  from its offset: reading, writing and erasing a partition satisfy the contract that reading,
  writing and erasing the master satisfy. For a master whose driver computes no ECC, as that
  of the DNS-323's NOR flash.\<close>

theorem partition_is_device:
  assumes "mtd_device (p_master p) contents good" "mtd_read_ecc (p_master p) = None" "mtd_write_ecc (p_master p) = None"
    "unat (p_offset p) + unat (mtd_size (p_mtd p)) \<le> unat (mtd_size (p_master p))"
  shows "mtd_device (slave_mtd p) (\<lambda>s. window p (contents s)) good"
  by (rule mtd_partitioned.part_device [OF partitionedI [OF assms]])

text \<open>The partition with the file system, on a memory device of the size of the flash and with the
  flags of NOR flash.\<close>

definition dns323_flash :: "u8 list mtd_info" where
  "dns323_flash = (ram_mtd 1 0x800000 0x10000 ''flash'')\<lparr>mtd_flags := 5\<rparr>"

definition fs_part :: "u8 list mtd_part" where
  "fs_part = fst (projr (setup_part dns323_flash 2 3 0 (physmap_partitions ! 3)))"

lemma fs_part_sel:
  "p_master fs_part = dns323_flash" "p_offset fs_part = 0x1A0000" "mtd_size (p_mtd fs_part) = 0x630000"
  "mtd_flags (p_mtd fs_part) = 5" "mtd_erasesize (p_mtd fs_part) = 0x10000"
  by (simp_all add: fs_part_def dns323_flash_def setup_part_def Let_def physmap_partitions_def part_def_def
      wanted_offset_def wanted_size_def sane_def part_erasesize_def part_flags_def ram_mtd_def
      MTDPART_OFS_APPEND_def MTDPART_OFS_NXTBLK_def MTDPART_SIZ_FULL_def MTD_CAP_RAM_def MTD_WRITEABLE_def)

lemma dns323_flash_sel [simp]:
  "mtd_size dns323_flash = 0x800000" "mtd_read_ecc dns323_flash = None" "mtd_write_ecc dns323_flash = None"
  by (simp_all add: dns323_flash_def)

lemma mtd_device_flags:
  assumes "mtd_device m contents good"
  shows "mtd_device (m\<lparr>mtd_flags := fl\<rparr>) contents good"
proof -
  have E: "MTD_READ (m\<lparr>mtd_flags := fl\<rparr>) = MTD_READ m" "MTD_WRITE (m\<lparr>mtd_flags := fl\<rparr>) = MTD_WRITE m"
    "MTD_ERASE (m\<lparr>mtd_flags := fl\<rparr>) = MTD_ERASE m" "mtd_size (m\<lparr>mtd_flags := fl\<rparr>) = mtd_size m"
    by (simp_all add: MTD_READ_def MTD_WRITE_def MTD_ERASE_def fun_eq_iff)
  show ?thesis using assms unfolding mtd_device_def E .
qed

lemma dns323_flash_device:
  "mtd_device dns323_flash (\<lambda>mem. mem) (\<lambda>mem. length mem = unat (0x800000 :: u32))"
  unfolding dns323_flash_def by (intro mtd_device_flags ramdev.mtd_device_axioms)

interpretation fs: mtd_partitioned dns323_flash "\<lambda>mem. mem" "\<lambda>mem. length mem = unat (0x800000 :: u32)" fs_part
  by (intro mtd_partitioned.intro mtd_partitioned_axioms.intro dns323_flash_device) (simp_all add: fs_part_sel)

theorem partition_is_device_witness:
  "mtd_device (slave_mtd fs_part) (\<lambda>mem. window fs_part mem) (\<lambda>mem. length mem = unat (0x800000 :: u32))"
  using partition_is_device [of fs_part "\<lambda>mem. mem" "\<lambda>mem. length mem = unat (0x800000 :: u32)"] fs.mtd_device_axioms
  by (simp add: fs_part_sel)

text \<open>C26. A write to a partition changes nothing outside it, whatever its length and result: it
  changes at most the bytes from the address to the end of the request or of the partition, and
  these hold the caller's data when it reports their number and they were erased.\<close>

theorem part_write_confined:
  assumes "mtd_device (p_master p) contents good" "mtd_read_ecc (p_master p) = None" "mtd_write_ecc (p_master p) = None"
    "unat (p_offset p) + unat (mtd_size (p_mtd p)) \<le> unat (mtd_size (p_master p))"
    "good s" "a \<le> unat (mtd_size (p_mtd p))" "n = min (unat len) (unat (mtd_size (p_mtd p)) - a)" "n \<le> length buf"
    "part_write p (int a) len buf s = (r, s')"
  shows "\<exists>d. length d = n \<and> contents s' = patch (unat (p_offset p) + a) d (contents s) \<and>
    (\<forall>k. r = Inr k \<and> unat k = n \<and> slice a n (window p (contents s)) = replicate n 0xFF \<longrightarrow> d = take n buf)"
proof -
  note P = partitionedI [OF assms(1-4)]
  show ?thesis using mtd_partitioned.part_write_window [OF P assms(5,6,9)] assms(7,8) by blast
qed

theorem part_write_confined_witness:
  "\<exists>d. length d = 1 \<and> snd (part_write fs_part (int 0x62FFFF) 5 [7] (replicate 0x800000 0xFF)) =
     patch 0x7CFFFF d (replicate 0x800000 0xFF)"
proof -
  have "mtd_device (p_master fs_part) (\<lambda>mem. mem) (\<lambda>mem. length mem = 0x800000)"
    using fs.mtd_device_axioms by (simp add: fs_part_sel)
  from part_write_confined [OF this, where a = "0x62FFFF" and n = 1 and len = 5 and buf = "[7]"
      and s = "replicate 0x800000 0xFF", OF _ _ _ _ _ _ _ surjective_pairing]
  show ?thesis by (auto simp: fs_part_sel)
qed

text \<open>C39. An erasure is not confined: \<open>part_erase\<close> looks only at the start of the request. On any flash device, an erasure that
  starts in a writeable partition goes to the master, whatever its length; when it reaches beyond the end of the partition,
  but not beyond that of the master, and is reported as done, then everything from the end of the partition to the end of
  the request is erased.\<close>

theorem part_erase_escapes:
  assumes "mtd_device (p_master p) contents good" "good s" "writeable (p_mtd p)" "e_addr instr < mtd_size (p_mtd p)"
    "unat (p_offset p) + unat (e_addr instr) + unat (e_len instr) \<le> unat (mtd_size (p_master p))"
    "unat (mtd_size (p_mtd p)) < unat (e_addr instr) + unat (e_len instr)"
  shows "part_erase p (s, instr) = MTD_ERASE (p_master p) (s, instr\<lparr>e_addr := e_addr instr + p_offset p\<rparr>) \<and>
    (\<forall>s' i. part_erase p (s, instr) = (Inr (), s', i) \<and> e_state i = MTD_ERASE_DONE \<longrightarrow>
      (\<forall>j. unat (p_offset p) + unat (mtd_size (p_mtd p)) \<le> j \<and> j < unat (p_offset p) + unat (e_addr instr) + unat (e_len instr) \<longrightarrow>
        contents s' ! j = 0xFF))"
proof (intro conjI allI impI)
  let ?i = "instr\<lparr>e_addr := e_addr instr + p_offset p\<rparr>"
  show E: "part_erase p (s, instr) = MTD_ERASE (p_master p) (s, ?i)"
    using assms(3,4) by (simp add: part_erase_def MTD_ERASE_def flip: not_less)
  have "unat (e_addr instr) + unat (p_offset p) < 2 ^ LENGTH(32)"
    using assms(5) unat_less_exp [of "mtd_size (p_master p)"] by simp
  then have a: "unat (e_addr ?i) = unat (p_offset p) + unat (e_addr instr)" by (simp add: unat_add_nowrap)
  fix s' i j
  assume R: "part_erase p (s, instr) = (Inr (), s', i) \<and> e_state i = MTD_ERASE_DONE"
    and j: "unat (p_offset p) + unat (mtd_size (p_mtd p)) \<le> j \<and> j < unat (p_offset p) + unat (e_addr instr) + unat (e_len instr)"
  have range: "unat (e_addr ?i) + unat (e_len ?i) \<le> unat (mtd_size (p_master p))" unfolding a using assms(5) by simp
  have "contents s' = patch (unat (e_addr ?i)) (replicate (unat (e_len ?i)) 0xFF) (contents s)"
    using mtd_device.erase_law [OF assms(1,2) range, of "Inr ()" s' i] R E by auto
  moreover have "length (contents s) = unat (mtd_size (p_master p))" using mtd_device.contents_length [OF assms(1,2)] .
  moreover have "unat (e_addr instr) < unat (mtd_size (p_mtd p))" using assms(4) by (simp add: word_less_nat_alt)
  moreover from this have "j - (unat (p_offset p) + unat (e_addr instr)) < unat (e_len instr)" using j by linarith
  ultimately show "contents s' ! j = 0xFF" using j assms(5) range unfolding a by (simp add: nth_patch)
qed

theorem part_erase_escapes_witness:
  "\<exists>s' i. part_erase fs_part (replicate 0x800000 0,
      \<lparr>e_part = Some 0, e_addr = 0x620000, e_len = 0x40000, e_fail_addr = 0xFFFFFFFF, e_state = MTD_ERASE_PENDING\<rparr>) = (Inr (), s', i) \<and>
    s' ! 0x7FFFFF = 0xFF"
proof -
  let ?m = "replicate 0x800000 0 :: u8 list"
  let ?i = "\<lparr>e_part = Some 0, e_addr = 0x620000, e_len = 0x40000, e_fail_addr = 0xFFFFFFFF, e_state = MTD_ERASE_PENDING\<rparr>"
  have d: "mtd_device (p_master fs_part) (\<lambda>mem. mem) (\<lambda>mem. length mem = unat (0x800000 :: u32))"
    using fs.mtd_device_axioms by (simp add: fs_part_sel)
  have w: "writeable (p_mtd fs_part)" by (simp add: writeable_def fs_part_sel MTD_WRITEABLE_def)
  note W = part_erase_escapes [OF d, of ?m ?i]
  have "part_erase fs_part (?m, ?i) = ram_erase 0x800000 (?m, ?i\<lparr>e_addr := 0x7C0000\<rparr>)"
    using W w by (simp add: fs_part_sel MTD_ERASE_def) (simp add: dns323_flash_def ram_mtd_def)
  then obtain s' i where r: "part_erase fs_part (?m, ?i) = (Inr (), s', i)" "e_state i = MTD_ERASE_DONE"
    using ram_erase_ok [of ?m "0x800000" "?i\<lparr>e_addr := 0x7C0000\<rparr>"] by simp
  then have "s' ! 0x7FFFFF = 0xFF" using W w by (simp add: fs_part_sel)
  then show ?thesis using r(1) by blast
qed

text \<open>C35. Every partition that \<open>add_mtd_partitions\<close> creates lies inside its device, has no flag that the
  device lacks, and, when it is writeable, starts and ends on a boundary of its erase size;
  whatever the definitions ask for, as long as sizes stay below half the address space.\<close>

theorem add_mtd_partitions_inside:
  assumes "mtd_size master \<le> 0x80000000" "\<forall>pt \<in> set parts. pt_size pt \<le> 0x80000000"
    "add_mtd_partitions alloc master parts st = (Inr (), st')"
  shows "\<exists>new. mtd_partitions st' = new @ mtd_partitions st \<and> length new = length parts \<and> (\<forall>p \<in> set new. part_ok master p)"
  using add_partitions_loop_ok [OF assms(1,2)] assms(3) by (simp add: add_mtd_partitions_def)

lemmas part_eval = setup_part_def part_def_def wanted_offset_def wanted_size_def sane_def part_erasesize_def
  part_flags_def MTDPART_OFS_APPEND_def MTDPART_OFS_NXTBLK_def MTDPART_SIZ_FULL_def

definition ex_part_state :: "u8 list part_state" where
  "ex_part_state = \<lparr>ps_core = ex_core, mtd_partitions = []\<rparr>"

theorem add_mtd_partitions_inside_witness:
  "\<exists>p. mtd_partitions (snd (add_mtd_partitions Some dns323_flash [part_def ''big'' 0x7FFFFFFF 0x10000] ex_part_state)) = [p] \<and>
     part_ok dns323_flash p"
proof -
  let ?r = "add_mtd_partitions Some dns323_flash [part_def ''big'' 0x7FFFFFFF 0x10000] ex_part_state"
  have "fst ?r = Inr ()"
    by (simp add: add_mtd_partitions_def part_eval Let_def dns323_flash_def ram_mtd_def MTD_CAP_RAM_def MTD_WRITEABLE_def)
  then have "?r = (Inr (), snd ?r)" by (simp add: prod_eq_iff)
  from add_mtd_partitions_inside [OF _ _ this] show ?thesis
    by (auto simp: ex_part_state_def part_def_def length_Suc_conv)
qed

text \<open>The flash chips of the DNS-323 have 8 MB in blocks of 64 KB, of which the first or the last may
  be divided into blocks of 8 KB.\<close>

definition dns323_geometries :: "mtd_erase_region_info list list" where
  "dns323_geometries =
     [[], [\<lparr>reg_offset = 0, reg_erasesize = 0x10000, reg_numblocks = 128\<rparr>],
      [\<lparr>reg_offset = 0, reg_erasesize = 0x2000, reg_numblocks = 8\<rparr>,
       \<lparr>reg_offset = 0x10000, reg_erasesize = 0x10000, reg_numblocks = 127\<rparr>],
      [\<lparr>reg_offset = 0, reg_erasesize = 0x10000, reg_numblocks = 127\<rparr>,
       \<lparr>reg_offset = 0x7F0000, reg_erasesize = 0x2000, reg_numblocks = 8\<rparr>]]"

lemma part_flags_aligned:
  "es \<noteq> 0 \<Longrightarrow> fst os mod es = 0 \<Longrightarrow> snd os mod es = 0 \<Longrightarrow> part_flags fl os es = Inr fl"
  by (simp add: part_flags_def)

lemma physmap_aligned:
  assumes "pt \<in> set physmap_partitions" "es \<in> {0x10000, 0x2000}"
  shows "es \<noteq> 0" "pt_offset pt mod es = 0" "pt_size pt mod es = 0"
  using assms by (auto simp: physmap_partitions_def part_def_def)

lemma physmap_erasesize:
  assumes "mtd_erasesize master = 0x10000" "mtd_eraseregions master = g" "g \<in> set dns323_geometries" "pt \<in> set physmap_partitions"
  shows "\<exists>es \<in> {0x10000, 0x2000}. part_erasesize master (pt_offset pt, pt_size pt) = Inr es"
  using assms(3,4) by (auto simp: part_erasesize_def assms(1,2) physmap_partitions_def part_def_def dns323_geometries_def)

lemma physmap_setup:
  assumes "mtd_size master = 0x800000" "mtd_erasesize master = 0x10000" "mtd_eraseregions master \<in> set dns323_geometries"
    "pt \<in> set physmap_partitions"
  shows "\<exists>p. setup_part master addr i cur pt = Inr (p, pt_offset pt + pt_size pt) \<and> p_offset p = pt_offset pt \<and>
    mtd_size (p_mtd p) = pt_size pt \<and> mtd_flags (p_mtd p) = mtd_flags master \<and> mtd_name (p_mtd p) = pt_name pt"
proof -
  have os: "wanted_offset master cur pt = pt_offset pt" "wanted_size master off pt = pt_size pt"
    "sane (mtd_size master) (pt_offset pt, pt_size pt) = (pt_offset pt, pt_size pt)" "pt_mask_flags pt = 0" for off
    using assms(1,4) by (auto simp: physmap_partitions_def part_eval)
  obtain es where es: "es \<in> {0x10000, 0x2000}" "part_erasesize master (pt_offset pt, pt_size pt) = Inr es"
    using physmap_erasesize [OF assms(2) refl assms(3,4)] by blast
  show ?thesis by (simp add: setup_part_def Let_def os es(2) part_flags_aligned physmap_aligned [OF assms(4) es(1)])
qed

lemma add_partitions_loop_setup:
  assumes "\<forall>pt \<in> set parts. \<forall>addr i cur. \<exists>p. setup_part master addr i cur pt = Inr (p, pt_offset pt + pt_size pt) \<and> Q pt p"
  shows "\<exists>st' new. add_partitions_loop (\<lambda>i. Some (f i)) master i cur parts st = (Inr (), st') \<and>
    mtd_partitions st' = rev new @ mtd_partitions st \<and> list_all2 Q parts new"
  using assms
proof (induction parts arbitrary: i cur st)
  case Nil
  then show ?case by simp
next
  case (Cons pt parts)
  obtain p where p: "setup_part master (f i) i cur pt = Inr (p, pt_offset pt + pt_size pt)" "Q pt p"
    using Cons.prems by (meson list.set_intros(1))
  obtain c where c: "add_partitions_loop (\<lambda>i. Some (f i)) master i cur (pt # parts) st =
      add_partitions_loop (\<lambda>i. Some (f i)) master (Suc i) (pt_offset pt + pt_size pt) parts
        (st\<lparr>ps_core := c, mtd_partitions := p # mtd_partitions st\<rparr>)"
    by (rule that) (simp only: add_partitions_loop.simps p(1) option.case sum.case prod.case Let_def)
  obtain st' new where "add_partitions_loop (\<lambda>i. Some (f i)) master i cur (pt # parts) st = (Inr (), st')"
    "mtd_partitions st' = rev new @ p # mtd_partitions st" "list_all2 Q parts new"
    unfolding c using Cons.IH [of "Suc i" "pt_offset pt + pt_size pt" "st\<lparr>ps_core := c, mtd_partitions := p # mtd_partitions st\<rparr>"] Cons.prems
    by auto
  then show ?case using p(2) by (intro exI [of _ st'] exI [of _ "p # new"]) simp
qed

definition holds :: "'s mtd_part \<Rightarrow> nat \<Rightarrow> bool" where
  "holds p a \<longleftrightarrow> unat (p_offset p) \<le> a \<and> a < unat (p_offset p) + unat (mtd_size (p_mtd p))"

text \<open>C36. On each geometry of the DNS-323's flash, \<open>add_mtd_partitions\<close> with the firmware's table creates the
  five partitions with the offsets, sizes and names of the table; none of them is made
  read-only, and every byte of the flash belongs to exactly one of them.\<close>

theorem physmap_tiles_flash:
  assumes "mtd_size master = 0x800000" "mtd_erasesize master = 0x10000" "mtd_eraseregions master \<in> set dns323_geometries"
  shows "\<exists>st' new. add_mtd_partitions (\<lambda>i. Some (f i)) master physmap_partitions st = (Inr (), st') \<and>
    mtd_partitions st' = rev new @ mtd_partitions st \<and>
    map (\<lambda>p. (mtd_name (p_mtd p), mtd_size (p_mtd p), p_offset p)) new =
      map (\<lambda>pt. (pt_name pt, pt_size pt, pt_offset pt)) physmap_partitions \<and>
    (\<forall>p \<in> set new. mtd_flags (p_mtd p) = mtd_flags master) \<and>
    (\<forall>a < 0x800000. length (filter (\<lambda>p. holds p a) new) = 1)"
proof -
  let ?Q = "\<lambda>pt p. p_offset p = pt_offset pt \<and> mtd_size (p_mtd p) = pt_size pt \<and>
    mtd_flags (p_mtd p) = mtd_flags master \<and> mtd_name (p_mtd p) = pt_name pt"
  obtain st' new where st': "add_mtd_partitions (\<lambda>i. Some (f i)) master physmap_partitions st = (Inr (), st')"
    "mtd_partitions st' = rev new @ mtd_partitions st" and Q: "list_all2 ?Q physmap_partitions new"
    using add_partitions_loop_setup [where Q = ?Q and parts = physmap_partitions and master = master]
      physmap_setup [OF assms] unfolding add_mtd_partitions_def by blast
  have "map (\<lambda>p. (mtd_name (p_mtd p), mtd_size (p_mtd p), p_offset p)) new =
      map (\<lambda>pt. (pt_name pt, pt_size pt, pt_offset pt)) physmap_partitions"
    using Q by (induction rule: list_all2_induct) simp_all
  moreover have "\<forall>p \<in> set new. mtd_flags (p_mtd p) = mtd_flags master"
    using Q by (induction rule: list_all2_induct) simp_all
  moreover have "length (filter (\<lambda>p. holds p a) new) = 1" if "a < 0x800000" for a
    using Q that by (auto simp: physmap_partitions_def part_def_def list_all2_Cons1 holds_def)
  ultimately show ?thesis using st' by blast
qed

theorem physmap_tiles_flash_witness:
  "\<exists>st' new. add_mtd_partitions (\<lambda>i. Some (10 + i)) dns323_flash physmap_partitions ex_part_state = (Inr (), st') \<and>
     mtd_partitions st' = rev new @ [] \<and> (\<forall>a < 0x800000. length (filter (\<lambda>p. holds p a) new) = 1)"
  using physmap_tiles_flash [of dns323_flash "\<lambda>i. 10 + i" ex_part_state]
  by (auto simp: dns323_flash_def ram_mtd_def dns323_geometries_def ex_part_state_def)

subsection \<open>Where the code goes wrong\<close>

text \<open>A definition that lies behind the end of a writeable device with several erase regions is
  "disabled": offset and size become 0, the loop over the regions finds none, the erase size
  stays 0, and the test of the boundaries divides by it.\<close>

lemma disabled_partition_divides_by_zero:
  assumes "1 < length (mtd_eraseregions master)" "reg_offset (hd (mtd_eraseregions master)) = 0"
    "\<forall>r \<in> set (tl (mtd_eraseregions master)). reg_offset r \<noteq> 0"
    "mtd_flags master AND NOT (pt_mask_flags pt) AND MTD_WRITEABLE \<noteq> 0"
    "mtd_size master \<le> wanted_offset master cur pt"
  shows "setup_part master addr i cur pt = Inl DivByZero"
proof -
  obtain r rs where r: "mtd_eraseregions master = r # rs" using assms(1) by (cases "mtd_eraseregions master") auto
  have tw: "takeWhile (\<lambda>r. reg_offset r \<le> 0) rs = []" using assms(3) r by (cases rs) auto
  have os: "sane (mtd_size master) (wanted_offset master cur pt, sz) = (0, 0)" for sz
    using assms(5) by (simp add: sane_def)
  have "part_erasesize master (0, 0) = Inr 0" using assms(1,2) r tw by (simp add: part_erasesize_def)
  then show ?thesis using assms(4) by (simp add: setup_part_def Let_def os part_flags_def and.assoc)
qed

text \<open>The sum of offset and size wraps around in the check of the end, and a partition reaches far
  behind the end of the device.\<close>

lemma partition_end_wraps:
  "\<exists>p cur. setup_part dns323_flash 2 0 0 (part_def ''p'' 0xFFFF0000 0x10000) = Inr (p, cur) \<and>
     unat (mtd_size dns323_flash) < unat (p_offset p) + unat (mtd_size (p_mtd p))"
  by (simp add: part_eval Let_def dns323_flash_def ram_mtd_def MTD_CAP_RAM_def MTD_WRITEABLE_def)

text \<open>\<open>del_mtd_partitions\<close> frees a partition that is in use, and leaves it in the table of devices.\<close>

lemma del_mtd_partitions_dangling:
  assumes "mtd_partitions st = [p]" "p_registered p" "mtd_addr (p_master p) = mtd_addr master"
    "mtd_table (ps_core st) ! mtd_index (ps_core st) (mtd_addr (p_mtd p)) = Some (mtd_addr (p_mtd p))"
    "mtd_usecount (ps_core st) (mtd_addr (p_mtd p)) \<noteq> 0"
  shows "mtd_partitions (del_mtd_partitions master st) = [] \<and>
    mtd_table (ps_core (del_mtd_partitions master st)) = mtd_table (ps_core st)"
  using assms by (simp add: del_mtd_partitions_def del_mtd_device_def)

text \<open>When the master's driver refuses an erasure, the caller's structure keeps the translated address.\<close>

lemma part_erase_error_shifts_addr:
  assumes "writeable (p_mtd p)" "e_addr instr < mtd_size (p_mtd p)" "p_master p = ram_mtd a sz es nm"
    "sz < e_addr instr + p_offset p + e_len instr" "p_offset p \<noteq> 0"
  shows "\<exists>i. part_erase p (mem, instr) = (Inl (Errno EINVAL), mem, i) \<and> e_addr i \<noteq> e_addr instr"
  using assms by (auto simp: part_erase_def ram_mtd_def ram_erase_def Let_def)

end
