(* ===== verification/Mtd_Block.thy ===== *)
theory Mtd_Block
  imports Mtd_Part
begin

text \<open>
  The block device on flash, \<open>drivers/mtd/mtdblock.c\<close>, with the loop over the sectors of a request
  from \<open>drivers/mtd/mtd_blkdevs.c\<close>. Flash is erased in blocks much larger than a sector, so the
  driver keeps one erase block in memory while sectors of it are written, and writes it back when
  another block is needed. All functions run under the device's semaphore. The driver sleeps until
  an erasure ends; here the device's \<open>erase\<close> function returns when it has ended.
\<close>

subsection \<open>The cache\<close>

datatype cache_state = STATE_EMPTY | STATE_CLEAN | STATE_DIRTY

text \<open>\<open>mb_part\<close> is the offset of the partition when the device is one (see \<open>erase_info\<close>);
  \<open>cache_data\<close> is \<open>None\<close> until the first write allocates it.\<close>

record 's mtdblk_dev =
  mb_mtd :: "'s mtd_info"
  mb_part :: "u32 option"
  mb_count :: int
  cache_data :: "u8 list option"
  cache_offset :: u32
  cache_size :: u32
  cache_state :: cache_state

type_synonym ('s, 'a) blk_io = "('s mtdblk_dev \<times> 's, 'a) io"

text \<open>\<open>erase_write\<close> does not look at the state in which the erasure ended.\<close>

definition erase_write :: "'s mtd_info \<Rightarrow> u32 option \<Rightarrow> u32 \<Rightarrow> u32 \<Rightarrow> u8 list \<Rightarrow> ('s, unit) io" where
  "erase_write mtd part pos len buf s =
     (let instr = \<lparr>e_part = part, e_addr = pos, e_len = len, e_fail_addr = 0xFFFFFFFF, e_state = MTD_ERASE_PENDING\<rparr> in
      case MTD_ERASE mtd (s, instr) of
        (Inl e, s', i) \<Rightarrow> (Inl e, s')
      | (Inr _, s', i) \<Rightarrow>
          (case MTD_WRITE mtd (uint pos) len buf s' of
             (Inl e, s'') \<Rightarrow> (Inl e, s'')
           | (Inr retlen, s'') \<Rightarrow> if retlen \<noteq> len then (Inl (Errno EIO), s'') else (Inr (), s'')))"

definition write_cached_data :: "('s, unit) blk_io" where
  "write_cached_data st =
     (let mb = fst st; s = snd st in
      if cache_state mb \<noteq> STATE_DIRTY then (Inr (), mb, s)
      else case cache_data mb of
             None \<Rightarrow> (Inl NullPointer, mb, s)
           | Some data \<Rightarrow>
               (case erase_write (mb_mtd mb) (mb_part mb) (cache_offset mb) (cache_size mb) data s of
                  (Inl e, s') \<Rightarrow> (Inl e, mb, s')
                | (Inr _, s') \<Rightarrow> (Inr (), mb\<lparr>cache_state := STATE_EMPTY\<rparr>, s')))"

subsection \<open>Writing\<close>

text \<open>Filling the cache with the block at \<open>sect_start\<close>. What a failed or short read leaves in the buffer
  does not matter, since the cache is then empty.\<close>

definition fill_cache :: "u32 \<Rightarrow> u32 \<Rightarrow> ('s, unit) blk_io" where
  "fill_cache sect_start sect_size st =
     (let mb = (fst st)\<lparr>cache_state := STATE_EMPTY\<rparr>; s = snd st in
      case cache_data mb of
        None \<Rightarrow> (Inl NullPointer, mb, s)
      | Some _ \<Rightarrow>
          (case MTD_READ (mb_mtd mb) (uint sect_start) sect_size s of
             (Inl e, s') \<Rightarrow> (Inl e, mb, s')
           | (Inr d, s') \<Rightarrow>
               if length d \<noteq> unat sect_size then (Inl (Errno EIO), mb, s')
               else (Inr (), mb\<lparr>cache_data := Some d, cache_offset := sect_start, cache_size := sect_size,
                                cache_state := STATE_CLEAN\<rparr>, s')))"

text \<open>Writing \<open>buf\<close> into the cached block.\<close>

definition modify_cache :: "u32 \<Rightarrow> u32 \<Rightarrow> u8 list \<Rightarrow> ('s, unit) blk_io" where
  "modify_cache offset sz buf st =
     (let mb = fst st; s = snd st in
      case cache_data mb of
        None \<Rightarrow> (Inl NullPointer, mb, s)
      | Some data \<Rightarrow>
          (case memcpy data (unat offset) buf 0 (unat sz) of
             Inl e \<Rightarrow> (Inl e, mb, s)
           | Inr data' \<Rightarrow> (Inr (), mb\<lparr>cache_data := Some data', cache_state := STATE_DIRTY\<rparr>, s)))"

definition bind_io :: "('s, 'a) io \<Rightarrow> ('a \<Rightarrow> ('s, 'b) io) \<Rightarrow> ('s, 'b) io" where
  "bind_io m f st = (case m st of (Inl e, st') \<Rightarrow> (Inl e, st') | (Inr x, st') \<Rightarrow> f x st')"

text \<open>One turn of the loop of \<open>do_cached_write\<close>, on the part of the request in one erase block.\<close>

definition cached_write_step :: "u32 \<Rightarrow> u32 \<Rightarrow> u32 \<Rightarrow> u8 list \<Rightarrow> ('s, unit) blk_io" where
  "cached_write_step sect_size pos sz buf st =
     (let sect_start = pos div sect_size * sect_size; offset = pos - sect_start; mb = fst st in
      if sz = sect_size
      then (case erase_write (mb_mtd mb) (mb_part mb) pos sz buf (snd st) of (r, s') \<Rightarrow> (r, mb, s'))
      else bind_io
        (\<lambda>st. if cache_state (fst st) = STATE_DIRTY \<and> cache_offset (fst st) \<noteq> sect_start
              then write_cached_data st else (Inr (), st))
        (\<lambda>_. bind_io
          (\<lambda>st. if cache_state (fst st) = STATE_EMPTY \<or> cache_offset (fst st) \<noteq> sect_start
                then fill_cache sect_start sect_size st else (Inr (), st))
          (\<lambda>_. modify_cache offset sz buf)) st)"

text \<open>How much of \<open>len\<close> bytes from \<open>pos\<close> lies in the erase block of \<open>pos\<close>.\<close>

definition chunk :: "u32 \<Rightarrow> u32 \<Rightarrow> nat \<Rightarrow> u32" where
  "chunk sect_size pos len =
     (let sz = sect_size - (pos - pos div sect_size * sect_size)
      in if len < unat sz then of_nat len else sz)"

lemma sub_div_mult: "(pos :: u32) - pos div sz * sz = pos mod sz"
  by (simp add: minus_div_mult_eq_mod)

lemma unat_chunk:
  assumes "sect_size \<noteq> 0"
  shows "unat (chunk sect_size pos len) = min len (unat sect_size - unat pos mod unat sect_size)"
proof -
  have "pos mod sect_size \<le> sect_size" using assms by (simp add: word_le_nat_alt unat_mod unat_gt_0 less_imp_le)
  then have u: "unat (sect_size - pos mod sect_size) = unat sect_size - unat pos mod unat sect_size"
    by (simp add: unat_sub_nowrap word_le_nat_alt unat_mod)
  show ?thesis
  proof (cases "len < unat (sect_size - pos mod sect_size)")
    case True
    then have "len < 2 ^ LENGTH(32)" using unat_less_exp [of "sect_size - pos mod sect_size"] by simp
    then show ?thesis using True u by (simp add: chunk_def Let_def sub_div_mult unat_of_nat)
  next
    case False
    then show ?thesis using u by (simp add: chunk_def Let_def sub_div_mult)
  qed
qed

lemma chunk_pos: "sect_size \<noteq> 0 \<Longrightarrow> 0 < len \<Longrightarrow> 0 < unat (chunk sect_size pos len)"
  by (simp add: unat_chunk unat_gt_0)

function cached_write_loop :: "u32 \<Rightarrow> u32 \<Rightarrow> nat \<Rightarrow> u8 list \<Rightarrow> ('s, unit) blk_io" where
  "cached_write_loop sect_size pos len buf st =
     (if len = 0 then (Inr (), st)
      else if sect_size = 0 then (Inl DivByZero, st)
      else let sz = chunk sect_size pos len in
        bind_io (cached_write_step sect_size pos sz buf)
          (\<lambda>_. cached_write_loop sect_size (pos + sz) (len - unat sz) (drop (unat sz) buf)) st)"
  by pat_completeness auto
termination
  by (relation "measure (\<lambda>(sect_size, pos, len, buf, st). len)") (simp_all add: chunk_pos)

declare cached_write_loop.simps [simp del]

definition do_cached_write :: "u32 \<Rightarrow> nat \<Rightarrow> u8 list \<Rightarrow> ('s, unit) blk_io" where
  "do_cached_write pos len buf st =
     (let mb = fst st; s = snd st in
      if cache_size mb = 0
      then (case MTD_WRITE (mb_mtd mb) (uint pos) (of_nat len) buf s of
              (Inl e, s') \<Rightarrow> (Inl e, mb, s') | (Inr _, s') \<Rightarrow> (Inr (), mb, s'))
      else cached_write_loop (cache_size mb) pos len buf st)"

subsection \<open>Reading\<close>

definition cached_read_step :: "u32 \<Rightarrow> u32 \<Rightarrow> u32 \<Rightarrow> ('s, u8 list) blk_io" where
  "cached_read_step sect_size pos sz st =
     (let mb = fst st; s = snd st; sect_start = pos div sect_size * sect_size; offset = pos - sect_start in
      if cache_state mb \<noteq> STATE_EMPTY \<and> cache_offset mb = sect_start
      then case cache_data mb of
             None \<Rightarrow> (Inl NullPointer, mb, s)
           | Some data \<Rightarrow>
               (case memcpy (replicate (unat sz) 0) 0 data (unat offset) (unat sz) of
                  Inl e \<Rightarrow> (Inl e, mb, s) | Inr d \<Rightarrow> (Inr d, mb, s))
      else case MTD_READ (mb_mtd mb) (uint pos) sz s of
             (Inl e, s') \<Rightarrow> (Inl e, mb, s')
           | (Inr d, s') \<Rightarrow> if length d \<noteq> unat sz then (Inl (Errno EIO), mb, s') else (Inr d, mb, s'))"

function cached_read_loop :: "u32 \<Rightarrow> u32 \<Rightarrow> nat \<Rightarrow> ('s, u8 list) blk_io" where
  "cached_read_loop sect_size pos len st =
     (if len = 0 then (Inr [], st)
      else if sect_size = 0 then (Inl DivByZero, st)
      else let sz = chunk sect_size pos len in
        bind_io (cached_read_step sect_size pos sz)
          (\<lambda>d. bind_io (cached_read_loop sect_size (pos + sz) (len - unat sz)) (\<lambda>ds st. (Inr (d @ ds), st))) st)"
  by pat_completeness auto
termination
  by (relation "measure (\<lambda>(sect_size, pos, len, st). len)") (simp_all add: chunk_pos)

declare cached_read_loop.simps [simp del]

definition do_cached_read :: "u32 \<Rightarrow> nat \<Rightarrow> ('s, u8 list) blk_io" where
  "do_cached_read pos len st =
     (let mb = fst st; s = snd st in
      if cache_size mb = 0
      then (case MTD_READ (mb_mtd mb) (uint pos) (of_nat len) s of (r, s') \<Rightarrow> (r, mb, s'))
      else cached_read_loop (cache_size mb) pos len st)"

subsection \<open>The operations of the block device\<close>

definition mtdblock_readsect :: "u32 \<Rightarrow> ('s, u8 list) blk_io" where
  "mtdblock_readsect block = do_cached_read (push_bit 9 block) 512"

text \<open>\<open>mem\<close> is what \<open>vmalloc\<close> returns.\<close>

definition mtdblock_writesect :: "u8 list option \<Rightarrow> u32 \<Rightarrow> u8 list \<Rightarrow> ('s, unit) blk_io" where
  "mtdblock_writesect mem block buf st =
     (if cache_data (fst st) = None \<and> cache_size (fst st) \<noteq> 0
      then case mem of
             None \<Rightarrow> (Inl (Errno EINTR), st)
           | Some m \<Rightarrow> do_cached_write (push_bit 9 block) 512 buf ((fst st)\<lparr>cache_data := Some m\<rparr>, snd st)
      else do_cached_write (push_bit 9 block) 512 buf st)"

text \<open>The entry of \<open>mtdblks\<close> for the device, on opening; \<open>mem\<close> tells whether \<open>kmalloc\<close> succeeds.\<close>

definition mtdblock_open :: "bool \<Rightarrow> 's mtd_info \<Rightarrow> u32 option \<Rightarrow> 's mtdblk_dev option \<Rightarrow>
    unit res \<times> 's mtdblk_dev option" where
  "mtdblock_open mem mtd part entry =
     (case entry of
        Some mb \<Rightarrow> (Inr (), Some (mb\<lparr>mb_count := mb_count mb + 1\<rparr>))
      | None \<Rightarrow>
          if \<not> mem then (Inl (Errno ENOMEM), None)
          else (Inr (), Some \<lparr>mb_mtd = mtd, mb_part = part, mb_count = 1, cache_data = None, cache_offset = 0,
                  cache_size = (if mtd_flags mtd AND MTD_CAP_RAM \<noteq> MTD_CAP_RAM \<and> mtd_erasesize mtd \<noteq> 0
                                then mtd_erasesize mtd else 0),
                  cache_state = STATE_EMPTY\<rparr>))"

definition sync_if :: "'s mtd_info \<Rightarrow> 's \<Rightarrow> 's" where
  "sync_if mtd s = (case mtd_sync mtd of None \<Rightarrow> s | Some f \<Rightarrow> snd (f s))"

text \<open>Flushing and closing ignore the error of \<open>write_cached_data\<close>.\<close>

definition mtdblock_flush :: "('s, unit) blk_io" where
  "mtdblock_flush st =
     (let (r, mb, s) = write_cached_data st in (Inr (), mb, sync_if (mb_mtd mb) s))"

definition mtdblock_release :: "'s mtdblk_dev \<times> 's \<Rightarrow> 's mtdblk_dev option \<times> 's" where
  "mtdblock_release st =
     (let (r, mb, s) = write_cached_data st; mb' = mb\<lparr>mb_count := mb_count mb - 1\<rparr>
      in if mb_count mb' = 0 then (None, sync_if (mb_mtd mb) s) else (Some mb', s))"

text \<open>\<open>do_blktrans_request\<close>: the loop over the sectors of a request. The sector number is cut to the
  32 bits of \<open>block\<close>, and so is the sum in the test of the capacity. The model returns the data
  read, and \<open>None\<close> when the request fails.\<close>

fun read_sectors :: "u32 \<Rightarrow> nat \<Rightarrow> 's mtdblk_dev \<times> 's \<Rightarrow> u8 list option \<times> 's mtdblk_dev \<times> 's" where
  "read_sectors block 0 st = (Some [], st)"
| "read_sectors block (Suc n) st =
     (case mtdblock_readsect block st of
        (Inl e, st') \<Rightarrow> (None, st')
      | (Inr d, st') \<Rightarrow>
          (case read_sectors (block + 1) n st' of (r, st'') \<Rightarrow> (map_option ((@) d) r, st'')))"

fun write_sectors :: "(nat \<Rightarrow> u8 list option) \<Rightarrow> u32 \<Rightarrow> nat \<Rightarrow> u8 list \<Rightarrow> 's mtdblk_dev \<times> 's \<Rightarrow>
    bool \<times> 's mtdblk_dev \<times> 's" where
  "write_sectors mem block 0 buf st = (True, st)"
| "write_sectors mem block (Suc n) buf st =
     (case mtdblock_writesect (mem n) block buf st of
        (Inl e, st') \<Rightarrow> (False, st')
      | (Inr _, st') \<Rightarrow> write_sectors mem (block + 1) n (drop 512 buf) st')"

datatype direction = READ | WRITE "u8 list"

record request =
  rq_cmd :: bool
  rq_sector :: u64
  rq_nr_sectors :: u32
  rq_dir :: direction

definition do_blktrans_request :: "(nat \<Rightarrow> u8 list option) \<Rightarrow> u64 \<Rightarrow> request \<Rightarrow> 's mtdblk_dev \<times> 's \<Rightarrow>
    u8 list option \<times> 's mtdblk_dev \<times> 's" where
  "do_blktrans_request mem capacity req st =
     (let block = ucast (rq_sector req) :: u32; nsect = rq_nr_sectors req in
      if \<not> rq_cmd req then (None, st)
      else if capacity < ucast (block + nsect) then (None, st)
      else case rq_dir req of
             READ \<Rightarrow> read_sectors block (unat nsect) st
           | WRITE buf \<Rightarrow>
               (case write_sectors mem block (unat nsect) buf st of
                  (ok, st') \<Rightarrow> (if ok then Some [] else None, st')))"

subsection \<open>What the cache stands for\<close>

text \<open>The contents of the block device: those of the flash, with the cached block laid over them.\<close>

definition blk_view :: "'s mtdblk_dev \<Rightarrow> u8 list \<Rightarrow> u8 list" where
  "blk_view mb c =
     (if cache_state mb = STATE_EMPTY then c else patch (unat (cache_offset mb)) (the (cache_data mb)) c)"

definition blk_inv :: "'s mtd_info \<Rightarrow> ('s \<Rightarrow> u8 list) \<Rightarrow> ('s \<Rightarrow> bool) \<Rightarrow> 's mtdblk_dev \<Rightarrow> 's \<Rightarrow> bool" where
  "blk_inv mtd contents good mb s \<longleftrightarrow>
     mb_mtd mb = mtd \<and> cache_size mb = mtd_erasesize mtd \<and> good s \<and>
     (\<forall>d. cache_data mb = Some d \<longrightarrow> length d = unat (cache_size mb)) \<and>
     (cache_state mb \<noteq> STATE_EMPTY \<longrightarrow> cache_data mb \<noteq> None \<and> unat (cache_size mb) \<noteq> 512 \<and>
        unat (cache_size mb) dvd unat (cache_offset mb) \<and>
        unat (cache_offset mb) + unat (cache_size mb) \<le> unat (mtd_size mtd)) \<and>
     (cache_state mb = STATE_CLEAN \<longrightarrow>
        cache_data mb = Some (slice (unat (cache_offset mb)) (unat (cache_size mb)) (contents s)))"

text \<open>What the block device is meant to be: an array of bytes that requests read and write in
  sectors, and that refuses a request beyond its end.\<close>

definition array_request :: "request \<Rightarrow> u8 list \<Rightarrow> u8 list option \<times> u8 list" where
  "array_request req arr =
     (let a = unat (rq_sector req); n = unat (rq_nr_sectors req) in
      if \<not> rq_cmd req \<or> length arr div 512 < a + n then (None, arr)
      else case rq_dir req of
             READ \<Rightarrow> (Some (slice (512 * a) (512 * n) arr), arr)
           | WRITE buf \<Rightarrow> (Some [], patch (512 * a) (take (512 * n) buf) arr))"

fun array_run :: "request list \<Rightarrow> u8 list \<Rightarrow> u8 list option list \<times> u8 list" where
  "array_run [] arr = ([], arr)"
| "array_run (req # reqs) arr =
     (case array_request req arr of (r, arr') \<Rightarrow> case array_run reqs arr' of (rs, arr'') \<Rightarrow> (r # rs, arr''))"

fun blk_run :: "(nat \<Rightarrow> u8 list option) \<Rightarrow> u64 \<Rightarrow> request list \<Rightarrow> 's mtdblk_dev \<times> 's \<Rightarrow>
    u8 list option list \<times> 's mtdblk_dev \<times> 's" where
  "blk_run mem capacity [] st = ([], st)"
| "blk_run mem capacity (req # reqs) st =
     (case do_blktrans_request mem capacity req st of
        (r, st') \<Rightarrow> case blk_run mem capacity reqs st' of (rs, st'') \<Rightarrow> (r # rs, st''))"

text \<open>The capacity that \<open>mtdblock_add_mtd\<close> gives the block device.\<close>

definition blk_capacity :: "'s mtd_info \<Rightarrow> u64" where
  "blk_capacity mtd = ucast (drop_bit 9 (mtd_size mtd))"

text \<open>Requests whose sector numbers fit into the 32 bits the driver uses, with a buffer of their size.\<close>

definition req_ok :: "request \<Rightarrow> bool" where
  "req_ok req \<longleftrightarrow> unat (rq_sector req) + unat (rq_nr_sectors req) < 2 ^ 32 \<and>
     (case rq_dir req of READ \<Rightarrow> True | WRITE buf \<Rightarrow> 512 * unat (rq_nr_sectors req) \<le> length buf)"

definition mem_ok :: "'s mtd_info \<Rightarrow> (nat \<Rightarrow> u8 list option) \<Rightarrow> bool" where
  "mem_ok mtd mem \<longleftrightarrow> (\<forall>k m. mem k = Some m \<longrightarrow> length m = unat (mtd_erasesize mtd))"

lemma patch_append:
  "a + length d + length e \<le> length xs \<Longrightarrow> patch a (d @ e) xs = patch (a + length d) e (patch a d xs)"
  by (rule nth_equalityI) (auto simp: nth_patch nth_append)

lemma slice_append: "slice a m xs @ slice (a + m) n xs = slice a (m + n) xs"
  by (simp add: slice_def take_add add.commute)

lemma multiples_disjoint:
  fixes a b n :: nat
  assumes "n dvd a" "n dvd b" "a \<noteq> b"
  shows "a + n \<le> b \<or> b + n \<le> a"
proof -
  obtain i j where ij: "a = n * i" "b = n * j" using assms(1,2) by (auto elim!: dvdE)
  then consider "Suc i \<le> j" | "Suc j \<le> i" using assms(3) by force
  then show ?thesis
  proof cases
    case 1
    then have "n * Suc i \<le> n * j" by (rule mult_le_mono2)
    then show ?thesis by (simp add: ij)
  next
    case 2
    then have "n * Suc j \<le> n * i" by (rule mult_le_mono2)
    then show ?thesis by (simp add: ij)
  qed
qed

locale flash_block = mtd_device mtd contents good
  for mtd :: "'s mtd_info" and contents good +
  assumes erase_done: "MTD_ERASE mtd (s, instr) = (Inr (), s', i) \<Longrightarrow> e_state i = MTD_ERASE_DONE"
    and sectors: "512 dvd unat (mtd_erasesize mtd)" "0 < unat (mtd_erasesize mtd)"
    and whole_blocks: "unat (mtd_erasesize mtd) dvd unat (mtd_size mtd)"
    and sync_law: "good s \<Longrightarrow> good (sync_if mtd s) \<and> contents (sync_if mtd s) = contents s"
begin

abbreviation sect :: u32 where "sect \<equiv> mtd_erasesize mtd"
abbreviation inv where "inv \<equiv> blk_inv mtd contents good"

lemma erase_write_ok:
  assumes s: "good s" and range: "unat pos + unat len \<le> unat (mtd_size mtd)" and buf: "unat len \<le> length buf"
    and ew: "erase_write mtd part pos len buf s = (r, u)"
  shows "good u \<and> (\<exists>d. length d = unat len \<and> contents u = patch (unat pos) d (contents s) \<and>
    (r = Inr () \<longrightarrow> d = take (unat len) buf))"
proof -
  let ?i = "\<lparr>e_part = part, e_addr = pos, e_len = len, e_fail_addr = 0xFFFFFFFF, e_state = MTD_ERASE_PENDING\<rparr>"
  have rg: "unat (e_addr ?i) + unat (e_len ?i) \<le> unat (mtd_size mtd)" using range by simp
  obtain q t i where E: "MTD_ERASE mtd (s, ?i) = (q, t, i)" by (metis prod_cases3)
  have t: "good t" by (rule erase_good [OF s rg E])
  show ?thesis
  proof (cases q)
    case (Inl e)
    then have "r = Inl e" "u = t" using ew E by (auto simp: erase_write_def)
    then show ?thesis using erase_law [OF s rg E] by auto
  next
    case (Inr x)
    then have E': "MTD_ERASE mtd (s, ?i) = (Inr (), t, i)" using E by simp
    obtain w v where W: "MTD_WRITE mtd (int (unat pos)) len buf t = (w, v)" by (metis surj_pair)
    have "u = v" "r = Inr () \<longrightarrow> w = Inr len"
      using ew E' W by (auto simp: erase_write_def split: sum.splits if_splits)
    moreover have "good v" by (rule write_good [OF t range buf W])
    moreover have "\<exists>d. length d = unat len \<and> contents v = patch (unat pos) d (contents s) \<and>
        (w = Inr len \<longrightarrow> d = take (unat len) buf)"
      using erase_then_write [OF s rg _ E' erase_done [OF E'], of buf w v] buf W by simp
    ultimately show ?thesis by auto
  qed
qed

lemma inv_view_length: "inv mb s \<Longrightarrow> length (blk_view mb (contents s)) = unat (mtd_size mtd)"
  using contents_length [of s] by (auto simp: blk_view_def blk_inv_def)

lemma view_not_dirty: "inv mb s \<Longrightarrow> cache_state mb \<noteq> STATE_DIRTY \<Longrightarrow> blk_view mb (contents s) = contents s"
  using contents_length [of s] by (cases "cache_state mb") (auto simp: blk_view_def blk_inv_def patch_slice)

lemma write_cached_data_ok:
  assumes inv: "inv mb s" and w: "write_cached_data (mb, s) = (r, mb', s')"
  shows "inv mb' s' \<and> blk_view mb' (contents s') = blk_view mb (contents s) \<and> cache_data mb' = cache_data mb \<and>
    (r = Inr () \<longrightarrow> cache_state mb' \<noteq> STATE_DIRTY \<and> contents s' = blk_view mb (contents s))"
proof (cases "cache_state mb = STATE_DIRTY")
  case False
  then show ?thesis using w inv view_not_dirty [OF inv False] by (auto simp: write_cached_data_def Let_def)
next
  case True
  obtain data where data: "cache_data mb = Some data" "length data = unat sect"
    using inv True by (auto simp: blk_inv_def)
  have I: "mb_mtd mb = mtd" "cache_size mb = sect" "good s" "unat (cache_offset mb) + unat sect \<le> unat (mtd_size mtd)"
    using inv True by (auto simp: blk_inv_def)
  obtain q u where E: "erase_write mtd (mb_part mb) (cache_offset mb) sect data s = (q, u)" by (metis surj_pair)
  from erase_write_ok [OF I(3,4) _ E] data(2) obtain d where d: "good u" "length d = unat sect"
    "contents u = patch (unat (cache_offset mb)) d (contents s)" "q = Inr () \<longrightarrow> d = data" by auto
  have len: "length (contents s) = unat (mtd_size mtd)" by (rule contents_length [OF I(3)])
  have mono: "patch (unat (cache_offset mb)) data (contents u) = patch (unat (cache_offset mb)) data (contents s)"
    using d(2,3) data(2) I(4) len by (simp add: patch_patch_same)
  show ?thesis
  proof (cases q)
    case (Inl e)
    then have "r = Inl e" "mb' = mb" "s' = u" using w True data(1) I E by (auto simp: write_cached_data_def Let_def)
    then show ?thesis using inv d(1) True data(1) mono by (auto simp: blk_inv_def blk_view_def)
  next
    case (Inr x)
    then have R: "r = Inr ()" "mb' = mb\<lparr>cache_state := STATE_EMPTY\<rparr>" "s' = u"
      using w True data(1) I E by (auto simp: write_cached_data_def Let_def)
    moreover have "contents u = blk_view mb (contents s)" using Inr d(3,4) True data(1) by (simp add: blk_view_def)
    ultimately show ?thesis using inv d(1) by (simp add: blk_inv_def blk_view_def [of "mb\<lparr>cache_state := STATE_EMPTY\<rparr>"])
  qed
qed

lemma fill_cache_ok:
  assumes inv: "inv mb s" and c: "cache_state mb \<noteq> STATE_DIRTY" "cache_data mb \<noteq> None" "unat sect \<noteq> 512"
    and start: "unat sect dvd unat start" "unat start + unat sect \<le> unat (mtd_size mtd)"
    and f: "fill_cache start sect (mb, s) = (r, mb', s')"
  shows "inv mb' s' \<and> blk_view mb' (contents s') = blk_view mb (contents s) \<and> cache_data mb' \<noteq> None \<and>
    (r = Inr () \<longrightarrow> cache_state mb' = STATE_CLEAN \<and> cache_offset mb' = start)"
proof -
  have I: "mb_mtd mb = mtd" "cache_size mb = sect" "good s" using inv by (auto simp: blk_inv_def)
  obtain q u where R: "MTD_READ mtd (int (unat start)) sect s = (q, u)" by (metis surj_pair)
  have L: "good u" "contents u = contents s" "\<forall>d. q = Inr d \<longrightarrow> d = slice (unat start) (length d) (contents s)"
    using read_law [OF I(3) start(2) R] by simp_all
  have V: "blk_view mb (contents s) = contents s" by (rule view_not_dirty [OF inv c(1)])
  let ?e = "mb\<lparr>cache_state := STATE_EMPTY\<rparr>"
  have e: "inv ?e u" "blk_view ?e (contents u) = contents s" using inv L(1,2) by (auto simp: blk_inv_def blk_view_def)
  show ?thesis
  proof (cases "\<exists>d. q = Inr d \<and> length d = unat sect")
    case False
    then have "r \<noteq> Inr ()" "mb' = ?e" "s' = u"
      using f c(2) I(1) R by (auto simp: fill_cache_def Let_def split: option.splits sum.splits if_splits)
    then show ?thesis using e V c(2) by auto
  next
    case True
    then obtain d where d: "q = Inr d" "length d = unat sect" by blast
    have f': "r = Inr ()" "s' = u"
      "mb' = mb\<lparr>cache_data := Some d, cache_offset := start, cache_size := sect, cache_state := STATE_CLEAN\<rparr>"
      using f c(2) I(1) R d by (auto simp: fill_cache_def Let_def split: option.splits)
    have "d = slice (unat start) (unat sect) (contents s)" using L(3) d by auto
    then have inv': "inv mb' s'" using inv L(1,2) c(3) start d(2) by (auto simp: blk_inv_def f')
    then have "blk_view mb' (contents s') = contents s'" by (rule view_not_dirty) (simp add: f')
    then show ?thesis using inv' V L(2) by (simp add: f')
  qed
qed

lemma modify_cache_ok:
  assumes inv: "inv mb s" and c: "cache_state mb \<noteq> STATE_EMPTY"
    and range: "unat off + unat sz \<le> unat sect" "unat sz \<le> length buf"
    and m: "modify_cache off sz buf (mb, s) = (r, mb', s')"
  shows "r = Inr () \<and> inv mb' s' \<and> cache_data mb' \<noteq> None \<and>
    blk_view mb' (contents s') = patch (unat (cache_offset mb) + unat off) (take (unat sz) buf) (blk_view mb (contents s))"
proof -
  have I: "cache_size mb = sect" "good s" "unat (cache_offset mb) + unat sect \<le> unat (mtd_size mtd)"
    using inv c by (auto simp: blk_inv_def)
  obtain data where data: "cache_data mb = Some data" "length data = unat sect" using inv c by (auto simp: blk_inv_def)
  let ?d = "patch (unat off) (take (unat sz) buf) data"
  have "memcpy data (unat off) buf 0 (unat sz) = Inr ?d" using range data(2) by (simp add: memcpy_def patch_def min_absorb2)
  then have m': "r = Inr ()" "s' = s" "mb' = mb\<lparr>cache_data := Some ?d, cache_state := STATE_DIRTY\<rparr>"
    using m data(1) by (auto simp: modify_cache_def Let_def)
  have "length ?d = unat sect" using range data(2) by simp
  then have "inv mb' s'" using inv c by (clarsimp simp add: blk_inv_def m' simp del: length_patch)
  moreover have "patch (unat (cache_offset mb)) ?d (contents s) =
      patch (unat (cache_offset mb) + unat off) (take (unat sz) buf) (patch (unat (cache_offset mb)) data (contents s))"
    using patch_patch_inside [of "unat (cache_offset mb)" data "contents s" "unat (cache_offset mb) + unat off" "take (unat sz) buf"]
      data(2) range I contents_length [OF I(2)] by simp
  ultimately show ?thesis using c data(1) by (simp add: m' blk_view_def)
qed

lemma block_start:
  assumes "unat pos < unat (mtd_size mtd)"
  shows "unat (pos div sect * sect) = unat pos div unat sect * unat sect"
    "unat sect dvd unat (pos div sect * sect)"
    "unat (pos div sect * sect) + unat sect \<le> unat (mtd_size mtd)"
    "unat (pos - pos div sect * sect) = unat pos mod unat sect"
proof -
  have "unat (pos div sect) * unat sect < 2 ^ LENGTH(32)"
    using le_less_trans [OF div_times_less_eq_dividend unat_less_exp [of pos]] by (simp add: unat_div)
  then show s: "unat (pos div sect * sect) = unat pos div unat sect * unat sect"
    by (simp add: unat_mult_nowrap unat_div)
  then show "unat sect dvd unat (pos div sect * sect)" by simp
  obtain k where k: "unat (mtd_size mtd) = unat sect * k" using whole_blocks by (auto elim: dvdE)
  have "unat pos div unat sect < k" using assms k sectors(2) by (simp add: less_mult_imp_div_less mult.commute)
  then have "Suc (unat pos div unat sect) * unat sect \<le> k * unat sect" by (intro mult_le_mono1) simp
  then show "unat (pos div sect * sect) + unat sect \<le> unat (mtd_size mtd)" unfolding s k by (simp add: mult.commute)
  show "unat (pos - pos div sect * sect) = unat pos mod unat sect" by (simp add: sub_div_mult unat_mod)
qed

text \<open>The cache is made to hold the block at \<open>start\<close>: the dirty block in it is written back first.\<close>

lemma change_block_ok:
  assumes inv: "inv mb s" and c: "cache_data mb \<noteq> None" "unat sect \<noteq> 512"
    and start: "unat sect dvd unat start" "unat start + unat sect \<le> unat (mtd_size mtd)"
    and f: "bind_io
        (\<lambda>st. if cache_state (fst st) = STATE_DIRTY \<and> cache_offset (fst st) \<noteq> start
              then write_cached_data st else (Inr (), st))
        (\<lambda>_ st. if cache_state (fst st) = STATE_EMPTY \<or> cache_offset (fst st) \<noteq> start
              then fill_cache start sect st else (Inr (), st)) (mb, s) = (r, mb', s')"
  shows "inv mb' s' \<and> blk_view mb' (contents s') = blk_view mb (contents s) \<and> cache_data mb' \<noteq> None \<and>
    (r = Inr () \<longrightarrow> cache_state mb' \<noteq> STATE_EMPTY \<and> cache_offset mb' = start)"
proof -
  obtain r1 mb1 s1 where A: "(if cache_state mb = STATE_DIRTY \<and> cache_offset mb \<noteq> start
      then write_cached_data (mb, s) else (Inr (), mb, s)) = (r1, mb1, s1)" by (metis prod_cases3)
  have A1: "inv mb1 s1" "blk_view mb1 (contents s1) = blk_view mb (contents s)" "cache_data mb1 \<noteq> None"
    "r1 = Inr () \<longrightarrow> cache_state mb1 = STATE_DIRTY \<longrightarrow> cache_offset mb1 = start"
    using A inv c(1) write_cached_data_ok [OF inv, of r1 mb1 s1] by (auto split: if_splits)
  show ?thesis
  proof (cases r1)
    case (Inl e)
    then have "r = Inl e" "mb' = mb1" "s' = s1" using f A by (auto simp: bind_io_def)
    then show ?thesis using A1 by simp
  next
    case (Inr x)
    then have B: "(if cache_state mb1 = STATE_EMPTY \<or> cache_offset mb1 \<noteq> start
        then fill_cache start sect (mb1, s1) else (Inr (), mb1, s1)) = (r, mb', s')" using f A by (simp add: bind_io_def)
    show ?thesis
    proof (cases "cache_state mb1 = STATE_EMPTY \<or> cache_offset mb1 \<noteq> start")
      case True
      then have "cache_state mb1 \<noteq> STATE_DIRTY" using A1(4) Inr by auto
      moreover have "fill_cache start sect (mb1, s1) = (r, mb', s')" using B True by simp
      ultimately show ?thesis using fill_cache_ok [OF A1(1) _ A1(3) c(2) start] A1(2) by auto
    next
      case False
      then show ?thesis using B A1 by auto
    qed
  qed
qed

lemma bind_io_assoc: "bind_io m (\<lambda>x. bind_io (f x) g) = bind_io (bind_io m f) g"
  by (rule ext) (auto simp: bind_io_def split: prod.splits sum.splits)

lemma cached_write_step_ok:
  assumes inv: "inv mb s" and c: "cache_data mb \<noteq> None"
    and range: "0 < unat sz" "unat pos + unat sz \<le> unat (mtd_size mtd)" "unat pos mod unat sect + unat sz \<le> unat sect"
      "unat sz \<le> length buf"
    and case_whole: "sz = sect \<Longrightarrow> cache_state mb = STATE_EMPTY" and case_part: "sz \<noteq> sect \<Longrightarrow> unat sect \<noteq> 512"
    and step: "cached_write_step sect pos sz buf (mb, s) = (r, mb', s')"
  shows "inv mb' s' \<and> cache_data mb' \<noteq> None \<and> (\<exists>d. length d = unat sz \<and>
    blk_view mb' (contents s') = patch (unat pos) d (blk_view mb (contents s)) \<and> (r = Inr () \<longrightarrow> d = take (unat sz) buf))"
proof (cases "sz = sect")
  case True
  have I: "mb_mtd mb = mtd" "good s" using inv by (auto simp: blk_inv_def)
  have e: "cache_state mb = STATE_EMPTY" by (rule case_whole [OF True])
  obtain u where u: "erase_write mtd (mb_part mb) pos sz buf s = (r, u)" "mb' = mb" "s' = u"
    using step True I(1) by (auto simp: cached_write_step_def Let_def split: prod.splits)
  have "good u" using erase_write_ok [OF I(2) range(2,4) u(1)] by simp
  then have "inv mb u" using inv e by (simp add: blk_inv_def)
  then show ?thesis using erase_write_ok [OF I(2) range(2,4) u(1)] c e by (simp add: u blk_view_def)
next
  case False
  have "unat pos < unat (mtd_size mtd)" using range(1,2) by simp
  note S = block_start [OF this]
  let ?start = "pos div sect * sect" and ?off = "pos - pos div sect * sect"
  let ?change = "bind_io
        (\<lambda>st. if cache_state (fst st) = STATE_DIRTY \<and> cache_offset (fst st) \<noteq> ?start
              then write_cached_data st else (Inr (), st))
        (\<lambda>_ st. if cache_state (fst st) = STATE_EMPTY \<or> cache_offset (fst st) \<noteq> ?start
              then fill_cache ?start sect st else (Inr (), st))"
  have step': "bind_io ?change (\<lambda>_. modify_cache ?off sz buf) (mb, s) = (r, mb', s')"
    using step False unfolding cached_write_step_def Let_def bind_io_assoc by (simp only: if_False)
  obtain r1 mb1 s1 where C: "?change (mb, s) = (r1, mb1, s1)" by (rule prod_cases3 [of "?change (mb, s)"])
  note C1 = change_block_ok [OF inv c case_part [OF False] S(2,3) C]
  let ?v = "blk_view mb (contents s)"
  show ?thesis
  proof (cases r1)
    case (Inl e)
    then have R: "r = Inl e" "mb' = mb1" "s' = s1" using step' C by (auto simp: bind_io_def)
    have "unat pos + unat sz \<le> length ?v" using range(2) inv_view_length [OF inv] by simp
    then have "length (slice (unat pos) (unat sz) ?v) = unat sz" "patch (unat pos) (slice (unat pos) (unat sz) ?v) ?v = ?v"
      by (simp_all add: patch_slice)
    then show ?thesis using C1 unfolding R by (intro conjI exI [of _ "slice (unat pos) (unat sz) ?v"]) simp_all
  next
    case (Inr x)
    then have M: "modify_cache ?off sz buf (mb1, s1) = (r, mb', s')" using step' C by (simp add: bind_io_def)
    have st: "cache_state mb1 \<noteq> STATE_EMPTY" "cache_offset mb1 = ?start" using C1 Inr by simp_all
    have r1: "unat ?off + unat sz \<le> unat sect" using range(3) S(4) by simp
    have "unat ?start + unat ?off = unat pos" using S(1,4) by simp
    then show ?thesis
      using modify_cache_ok [OF _ st(1) r1 range(4) M] C1 st(2) range(4)
      by (intro conjI exI [of _ "take (unat sz) buf"]) (simp_all add: min_absorb2)
  qed
qed

lemma sector_in_block:
  assumes "512 * unat block + 512 \<le> unat (mtd_size mtd)"
  shows "unat (push_bit 9 block) = 512 * unat block"
    "unat (push_bit 9 block) mod unat sect + 512 \<le> unat sect"
    "unat (chunk sect (push_bit 9 block) 512) = 512"
proof -
  have "unat block * 2 ^ 9 < 2 ^ LENGTH(32)" using assms unat_less_exp [of "mtd_size mtd"] by simp
  from unat_push_bit_nowrap [OF this] show p: "unat (push_bit 9 block) = 512 * unat block" by simp
  obtain k where k: "unat sect = 512 * k" using sectors(1) by (auto elim: dvdE)
  then have "0 < k" using sectors(2) by simp
  then have "Suc (unat block mod k) \<le> k" by (simp add: Suc_leI)
  then have "512 * (unat block mod k) + 512 \<le> 512 * k" using mult_le_mono2 [of "Suc (unat block mod k)" k 512] by simp
  then show q: "unat (push_bit 9 block) mod unat sect + 512 \<le> unat sect" by (simp add: p k mult_mod_right [symmetric])
  have "sect \<noteq> 0" using sectors(2) by (auto simp: unat_gt_0)
  from unat_chunk [OF this] q show "unat (chunk sect (push_bit 9 block) 512) = 512" by simp
qed

text \<open>A sector lies in one erase block, so the loops make one turn.\<close>

lemma write_one_turn:
  assumes "512 * unat block + 512 \<le> unat (mtd_size mtd)" "cache_size mb = sect"
  shows "do_cached_write (push_bit 9 block) 512 buf (mb, s) =
    cached_write_step sect (push_bit 9 block) (chunk sect (push_bit 9 block) 512) buf (mb, s)"
proof -
  have "sect \<noteq> 0" using sectors(2) by (auto simp: unat_gt_0)
  then show ?thesis using sector_in_block(3) [OF assms(1)] assms(2) unfolding do_cached_write_def
    by (subst cached_write_loop.simps)
      (auto simp: Let_def bind_io_def cached_write_loop.simps split: prod.splits sum.splits)
qed

lemma read_one_turn:
  assumes "512 * unat block + 512 \<le> unat (mtd_size mtd)" "cache_size mb = sect"
  shows "mtdblock_readsect block (mb, s) =
    cached_read_step sect (push_bit 9 block) (chunk sect (push_bit 9 block) 512) (mb, s)"
proof -
  have "sect \<noteq> 0" using sectors(2) by (auto simp: unat_gt_0)
  then show ?thesis using sector_in_block(3) [OF assms(1)] assms(2)
    unfolding mtdblock_readsect_def do_cached_read_def
    by (subst cached_read_loop.simps)
      (auto simp: Let_def bind_io_def cached_read_loop.simps split: prod.splits sum.splits)
qed

lemma writesect_ok:
  assumes inv: "inv mb s" and range: "512 * unat block + 512 \<le> unat (mtd_size mtd)" "512 \<le> length buf"
    and mem: "\<forall>m. mem = Some m \<longrightarrow> length m = unat sect"
    and w: "mtdblock_writesect mem block buf (mb, s) = (r, mb', s')"
  shows "inv mb' s' \<and> (\<exists>d. length d = 512 \<and>
    blk_view mb' (contents s') = patch (512 * unat block) d (blk_view mb (contents s)) \<and> (r = Inr () \<longrightarrow> d = take 512 buf))"
proof -
  note B = sector_in_block [OF range(1)]
  let ?p = "push_bit 9 block" let ?n = "chunk sect ?p 512"
  have nz: "sect \<noteq> 0" using sectors(2) by (auto simp: unat_gt_0)
  have step: "inv mb' s' \<and> (\<exists>d. length d = 512 \<and>
      blk_view mb' (contents s') = patch (512 * unat block) d (blk_view m1 (contents s)) \<and> (r = Inr () \<longrightarrow> d = take 512 buf))"
    if m1: "inv m1 s" "cache_data m1 \<noteq> None" and d: "do_cached_write ?p 512 buf (m1, s) = (r, mb', s')" for m1
  proof -
    have cs: "cache_size m1 = sect" using m1(1) by (simp add: blk_inv_def)
    have st: "cached_write_step sect ?p ?n buf (m1, s) = (r, mb', s')"
      using d by (simp add: write_one_turn [OF range(1) cs])
    have w: "cache_state m1 = STATE_EMPTY" if "?n = sect" using m1(1) B(3) that by (auto simp: blk_inv_def)
    have e: "unat sect \<noteq> 512" if "?n \<noteq> sect" using that B(3) by (metis word_unat_eq_iff)
    have "0 < unat ?n" "unat ?p + unat ?n \<le> unat (mtd_size mtd)" "unat ?p mod unat sect + unat ?n \<le> unat sect"
      "unat ?n \<le> length buf" using B range by simp_all
    from cached_write_step_ok [OF m1 this w e st] show ?thesis by (simp add: B)
  qed
  show ?thesis
  proof (cases "cache_data mb")
    case (Some data)
    then show ?thesis using w by (intro step [OF inv]) (simp_all add: mtdblock_writesect_def)
  next
    case None
    have cs: "cache_size mb = sect" using inv by (simp add: blk_inv_def)
    have e: "cache_state mb = STATE_EMPTY" using inv None by (auto simp: blk_inv_def)
    show ?thesis
    proof (cases mem)
      case None' : None
      have R: "r = Inl (Errno EINTR)" "mb' = mb" "s' = s" using w None None' cs nz by (auto simp: mtdblock_writesect_def)
      let ?v = "blk_view mb (contents s)"
      have "512 * unat block + 512 \<le> length ?v" using range(1) inv_view_length [OF inv] by simp
      then show ?thesis using inv unfolding R
        by (intro conjI exI [of _ "slice (512 * unat block) 512 ?v"]) (simp_all add: patch_slice)
    next
      case (Some m)
      let ?m = "mb\<lparr>cache_data := Some m\<rparr>"
      have "inv ?m s" using inv e mem Some cs by (simp add: blk_inv_def)
      moreover have "do_cached_write ?p 512 buf (?m, s) = (r, mb', s')"
        using w None Some cs nz by (simp add: mtdblock_writesect_def)
      ultimately show ?thesis using step [of ?m] e by (simp add: blk_view_def)
    qed
  qed
qed

lemma readsect_ok:
  assumes inv: "inv mb s" and range: "512 * unat block + 512 \<le> unat (mtd_size mtd)"
    and rd: "mtdblock_readsect block (mb, s) = (r, mb', s')"
  shows "mb' = mb \<and> inv mb s' \<and> contents s' = contents s \<and>
    (\<forall>d. r = Inr d \<longrightarrow> d = slice (512 * unat block) 512 (blk_view mb (contents s)))"
proof -
  note B = sector_in_block [OF range]
  let ?p = "push_bit 9 block" let ?n = "chunk sect ?p 512"
  have nz: "sect \<noteq> 0" using sectors(2) by (auto simp: unat_gt_0)
  have I: "mb_mtd mb = mtd" "cache_size mb = sect" "good s" using inv by (auto simp: blk_inv_def)
  have len: "length (contents s) = unat (mtd_size mtd)" by (rule contents_length [OF I(3)])
  obtain q where q: "cached_read_step sect ?p ?n (mb, s) = (q, mb', s')" "\<forall>d. r = Inr d \<longrightarrow> q = Inr d"
    using rd by (simp add: read_one_turn [OF range I(2)])
  have "unat ?p < unat (mtd_size mtd)" using B(1) range by simp
  note S = block_start [OF this]
  let ?start = "?p div sect * sect"
  show ?thesis
  proof (cases "cache_state mb \<noteq> STATE_EMPTY \<and> cache_offset mb = ?start")
    case True
    then obtain data where data: "cache_data mb = Some data" "length data = unat sect" using inv by (auto simp: blk_inv_def)
    have "unat (?p - ?start) + 512 \<le> unat sect" using S(4) B(2) by simp
    then have Q: "q = Inr (slice (unat (?p - ?start)) 512 data)" "mb' = mb" "s' = s"
      using q(1) True data B(3) by (auto simp: cached_read_step_def Let_def memcpy_def slice_def)
    have "slice (unat ?p) 512 (patch (unat ?start) data (contents s)) = slice (unat ?p - unat ?start) 512 data"
      using S(3) B(2) data(2) len div_mult_mod_eq [of "unat ?p" "unat sect"] unfolding S(1)
      by (intro slice_patch_inside) linarith+
    moreover have "unat ?p - unat ?start = unat (?p - ?start)" unfolding S(1,4) by (simp add: minus_div_mult_eq_mod)
    ultimately show ?thesis using Q q(2) inv True data(1) B(1) by (auto simp: blk_view_def)
  next
    case False
    obtain x u where R: "MTD_READ mtd (int (unat ?p)) ?n s = (x, u)" by (metis surj_pair)
    have rng: "unat ?p + unat ?n \<le> unat (mtd_size mtd)" using B(1,3) range by simp
    note L = read_law [OF I(3) rng R]
    have Q: "mb' = mb" "s' = u" "\<forall>d. q = Inr d \<longrightarrow> x = Inr d \<and> length d = 512"
      using q(1) False R I(1) B(3) by (auto simp: cached_read_step_def Let_def split: sum.splits if_splits)
    have "slice (unat ?p) 512 (blk_view mb (contents s)) = slice (unat ?p) 512 (contents s)"
    proof (cases "cache_state mb = STATE_EMPTY")
      case st: False
      then obtain data where data: "cache_data mb = Some data" "length data = unat sect" using inv by (auto simp: blk_inv_def)
      have C: "unat sect dvd unat (cache_offset mb)" "unat (cache_offset mb) + unat sect \<le> unat (mtd_size mtd)"
        using inv st by (auto simp: blk_inv_def)
      have "unat (cache_offset mb) \<noteq> unat ?start" using False st by (metis word_unat_eq_iff)
      from multiples_disjoint [OF C(1) S(2) this]
      have "unat ?p + 512 \<le> unat (cache_offset mb) \<or> unat (cache_offset mb) + unat sect \<le> unat ?p"
        using div_mult_mod_eq [of "unat ?p" "unat sect"] B(2) unfolding S(1) by linarith
      then show ?thesis using st data C(2) rng B(3) len by (simp add: blk_view_def slice_patch_disjoint)
    qed (simp add: blk_view_def)
    moreover have "inv mb u" using inv L by (auto simp: blk_inv_def)
    ultimately show ?thesis using Q q(2) L B(1) by auto
  qed
qed

lemma inv_same: "inv mb s \<Longrightarrow> good s' \<Longrightarrow> contents s' = contents s \<Longrightarrow> inv mb s'"
  unfolding blk_inv_def by metis

lemma flush_ok:
  assumes "inv mb s" "mtdblock_flush (mb, s) = (r, mb', s')"
  shows "inv mb' s' \<and> blk_view mb' (contents s') = blk_view mb (contents s)"
proof -
  obtain q m u where W: "write_cached_data (mb, s) = (q, m, u)" by (rule prod_cases3 [of "write_cached_data (mb, s)"])
  note O = write_cached_data_ok [OF assms(1) W]
  then have "good u" "mb_mtd m = mtd" by (simp_all add: blk_inv_def)
  moreover have "mb' = m" "s' = sync_if mtd u" using assms(2) W calculation(2) by (simp_all add: mtdblock_flush_def)
  ultimately show ?thesis using O sync_law [of u] inv_same [of m u "sync_if mtd u"] by simp
qed

lemma next_sector:
  fixes block :: u32
  shows "512 * (unat block + Suc n) \<le> unat (mtd_size mtd) \<Longrightarrow> unat (block + 1) = unat block + 1"
  using unat_less_exp [of "mtd_size mtd"] by (subst unat_add_nowrap) auto

lemma write_sectors_ok:
  "inv mb s \<Longrightarrow> 512 * (unat block + n) \<le> unat (mtd_size mtd) \<Longrightarrow> 512 * n \<le> length buf \<Longrightarrow> mem_ok mtd mem \<Longrightarrow>
   write_sectors mem block n buf (mb, s) = (ok, mb', s') \<Longrightarrow>
   inv mb' s' \<and> (\<exists>d. length d = 512 * n \<and>
     blk_view mb' (contents s') = patch (512 * unat block) d (blk_view mb (contents s)) \<and> (ok \<longrightarrow> d = take (512 * n) buf))"
proof (induction n arbitrary: block buf mb s)
  case 0
  then show ?case by (simp add: patch_def)
next
  case (Suc n)
  obtain r m1 s1 where W: "mtdblock_writesect (mem n) block buf (mb, s) = (r, m1, s1)"
    by (rule prod_cases3 [of "mtdblock_writesect (mem n) block buf (mb, s)"])
  have rng: "512 * unat block + 512 \<le> unat (mtd_size mtd)" "512 \<le> length buf" using Suc.prems(2,3) by simp_all
  have "\<forall>m. mem n = Some m \<longrightarrow> length m = unat sect" using Suc.prems(4) by (simp add: mem_ok_def)
  from writesect_ok [OF Suc.prems(1) rng this W] obtain d where d: "inv m1 s1" "length d = 512"
    "blk_view m1 (contents s1) = patch (512 * unat block) d (blk_view mb (contents s))" "r = Inr () \<longrightarrow> d = take 512 buf" by auto
  let ?v = "blk_view mb (contents s)" and ?a = "512 * unat block"
  have len: "?a + 512 + 512 * n \<le> length ?v" using inv_view_length [OF Suc.prems(1)] Suc.prems(2) by simp
  have app: "patch (?a + 512) e (patch ?a d ?v) = patch ?a (d @ e) ?v" if "length e = 512 * n" for e
    using patch_append [of ?a d e ?v] len that d(2) by simp
  show ?case
  proof (cases r)
    case (Inl e)
    let ?e = "slice (?a + 512) (512 * n) (patch ?a d ?v)"
    have R: "\<not> ok" "mb' = m1" "s' = s1" using Suc.prems(5) W Inl by auto
    have "length ?e = 512 * n" using len d(2) by simp
    moreover have "patch (?a + 512) ?e (patch ?a d ?v) = patch ?a d ?v" using len d(2) by (intro patch_slice) simp
    ultimately show ?thesis using app [of ?e] d R by (intro conjI exI [of _ "d @ ?e"]) simp_all
  next
    case (Inr x)
    have n1: "unat (block + 1) = unat block + 1" by (rule next_sector [OF Suc.prems(2)])
    have W2: "write_sectors mem (block + 1) n (drop 512 buf) (m1, s1) = (ok, mb', s')" using Suc.prems(5) W Inr by simp
    have rng2: "512 * (unat (block + 1) + n) \<le> unat (mtd_size mtd)" "512 * n \<le> length (drop 512 buf)"
      using Suc.prems(2,3) by (simp_all add: n1)
    have n1': "512 * unat (block + 1) = ?a + 512" by (simp add: n1)
    from Suc.IH [OF d(1) rng2 Suc.prems(4) W2] obtain e where e: "inv mb' s'" "length e = 512 * n"
      "blk_view mb' (contents s') = patch (?a + 512) e (patch ?a d ?v)" "ok \<longrightarrow> e = take (512 * n) (drop 512 buf)"
      unfolding n1' d(3) by auto
    have "d @ e = take (512 + 512 * n) buf" if ok using d(4) e(4) Inr that by (simp add: take_add)
    then show ?thesis using e d(2) app [OF e(2)] by (intro conjI exI [of _ "d @ e"]) simp_all
  qed
qed

lemma read_sectors_ok:
  "inv mb s \<Longrightarrow> 512 * (unat block + n) \<le> unat (mtd_size mtd) \<Longrightarrow> read_sectors block n (mb, s) = (r, mb', s') \<Longrightarrow>
   mb' = mb \<and> inv mb s' \<and> contents s' = contents s \<and>
   (\<forall>d. r = Some d \<longrightarrow> d = slice (512 * unat block) (512 * n) (blk_view mb (contents s)))"
proof (induction n arbitrary: block s r mb' s')
  case 0
  then show ?case by (auto simp: slice_def)
next
  case (Suc n)
  obtain q m1 s1 where W: "mtdblock_readsect block (mb, s) = (q, m1, s1)"
    by (rule prod_cases3 [of "mtdblock_readsect block (mb, s)"])
  have "512 * unat block + 512 \<le> unat (mtd_size mtd)" using Suc.prems(2) by simp
  note S = readsect_ok [OF Suc.prems(1) this W]
  show ?case
  proof (cases q)
    case (Inl e)
    then show ?thesis using Suc.prems(3) W S by auto
  next
    case (Inr d)
    have n1: "unat (block + 1) = unat block + 1" by (rule next_sector [OF Suc.prems(2)])
    have n1': "512 * unat (1 + block) = 512 + 512 * unat block" using n1 by (simp add: add.commute)
    obtain r2 m2 s2 where X: "read_sectors (block + 1) n (mb, s1) = (r2, m2, s2)"
      by (rule prod_cases3 [of "read_sectors (block + 1) n (mb, s1)"])
    have "512 * (unat (block + 1) + n) \<le> unat (mtd_size mtd)" using Suc.prems(2) by (simp add: n1)
    note T = Suc.IH [OF conjunct1 [OF conjunct2 [OF S]] this X]
    have "r = map_option ((@) d) r2" "mb' = m2" "s' = s2" using Suc.prems(3) W Inr X S by auto
    then show ?thesis using T S Inr slice_append [of "512 * unat block" 512 "blk_view mb (contents s)" "512 * n"]
      by (auto simp: n1' add.commute)
  qed
qed

lemma capacity_test:
  assumes "unat sector + unat n < 2 ^ 32"
  shows "unat (ucast sector :: u32) = unat (sector :: u64)"
    "blk_capacity mtd < ucast ((ucast sector :: u32) + n) \<longleftrightarrow> unat (mtd_size mtd) div 512 < unat sector + unat n"
proof -
  show s: "unat (ucast sector :: u32) = unat sector" using assms by (intro unat_ucast_small) simp
  then have "unat ((ucast sector :: u32) + n) = unat sector + unat n" using assms by (simp add: unat_add_nowrap)
  then show "blk_capacity mtd < ucast ((ucast sector :: u32) + n) \<longleftrightarrow> unat (mtd_size mtd) div 512 < unat sector + unat n"
    using assms unat_less_exp [of "mtd_size mtd"]
    by (simp add: blk_capacity_def word_less_nat_alt unat_ucast_small unat_drop_bit less_mult_imp_div_less)
qed

lemma request_step:
  assumes inv: "inv mb s" and ok: "req_ok req" "mem_ok mtd mem"
    and rq: "do_blktrans_request mem (blk_capacity mtd) req (mb, s) = (r, mb', s')"
  defines "a \<equiv> unat (rq_sector req)" and "n \<equiv> unat (rq_nr_sectors req)" and "v \<equiv> blk_view mb (contents s)"
  shows "inv mb' s' \<and> (r \<noteq> None \<longrightarrow> array_request req v = (r, blk_view mb' (contents s'))) \<and>
    (fst (array_request req v) = None \<longrightarrow> array_request req v = (r, blk_view mb' (contents s'))) \<and>
    (\<forall>i < length v. i < 512 * a \<or> 512 * (a + n) \<le> i \<longrightarrow> blk_view mb' (contents s') ! i = v ! i)"
proof (cases "rq_cmd req \<and> \<not> unat (mtd_size mtd) div 512 < a + n")
  case False
  have an: "a + n < 2 ^ 32" using ok(1) by (simp add: req_ok_def a_def n_def)
  note C = capacity_test [OF an [unfolded a_def n_def]]
  have "r = None" "mb' = mb" "s' = s"
    using rq False C(2) by (auto simp: do_blktrans_request_def Let_def a_def n_def split: if_splits)
  moreover have "array_request req v = (None, v)"
    using False inv_view_length [OF inv] by (auto simp: array_request_def Let_def v_def simp flip: a_def n_def)
  ultimately show ?thesis using inv by (simp add: v_def)
next
  case True
  have an: "a + n < 2 ^ 32" using ok(1) by (simp add: req_ok_def a_def n_def)
  note C = capacity_test [OF an [unfolded a_def n_def]]
  have len: "length v = unat (mtd_size mtd)" unfolding v_def by (rule inv_view_length [OF inv])
  have "512 * (a + n) \<le> 512 * (unat (mtd_size mtd) div 512)" using True by simp
  also have "\<dots> \<le> unat (mtd_size mtd)" by (rule times_div_less_eq_dividend)
  finally have fit: "512 * (a + n) \<le> unat (mtd_size mtd)" .
  then have fit': "512 * (unat (ucast (rq_sector req) :: u32) + n) \<le> unat (mtd_size mtd)" using C(1) by (simp add: a_def)
  show ?thesis
  proof (cases "rq_dir req")
    case READ
    have R: "read_sectors (ucast (rq_sector req)) n (mb, s) = (r, mb', s')"
      using rq True READ C(2) by (auto simp: do_blktrans_request_def Let_def a_def n_def)
    note S = read_sectors_ok [OF inv fit' R]
    then show ?thesis using True READ C(1) len
      by (auto simp: array_request_def Let_def v_def simp flip: a_def n_def)
  next
    case (WRITE buf)
    obtain k m1 s1 where W: "write_sectors mem (ucast (rq_sector req)) n buf (mb, s) = (k, m1, s1)"
      by (rule prod_cases3 [of "write_sectors mem (ucast (rq_sector req)) n buf (mb, s)"])
    have R: "r = (if k then Some [] else None)" "mb' = m1" "s' = s1"
      using rq True WRITE C(2) W by (auto simp: do_blktrans_request_def Let_def a_def n_def)
    have "512 * n \<le> length buf" using ok(1) WRITE by (simp add: req_ok_def n_def)
    from write_sectors_ok [OF inv fit' this ok(2) W] obtain d where d: "inv m1 s1" "length d = 512 * n"
      "blk_view m1 (contents s1) = patch (512 * a) d v" "k \<longrightarrow> d = take (512 * n) buf"
      using C(1) by (auto simp: a_def v_def)
    moreover have "patch (512 * a) d v ! i = v ! i" if "i < length v" "i < 512 * a \<or> 512 * (a + n) \<le> i" for i
      using that fit len d(2) by (subst nth_patch) auto
    ultimately show ?thesis using True WRITE len R
      by (auto simp: array_request_def Let_def simp flip: a_def n_def)
  qed
qed

lemma run_refines_array:
  "inv mb s \<Longrightarrow> \<forall>req \<in> set reqs. req_ok req \<Longrightarrow> mem_ok mtd mem \<Longrightarrow>
   blk_run mem (blk_capacity mtd) reqs (mb, s) = (rs, mb', s') \<Longrightarrow> None \<notin> set rs \<Longrightarrow>
   inv mb' s' \<and> array_run reqs (blk_view mb (contents s)) = (rs, blk_view mb' (contents s'))"
proof (induction reqs arbitrary: mb s rs mb' s')
  case Nil
  then show ?case by simp
next
  case (Cons req reqs)
  obtain r m1 s1 where A: "do_blktrans_request mem (blk_capacity mtd) req (mb, s) = (r, m1, s1)"
    by (rule prod_cases3 [of "do_blktrans_request mem (blk_capacity mtd) req (mb, s)"])
  obtain rs2 m2 s2 where B: "blk_run mem (blk_capacity mtd) reqs (m1, s1) = (rs2, m2, s2)"
    by (rule prod_cases3 [of "blk_run mem (blk_capacity mtd) reqs (m1, s1)"])
  have R: "rs = r # rs2" "mb' = m2" "s' = s2" using Cons.prems(4) A B by auto
  have S: "inv m1 s1" "array_request req (blk_view mb (contents s)) = (r, blk_view m1 (contents s1))"
    using request_step [OF Cons.prems(1) _ Cons.prems(3) A] Cons.prems(2,5) R(1) by auto
  have "inv m2 s2 \<and> array_run reqs (blk_view m1 (contents s1)) = (rs2, blk_view m2 (contents s2))"
    using Cons.IH [OF S(1) _ Cons.prems(3) B] Cons.prems(2,5) R(1) by simp
  then show ?case using S(2) R by simp
qed

end

text \<open>A device whose operations do not fail inside the device.\<close>

locale reliable_flash = flash_block +
  assumes read_total: "good s \<Longrightarrow> from + unat len \<le> unat (mtd_size mtd) \<Longrightarrow>
      \<exists>d s'. MTD_READ mtd (int from) len s = (Inr d, s') \<and> length d = unat len"
    and write_total: "good s \<Longrightarrow> dest + unat len \<le> unat (mtd_size mtd) \<Longrightarrow> unat len \<le> length buf \<Longrightarrow>
      \<exists>s'. MTD_WRITE mtd (int dest) len buf s = (Inr len, s')"
    and erase_total: "good s \<Longrightarrow> unat (e_addr instr) + unat (e_len instr) \<le> unat (mtd_size mtd) \<Longrightarrow>
      0 < unat (e_len instr) \<Longrightarrow> \<exists>s' i. MTD_ERASE mtd (s, instr) = (Inr (), s', i)"
begin

lemma erase_write_total:
  assumes "good s" "unat pos + unat len \<le> unat (mtd_size mtd)" "0 < unat len" "unat len \<le> length buf"
  shows "\<exists>u. erase_write mtd part pos len buf s = (Inr (), u)"
proof -
  let ?i = "\<lparr>e_part = part, e_addr = pos, e_len = len, e_fail_addr = 0xFFFFFFFF, e_state = MTD_ERASE_PENDING\<rparr>"
  obtain t i where E: "MTD_ERASE mtd (s, ?i) = (Inr (), t, i)" using erase_total [of s ?i] assms by auto
  have "good t" using erase_good [OF assms(1) _ E] assms(2) by simp
  from write_total [OF this assms(2,4)] obtain u where "MTD_WRITE mtd (int (unat pos)) len buf t = (Inr len, u)" by blast
  then show ?thesis using E by (simp add: erase_write_def)
qed

lemma write_cached_data_total:
  assumes "inv mb s"
  shows "\<exists>mb' s'. write_cached_data (mb, s) = (Inr (), mb', s')"
proof (cases "cache_state mb = STATE_DIRTY")
  case True
  then obtain data where data: "cache_data mb = Some data" "length data = unat sect" using assms by (auto simp: blk_inv_def)
  have "\<exists>u. erase_write mtd (mb_part mb) (cache_offset mb) sect data s = (Inr (), u)"
    using assms True data(2) sectors(2) by (intro erase_write_total) (auto simp: blk_inv_def)
  then show ?thesis using True data(1) assms by (auto simp: write_cached_data_def Let_def blk_inv_def)
qed (simp add: write_cached_data_def)

lemma fill_cache_total:
  assumes "inv mb s" "cache_data mb \<noteq> None" "unat start + unat sect \<le> unat (mtd_size mtd)"
  shows "\<exists>mb' s'. fill_cache start sect (mb, s) = (Inr (), mb', s')"
proof -
  have "good s" "mb_mtd mb = mtd" using assms(1) by (simp_all add: blk_inv_def)
  with read_total [of s "unat start" sect] assms(2,3) show ?thesis by (auto simp: fill_cache_def Let_def)
qed

lemma change_block_total:
  assumes inv: "inv mb s" "cache_data mb \<noteq> None" and start: "unat start + unat sect \<le> unat (mtd_size mtd)"
  shows "\<exists>mb' s'. bind_io
        (\<lambda>st. if cache_state (fst st) = STATE_DIRTY \<and> cache_offset (fst st) \<noteq> start
              then write_cached_data st else (Inr (), st))
        (\<lambda>_ st. if cache_state (fst st) = STATE_EMPTY \<or> cache_offset (fst st) \<noteq> start
              then fill_cache start sect st else (Inr (), st)) (mb, s) = (Inr (), mb', s')"
proof -
  have "\<exists>m u. (if cache_state mb = STATE_DIRTY \<and> cache_offset mb \<noteq> start
      then write_cached_data (mb, s) else (Inr (), mb, s)) = (Inr (), m, u) \<and> inv m u \<and> cache_data m \<noteq> None"
  proof (cases "cache_state mb = STATE_DIRTY \<and> cache_offset mb \<noteq> start")
    case True
    obtain m u where W: "write_cached_data (mb, s) = (Inr (), m, u)" using write_cached_data_total [OF inv(1)] by blast
    then show ?thesis using True write_cached_data_ok [OF inv(1) W] inv(2) by simp
  qed (use inv in auto)
  then obtain m u where M: "(if cache_state mb = STATE_DIRTY \<and> cache_offset mb \<noteq> start
      then write_cached_data (mb, s) else (Inr (), mb, s)) = (Inr (), m, u)" "inv m u" "cache_data m \<noteq> None" by blast
  from fill_cache_total [OF M(2,3) start] M(1) show ?thesis by (auto simp: bind_io_def)
qed

lemma cached_write_step_total:
  assumes inv: "inv mb s" and c: "cache_data mb \<noteq> None"
    and range: "0 < unat sz" "unat pos + unat sz \<le> unat (mtd_size mtd)" "unat pos mod unat sect + unat sz \<le> unat sect"
      "unat sz \<le> length buf" and part: "sz \<noteq> sect \<Longrightarrow> unat sect \<noteq> 512"
  shows "fst (cached_write_step sect pos sz buf (mb, s)) = Inr ()"
proof (cases "sz = sect")
  case True
  have "good s" "mb_mtd mb = mtd" using inv by (simp_all add: blk_inv_def)
  with erase_write_total [OF _ range(2,1,4), of s "mb_part mb"] True show ?thesis
    by (auto simp: cached_write_step_def Let_def split: prod.splits)
next
  case False
  have "unat pos < unat (mtd_size mtd)" using range(1,2) by simp
  note S = block_start [OF this]
  let ?start = "pos div sect * sect" and ?off = "pos - pos div sect * sect"
  obtain m u where C: "bind_io
        (\<lambda>st. if cache_state (fst st) = STATE_DIRTY \<and> cache_offset (fst st) \<noteq> ?start
              then write_cached_data st else (Inr (), st))
        (\<lambda>_ st. if cache_state (fst st) = STATE_EMPTY \<or> cache_offset (fst st) \<noteq> ?start
              then fill_cache ?start sect st else (Inr (), st)) (mb, s) = (Inr (), m, u)"
    using change_block_total [OF inv c S(3)] by blast
  note C1 = change_block_ok [OF inv c part [OF False] S(2,3) C]
  have r1: "unat ?off + unat sz \<le> unat sect" using range(3) S(4) by simp
  obtain r m2 u2 where M: "modify_cache ?off sz buf (m, u) = (r, m2, u2)" by (rule prod_cases3 [of "modify_cache ?off sz buf (m, u)"])
  have "r = Inr ()" using modify_cache_ok [OF _ _ r1 range(4) M] C1 by simp
  then show ?thesis using False M unfolding cached_write_step_def Let_def bind_io_assoc
    by (simp only: if_False) (simp add: bind_io_def [of _ "\<lambda>_. modify_cache _ _ _"] C)
qed

lemma writesect_total:
  assumes inv: "inv mb s" and range: "512 * unat block + 512 \<le> unat (mtd_size mtd)" "512 \<le> length buf"
    and mem: "mem = Some m" "length m = unat sect"
  shows "fst (mtdblock_writesect mem block buf (mb, s)) = Inr ()"
proof -
  note B = sector_in_block [OF range(1)]
  let ?p = "push_bit 9 block" let ?n = "chunk sect ?p 512"
  have step: "fst (do_cached_write ?p 512 buf (m1, s)) = Inr ()" if m1: "inv m1 s" "cache_data m1 \<noteq> None" for m1
  proof -
    have cs: "cache_size m1 = sect" using m1(1) by (simp add: blk_inv_def)
    have "unat sect \<noteq> 512" if "?n \<noteq> sect" using that B(3) by (metis word_unat_eq_iff)
    then show ?thesis unfolding write_one_turn [OF range(1) cs] using B range
      by (intro cached_write_step_total [OF m1]) simp_all
  qed
  show ?thesis
  proof (cases "cache_data mb")
    case (Some data)
    then show ?thesis using step [OF inv] by (simp add: mtdblock_writesect_def)
  next
    case None
    have "cache_state mb = STATE_EMPTY" using inv None by (auto simp: blk_inv_def)
    then have "inv (mb\<lparr>cache_data := Some m\<rparr>) s" using inv mem by (simp add: blk_inv_def)
    then have D: "fst (do_cached_write ?p 512 buf (mb\<lparr>cache_data := Some m\<rparr>, s)) = Inr ()" by (rule step) simp
    have "cache_size mb = sect" using inv by (simp add: blk_inv_def)
    moreover have "sect \<noteq> 0" using sectors(2) by (auto simp: unat_gt_0)
    ultimately show ?thesis using D None mem(1) by (simp add: mtdblock_writesect_def)
  qed
qed

lemma readsect_total:
  assumes inv: "inv mb s" and range: "512 * unat block + 512 \<le> unat (mtd_size mtd)"
  shows "\<exists>d st. mtdblock_readsect block (mb, s) = (Inr d, st)"
proof -
  note B = sector_in_block [OF range]
  let ?p = "push_bit 9 block" let ?n = "chunk sect ?p 512" let ?start = "?p div sect * sect"
  have I: "cache_size mb = sect" "mb_mtd mb = mtd" "good s" using inv by (simp_all add: blk_inv_def)
  have "unat ?p < unat (mtd_size mtd)" using B(1) range by simp
  note S = block_start [OF this]
  show ?thesis
  proof (cases "cache_state mb \<noteq> STATE_EMPTY \<and> cache_offset mb = ?start")
    case True
    then obtain data where data: "cache_data mb = Some data" "length data = unat sect" using inv by (auto simp: blk_inv_def)
    have "unat (?p - ?start) + 512 \<le> unat sect" using S(4) B(2) by simp
    then show ?thesis unfolding read_one_turn [OF range I(1)]
      using True data B(3) by (simp add: cached_read_step_def Let_def memcpy_def)
  next
    case False
    have "unat ?p + unat ?n \<le> unat (mtd_size mtd)" using B(1,3) range by simp
    from read_total [OF I(3) this] False show ?thesis unfolding read_one_turn [OF range I(1)]
      by (auto simp: cached_read_step_def Let_def I(2))
  qed
qed

lemma write_sectors_total:
  "inv mb s \<Longrightarrow> 512 * (unat block + n) \<le> unat (mtd_size mtd) \<Longrightarrow> 512 * n \<le> length buf \<Longrightarrow> mem_ok mtd mem \<Longrightarrow>
   None \<notin> range mem \<Longrightarrow> fst (write_sectors mem block n buf (mb, s))"
proof (induction n arbitrary: block buf mb s)
  case (Suc n)
  have rng: "512 * unat block + 512 \<le> unat (mtd_size mtd)" "512 \<le> length buf" using Suc.prems(2,3) by simp_all
  obtain m where m: "mem n = Some m" using Suc.prems(5) by (cases "mem n") (auto simp: image_iff dest: sym)
  then have len: "length m = unat sect" using Suc.prems(4) by (simp add: mem_ok_def)
  obtain r m1 s1 where W: "mtdblock_writesect (mem n) block buf (mb, s) = (r, m1, s1)"
    by (rule prod_cases3 [of "mtdblock_writesect (mem n) block buf (mb, s)"])
  have r: "r = Inr ()" using writesect_total [OF Suc.prems(1) rng m len] W by simp
  have i: "inv m1 s1" using writesect_ok [OF Suc.prems(1) rng _ W] m len by simp
  have n1: "unat (block + 1) = unat block + 1" by (rule next_sector [OF Suc.prems(2)])
  have "512 * (unat (block + 1) + n) \<le> unat (mtd_size mtd)" "512 * n \<le> length (drop 512 buf)"
    using Suc.prems(2,3) by (simp_all add: n1)
  from Suc.IH [OF i this Suc.prems(4,5)] show ?case using W r by simp
qed simp

lemma read_sectors_total:
  "inv mb s \<Longrightarrow> 512 * (unat block + n) \<le> unat (mtd_size mtd) \<Longrightarrow> fst (read_sectors block n (mb, s)) \<noteq> None"
proof (induction n arbitrary: block s)
  case (Suc n)
  have rng: "512 * unat block + 512 \<le> unat (mtd_size mtd)" using Suc.prems(2) by simp
  obtain d m1 s1 where W: "mtdblock_readsect block (mb, s) = (Inr d, m1, s1)"
    using readsect_total [OF Suc.prems(1) rng] by auto
  have i: "m1 = mb" "inv mb s1" using readsect_ok [OF Suc.prems(1) rng W] by simp_all
  have n1: "unat (block + 1) = unat block + 1" by (rule next_sector [OF Suc.prems(2)])
  have "512 * (unat (block + 1) + n) \<le> unat (mtd_size mtd)" using Suc.prems(2) by (simp add: n1)
  from Suc.IH [OF i(2) this] show ?case using W i(1) by (auto split: prod.split)
qed simp

lemma request_total:
  assumes inv: "inv mb s" and ok: "req_ok req" "mem_ok mtd mem" "None \<notin> range mem"
    and a: "fst (array_request req (blk_view mb (contents s))) \<noteq> None"
  shows "fst (do_blktrans_request mem (blk_capacity mtd) req (mb, s)) \<noteq> None"
proof -
  let ?a = "unat (rq_sector req)" and ?n = "unat (rq_nr_sectors req)"
  have an: "?a + ?n < 2 ^ 32" using ok(1) by (simp add: req_ok_def)
  note C = capacity_test [OF an]
  have T: "rq_cmd req" "\<not> unat (mtd_size mtd) div 512 < ?a + ?n"
    using a inv_view_length [OF inv] by (auto simp: array_request_def Let_def split: if_splits)
  then have "512 * (?a + ?n) \<le> 512 * (unat (mtd_size mtd) div 512)" by simp
  also have "\<dots> \<le> unat (mtd_size mtd)" by (rule times_div_less_eq_dividend)
  finally have fit: "512 * (unat (ucast (rq_sector req) :: u32) + ?n) \<le> unat (mtd_size mtd)" using C(1) by simp
  show ?thesis
  proof (cases "rq_dir req")
    case READ
    then show ?thesis using read_sectors_total [OF inv fit] T C(2) by (simp add: do_blktrans_request_def Let_def)
  next
    case (WRITE buf)
    have "512 * ?n \<le> length buf" using ok(1) WRITE by (simp add: req_ok_def)
    from write_sectors_total [OF inv fit this ok(2,3)] WRITE T C(2) show ?thesis
      by (auto simp: do_blktrans_request_def Let_def split: prod.split)
  qed
qed

lemma run_equals_array:
  "inv mb s \<Longrightarrow> \<forall>req \<in> set reqs. req_ok req \<Longrightarrow> mem_ok mtd mem \<Longrightarrow> None \<notin> range mem \<Longrightarrow>
   blk_run mem (blk_capacity mtd) reqs (mb, s) = (rs, mb', s') \<Longrightarrow>
   inv mb' s' \<and> array_run reqs (blk_view mb (contents s)) = (rs, blk_view mb' (contents s'))"
proof (induction reqs arbitrary: mb s rs mb' s')
  case Nil
  then show ?case by simp
next
  case (Cons req reqs)
  obtain r m1 s1 where A: "do_blktrans_request mem (blk_capacity mtd) req (mb, s) = (r, m1, s1)"
    by (rule prod_cases3 [of "do_blktrans_request mem (blk_capacity mtd) req (mb, s)"])
  obtain rs2 m2 s2 where B: "blk_run mem (blk_capacity mtd) reqs (m1, s1) = (rs2, m2, s2)"
    by (rule prod_cases3 [of "blk_run mem (blk_capacity mtd) reqs (m1, s1)"])
  have R: "rs = r # rs2" "mb' = m2" "s' = s2" using Cons.prems(5) A B by auto
  have S: "inv m1 s1" "array_request req (blk_view mb (contents s)) = (r, blk_view m1 (contents s1))"
    using request_step [OF Cons.prems(1) _ Cons.prems(3) A] request_total [OF Cons.prems(1) _ Cons.prems(3,4), of req]
      Cons.prems(2) A by auto
  have "inv m2 s2 \<and> array_run reqs (blk_view m1 (contents s1)) = (rs2, blk_view m2 (contents s2))"
    using Cons.IH [OF S(1) _ Cons.prems(3,4) B] Cons.prems(2) by simp
  then show ?case using S(2) R by simp
qed

end

subsection \<open>On the DNS-323\<close>

lemma dns323_flash_ops [simp]:
  "mtd_read dns323_flash = Some (ram_read 0x800000)" "mtd_write dns323_flash = Some (ram_write 0x800000)"
  "mtd_erase dns323_flash = Some (ram_erase 0x800000)" "mtd_sync dns323_flash = None"
  by (simp_all add: dns323_flash_def ram_mtd_def)

lemma fs_sync: "mtd_sync (slave_mtd fs_part) = None"
  by (simp add: slave_mtd_def Let_def mtd_attr.defs mtd_info.defs fs_part_sel)

lemma fs_writeable: "writeable (p_mtd fs_part)"
  by (simp add: writeable_def fs_part_sel MTD_WRITEABLE_def)

lemma fs_erase:
  assumes "length mem = 0x800000" "unat (e_addr instr) + unat (e_len instr) \<le> 0x630000" "0 < unat (e_len instr)"
  shows "\<exists>mem' i. MTD_ERASE (slave_mtd fs_part) (mem, instr) = (Inr (), mem', i)"
proof -
  let ?i = "instr\<lparr>e_addr := e_addr instr + 0x1A0000\<rparr>"
  have "unat (e_addr instr + 0x1A0000) = unat (e_addr instr) + unat (0x1A0000 :: u32)"
    using assms(2) by (intro unat_add_nowrap) simp
  then have "unat (e_addr ?i) + unat (e_len ?i) \<le> unat (0x800000 :: u32)" using assms(2) by simp
  moreover have "\<not> 0x630000 \<le> e_addr instr" using assms(2,3) by (simp add: word_le_nat_alt)
  ultimately show ?thesis using ram_erase_ok [of mem "0x800000" ?i] assms(1)
    by (simp add: MTD_ERASE_def part_erase_def Let_def fs_writeable fs_part_sel)
qed

lemma fs_erase_done:
  assumes "MTD_ERASE (slave_mtd fs_part) (mem, instr) = (Inr (), mem', i)"
  shows "e_state i = MTD_ERASE_DONE"
  using assms by (auto simp: MTD_ERASE_def part_erase_def ram_erase_def Let_def fs_part_sel split: if_splits sum.splits)

interpretation fsblk: reliable_flash "slave_mtd fs_part" "\<lambda>mem. window fs_part mem" "\<lambda>mem. length mem = unat (0x800000 :: u32)"
proof (intro reliable_flash.intro flash_block.intro flash_block_axioms.intro reliable_flash_axioms.intro)
  show "mtd_device (slave_mtd fs_part) (window fs_part) (\<lambda>mem. length mem = unat (0x800000 :: u32))"
    by (rule fs.part_device)
  show "e_state i = MTD_ERASE_DONE" if "MTD_ERASE (slave_mtd fs_part) (s, instr) = (Inr (), s', i)" for s instr s' i
    using that by (rule fs_erase_done)
  show "\<exists>s' i. MTD_ERASE (slave_mtd fs_part) (s, instr) = (Inr (), s', i)"
    if "length s = unat (0x800000 :: u32)"
      "unat (e_addr instr) + unat (e_len instr) \<le> unat (mtd_size (slave_mtd fs_part))" "0 < unat (e_len instr)" for s instr
    using that by (intro fs_erase) (simp_all add: fs_part_sel)
  show "\<exists>d s'. MTD_READ (slave_mtd fs_part) (int a) len s = (Inr d, s') \<and> length d = unat len"
    if "length s = unat (0x800000 :: u32)" "a + unat len \<le> unat (mtd_size (slave_mtd fs_part))" for s a len
    using that ram_read_ok [of s "0x800000" "unat (p_offset fs_part) + a" len] fs.part_read_eq [of a len s]
    by (simp add: MTD_READ_def fs_part_sel)
  show "\<exists>s'. MTD_WRITE (slave_mtd fs_part) (int a) len buf s = (Inr len, s')"
    if "length s = unat (0x800000 :: u32)" "a + unat len \<le> unat (mtd_size (slave_mtd fs_part))" "unat len \<le> length buf"
    for s a len buf
    using that ram_write_ok [of s "0x800000" "unat (p_offset fs_part) + a" len buf] fs.part_write_eq [OF fs_writeable, of a len buf s]
    by (simp add: MTD_WRITE_def fs_part_sel clamp_inside)
qed (simp_all add: fs_part_sel sync_if_def fs_sync)

subsection \<open>Properties\<close>

lemma open_inv:
  assumes "mtd_flags mtd AND MTD_CAP_RAM \<noteq> MTD_CAP_RAM" "mtdblock_open True mtd part None = (Inr (), Some mb)"
    "good s" "mtd_erasesize mtd \<noteq> 0"
  shows "blk_inv mtd contents good mb s" "blk_view mb c = c"
  using assms by (auto simp: mtdblock_open_def blk_inv_def blk_view_def)

text \<open>C1. The block device on flash behaves as an array of bytes: after any sequence of requests none of
  which failed, the data read and the contents of the device are those of an array on which the same
  requests were carried out in the same order, although writes are collected in the cache and
  flash is rewritten in whole erase blocks; and when the cache has then been written back, the
  flash itself has these contents. For every flash device that keeps the contract.\<close>

theorem mtdblock_refines_array:
  assumes "flash_block mtd contents good" "mtd_flags mtd AND MTD_CAP_RAM \<noteq> MTD_CAP_RAM"
    "mtdblock_open True mtd part None = (Inr (), Some mb)" "good s"
    "\<forall>req \<in> set reqs. req_ok req" "mem_ok mtd mem"
    "blk_run mem (blk_capacity mtd) reqs (mb, s) = (rs, mb', s')" "None \<notin> set rs"
  shows "array_run reqs (contents s) = (rs, blk_view mb' (contents s')) \<and>
    (\<forall>mb'' s''. write_cached_data (mb', s') = (Inr (), mb'', s'') \<longrightarrow> contents s'' = snd (array_run reqs (contents s)))"
proof -
  have nz: "mtd_erasesize mtd \<noteq> 0" using flash_block.sectors(2) [OF assms(1)] by auto
  have O: "blk_inv mtd contents good mb s" "blk_view mb (contents s) = contents s"
    by (rule open_inv [where good = good, OF assms(2,3,4) nz])+
  note R = flash_block.run_refines_array [OF assms(1) O(1) assms(5-8)]
  then have "array_run reqs (contents s) = (rs, blk_view mb' (contents s'))" by (simp add: O(2))
  then show ?thesis using flash_block.write_cached_data_ok [OF assms(1) conjunct1 [OF R]] by auto
qed

definition ex_reqs :: "request list" where
  "ex_reqs = [\<lparr>rq_cmd = True, rq_sector = 3, rq_nr_sectors = 1, rq_dir = WRITE (replicate 512 7)\<rparr>,
     \<lparr>rq_cmd = True, rq_sector = 3, rq_nr_sectors = 1, rq_dir = READ\<rparr>]"

definition fs_blk :: "u8 list mtdblk_dev" where
  "fs_blk = \<lparr>mb_mtd = slave_mtd fs_part, mb_part = Some 0x1A0000, mb_count = 1, cache_data = None, cache_offset = 0,
     cache_size = 0x10000, cache_state = STATE_EMPTY\<rparr>"

lemma fs_open: "mtdblock_open True (slave_mtd fs_part) (Some 0x1A0000) None = (Inr (), Some fs_blk)"
  by (simp add: mtdblock_open_def fs_part_sel MTD_CAP_RAM_def fs_blk_def)

lemma fs_flags: "mtd_flags (slave_mtd fs_part) AND MTD_CAP_RAM \<noteq> MTD_CAP_RAM"
  by (simp add: fs_part_sel MTD_CAP_RAM_def)

lemma ex_reqs_ok: "\<forall>req \<in> set ex_reqs. req_ok req"
  by (simp add: ex_reqs_def req_ok_def)

lemma ex_mem_ok: "mem_ok (slave_mtd fs_part) (\<lambda>_. Some (replicate 0x10000 0))"
  by (simp add: mem_ok_def fs_part_sel)

lemma ex_array_run:
  assumes "length arr = 0x630000"
  shows "fst (array_run ex_reqs arr) = [Some [], Some (replicate 512 7)]"
proof -
  have "slice 1536 512 (patch 1536 (replicate 512 (7 :: u8)) arr) = replicate 512 7"
    using assms by (intro slice_patch_same) simp_all
  then show ?thesis using assms by (simp add: ex_reqs_def array_request_def)
qed

lemma ex_window: "length (window fs_part (replicate 0x800000 0xFF)) = 0x630000"
  by (simp add: window_def fs_part_sel)

lemma ex_blk_inv: "blk_inv (slave_mtd fs_part) (window fs_part) (\<lambda>mem. length mem = unat (0x800000 :: u32)) fs_blk (replicate 0x800000 0xFF)"
  by (rule open_inv(1) [OF fs_flags fs_open]) (simp_all add: fs_part_sel)

theorem mtdblock_refines_array_witness:
  "snd (array_run ex_reqs (window fs_part (replicate 0x800000 0xFF))) =
     (let (rs, mb, s) = blk_run (\<lambda>_. Some (replicate 0x10000 0)) (blk_capacity (slave_mtd fs_part)) ex_reqs
        (fs_blk, replicate 0x800000 0xFF) in blk_view mb (window fs_part s))"
proof -
  obtain rs mb s where R: "blk_run (\<lambda>_. Some (replicate 0x10000 0)) (blk_capacity (slave_mtd fs_part)) ex_reqs
      (fs_blk, replicate 0x800000 0xFF) = (rs, mb, s)" by (rule prod_cases3)
  have "array_run ex_reqs (blk_view fs_blk (window fs_part (replicate 0x800000 0xFF))) = (rs, blk_view mb (window fs_part s))"
    using fsblk.run_equals_array [OF ex_blk_inv ex_reqs_ok ex_mem_ok _ R] by simp
  then have "rs = [Some [], Some (replicate 512 7)]"
    using ex_array_run [OF ex_window] by (simp add: blk_view_def fs_blk_def)
  then have "None \<notin> set rs" by simp
  from mtdblock_refines_array [OF fsblk.flash_block_axioms fs_flags fs_open _ ex_reqs_ok ex_mem_ok R this]
  show ?thesis by (simp add: R)
qed

text \<open>A request changes no byte of the block device outside its sectors, whatever it returns: a write
  that fails half way, because reading, erasing or writing the flash failed or memory ran out,
  and even one that fails while the cached block of other sectors is written back, loses none of
  the data that other requests have written.\<close>

lemma mtdblock_request_confined:
  assumes "flash_block mtd contents good" "blk_inv mtd contents good mb s" "req_ok req" "mem_ok mtd mem"
    "do_blktrans_request mem (blk_capacity mtd) req (mb, s) = (r, mb', s')"
    "i < unat (mtd_size mtd)" "i < 512 * unat (rq_sector req) \<or> 512 * (unat (rq_sector req) + unat (rq_nr_sectors req)) \<le> i"
  shows "blk_inv mtd contents good mb' s' \<and> blk_view mb' (contents s') ! i = blk_view mb (contents s) ! i"
  using flash_block.request_step [OF assms(1-5)] flash_block.inv_view_length [OF assms(1,2)] assms(6,7) by auto

lemma mtdblock_request_confined_example:
  "\<exists>mb s. do_blktrans_request (\<lambda>_. None) (blk_capacity (slave_mtd fs_part)) (hd ex_reqs) (fs_blk, replicate 0x800000 0xFF) =
     (None, mb, s) \<and> blk_view mb (window fs_part s) ! 5 = 0xFF"
proof -
  let ?st = "(fs_blk, replicate 0x800000 0xFF)"
  obtain r mb s where R: "do_blktrans_request (\<lambda>_. None) (blk_capacity (slave_mtd fs_part)) (hd ex_reqs) ?st = (r, mb, s)"
    by (rule prod_cases3)
  have r: "r = None"
    using R by (simp add: ex_reqs_def do_blktrans_request_def blk_capacity_def fs_part_sel mtdblock_writesect_def fs_blk_def)
  have "mem_ok (slave_mtd fs_part) (\<lambda>_. None)" "req_ok (hd ex_reqs)" using ex_reqs_ok by (simp_all add: mem_ok_def ex_reqs_def)
  from mtdblock_request_confined [OF fsblk.flash_block_axioms ex_blk_inv this(2,1) R, of 5]
  have "blk_view mb (window fs_part s) ! 5 = blk_view fs_blk (window fs_part (replicate 0x800000 0xFF)) ! 5"
    by (simp add: fs_part_sel ex_reqs_def)
  also have "\<dots> = 0xFF" by (simp add: blk_view_def fs_blk_def window_def nth_slice fs_part_sel)
  finally show ?thesis using R r by auto
qed

text \<open>C25. The driver itself never fails: on a device whose operations succeed, with memory for the cache,
  every sequence of requests gives exactly the results of the array, so a request fails only when
  it lies beyond the end of the device.\<close>

theorem mtdblock_fails_only_with_device:
  assumes "reliable_flash mtd contents good" "mtd_flags mtd AND MTD_CAP_RAM \<noteq> MTD_CAP_RAM"
    "mtdblock_open True mtd part None = (Inr (), Some mb)" "good s"
    "\<forall>req \<in> set reqs. req_ok req" "mem_ok mtd mem" "None \<notin> range mem"
  shows "fst (blk_run mem (blk_capacity mtd) reqs (mb, s)) = fst (array_run reqs (contents s))"
proof -
  note F = reliable_flash.axioms(1) [OF assms(1)]
  have nz: "mtd_erasesize mtd \<noteq> 0" using flash_block.sectors(2) [OF F] by auto
  have O: "blk_inv mtd contents good mb s" "blk_view mb (contents s) = contents s"
    by (rule open_inv [where good = good, OF assms(2,3,4) nz])+
  obtain rs mb' s' where R: "blk_run mem (blk_capacity mtd) reqs (mb, s) = (rs, mb', s')" by (rule prod_cases3)
  show ?thesis using reliable_flash.run_equals_array [OF assms(1) O(1) assms(5-7) R] R O(2) by simp
qed

theorem mtdblock_fails_only_with_device_witness:
  "fst (blk_run (\<lambda>_. Some (replicate 0x10000 0)) (blk_capacity (slave_mtd fs_part)) ex_reqs (fs_blk, replicate 0x800000 0xFF)) =
     [Some [], Some (replicate 512 7)]"
  using mtdblock_fails_only_with_device [OF fsblk.reliable_flash_axioms fs_flags fs_open _ ex_reqs_ok ex_mem_ok,
      of "replicate 0x800000 0xFF"] ex_array_run [OF ex_window] by simp

subsection \<open>Where the code goes wrong\<close>

text \<open>A write of a whole erase block goes to the flash and leaves the cache as it is. When the cache
  holds that block, the old data stays visible, and is written over the new data when the cache is
  written back. (Requests in sectors of 512 bytes avoid this unless the cache is smaller than a sector.)\<close>

context flash_block begin

lemma whole_block_write_is_shadowed:
  assumes inv: "inv mb s" and c: "cache_state mb \<noteq> STATE_EMPTY" "cache_data mb = Some data"
    and buf: "unat sect \<le> length buf"
    and w: "cached_write_step sect (cache_offset mb) sect buf (mb, s) = (r, mb', s')"
  shows "slice (unat (cache_offset mb)) (unat sect) (blk_view mb' (contents s')) = data"
proof -
  have I: "mb_mtd mb = mtd" "good s" "length data = unat sect" "unat (cache_offset mb) + unat sect \<le> unat (mtd_size mtd)"
    using inv c by (auto simp: blk_inv_def)
  obtain u where u: "erase_write mtd (mb_part mb) (cache_offset mb) sect buf s = (r, u)" "mb' = mb" "s' = u"
    using w I(1) by (auto simp: cached_write_step_def Let_def split: prod.splits)
  have "good u" using erase_write_ok [OF I(2,4) buf u(1)] by simp
  then have "length (contents u) = unat (mtd_size mtd)" by (rule contents_length)
  then show ?thesis using c I(3,4) by (simp add: u blk_view_def slice_patch_same)
qed

end

end
