(* ===== verification/Timer.thy ===== *)
theory Timer
  imports Prelude
begin

text \<open>
  Kernel timers, \<open>kernel/timer.c\<close>: the hierarchical timing wheel. A pending timer stands in one of
  five vectors of lists according to how far away its expiry is. The vector \<open>tv1\<close> has a list for each
  of the next 256 ticks; when the position in \<open>tv1\<close> wraps around, the timers of the next list of \<open>tv2\<close>
  are spread over the lower vectors (they cascade), and so on up to \<open>tv5\<close>. The processor has one base,
  and the operations run under its lock, except the timers' functions, which may start, change and
  delete timers themselves.

  Timers are numbers, and the fields of \<open>struct timer_list\<close> are functions of the number. \<open>vec k i\<close> is
  list \<open>i\<close> of vector \<open>tv(k+1)\<close>; \<open>work_list\<close> is the local variable of \<open>__run_timers\<close>, which other
  operations reach because they unlink timers from it.
\<close>

subsection \<open>The base\<close>

record tvec_base =
  timer_jiffies :: u32
  vec :: "nat \<Rightarrow> nat \<Rightarrow> nat list"
  work_list :: "nat list"
  expires :: "nat \<Rightarrow> u32"
  pending :: "nat \<Rightarrow> bool"
  has_function :: "nat \<Rightarrow> bool"

definition init_timers_cpu :: "u32 \<Rightarrow> (nat \<Rightarrow> u32) \<Rightarrow> (nat \<Rightarrow> bool) \<Rightarrow> tvec_base" where
  "init_timers_cpu jiffies exps fns =
     \<lparr>timer_jiffies = jiffies, vec = (\<lambda>k i. []), work_list = [], expires = exps, pending = (\<lambda>t. False),
      has_function = fns\<rparr>"

text \<open>The vector and the list for an expiry time. The test for more than \<open>0xffffffff\<close> is always false on
  32 bits.\<close>

definition timer_slot :: "u32 \<Rightarrow> u32 \<Rightarrow> nat \<times> nat" where
  "timer_slot tj exp =
     (let idx = exp - tj in
      if idx < 256 then (0, unat (exp AND 255))
      else if idx < 0x4000 then (1, unat (drop_bit 8 exp AND 63))
      else if idx < 0x100000 then (2, unat (drop_bit 14 exp AND 63))
      else if idx < 0x4000000 then (3, unat (drop_bit 20 exp AND 63))
      else if sint idx < 0 then (0, unat (tj AND 255))
      else (4, unat (drop_bit 26 exp AND 63)))"

definition set_slot :: "nat \<times> nat \<Rightarrow> nat list \<Rightarrow> tvec_base \<Rightarrow> tvec_base" where
  "set_slot s l b = b\<lparr>vec := (vec b)(fst s := (vec b (fst s))(snd s := l))\<rparr>"

definition internal_add_timer :: "nat \<Rightarrow> tvec_base \<Rightarrow> tvec_base" where
  "internal_add_timer t b =
     (let s = timer_slot (timer_jiffies b) (expires b t) in set_slot s (vec b (fst s) (snd s) @ [t]) b)"

text \<open>\<open>list_del\<close> unlinks a timer from the list it is on.\<close>

definition list_del :: "nat \<Rightarrow> tvec_base \<Rightarrow> tvec_base" where
  "list_del t b = b\<lparr>vec := (\<lambda>k i. removeAll t (vec b k i)), work_list := removeAll t (work_list b)\<rparr>"

definition u_mod_timer :: "nat \<Rightarrow> u32 \<Rightarrow> tvec_base \<Rightarrow> (bool \<times> tvec_base) res" where
  "u_mod_timer t exp b =
     (if \<not> has_function b t then Inl BUG
      else
        let ret = pending b t;
            b = (if pending b t then list_del t b else b);
            b = b\<lparr>expires := (expires b)(t := exp)\<rparr>;
            b = internal_add_timer t b
        in Inr (ret, b\<lparr>pending := (pending b)(t := True)\<rparr>))"

definition add_timer :: "nat \<Rightarrow> tvec_base \<Rightarrow> (bool \<times> tvec_base) res" where
  "add_timer t b = u_mod_timer t (expires b t) b"

definition add_timer_on :: "nat \<Rightarrow> tvec_base \<Rightarrow> tvec_base res" where
  "add_timer_on t b =
     (if pending b t \<or> \<not> has_function b t then Inl BUG
      else let b = internal_add_timer t b in Inr (b\<lparr>pending := (pending b)(t := True)\<rparr>))"

definition mod_timer :: "nat \<Rightarrow> u32 \<Rightarrow> tvec_base \<Rightarrow> (bool \<times> tvec_base) res" where
  "mod_timer t exp b =
     (if \<not> has_function b t then Inl BUG
      else if expires b t = exp \<and> pending b t then Inr (True, b)
      else u_mod_timer t exp b)"

definition del_timer :: "nat \<Rightarrow> tvec_base \<Rightarrow> bool \<times> tvec_base" where
  "del_timer t b =
     (if \<not> pending b t then (False, b)
      else let b = list_del t b in (True, b\<lparr>pending := (pending b)(t := False)\<rparr>))"

subsection \<open>Running timers\<close>

text \<open>\<open>cascade\<close>: the timers of a list are added again and the list is then cleared. None of them goes back
  to the list that is traversed (\<open>cascade_inv\<close> below), where the loop would meet it again.\<close>

definition cascade :: "nat \<Rightarrow> nat \<Rightarrow> tvec_base \<Rightarrow> tvec_base res" where
  "cascade k index b =
     (if \<exists>t \<in> set (vec b k index). \<not> pending b t then Inl BUG
      else Inr (set_slot (k, index) [] (fold internal_add_timer (vec b k index) b)))"

definition INDEX :: "nat \<Rightarrow> tvec_base \<Rightarrow> nat" where
  "INDEX n b = unat (drop_bit (8 + n * 6) (timer_jiffies b) AND 63)"

text \<open>The chain of conditions: the next vector is cascaded when the index into this one is 0.\<close>

fun cascade_from :: "nat list \<Rightarrow> tvec_base \<Rightarrow> tvec_base res" where
  "cascade_from [] b = Inr b"
| "cascade_from (k # ks) b =
     bind_res (cascade k (INDEX (k - 1) b) b) (\<lambda>b'. if INDEX (k - 1) b \<noteq> 0 then Inr b' else cascade_from ks b')"

definition run_cascades :: "tvec_base \<Rightarrow> tvec_base res" where
  "run_cascades b = (if unat (timer_jiffies b AND 255) \<noteq> 0 then Inr b else cascade_from [1, 2, 3, 4] b)"

text \<open>The start of a turn of the loop of \<open>__run_timers\<close>, up to \<open>list_splice_init\<close>.\<close>

definition start_tick :: "tvec_base \<Rightarrow> tvec_base res" where
  "start_tick b =
     (let index = unat (timer_jiffies b AND 255) in
      bind_res (run_cascades b) (\<lambda>b.
        let b = b\<lparr>timer_jiffies := timer_jiffies b + 1, work_list := vec b 0 index @ work_list b\<rparr>
        in Inr (set_slot (0, index) [] b)))"

text \<open>Taking the first timer off the work list, before its function is called.\<close>

definition take_timer :: "nat \<Rightarrow> tvec_base \<Rightarrow> tvec_base" where
  "take_timer t b = (let b = list_del t b in b\<lparr>pending := (pending b)(t := False)\<rparr>)"

text \<open>What a timer's function does to timers.\<close>

datatype timer_op = Mod nat u32 | U_mod nat u32 | Del nat

fun timer_exec :: "timer_op \<Rightarrow> tvec_base \<Rightarrow> tvec_base res" where
  "timer_exec (Mod t exp) b = map_sum id snd (mod_timer t exp b)"
| "timer_exec (U_mod t exp) b = map_sum id snd (u_mod_timer t exp b)"
| "timer_exec (Del t) b = Inr (snd (del_timer t b))"

fun timer_execs :: "timer_op list \<Rightarrow> tvec_base \<Rightarrow> tvec_base res" where
  "timer_execs [] b = Inr b"
| "timer_execs (x # xs) b = bind_res (timer_exec x b) (timer_execs xs)"

lemma set_slot_sel [simp]:
  "timer_jiffies (set_slot s l b) = timer_jiffies b" "work_list (set_slot s l b) = work_list b"
  "expires (set_slot s l b) = expires b" "pending (set_slot s l b) = pending b" "has_function (set_slot s l b) = has_function b"
  by (simp_all add: set_slot_def)

lemma vec_set_slot: "vec (set_slot s l b) k i = (if s = (k, i) then l else vec b k i)"
  by (cases s) (simp add: set_slot_def)

lemma internal_add_sel [simp]:
  "timer_jiffies (internal_add_timer t b) = timer_jiffies b" "work_list (internal_add_timer t b) = work_list b"
  "expires (internal_add_timer t b) = expires b" "pending (internal_add_timer t b) = pending b"
  "has_function (internal_add_timer t b) = has_function b"
  by (simp_all add: internal_add_timer_def Let_def)

lemma vec_internal_add:
  "vec (internal_add_timer t b) k i = vec b k i @ (if timer_slot (timer_jiffies b) (expires b t) = (k, i) then [t] else [])"
  by (auto simp: internal_add_timer_def Let_def vec_set_slot)

lemma list_del_sel [simp]:
  "timer_jiffies (list_del t b) = timer_jiffies b" "work_list (list_del t b) = removeAll t (work_list b)"
  "expires (list_del t b) = expires b" "pending (list_del t b) = pending b" "has_function (list_del t b) = has_function b"
  "vec (list_del t b) k i = removeAll t (vec b k i)"
  by (simp_all add: list_del_def)

text \<open>A function that changes timers adds none to the work list and does not change the time.\<close>

lemma u_mod_timer_work:
  assumes "u_mod_timer t exp b = Inr (r, b')"
  shows "length (work_list b') \<le> length (work_list b)" "timer_jiffies b' = timer_jiffies b"
  using assms by (auto simp: u_mod_timer_def Let_def split: if_splits)

lemma timer_exec_work:
  assumes "timer_exec x b = Inr b'"
  shows "length (work_list b') \<le> length (work_list b)" "timer_jiffies b' = timer_jiffies b"
  using assms u_mod_timer_work
  by (cases x; force simp: mod_timer_def del_timer_def Let_def map_sum_def split: if_splits sum.splits)+

lemma timer_execs_work:
  "timer_execs xs b = Inr b' \<Longrightarrow> length (work_list b') \<le> length (work_list b) \<and> timer_jiffies b' = timer_jiffies b"
proof (induction xs arbitrary: b)
  case (Cons x xs)
  then obtain b1 where b1: "timer_exec x b = Inr b1" "timer_execs xs b1 = Inr b'" by (auto simp: bind_res_Inr)
  from Cons.IH [OF b1(2)] timer_exec_work [OF b1(1)] show ?case by simp
qed simp

lemma take_timer_sel [simp]:
  "timer_jiffies (take_timer t b) = timer_jiffies b" "work_list (take_timer t b) = removeAll t (work_list b)"
  "expires (take_timer t b) = expires b" "has_function (take_timer t b) = has_function b"
  by (simp_all add: take_timer_def Let_def)

text \<open>The inner loop: the functions of the timers on the work list are called, \<open>handler\<close> is what they do.
  The result is the timers in the order of the calls.\<close>

function run_work :: "(nat \<Rightarrow> tvec_base \<Rightarrow> timer_op list) \<Rightarrow> tvec_base \<Rightarrow> (nat list \<times> tvec_base) res" where
  "run_work handler b =
     (case work_list b of
        [] \<Rightarrow> Inr ([], b)
      | t # _ \<Rightarrow>
          bind_res (timer_execs (handler t (take_timer t b)) (take_timer t b)) (\<lambda>b1.
            bind_res (run_work handler b1) (\<lambda>r. Inr (t # fst r, snd r))))"
  by pat_completeness auto
termination
proof (relation "measure (\<lambda>(handler, b). length (work_list b))", simp)
  fix handler :: "nat \<Rightarrow> tvec_base \<Rightarrow> timer_op list" and b t ws b1
  assume w: "work_list b = t # ws" and x: "timer_execs (handler t (take_timer t b)) (take_timer t b) = Inr b1"
  have "length (work_list b1) \<le> length (removeAll t (work_list b))" using timer_execs_work [OF x] by simp
  also have "\<dots> < length (work_list b)" using w by (simp add: le_imp_less_Suc)
  finally show "((handler, b1), (handler, b)) \<in> measure (\<lambda>(handler, b). length (work_list b))" by simp
qed

declare run_work.simps [simp del]

lemma run_work_time: "run_work handler b = Inr r \<Longrightarrow> timer_jiffies (snd r) = timer_jiffies b"
proof (induction handler b arbitrary: r rule: run_work.induct)
  case (1 handler b)
  show ?case
  proof (cases "work_list b")
    case Nil
    then show ?thesis using "1.prems" by (auto simp: run_work.simps [of handler b])
  next
    case (Cons t ws)
    then obtain b1 r1 where "timer_execs (handler t (take_timer t b)) (take_timer t b) = Inr b1"
      "run_work handler b1 = Inr r1" "r = (t # fst r1, snd r1)"
      using "1.prems" by (auto simp: run_work.simps [of handler b] bind_res_Inr)
    then show ?thesis using "1.IH" [OF Cons] timer_execs_work by simp
  qed
qed

lemma cascade_sel:
  assumes "cascade k i b = Inr b'"
  shows "timer_jiffies b' = timer_jiffies b" "work_list b' = work_list b" "expires b' = expires b"
    "pending b' = pending b" "has_function b' = has_function b"
proof -
  have "timer_jiffies (fold internal_add_timer l b) = timer_jiffies b \<and> work_list (fold internal_add_timer l b) = work_list b \<and>
     expires (fold internal_add_timer l b) = expires b \<and> pending (fold internal_add_timer l b) = pending b \<and>
     has_function (fold internal_add_timer l b) = has_function b" for l
    by (induction l arbitrary: b) simp_all
  then show "timer_jiffies b' = timer_jiffies b" "work_list b' = work_list b" "expires b' = expires b"
    "pending b' = pending b" "has_function b' = has_function b"
    using assms by (auto simp: cascade_def split: if_splits)
qed

lemma cascade_from_time: "cascade_from ks b = Inr b' \<Longrightarrow> timer_jiffies b' = timer_jiffies b"
proof (induction ks arbitrary: b)
  case (Cons k ks)
  then obtain c where "cascade k (INDEX (k - 1) b) b = Inr c" "c = b' \<or> cascade_from ks c = Inr b'"
    by (auto simp: bind_res_Inr split: if_splits)
  then show ?case using Cons.IH cascade_sel(1) by metis
qed simp

lemma run_cascades_time: "run_cascades b = Inr b' \<Longrightarrow> timer_jiffies b' = timer_jiffies b"
  by (auto simp: run_cascades_def simp del: cascade_from.simps split: if_splits dest: cascade_from_time)

lemma start_tick_time: "start_tick b = Inr b' \<Longrightarrow> timer_jiffies b' = timer_jiffies b + 1"
  by (auto simp: start_tick_def bind_res_Inr Let_def dest: run_cascades_time)

text \<open>\<open>__run_timers\<close>, for a value of \<open>jiffies\<close>, with the timers called and the ticks at which they were.\<close>

definition ticks_left :: "u32 \<Rightarrow> u32 \<Rightarrow> nat" where
  "ticks_left jiffies tj = (if 0 \<le> sint (jiffies - tj) then unat (jiffies - tj) + 1 else 0)"

lemma ticks_left_decreases:
  assumes "0 \<le> sint (jiffies - tj)"
  shows "ticks_left jiffies (tj + 1) < ticks_left jiffies tj"
proof (cases "jiffies = tj")
  case True
  then show ?thesis by (simp add: ticks_left_def)
next
  case False
  then have pos: "0 < unat (jiffies - tj)" by (simp add: unat_gt_0)
  have "jiffies - (tj + 1) = jiffies - tj - 1" by simp
  also have "unat (jiffies - tj - 1) = unat (jiffies - tj) - unat (1 :: u32)" using pos by (intro unat_sub_nowrap) simp
  finally have "unat (jiffies - (tj + 1)) = unat (jiffies - tj) - 1" by simp
  with pos show ?thesis using assms by (simp add: ticks_left_def)
qed

function run_timers :: "u32 \<Rightarrow> (nat \<Rightarrow> tvec_base \<Rightarrow> timer_op list) \<Rightarrow> tvec_base \<Rightarrow> ((nat \<times> u32) list \<times> tvec_base) res" where
  "run_timers jiffies handler b =
     (if sint (jiffies - timer_jiffies b) < 0 then Inr ([], b)
      else bind_res (start_tick b) (\<lambda>b1.
        bind_res (run_work handler b1) (\<lambda>r.
          bind_res (run_timers jiffies handler (snd r)) (\<lambda>s.
            Inr (map (\<lambda>t. (t, timer_jiffies b)) (fst r) @ fst s, snd s)))))"
  by pat_completeness auto
termination
proof (relation "measure (\<lambda>(jiffies, handler, b). ticks_left jiffies (timer_jiffies b))", simp)
  fix jiffies handler b b1 r
  assume "\<not> sint (jiffies - timer_jiffies b) < 0" "start_tick b = Inr b1" "run_work handler b1 = Inr r"
  then show "((jiffies, handler, snd r), (jiffies, handler, b)) \<in>
      measure (\<lambda>(jiffies, handler, b). ticks_left jiffies (timer_jiffies b))"
    using ticks_left_decreases [of jiffies "timer_jiffies b"] by (simp add: run_work_time start_tick_time)
qed

declare run_timers.simps [simp del]

subsection \<open>Where a timer stands\<close>

text \<open>Vector \<open>k\<close> groups \<open>2 ^ lshift k\<close> ticks in a list and has \<open>2 ^ lbits k\<close> lists.\<close>

definition lshift :: "nat \<Rightarrow> nat" where "lshift k = (if k = 0 then 0 else 2 + 6 * k)"
definition lbits :: "nat \<Rightarrow> nat" where "lbits k = (if k = 0 then 8 else 6)"

text \<open>The start of the group of ticks that \<open>d\<close> is in: the tick at which the list is cascaded.\<close>

definition group :: "nat \<Rightarrow> nat \<Rightarrow> nat" where
  "group k d = d div 2 ^ lshift k * 2 ^ lshift k"

definition placed :: "nat \<Rightarrow> nat \<Rightarrow> nat \<Rightarrow> nat \<Rightarrow> bool" where
  "placed n d k i \<longleftrightarrow> k < 5 \<and> i = d div 2 ^ lshift k mod 2 ^ lbits k \<and>
     n \<le> group k d \<and> group k d < n + 2 ^ (lshift k + lbits k)"

lemma group_le: "group k d \<le> d"
  by (simp add: group_def)

lemma less_group: "d < group k d + 2 ^ lshift k"
  unfolding group_def by (metis div_mult_mod_eq add_less_cancel_left mod_less_divisor zero_less_numeral zero_less_power)

lemma of_nat_index:
  assumes "s + b \<le> 32"
  shows "unat (drop_bit s (of_nat d :: u32) AND mask b) = d div 2 ^ s mod 2 ^ b"
proof -
  have "unat (drop_bit s (of_nat d :: u32) AND mask b) = take_bit b (drop_bit s (take_bit 32 d))"
    by (simp add: take_bit_eq_mask [symmetric] unsigned_take_bit_eq unsigned_drop_bit_eq unsigned_of_nat take_bit_drop_bit)
  also have "\<dots> = take_bit b (drop_bit s d)"
    using assms by (intro bit_eqI) (auto simp: bit_simps)
  finally show ?thesis by (simp add: take_bit_nat_def drop_bit_nat_def)
qed

lemma mask_values: "(255 :: u32) = mask 8" "(63 :: u32) = mask 6"
  by (simp_all add: mask_eq_exp_minus_1)

lemma timer_slot_future:
  assumes "n \<le> d" "d < n + 2 ^ 31" "timer_slot (of_nat n) (of_nat d) = (k, i)"
  shows "placed n d k i" "0 < k \<Longrightarrow> n + 2 ^ lshift k \<le> d"
proof -
  let ?idx = "of_nat d - of_nat n :: u32"
  obtain m where m: "d = n + m" "m < 2 ^ 31" using assms(1,2) by (auto simp: le_iff_add)
  then have u: "unat ?idx = d - n" by (simp add: unat_of_nat)
  have nn: "\<not> sint ?idx < 0" using u m by (simp add: sint_negative_iff)
  have lt: "?idx < w \<longleftrightarrow> d - n < unat w" for w by (simp add: word_less_nat_alt u)
  have ix: "unat ((of_nat d :: u32) AND 255) = d mod 256" using of_nat_index [of 0 8 d] by (simp add: mask_values)
  have ix6: "unat (drop_bit s (of_nat d :: u32) AND 63) = d div 2 ^ s mod 64" if "s \<le> 26" for s
    using of_nat_index [of s 6 d] that by (simp add: mask_values)
  have K: "k = 0 \<and> i = d mod 256 \<and> d - n < 256 \<or> k = 1 \<and> i = d div 2 ^ 8 mod 64 \<and> 256 \<le> d - n \<and> d - n < 2 ^ 14 \<or>
      k = 2 \<and> i = d div 2 ^ 14 mod 64 \<and> 2 ^ 14 \<le> d - n \<and> d - n < 2 ^ 20 \<or>
      k = 3 \<and> i = d div 2 ^ 20 mod 64 \<and> 2 ^ 20 \<le> d - n \<and> d - n < 2 ^ 26 \<or>
      k = 4 \<and> i = d div 2 ^ 26 mod 64 \<and> 2 ^ 26 \<le> d - n"
    using assms(3) nn by (auto simp: timer_slot_def Let_def lt ix ix6 split: if_splits)
  then have far: "n + 2 ^ lshift k \<le> d" if "0 < k" using that assms(1) by (auto simp: lshift_def)
  have "d < n + 2 ^ (lshift k + lbits k)" using K assms(1,2) by (auto simp: lshift_def lbits_def)
  moreover have "n \<le> group k d"
  proof (cases "k = 0")
    case True
    then show ?thesis using assms(1) by (simp add: group_def lshift_def)
  next
    case False
    then show ?thesis using far less_group [of d k] by simp
  qed
  ultimately show "placed n d k i" using K group_le [of k d] by (auto simp: placed_def lshift_def lbits_def)
  show "n + 2 ^ lshift k \<le> d" if "0 < k" using far that .
qed

lemma timer_slot_past:
  assumes "sint (e - of_nat n) < 0"
  shows "timer_slot (of_nat n) e = (0, n mod 256)"
proof -
  have "2 ^ 31 \<le> unat (e - of_nat n)" using assms by (simp only: sint_negative_iff)
  moreover have "unat ((of_nat n :: u32) AND 255) = n mod 256" using of_nat_index [of 0 8 n] by (simp add: mask_values)
  ultimately show ?thesis using assms by (simp add: timer_slot_def Let_def word_less_nat_alt)
qed

lemma placed_now: "placed n n 0 (n mod 256)"
  by (simp add: placed_def group_def lshift_def lbits_def)

text \<open>The tick at which a timer is due that is set to \<open>e\<close> at tick \<open>n\<close>: an expiry in the past counts as now.\<close>

definition due_at :: "nat \<Rightarrow> u32 \<Rightarrow> nat" where
  "due_at n e = (if sint (e - of_nat n) < 0 then n else n + unat (e - of_nat n))"

lemma due_at_slot:
  assumes "timer_slot (of_nat n) e = (k, i)"
  shows "placed n (due_at n e) k i" "due_at n e < n + 2 ^ 31" "0 < k \<Longrightarrow> of_nat (due_at n e) = e"
proof -
  have "placed n (due_at n e) k i \<and> due_at n e < n + 2 ^ 31 \<and> (0 < k \<longrightarrow> of_nat (due_at n e) = e)"
  proof (cases "sint (e - of_nat n) < 0")
    case True
    then show ?thesis using assms placed_now by (auto simp: due_at_def timer_slot_past)
  next
    case False
    then have "unat (e - of_nat n) < 2 ^ 31" by (simp only: sint_negative_iff not_le)
    moreover have "of_nat (n + unat (e - of_nat n)) = e" by simp
    ultimately show ?thesis using False assms timer_slot_future(1) [of n "n + unat (e - of_nat n)" k i]
      by (simp add: due_at_def)
  qed
  then show "placed n (due_at n e) k i" "due_at n e < n + 2 ^ 31" "0 < k \<Longrightarrow> of_nat (due_at n e) = e" by simp_all
qed

subsection \<open>The invariant of the wheel\<close>

text \<open>At tick \<open>n\<close>, with \<open>due t\<close> the tick at which a pending timer is due: every timer on a list is
  pending, stands on one list only, and on the list of its due tick; the timers on the work list
  were due at the previous tick; and every pending timer is on some list.\<close>

definition wheel_inv :: "nat \<Rightarrow> (nat \<Rightarrow> nat) \<Rightarrow> tvec_base \<Rightarrow> bool" where
  "wheel_inv n due b \<longleftrightarrow> timer_jiffies b = of_nat n \<and>
     (\<forall>t k i. t \<in> set (vec b k i) \<longrightarrow> pending b t \<and> t \<notin> set (work_list b) \<and> placed n (due t) k i \<and>
        due t < n + 2 ^ 31 \<and> (0 < k \<longrightarrow> expires b t = of_nat (due t))) \<and>
     (\<forall>t k i k' i'. t \<in> set (vec b k i) \<longrightarrow> t \<in> set (vec b k' i') \<longrightarrow> k = k' \<and> i = i') \<and>
     (\<forall>t \<in> set (work_list b). pending b t \<and> Suc (due t) = n) \<and>
     (\<forall>t. pending b t \<longrightarrow> t \<in> set (work_list b) \<or> (\<exists>k i. t \<in> set (vec b k i)))"

lemma wheel_invD:
  assumes "wheel_inv n due b"
  shows "timer_jiffies b = of_nat n"
    "t \<in> set (vec b k i) \<Longrightarrow> pending b t" "t \<in> set (vec b k i) \<Longrightarrow> t \<notin> set (work_list b)"
    "t \<in> set (vec b k i) \<Longrightarrow> placed n (due t) k i" "t \<in> set (vec b k i) \<Longrightarrow> due t < n + 2 ^ 31"
    "t \<in> set (vec b k i) \<Longrightarrow> 0 < k \<Longrightarrow> expires b t = of_nat (due t)"
    "t \<in> set (vec b k i) \<Longrightarrow> t \<in> set (vec b k' i') \<Longrightarrow> k = k' \<and> i = i'"
    "t \<in> set (work_list b) \<Longrightarrow> pending b t" "t \<in> set (work_list b) \<Longrightarrow> Suc (due t) = n"
    "pending b t \<Longrightarrow> t \<in> set (work_list b) \<or> (\<exists>k i. t \<in> set (vec b k i))"
  using assms unfolding wheel_inv_def by blast+

lemma wheel_invI:
  assumes "timer_jiffies b = of_nat n"
    "\<And>t k i. t \<in> set (vec b k i) \<Longrightarrow> pending b t \<and> t \<notin> set (work_list b) \<and> placed n (due t) k i \<and>
        due t < n + 2 ^ 31 \<and> (0 < k \<longrightarrow> expires b t = of_nat (due t))"
    "\<And>t k i k' i'. t \<in> set (vec b k i) \<Longrightarrow> t \<in> set (vec b k' i') \<Longrightarrow> k = k' \<and> i = i'"
    "\<And>t. t \<in> set (work_list b) \<Longrightarrow> pending b t \<and> Suc (due t) = n"
    "\<And>t. pending b t \<Longrightarrow> t \<in> set (work_list b) \<or> (\<exists>k i. t \<in> set (vec b k i))"
  shows "wheel_inv n due b"
  unfolding wheel_inv_def using assms by blast

lemma wheel_inv_init: "wheel_inv n due (init_timers_cpu (of_nat n) exps fns)"
  by (simp add: wheel_inv_def init_timers_cpu_def)

text \<open>A timer is taken off its list.\<close>

lemma wheel_inv_unlink:
  assumes inv: "wheel_inv n due b" and same: "\<forall>u. u \<noteq> t \<longrightarrow> due' u = due u"
  shows "wheel_inv n due' ((list_del t b)\<lparr>pending := (pending b)(t := False)\<rparr>)"
  using wheel_invD [OF inv] same by (intro wheel_invI) (simp_all, (metis+)?)

text \<open>A timer that is not pending is set to \<open>e\<close>.\<close>

definition start_timer :: "nat \<Rightarrow> u32 \<Rightarrow> tvec_base \<Rightarrow> tvec_base" where
  "start_timer t e b =
     (let b = internal_add_timer t (b\<lparr>expires := (expires b)(t := e)\<rparr>) in b\<lparr>pending := (pending b)(t := True)\<rparr>)"

lemma wheel_inv_start:
  assumes inv: "wheel_inv n due b" and np: "\<not> pending b t"
  shows "wheel_inv n (due(t := due_at n e)) (start_timer t e b)"
proof -
  note I = wheel_invD [OF inv]
  obtain k i where s: "timer_slot (of_nat n) e = (k, i)" by (cases "timer_slot (of_nat n) e") auto
  note D = due_at_slot [OF s]
  have out: "t \<notin> set (vec b k' i')" "t \<notin> set (work_list b)" for k' i' using np I(2,8) by blast+
  have V: "vec (start_timer t e b) k' i' = vec b k' i' @ (if (k, i) = (k', i') then [t] else [])" for k' i'
    by (simp add: start_timer_def Let_def vec_internal_add I(1) s)
  have S: "timer_jiffies (start_timer t e b) = timer_jiffies b" "work_list (start_timer t e b) = work_list b"
    "pending (start_timer t e b) = (pending b)(t := True)" "expires (start_timer t e b) = (expires b)(t := e)"
    by (simp_all add: start_timer_def Let_def)
  show ?thesis
  proof (rule wheel_invI)
    show "timer_jiffies (start_timer t e b) = of_nat n" using I(1) by (simp add: S)
  next
    fix u k' i' assume u: "u \<in> set (vec (start_timer t e b) k' i')"
    show "pending (start_timer t e b) u \<and> u \<notin> set (work_list (start_timer t e b)) \<and> placed n ((due(t := due_at n e)) u) k' i' \<and>
        (due(t := due_at n e)) u < n + 2 ^ 31 \<and> (0 < k' \<longrightarrow> expires (start_timer t e b) u = of_nat ((due(t := due_at n e)) u))"
    proof (cases "u = t")
      case True
      then show ?thesis using u out D by (auto simp: V S split: if_splits)
    next
      case False
      then have "u \<in> set (vec b k' i')" using u by (auto simp: V split: if_splits)
      then show ?thesis using I(2-6) False by (simp add: S)
    qed
  next
    fix u k1 i1 k2 i2
    assume "u \<in> set (vec (start_timer t e b) k1 i1)" "u \<in> set (vec (start_timer t e b) k2 i2)"
    then show "k1 = k2 \<and> i1 = i2" using out(1) I(7) by (auto simp: V split: if_splits)
  next
    fix u assume "u \<in> set (work_list (start_timer t e b))"
    then show "pending (start_timer t e b) u \<and> Suc ((due(t := due_at n e)) u) = n" using out(2) I(8,9) by (auto simp: S)
  next
    fix u assume "pending (start_timer t e b) u"
    then show "u \<in> set (work_list (start_timer t e b)) \<or> (\<exists>k i. u \<in> set (vec (start_timer t e b) k i))"
      using I(10) [of u] by (cases "u = t") (auto simp: V S)
  qed
qed

lemma u_mod_timer_eq:
  assumes "has_function b t"
  shows "u_mod_timer t e b = Inr (pending b t,
    start_timer t e (if pending b t then (list_del t b)\<lparr>pending := (pending b)(t := False)\<rparr> else b))"
  using assms by (simp add: u_mod_timer_def start_timer_def Let_def internal_add_timer_def set_slot_def)

lemma u_mod_timer_inv:
  assumes inv: "wheel_inv n due b" and m: "u_mod_timer t e b = Inr (r, b')"
  shows "wheel_inv n (due(t := due_at n e)) b'"
proof -
  have "has_function b t" using m by (auto simp: u_mod_timer_def split: if_splits)
  then have b': "b' = start_timer t e (if pending b t then (list_del t b)\<lparr>pending := (pending b)(t := False)\<rparr> else b)"
    using m u_mod_timer_eq [of b t e] by (auto simp del: if_split)
  show ?thesis
  proof (cases "pending b t")
    case True
    then show ?thesis unfolding b' using wheel_inv_unlink [OF inv, of t due] by (simp add: wheel_inv_start)
  next
    case False
    then show ?thesis unfolding b' using inv by (simp add: wheel_inv_start)
  qed
qed

lemma add_timer_on_inv:
  assumes "wheel_inv n due b" "add_timer_on t b = Inr b'"
  shows "wheel_inv n (due(t := due_at n (expires b t))) b'"
proof -
  have "b' = start_timer t (expires b t) b" "\<not> pending b t"
    using assms(2) by (auto simp: add_timer_on_def start_timer_def Let_def split: if_splits)
  then show ?thesis using wheel_inv_start [OF assms(1)] by simp
qed

lemma del_timer_inv: "wheel_inv n due b \<Longrightarrow> wheel_inv n due (snd (del_timer t b))"
  using wheel_inv_unlink [of n due b t due] by (simp add: del_timer_def)

lemma take_timer_inv: "wheel_inv n due b \<Longrightarrow> wheel_inv n due (take_timer t b)"
  using wheel_inv_unlink [of n due b t due] by (simp add: take_timer_def Let_def)

subsection \<open>Cascading\<close>

lemma vec_fold_add:
  "vec (fold internal_add_timer l b) k i =
     vec b k i @ filter (\<lambda>t. timer_slot (timer_jiffies b) (expires b t) = (k, i)) l"
  by (induction l arbitrary: b) (auto simp: vec_internal_add)

text \<open>No list of vector \<open>k\<close> is due to be cascaded at tick \<open>n\<close>.\<close>

definition fresh :: "nat \<Rightarrow> (nat \<Rightarrow> nat) \<Rightarrow> tvec_base \<Rightarrow> nat \<Rightarrow> bool" where
  "fresh n due b k \<longleftrightarrow> (\<forall>t i. t \<in> set (vec b k i) \<longrightarrow> n < group k (due t))"

lemma lshift_mono: "j \<le> k \<Longrightarrow> lshift j \<le> lshift k"
  by (auto simp: lshift_def)

lemma lshift_strict: "j < k \<Longrightarrow> lshift j < lshift k"
  by (auto simp: lshift_def)

lemma fresh_between:
  assumes inv: "wheel_inv n due b" and nd: "\<not> 2 ^ lshift j dvd n" and jk: "j \<le> k"
  shows "fresh n due b k"
  unfolding fresh_def
proof (intro allI impI)
  fix t i assume "t \<in> set (vec b k i)"
  then have "n \<le> group k (due t)" using wheel_invD(4) [OF inv] by (simp add: placed_def)
  moreover have "2 ^ lshift j dvd group k (due t)"
    using le_imp_power_dvd [OF lshift_mono [OF jk], of "2 :: nat"] by (simp add: group_def)
  ultimately show "n < group k (due t)" using nd by (metis le_neq_implies_less)
qed

lemma same_group:
  fixes a m :: nat
  assumes "m \<le> a" "a < m + w" "a mod w = m mod w"
  shows "a = m"
proof -
  obtain c where c: "a = m + c" using assms(1) le_iff_add by blast
  have "(m + c) mod w = (m + 0) mod w" using assms(3) by (simp add: c)
  then show ?thesis using mod_add_inj [of m c w 0] assms(2) by (simp add: c)
qed

lemma group_hit:
  assumes p: "placed n d k i" and k: "0 < k" and n: "2 ^ lshift k dvd n" and i: "i = n div 2 ^ lshift k mod 64"
  shows "group k d = n"
proof -
  let ?s = "2 ^ lshift k :: nat"
  have n': "n div ?s * ?s = n" using n by simp
  have "n div ?s * ?s \<le> d div ?s * ?s" "d div ?s * ?s < n div ?s * ?s + 64 * ?s"
    using p k n' by (simp_all add: placed_def group_def lbits_def power_add mult.commute)
  then have "n div ?s \<le> d div ?s" "d div ?s < n div ?s + 64" by (simp_all add: flip: distrib_right)
  moreover have "d div ?s mod 64 = n div ?s mod 64" using p i k by (simp add: placed_def lbits_def)
  ultimately have "d div ?s = n div ?s" by (rule same_group)
  then show ?thesis using n' by (simp add: group_def)
qed

text \<open>A timer of the list that is cascaded goes to a lower vector.\<close>

lemma cascade_lower:
  assumes inv: "wheel_inv n due b" and k: "0 < k" and n: "2 ^ lshift k dvd n" and t: "t \<in> set (vec b k (n div 2 ^ lshift k mod 64))"
    and s: "timer_slot (timer_jiffies b) (expires b t) = (k', i')"
  shows "k' < k" "placed n (due t) k' i'" "0 < k' \<Longrightarrow> n < group k' (due t)"
proof -
  note I = wheel_invD [OF inv]
  have g: "group k (due t) = n" using group_hit [OF I(4) [OF t] k n refl] .
  have d: "n \<le> due t" "due t < n + 2 ^ lshift k" using group_le [of k "due t"] less_group [of "due t" k] g by simp_all
  have s': "timer_slot (of_nat n) (of_nat (due t)) = (k', i')" using s I(1) I(6) [OF t k] by simp
  note F = timer_slot_future [OF d(1) I(5) [OF t] s']
  show "k' < k"
  proof (rule ccontr)
    assume "\<not> k' < k"
    then have "2 ^ lshift k \<le> (2 ^ lshift k' :: nat)" by (intro power_increasing lshift_mono) simp_all
    moreover have "n + 2 ^ lshift k' \<le> due t" using F(2) k \<open>\<not> k' < k\<close> by simp
    ultimately show False using d(2) by linarith
  qed
  show "placed n (due t) k' i'" by (rule F(1))
  show "n < group k' (due t)" if "0 < k'" using F(2) [OF that] less_group [of "due t" k'] by simp
qed

lemma cascade_mem:
  assumes "cascade k index b = Inr b'"
  shows "t \<in> set (vec b' k' i') \<longleftrightarrow> (k', i') \<noteq> (k, index) \<and> (t \<in> set (vec b k' i') \<or>
      t \<in> set (vec b k index) \<and> timer_slot (timer_jiffies b) (expires b t) = (k', i'))"
  using assms by (auto simp: cascade_def vec_set_slot vec_fold_add split: if_splits)

lemma cascade_wheel_inv:
  assumes inv: "wheel_inv n due b" and k: "0 < k" and n: "2 ^ lshift k dvd n" and c: "cascade k (n div 2 ^ lshift k mod 64) b = Inr b'"
  shows "wheel_inv n due b'"
proof (rule wheel_invI)
  note I = wheel_invD [OF inv] and S = cascade_sel [OF c] and V = cascade_mem [OF c] and low = cascade_lower [OF inv k n]
  show "timer_jiffies b' = of_nat n" using S(1) I(1) by simp
  fix t
  show "pending b' t \<and> t \<notin> set (work_list b') \<and> placed n (due t) k' i' \<and> due t < n + 2 ^ 31 \<and>
      (0 < k' \<longrightarrow> expires b' t = of_nat (due t))" if "t \<in> set (vec b' k' i')" for k' i'
  proof -
    have "t \<in> set (vec b k' i') \<or> t \<in> set (vec b k (n div 2 ^ lshift k mod 64)) \<and> timer_slot (timer_jiffies b) (expires b t) = (k', i')"
      using that unfolding V by blast
    then show ?thesis unfolding S using I(2-6) I(6) [OF _ k] low(2) by blast
  qed
  show "k1 = k2 \<and> i1 = i2" if "t \<in> set (vec b' k1 i1)" "t \<in> set (vec b' k2 i2)" for k1 i1 k2 i2
    using that unfolding V using I(7) by (metis prod.inject)
  show "pending b' t \<and> Suc (due t) = n" if "t \<in> set (work_list b')" using that unfolding S using I(8,9) by blast
  show "t \<in> set (work_list b') \<or> (\<exists>k i. t \<in> set (vec b' k i))" if "pending b' t"
  proof -
    have "pending b t" using that unfolding S .
    then consider "t \<in> set (work_list b)" | k' i' where "t \<in> set (vec b k' i')" using I(10) by blast
    then show ?thesis
    proof cases
      case 1
      then show ?thesis unfolding S by simp
    next
      case (2 k' i')
      obtain k2 i2 where s: "timer_slot (timer_jiffies b) (expires b t) = (k2, i2)"
        by (cases "timer_slot (timer_jiffies b) (expires b t)") auto
      have "t \<in> set (vec b' k2 i2)" if "(k', i') = (k, n div 2 ^ lshift k mod 64)"
        using 2 s low(1) [of t k2 i2] that unfolding V by auto
      moreover have "t \<in> set (vec b' k' i')" if "(k', i') \<noteq> (k, n div 2 ^ lshift k mod 64)" using 2 that unfolding V by blast
      ultimately show ?thesis by blast
    qed
  qed
qed

lemma cascade_fresh:
  assumes inv: "wheel_inv n due b" and k: "0 < k" and n: "2 ^ lshift k dvd n" and c: "cascade k (n div 2 ^ lshift k mod 64) b = Inr b'"
    and k': "0 < k'" "k' = k \<or> fresh n due b k'"
  shows "fresh n due b' k'"
  unfolding fresh_def
proof (intro allI impI)
  fix t i' assume "t \<in> set (vec b' k' i')"
  then consider "t \<in> set (vec b k (n div 2 ^ lshift k mod 64))" "timer_slot (timer_jiffies b) (expires b t) = (k', i')"
    | "t \<in> set (vec b k' i')" "(k', i') \<noteq> (k, n div 2 ^ lshift k mod 64)" unfolding cascade_mem [OF c] by blast
  then show "n < group k' (due t)"
  proof cases
    case 1
    then show ?thesis using cascade_lower(3) [OF inv k n] k'(1) by blast
  next
    case 2
    show ?thesis
    proof (cases "k' = k")
      case True
      have p: "placed n (due t) k i'" using wheel_invD(4) [OF inv 2(1)] True by simp
      have "group k (due t) \<noteq> n"
      proof
        assume "group k (due t) = n"
        then have "due t div 2 ^ lshift k = n div 2 ^ lshift k" by (simp add: group_def flip: \<open>group k (due t) = n\<close>)
        then show False using p 2(2) True k by (simp add: placed_def lbits_def)
      qed
      then show ?thesis using p True by (simp add: placed_def)
    next
      case False
      then show ?thesis using k'(2) 2(1) unfolding fresh_def by blast
    qed
  qed
qed

lemma cascade_inv:
  assumes inv: "wheel_inv n due b" and k: "0 < k" and n: "2 ^ lshift k dvd n" and ix: "index = n div 2 ^ lshift k mod 64"
  shows "\<exists>b'. cascade k index b = Inr b' \<and> wheel_inv n due b' \<and> fresh n due b' k \<and>
    (\<forall>k'. 0 < k' \<longrightarrow> fresh n due b k' \<longrightarrow> fresh n due b' k')"
proof -
  obtain b' where "cascade k index b = Inr b'" using wheel_invD(2) [OF inv] by (auto simp: cascade_def)
  then show ?thesis using cascade_wheel_inv [OF inv k n] cascade_fresh [OF inv k n] k unfolding ix by blast
qed

subsection \<open>No timer stands twice on a list\<close>

definition lists_distinct :: "tvec_base \<Rightarrow> bool" where
  "lists_distinct b \<longleftrightarrow> (\<forall>k i. distinct (vec b k i)) \<and> distinct (work_list b)"

lemma lists_distinct_unlink: "lists_distinct b \<Longrightarrow> lists_distinct ((list_del t b)\<lparr>pending := p\<rparr>)"
  by (simp add: lists_distinct_def distinct_removeAll)

lemma lists_distinct_start:
  assumes "wheel_inv n due b" "lists_distinct b" "\<not> pending b t"
  shows "lists_distinct (start_timer t e b)"
proof -
  have "t \<notin> set (vec b k i)" for k i using assms(1,3) wheel_invD(2) by blast
  then show ?thesis using assms(2) by (simp add: lists_distinct_def start_timer_def Let_def vec_internal_add)
qed

lemma u_mod_timer_distinct:
  assumes inv: "wheel_inv n due b" "lists_distinct b" and m: "u_mod_timer t e b = Inr (r, b')"
  shows "lists_distinct b'"
proof -
  have hf: "has_function b t" using m by (auto simp: u_mod_timer_def split: if_splits)
  let ?b = "(list_del t b)\<lparr>pending := (pending b)(t := False)\<rparr>"
  have b': "b' = start_timer t e (if pending b t then ?b else b)"
    using m u_mod_timer_eq [OF hf, of e] by (auto simp del: if_split)
  have "lists_distinct (start_timer t e ?b)"
    using wheel_inv_unlink [OF inv(1), of t due] lists_distinct_unlink [OF inv(2)] by (intro lists_distinct_start) auto
  then show ?thesis unfolding b' using lists_distinct_start [OF inv] by simp
qed

lemma cascade_distinct:
  assumes inv: "wheel_inv n due b" "lists_distinct b" and c: "cascade k index b = Inr b'"
  shows "lists_distinct b'"
proof -
  have b': "b' = set_slot (k, index) [] (fold internal_add_timer (vec b k index) b)"
    using c by (auto simp: cascade_def split: if_splits)
  have "distinct (vec b' k' i')" for k' i'
  proof (cases "(k', i') = (k, index)")
    case True
    then show ?thesis by (simp add: b' vec_set_slot)
  next
    case False
    then have "set (vec b k index) \<inter> set (vec b k' i') = {}" using wheel_invD(7) [OF inv(1)] by blast
    then show ?thesis using inv(2) False unfolding b' by (auto simp: lists_distinct_def vec_set_slot vec_fold_add)
  qed
  moreover have "work_list b' = work_list b" using cascade_sel(2) [OF c] .
  ultimately show ?thesis using inv(2) by (simp add: lists_distinct_def)
qed

subsection \<open>A tick\<close>

text \<open>The chain of \<open>cascade\<close> calls, from vector \<open>k\<close> on.\<close>

lemma cascade_from_inv:
  assumes "wheel_inv n due b" "2 ^ lshift k dvd n" "0 < k" "k \<le> 5" "\<And>j. 0 < j \<Longrightarrow> j < k \<Longrightarrow> fresh n due b j"
  shows "\<exists>b'. cascade_from [k..<5] b = Inr b' \<and> wheel_inv n due b' \<and> (\<forall>j. 0 < j \<longrightarrow> j < 5 \<longrightarrow> fresh n due b' j) \<and>
    pending b' = pending b \<and> has_function b' = has_function b \<and> work_list b' = work_list b \<and>
    (lists_distinct b \<longrightarrow> lists_distinct b')"
  using assms
proof (induction "5 - k" arbitrary: k b)
  case 0
  then show ?case by auto
next
  case (Suc m)
  then have k: "k < 5" by simp
  then have up: "[k..<5] = k # [Suc k..<5]" by (simp add: upt_conv_Cons)
  have sh: "8 + (k - 1) * 6 = lshift k" using Suc.prems(3) by (simp add: lshift_def)
  have "lshift k + 6 \<le> 32" using k by (simp add: lshift_def)
  then have ix: "INDEX (k - 1) b = n div 2 ^ lshift k mod 64"
    unfolding INDEX_def sh wheel_invD(1) [OF Suc.prems(1)] mask_values by (simp add: of_nat_index)
  obtain c where c: "cascade k (INDEX (k - 1) b) b = Inr c" "wheel_inv n due c" "fresh n due c k"
      "\<And>j. 0 < j \<Longrightarrow> fresh n due b j \<Longrightarrow> fresh n due c j"
    using cascade_inv [OF Suc.prems(1,3,2) ix] by blast
  note S = cascade_sel [OF c(1)]
  have dist: "lists_distinct b \<longrightarrow> lists_distinct c" using cascade_distinct [OF Suc.prems(1) _ c(1)] by blast
  have low: "fresh n due c j" if "0 < j" "j < Suc k" for j
    using that c(3,4) Suc.prems(5) by (cases "j = k") simp_all
  have nx: "lshift (Suc k) = lshift k + 6" using Suc.prems(3) by (simp add: lshift_def)
  have dv: "2 ^ lshift (Suc k) dvd n \<longleftrightarrow> INDEX (k - 1) b = 0"
    using Suc.prems(2) unfolding ix nx by (auto simp: power_add elim!: dvdE)
  show ?case
  proof (cases "INDEX (k - 1) b = 0")
    case True
    have "\<exists>b'. cascade_from [Suc k..<5] c = Inr b' \<and> wheel_inv n due b' \<and> (\<forall>j. 0 < j \<longrightarrow> j < 5 \<longrightarrow> fresh n due b' j) \<and>
        pending b' = pending c \<and> has_function b' = has_function c \<and> work_list b' = work_list c \<and>
        (lists_distinct c \<longrightarrow> lists_distinct b')"
      using Suc.hyps(2) k c(2) dv True low by (intro Suc.hyps(1)) simp_all
    then show ?thesis using c(1) True S dist unfolding up by auto
  next
    case False
    have "fresh n due c j" if "0 < j" "j < 5" for j
      using low [OF that(1)] fresh_between [OF c(2), of "Suc k" j] dv False by (cases "j < Suc k") auto
    then show ?thesis using c(1,2) False S dist unfolding up by simp
  qed
qed

lemma run_cascades_inv:
  assumes inv: "wheel_inv n due b"
  shows "\<exists>b'. run_cascades b = Inr b' \<and> wheel_inv n due b' \<and> (\<forall>j. 0 < j \<longrightarrow> j < 5 \<longrightarrow> fresh n due b' j) \<and>
    pending b' = pending b \<and> has_function b' = has_function b \<and> work_list b' = work_list b \<and>
    (lists_distinct b \<longrightarrow> lists_distinct b')"
proof -
  have ix: "unat (timer_jiffies b AND 255) = n mod 256"
    using of_nat_index [of 0 8 n] wheel_invD(1) [OF inv] by (simp add: mask_values)
  have l1: "2 ^ lshift 1 = (256 :: nat)" by (simp add: lshift_def)
  show ?thesis
  proof (cases "n mod 256 = 0")
    case True
    then have "2 ^ lshift 1 dvd n" unfolding l1 by auto
    moreover have "[1..<5] = [1, 2, 3, 4 :: nat]" by (simp add: upt_rec)
    ultimately show ?thesis using cascade_from_inv [OF inv, of 1] ix True by (simp add: run_cascades_def del: cascade_from.simps)
  next
    case False
    then have "\<not> 2 ^ lshift 1 dvd n" unfolding l1 by auto
    then have "fresh n due b j" if "0 < j" for j using fresh_between [OF inv, of 1 j] that by simp
    then show ?thesis using inv ix False by (simp add: run_cascades_def del: cascade_from.simps)
  qed
qed

text \<open>A tick: the work list becomes the timers that are due at it. The lists of \<open>c\<close> are those after cascading.\<close>

lemma placed_root: "placed n d 0 i \<longleftrightarrow> i = d mod 256 \<and> n \<le> d \<and> d < n + 256"
  by (simp add: placed_def group_def lshift_def lbits_def)

lemma due_now:
  assumes "wheel_inv n due c" "t \<in> set (vec c 0 (n mod 256))"
  shows "due t = n"
  using wheel_invD(4) [OF assms] same_group [of n "due t" 256] by (auto simp: placed_root)

lemma due_later:
  assumes inv: "wheel_inv n due c" and fr: "\<And>j. 0 < j \<Longrightarrow> j < 5 \<Longrightarrow> fresh n due c j"
    and t: "t \<in> set (vec c k i)" and ne: "(k, i) \<noteq> (0, n mod 256)"
  shows "placed (Suc n) (due t) k i"
proof -
  have p: "placed n (due t) k i" using wheel_invD(4) [OF inv t] .
  have "n < group k (due t)"
  proof (cases "k = 0")
    case True
    then have "due t \<noteq> n" using p ne by (auto simp: placed_root)
    then show ?thesis using p True by (simp add: placed_def group_def lshift_def)
  next
    case False
    then show ?thesis using fr [of k] p t unfolding fresh_def by (auto simp: placed_def)
  qed
  then show ?thesis using p by (simp add: placed_def)
qed

definition after_splice :: "nat \<Rightarrow> tvec_base \<Rightarrow> tvec_base" where
  "after_splice n c = set_slot (0, n mod 256) [] (c\<lparr>timer_jiffies := timer_jiffies c + 1, work_list := vec c 0 (n mod 256) @ work_list c\<rparr>)"

lemma after_splice_sel:
  "timer_jiffies (after_splice n c) = timer_jiffies c + 1" "work_list (after_splice n c) = vec c 0 (n mod 256) @ work_list c"
  "expires (after_splice n c) = expires c" "pending (after_splice n c) = pending c" "has_function (after_splice n c) = has_function c"
  "t \<in> set (vec (after_splice n c) k i) \<longleftrightarrow> t \<in> set (vec c k i) \<and> (k, i) \<noteq> (0, n mod 256)"
  by (auto simp: after_splice_def vec_set_slot)

lemma after_splice_inv:
  assumes inv: "wheel_inv n due c" and fr: "\<And>j. 0 < j \<Longrightarrow> j < 5 \<Longrightarrow> fresh n due c j" and w: "work_list c = []"
  shows "wheel_inv (Suc n) due (after_splice n c)"
proof (rule wheel_invI)
  note I = wheel_invD [OF inv] and S = after_splice_sel
  show "timer_jiffies (after_splice n c) = of_nat (Suc n)" using I(1) by (simp add: S add.commute)
  fix t
  show "pending (after_splice n c) t \<and> t \<notin> set (work_list (after_splice n c)) \<and> placed (Suc n) (due t) k i \<and> due t < Suc n + 2 ^ 31 \<and>
      (0 < k \<longrightarrow> expires (after_splice n c) t = of_nat (due t))" if "t \<in> set (vec (after_splice n c) k i)" for k i
  proof -
    have t: "t \<in> set (vec c k i)" "(k, i) \<noteq> (0, n mod 256)" using that unfolding S by blast+
    then have "t \<notin> set (vec c 0 (n mod 256))" using I(7) by blast
    then show ?thesis using I(2) [OF t(1)] I(3) [OF t(1)] I(5) [OF t(1)] I(6) [OF t(1)] due_later [OF inv fr t] by (simp add: S)
  qed
  show "k = k' \<and> i = i'" if "t \<in> set (vec (after_splice n c) k i)" "t \<in> set (vec (after_splice n c) k' i')" for k i k' i'
    using that unfolding S using I(7) by blast
  show "pending (after_splice n c) t \<and> Suc (due t) = Suc n" if "t \<in> set (work_list (after_splice n c))"
    using that w I(2) due_now [OF inv] by (simp add: S)
  show "t \<in> set (work_list (after_splice n c)) \<or> (\<exists>k i. t \<in> set (vec (after_splice n c) k i))" if "pending (after_splice n c) t"
    using that I(10) [of t] w by (auto simp: S)
qed

lemma after_splice_work:
  assumes inv: "wheel_inv n due c" and fr: "\<And>j. 0 < j \<Longrightarrow> j < 5 \<Longrightarrow> fresh n due c j" and w: "work_list c = []"
  shows "set (work_list (after_splice n c)) = {t. pending c t \<and> due t = n}"
proof (intro set_eqI iffI)
  fix t assume "t \<in> set (work_list (after_splice n c))"
  then show "t \<in> {t. pending c t \<and> due t = n}" using w due_now [OF inv] wheel_invD(2) [OF inv] by (auto simp: after_splice_sel)
next
  fix t assume t: "t \<in> {t. pending c t \<and> due t = n}"
  then obtain k i where v: "t \<in> set (vec c k i)" using wheel_invD(10) [OF inv, of t] w by auto
  have "(k, i) = (0, n mod 256)"
  proof (rule ccontr)
    assume "(k, i) \<noteq> (0, n mod 256)"
    then have "Suc n \<le> group k (due t)" using due_later [OF inv fr v] by (simp add: placed_def)
    then show False using t group_le [of k "due t"] by simp
  qed
  then show "t \<in> set (work_list (after_splice n c))" using v by (simp add: after_splice_sel)
qed

lemma start_tick_inv:
  assumes inv: "wheel_inv n due b" and w: "work_list b = []"
  shows "\<exists>b'. start_tick b = Inr b' \<and> wheel_inv (Suc n) due b' \<and> set (work_list b') = {t. pending b t \<and> due t = n} \<and>
    pending b' = pending b \<and> has_function b' = has_function b \<and> (lists_distinct b \<longrightarrow> lists_distinct b')"
proof -
  obtain c where c: "run_cascades b = Inr c" "wheel_inv n due c" "\<And>j. 0 < j \<Longrightarrow> j < 5 \<Longrightarrow> fresh n due c j"
      "pending c = pending b" "has_function c = has_function b" "work_list c = work_list b"
      "lists_distinct b \<longrightarrow> lists_distinct c"
    using run_cascades_inv [OF inv] by blast
  have ix: "unat (timer_jiffies b AND 255) = n mod 256"
    using of_nat_index [of 0 8 n] wheel_invD(1) [OF inv] by (simp add: mask_values)
  have wc: "work_list c = []" using c(6) w by simp
  have "start_tick b = Inr (after_splice n c)" using c(1) by (simp add: start_tick_def ix Let_def after_splice_def)
  moreover have "lists_distinct b \<longrightarrow> lists_distinct (after_splice n c)"
    using c(7) wc by (simp add: lists_distinct_def after_splice_def vec_set_slot)
  ultimately show ?thesis using after_splice_inv [OF c(2,3) wc] after_splice_work [OF c(2,3) wc] c(4,5) by (simp add: after_splice_sel)
qed

subsection \<open>The timers and the ticks\<close>

text \<open>The system of timers: the number of the next tick, the tick at which each timer is due, the base,
  and a log of the calls of timer functions, the last one first, with the tick of the call and the
  tick at which the timer was due.\<close>

record timer_sys =
  now :: nat
  due :: "nat \<Rightarrow> nat"
  base :: tvec_base
  fired :: "(nat \<times> nat \<times> nat) list"

text \<open>The due ticks after an operation.\<close>

fun redue :: "nat \<Rightarrow> timer_op \<Rightarrow> tvec_base \<Rightarrow> (nat \<Rightarrow> nat) \<Rightarrow> nat \<Rightarrow> nat" where
  "redue n (Mod t e) b d = (if expires b t = e \<and> pending b t then d else d(t := due_at n e))"
| "redue n (U_mod t e) b d = d(t := due_at n e)"
| "redue n (Del t) b d = d"

text \<open>A step: an operation on a timer (from a timer function, an interrupt or a process, between calls
  of timer functions), an assignment to \<open>expires\<close> of a timer that is not pending, the start of the next
  tick when the functions of the last one have been called, or the call of the next function.\<close>

inductive timer_step :: "timer_sys \<Rightarrow> timer_sys \<Rightarrow> bool" where
  op: "timer_exec x (base s) = Inr b \<Longrightarrow>
    timer_step s (s\<lparr>base := b, due := redue (now s) x (base s) (due s)\<rparr>)"
| add_on: "add_timer_on t (base s) = Inr b \<Longrightarrow>
    timer_step s (s\<lparr>base := b, due := (due s)(t := due_at (now s) (expires (base s) t))\<rparr>)"
| set_expires: "\<not> pending (base s) t \<Longrightarrow>
    timer_step s (s\<lparr>base := (base s)\<lparr>expires := (expires (base s))(t := e)\<rparr>\<rparr>)"
| tick: "work_list (base s) = [] \<Longrightarrow> start_tick (base s) = Inr b \<Longrightarrow>
    timer_step s (s\<lparr>base := b, now := Suc (now s)\<rparr>)"
| fire: "work_list (base s) = t # ts \<Longrightarrow>
    timer_step s (s\<lparr>base := take_timer t (base s), fired := (t, now s - 1, due s t) # fired s\<rparr>)"

definition timer_init :: "timer_sys \<Rightarrow> bool" where
  "timer_init s \<longleftrightarrow> (\<exists>exps fns. base s = init_timers_cpu (of_nat (now s)) exps fns) \<and> fired s = []"

definition timer_inv :: "timer_sys \<Rightarrow> bool" where
  "timer_inv s \<longleftrightarrow> wheel_inv (now s) (due s) (base s) \<and> lists_distinct (base s) \<and>
     (\<forall>(t, k, d) \<in> set (fired s). k = d)"

lemma timer_exec_inv:
  assumes "wheel_inv n d b" "lists_distinct b" "timer_exec x b = Inr b'"
  shows "wheel_inv n (redue n x b d) b' \<and> lists_distinct b'"
proof (cases x)
  case (Mod t e)
  then show ?thesis using assms u_mod_timer_inv u_mod_timer_distinct
    by (auto simp: mod_timer_def map_sum_def split: if_splits sum.splits)
next
  case (U_mod t e)
  then show ?thesis using assms u_mod_timer_inv u_mod_timer_distinct
    by (auto simp: map_sum_def split: sum.splits)
next
  case (Del t)
  then show ?thesis using assms del_timer_inv lists_distinct_unlink by (auto simp: del_timer_def Let_def)
qed

lemma add_timer_on_distinct:
  assumes "wheel_inv n d b" "lists_distinct b" "add_timer_on t b = Inr b'"
  shows "lists_distinct b'"
proof -
  have "b' = start_timer t (expires b t) b" "\<not> pending b t"
    using assms(3) by (auto simp: add_timer_on_def start_timer_def Let_def split: if_splits)
  then show ?thesis using lists_distinct_start [OF assms(1,2)] by simp
qed

lemma set_expires_inv:
  assumes "wheel_inv n d b" "\<not> pending b t"
  shows "wheel_inv n d (b\<lparr>expires := (expires b)(t := e)\<rparr>)"
  using wheel_invD [OF assms(1)] assms(2) by (intro wheel_invI) (simp_all, (metis+)?)

lemma timer_step_inv:
  assumes inv: "timer_inv s" and step: "timer_step s s'"
  shows "timer_inv s'"
proof -
  have W: "wheel_inv (now s) (due s) (base s)" "lists_distinct (base s)" and F: "\<forall>(t, k, d) \<in> set (fired s). k = d"
    using inv by (simp_all add: timer_inv_def)
  from step show ?thesis
  proof cases
    case (op x b)
    then show ?thesis using timer_exec_inv [OF W] F by (simp add: timer_inv_def)
  next
    case (add_on t b)
    then show ?thesis using add_timer_on_inv [OF W(1)] add_timer_on_distinct [OF W] F by (simp add: timer_inv_def)
  next
    case (set_expires t e)
    then show ?thesis using set_expires_inv [OF W(1)] W(2) F by (simp add: timer_inv_def lists_distinct_def)
  next
    case (tick b)
    then show ?thesis using start_tick_inv [OF W(1)] W(2) F by (auto simp: timer_inv_def)
  next
    case (fire t ts)
    have "lists_distinct (take_timer t (base s))"
      unfolding take_timer_def Let_def using lists_distinct_unlink [OF W(2)] by simp
    moreover have "now s - 1 = due s t" using wheel_invD(9) [OF W(1), of t] fire(2) by simp
    ultimately show ?thesis using take_timer_inv [OF W(1)] F by (simp add: fire(1) timer_inv_def)
  qed
qed

interpretation timers: transition_system timer_init timer_step timer_inv
proof unfold_locales
  show "timer_inv s" if "timer_init s" for s
    using that wheel_inv_init by (auto simp: timer_init_def timer_inv_def lists_distinct_def init_timers_cpu_def)
qed (rule timer_step_inv)

subsection \<open>\<open>__run_timers\<close> as a sequence of steps\<close>

lemma timer_exec_total:
  assumes "\<forall>t. has_function b t"
  shows "\<exists>b'. timer_exec x b = Inr b' \<and> (\<forall>t. has_function b' t)"
  using assms by (cases x) (auto simp: mod_timer_def u_mod_timer_def del_timer_def Let_def)

lemma timer_execs_steps:
  assumes "\<forall>t. has_function (base s) t"
  shows "\<exists>s'. timer_execs xs (base s) = Inr (base s') \<and> timer_step\<^sup>*\<^sup>* s s' \<and> now s' = now s \<and> fired s' = fired s \<and>
    (\<forall>t. has_function (base s') t)"
  using assms
proof (induction xs arbitrary: s)
  case Nil
  then show ?case by auto
next
  case (Cons x xs)
  obtain b where b: "timer_exec x (base s) = Inr b" "\<forall>t. has_function b t" using timer_exec_total [OF Cons.prems] by blast
  let ?s = "s\<lparr>base := b, due := redue (now s) x (base s) (due s)\<rparr>"
  obtain s' where s': "timer_execs xs (base ?s) = Inr (base s')" "timer_step\<^sup>*\<^sup>* ?s s'" "now s' = now ?s"
      "fired s' = fired ?s" "\<forall>t. has_function (base s') t"
    using Cons.IH [of ?s] b(2) by auto
  have "timer_step\<^sup>*\<^sup>* s s'" using timer_step.op [OF b(1)] s'(2) by (rule converse_rtranclp_into_rtranclp)
  then show ?case using b(1) s' by (intro exI [of _ s']) simp
qed

lemma run_work_steps:
  assumes "\<forall>t. has_function (base s) t"
  shows "\<exists>ts s'. run_work handler (base s) = Inr (ts, base s') \<and> timer_step\<^sup>*\<^sup>* s s' \<and> now s' = now s \<and>
    work_list (base s') = [] \<and> (\<forall>t. has_function (base s') t) \<and>
    (\<exists>new. fired s' = new @ fired s \<and> ts = rev (map fst new) \<and> (\<forall>x \<in> set new. fst (snd x) = now s - 1))"
  using assms
proof (induction "length (work_list (base s))" arbitrary: s rule: less_induct)
  case less
  show ?case
  proof (cases "work_list (base s)")
    case Nil
    then show ?thesis using less.prems by (intro exI [of _ "[]"] exI [of _ s]) (simp add: run_work.simps [of handler "base s"])
  next
    case (Cons t ws)
    let ?s = "s\<lparr>base := take_timer t (base s), fired := (t, now s - 1, due s t) # fired s\<rparr>"
    let ?xs = "handler t (take_timer t (base s))"
    obtain s1 where s1: "timer_execs ?xs (base ?s) = Inr (base s1)" "timer_step\<^sup>*\<^sup>* ?s s1" "now s1 = now s"
        "fired s1 = fired ?s" "\<forall>t. has_function (base s1) t"
      using timer_execs_steps [of ?s ?xs] less.prems by auto
    have "length (work_list (base s1)) \<le> length (removeAll t (work_list (base s)))"
      using timer_execs_work [OF s1(1)] by simp
    also have "\<dots> < length (work_list (base s))" using Cons by (simp add: le_imp_less_Suc)
    finally obtain ts s' new where s': "run_work handler (base s1) = Inr (ts, base s')" "timer_step\<^sup>*\<^sup>* s1 s'"
        "now s' = now s" "work_list (base s') = []" "\<forall>t. has_function (base s') t"
        "fired s' = new @ fired s1" "ts = rev (map fst new)" "\<forall>x \<in> set new. fst (snd x) = now s - 1"
      using less.hyps [OF _ s1(5)] s1(3) by metis
    have "run_work handler (base s) = Inr (t # ts, base s')"
      using Cons s1(1) s'(1) by (simp add: run_work.simps [of handler "base s"])
    moreover have "timer_step\<^sup>*\<^sup>* s s'"
      using timer_step.fire [OF Cons] s1(2) s'(2) by (meson converse_rtranclp_into_rtranclp rtranclp_trans)
    moreover have "fired s' = (new @ [(t, now s - 1, due s t)]) @ fired s" using s'(6) s1(4) by simp
    ultimately show ?thesis using s'(3-5,7,8)
      by (intro exI [of _ "t # ts"] exI [of _ s'] conjI exI [of _ "new @ [(t, now s - 1, due s t)]"]) auto
  qed
qed

lemma time_test:
  assumes "m < 2 ^ 31"
  shows "\<not> sint (of_nat (n + m) - of_nat n :: u32) < 0" "sint (of_nat n - of_nat (Suc n) :: u32) < 0"
proof -
  have "of_nat (n + m) - of_nat n = (of_nat m :: u32)" by simp
  moreover have "unat (of_nat m :: u32) = m" using assms by (simp add: unat_of_nat)
  ultimately show "\<not> sint (of_nat (n + m) - of_nat n :: u32) < 0" using assms by (simp only: sint_negative_iff)
  have "of_nat n - of_nat (Suc n) = (- 1 :: u32)" by simp
  then show "sint (of_nat n - of_nat (Suc n) :: u32) < 0" by simp
qed

text \<open>One turn of the outer loop.\<close>

lemma turn_steps:
  assumes "timer_inv s" "\<forall>t. has_function (base s) t" "work_list (base s) = []"
  shows "\<exists>b ts s' new. start_tick (base s) = Inr b \<and> run_work handler b = Inr (ts, base s') \<and> timer_step\<^sup>*\<^sup>* s s' \<and>
    timer_inv s' \<and> now s' = Suc (now s) \<and> work_list (base s') = [] \<and> (\<forall>t. has_function (base s') t) \<and>
    fired s' = new @ fired s \<and> map (\<lambda>t. (t, timer_jiffies (base s))) ts = rev (map (\<lambda>(t, k, d). (t, of_nat k)) new)"
proof -
  have W: "wheel_inv (now s) (due s) (base s)" using assms(1) by (simp add: timer_inv_def)
  obtain b where b: "start_tick (base s) = Inr b" "\<forall>t. has_function b t" using start_tick_inv [OF W assms(3)] assms(2) by auto
  let ?s = "s\<lparr>base := b, now := Suc (now s)\<rparr>"
  have st: "timer_step s ?s" using assms(3) b(1) by (rule timer_step.tick)
  obtain ts s' new where s': "run_work handler (base ?s) = Inr (ts, base s')" "timer_step\<^sup>*\<^sup>* ?s s'" "now s' = Suc (now s)"
      "work_list (base s') = []" "\<forall>t. has_function (base s') t" "fired s' = new @ fired s" "ts = rev (map fst new)"
      "\<forall>x \<in> set new. fst (snd x) = now s"
    using run_work_steps [of ?s handler] b(2) by auto
  have run: "timer_step\<^sup>*\<^sup>* s s'" using st s'(2) by (rule converse_rtranclp_into_rtranclp)
  have "map (\<lambda>t. (t, timer_jiffies (base s))) ts = rev (map (\<lambda>(t, k, d). (t, of_nat k)) new)"
    using s'(7,8) wheel_invD(1) [OF W] by (auto simp: rev_map)
  then show ?thesis using b(1) s' run timers.run_inv [OF run assms(1)] by auto
qed

lemma run_timers_steps:
  assumes "timer_inv s" "\<forall>t. has_function (base s) t" "work_list (base s) = []" "m < 2 ^ 31"
  shows "\<exists>log s'. run_timers (of_nat (now s + m)) handler (base s) = Inr (log, base s') \<and> timer_step\<^sup>*\<^sup>* s s' \<and>
    now s' = now s + m + 1 \<and> work_list (base s') = [] \<and>
    (\<exists>new. fired s' = new @ fired s \<and> log = rev (map (\<lambda>(t, k, d). (t, of_nat k)) new))"
  using assms
proof (induction m arbitrary: s)
  case (0 s)
  let ?j = "of_nat (now s) :: u32"
  obtain b ts s' new where T: "start_tick (base s) = Inr b" "run_work handler b = Inr (ts, base s')" "timer_step\<^sup>*\<^sup>* s s'"
      "timer_inv s'" "now s' = Suc (now s)" "work_list (base s') = []" "fired s' = new @ fired s"
      "map (\<lambda>t. (t, timer_jiffies (base s))) ts = rev (map (\<lambda>(t, k, d). (t, of_nat k)) new)"
    using turn_steps [OF "0.prems"(1-3), of handler] by blast
  have J: "timer_jiffies (base s) = ?j" "timer_jiffies (base s') = of_nat (Suc (now s))"
    using "0.prems"(1) T(4,5) wheel_invD(1) by (auto simp: timer_inv_def)
  have "run_timers ?j handler (base s') = Inr ([], base s')"
    using time_test(2) [of 0 "now s"] by (simp only: run_timers.simps [of ?j handler "base s'"] J) simp
  then have "run_timers ?j handler (base s) = Inr (map (\<lambda>t. (t, timer_jiffies (base s))) ts, base s')"
    using T(1,2) J(1) by (simp add: run_timers.simps [of ?j handler "base s"])
  then show ?case using T by auto
next
  case (Suc m s)
  let ?j = "of_nat (now s + Suc m) :: u32"
  obtain b ts s' new where T: "start_tick (base s) = Inr b" "run_work handler b = Inr (ts, base s')" "timer_step\<^sup>*\<^sup>* s s'"
      "timer_inv s'" "now s' = Suc (now s)" "work_list (base s') = []" "\<forall>t. has_function (base s') t" "fired s' = new @ fired s"
      "map (\<lambda>t. (t, timer_jiffies (base s))) ts = rev (map (\<lambda>(t, k, d). (t, of_nat k)) new)"
    using turn_steps [OF Suc.prems(1-3), of handler] by blast
  have J: "timer_jiffies (base s) = of_nat (now s)" using Suc.prems(1) wheel_invD(1) by (auto simp: timer_inv_def)
  have j: "?j = of_nat (now s' + m)" using T(5) by simp
  obtain log s2 new2 where R: "run_timers ?j handler (base s') = Inr (log, base s2)" "timer_step\<^sup>*\<^sup>* s' s2"
      "now s2 = now s' + m + 1" "work_list (base s2) = []" "fired s2 = new2 @ fired s'"
      "log = rev (map (\<lambda>(t, k, d). (t, of_nat k)) new2)"
    using Suc.IH [OF T(4,7,6)] Suc.prems(4) unfolding j by auto
  have "run_timers ?j handler (base s) = Inr (map (\<lambda>t. (t, timer_jiffies (base s))) ts @ log, base s2)"
    using T(1,2) R(1) time_test(1) [OF Suc.prems(4), of "now s"] J
    by (subst run_timers.simps) (simp del: of_nat_add of_nat_Suc)
  moreover have "timer_step\<^sup>*\<^sup>* s s2" using T(3) R(2) by (rule rtranclp_trans)
  moreover have "fired s2 = (new2 @ new) @ fired s" using R(5) T(8) by simp
  moreover have "map (\<lambda>t. (t, timer_jiffies (base s))) ts @ log = rev (map (\<lambda>(t, k, d). (t, of_nat k)) (new2 @ new))"
    using R(6) T(9) by simp
  ultimately show ?case using R(3,4) T(5) by (intro exI conjI) (assumption | simp)+
qed

text \<open>C7. Timers fire on time: in every state that the system reaches, each call of a timer function was
  made at the tick at which the timer was due (the expiry it was set to, or the next tick when
  that expiry had passed), and no pending timer is overdue: it is due at a coming tick, or was due at the
  last tick and is about to be called.\<close>

theorem timers_fire_on_time:
  assumes "timer_init s" "timer_step\<^sup>*\<^sup>* s s'"
  shows "(\<forall>(t, k, d) \<in> set (fired s'). k = d) \<and>
    (\<forall>t. pending (base s') t \<longrightarrow> now s' \<le> due s' t \<or> t \<in> set (work_list (base s')) \<and> Suc (due s' t) = now s')"
proof -
  have inv: "timer_inv s'" using timers.reachable_inv [OF assms] .
  then have W: "wheel_inv (now s') (due s') (base s')" by (simp add: timer_inv_def)
  have "now s' \<le> due s' t" if "t \<in> set (vec (base s') k i)" for t k i
    using wheel_invD(4) [OF W that] group_le [of k "due s' t"] by (simp add: placed_def)
  then have "now s' \<le> due s' t \<or> t \<in> set (work_list (base s')) \<and> Suc (due s' t) = now s'" if "pending (base s') t" for t
    using wheel_invD(10) [OF W that] wheel_invD(9) [OF W, of t] by metis
  then show ?thesis using inv by (simp add: timer_inv_def)
qed

text \<open>A run at the tick at which the 32-bit counter wraps around: timer 7 is set, the tick passes and the
  function of the timer is called.\<close>

definition ex_tm0 :: timer_sys where
  "ex_tm0 = \<lparr>now = 4294967295, due = (\<lambda>_. 0), base = init_timers_cpu 4294967295 (\<lambda>_. 0) (\<lambda>_. True), fired = []\<rparr>"

definition ex_tm1 :: timer_sys where
  "ex_tm1 = ex_tm0\<lparr>base := start_timer 7 4294967295 (base ex_tm0), due := (\<lambda>_. 0)(7 := 4294967295)\<rparr>"

definition ex_tm2 :: timer_sys where
  "ex_tm2 = ex_tm1\<lparr>base := \<lparr>timer_jiffies = 0, vec = (\<lambda>_ _. []), work_list = [7], expires = (\<lambda>_. 0)(7 := 4294967295),
     pending = (\<lambda>_. False)(7 := True), has_function = (\<lambda>_. True)\<rparr>, now := 4294967296\<rparr>"

definition ex_tm3 :: timer_sys where
  "ex_tm3 = ex_tm2\<lparr>base := take_timer 7 (base ex_tm2), fired := [(7, 4294967295, 4294967295)]\<rparr>"

lemma ex_tm0_init: "timer_init ex_tm0"
  by (auto simp: timer_init_def ex_tm0_def)

lemma ex_tm1_base:
  "base ex_tm1 = \<lparr>timer_jiffies = 4294967295, vec = (\<lambda>_ _. [])(0 := (\<lambda>_. [])(255 := [7])), work_list = [],
     expires = (\<lambda>_. 0)(7 := 4294967295), pending = (\<lambda>_. False)(7 := True), has_function = (\<lambda>_. True)\<rparr>"
  by (simp add: ex_tm1_def ex_tm0_def start_timer_def init_timers_cpu_def internal_add_timer_def timer_slot_def set_slot_def Let_def)

lemma ex_tm1_reached: "timer_step\<^sup>*\<^sup>* ex_tm0 ex_tm1"
proof -
  have "timer_exec (U_mod 7 4294967295) (base ex_tm0) = Inr (start_timer 7 4294967295 (base ex_tm0))"
    using u_mod_timer_eq [of "base ex_tm0" 7 4294967295] by (simp add: ex_tm0_def init_timers_cpu_def)
  moreover have "redue (now ex_tm0) (U_mod 7 4294967295) (base ex_tm0) (due ex_tm0) = (\<lambda>_. 0)(7 := 4294967295)"
    by (simp add: ex_tm0_def due_at_def)
  ultimately show ?thesis using timer_step.op [of "U_mod 7 4294967295" ex_tm0] by (auto simp: ex_tm1_def)
qed

lemma ex_tm3_reached: "timer_step\<^sup>*\<^sup>* ex_tm0 ex_tm3"
proof -
  have "start_tick (base ex_tm1) = Inr (base ex_tm2)"
    by (simp add: start_tick_def run_cascades_def ex_tm1_base ex_tm2_def set_slot_def Let_def fun_eq_iff)
  then have "timer_step ex_tm1 ex_tm2"
    using timer_step.tick [of ex_tm1 "base ex_tm2"] ex_tm1_base by (simp add: ex_tm2_def ex_tm1_def ex_tm0_def)
  moreover have "timer_step ex_tm2 ex_tm3"
    using timer_step.fire [of ex_tm2 7 "[]"] by (simp add: ex_tm3_def ex_tm2_def ex_tm1_def ex_tm0_def)
  ultimately show ?thesis using ex_tm1_reached by (meson rtranclp.rtrancl_into_rtrancl)
qed

theorem timers_fire_on_time_witness:
  "\<exists>k. fired ex_tm3 = [(7, k, k)] \<and> now ex_tm1 \<le> due ex_tm1 7"
  using timers_fire_on_time [OF ex_tm0_init ex_tm3_reached] timers_fire_on_time [OF ex_tm0_init ex_tm1_reached]
  by (auto simp: ex_tm3_def ex_tm1_base)

text \<open>A tick takes exactly the timers that are due: from every reachable state with no timer left to
  call, cascading ends without an assertion failure and the work list is, without repetition, the pending
  timers that are due at this tick; all timers stay pending.\<close>

lemma tick_takes_the_due_timers:
  assumes "timer_init s0" "timer_step\<^sup>*\<^sup>* s0 s" "work_list (base s) = []"
  shows "\<exists>b. start_tick (base s) = Inr b \<and> distinct (work_list b) \<and>
    set (work_list b) = {t. pending (base s) t \<and> due s t = now s} \<and> pending b = pending (base s)"
proof -
  have "timer_inv s" using assms(1,2) by (rule timers.reachable_inv)
  then show ?thesis using start_tick_inv [of "now s" "due s" "base s"] assms(3) by (auto simp: timer_inv_def lists_distinct_def)
qed

lemma tick_takes_the_due_timers_example:
  "\<exists>b. start_tick (base ex_tm1) = Inr b \<and> distinct (work_list b) \<and> set (work_list b) = {7}"
  using tick_takes_the_due_timers [OF ex_tm0_init ex_tm1_reached]
  by (auto simp: ex_tm1_base) (auto simp: ex_tm1_def ex_tm0_def)

text \<open>C17. \<open>__run_timers\<close> returns: it catches up with \<open>jiffies\<close> in finitely many steps, whatever the timers'
  functions do to timers. Every tick up to \<open>jiffies\<close> has then been handled, no timer is left
  to call, and the calls it made are those of a run of the system, each at the tick at which the timer was due.\<close>

theorem run_timers_completes:
  assumes "timer_init s0" "timer_step\<^sup>*\<^sup>* s0 s" "\<forall>t. has_function (base s) t" "work_list (base s) = []" "m < 2 ^ 31"
  shows "\<exists>log s' new. run_timers (of_nat (now s + m)) handler (base s) = Inr (log, base s') \<and> timer_step\<^sup>*\<^sup>* s s' \<and>
    now s' = now s + m + 1 \<and> work_list (base s') = [] \<and> fired s' = new @ fired s \<and>
    log = rev (map (\<lambda>(t, k, d). (t, of_nat k)) new) \<and> (\<forall>(t, k, d) \<in> set new. k = d)"
proof -
  have inv: "timer_inv s" using assms(1,2) by (rule timers.reachable_inv)
  obtain log s' new where R: "run_timers (of_nat (now s + m)) handler (base s) = Inr (log, base s')" "timer_step\<^sup>*\<^sup>* s s'"
      "now s' = now s + m + 1" "work_list (base s') = []" "fired s' = new @ fired s"
      "log = rev (map (\<lambda>(t, k, d). (t, of_nat k)) new)"
    using run_timers_steps [OF inv assms(3-5)] by blast
  have "timer_inv s'" using timers.run_inv [OF R(2) inv] .
  then have "\<forall>(t, k, d) \<in> set new. k = d" using R(5) by (simp add: timer_inv_def)
  then show ?thesis using R by blast
qed

theorem run_timers_completes_witness:
  "\<exists>log (s' :: timer_sys). run_timers 4 (\<lambda>t b. [Mod t (timer_jiffies b + 2)]) (base ex_tm1) = Inr (log, base s') \<and>
     now s' = 4294967301 \<and> work_list (base s') = []"
proof -
  have j: "of_nat (now ex_tm1 + 5) = (4 :: u32)" and n: "now ex_tm1 = 4294967295" by (simp_all add: ex_tm1_def ex_tm0_def)
  have "\<forall>t. has_function (base ex_tm1) t" "work_list (base ex_tm1) = []" "(5 :: nat) < 2 ^ 31"
    by (simp_all add: ex_tm1_base)
  from run_timers_completes [OF ex_tm0_init ex_tm1_reached this, of "\<lambda>t b. [Mod t (timer_jiffies b + 2)]"]
  obtain log and s' :: timer_sys where R: "run_timers (of_nat (now ex_tm1 + 5)) (\<lambda>t b. [Mod t (timer_jiffies b + 2)]) (base ex_tm1) = Inr (log, base s')"
      "now s' = now ex_tm1 + 5 + 1" "work_list (base s') = []"
    by blast
  have "now s' = 4294967301" using R(2) by (simp add: n)
  then show ?thesis using R(1,3) unfolding j by blast
qed

subsection \<open>\<open>mod_timer\<close> and its description\<close>

text \<open>The comment at \<open>mod_timer\<close> says that it is equivalent to \<open>del_timer\<close>, setting \<open>expires\<close> and
  \<open>add_timer\<close>. It is, except for a pending timer that already has this expiry: then the timer keeps its place,
  and a timer on the work list is still called in this tick, while the three calls move it to the next one.\<close>

lemma mod_timer_as_described:
  assumes "has_function b t" "\<not> (expires b t = e \<and> pending b t)"
  shows "mod_timer t e b = map_sum id (\<lambda>r. (fst (del_timer t b), snd r))
    (let b' = snd (del_timer t b) in add_timer t (b'\<lparr>expires := (expires b')(t := e)\<rparr>))"
  using assms by (auto simp: mod_timer_def add_timer_def u_mod_timer_def del_timer_def list_del_def internal_add_timer_def set_slot_def Let_def)

lemma mod_timer_not_as_described:
  "mod_timer 7 4294967295 (base ex_tm2) = Inr (True, base ex_tm2)"
  "work_list (base ex_tm2) = [7]"
  "\<exists>b. add_timer 7 (snd (del_timer 7 (base ex_tm2))) = Inr (False, b) \<and> work_list b = [] \<and> vec b 0 0 = [7]"
  by (simp_all add: ex_tm2_def mod_timer_def add_timer_def u_mod_timer_def del_timer_def list_del_def internal_add_timer_def
      set_slot_def timer_slot_def Let_def)

end
