(* ===== verification/Page_Alloc.thy ===== *)
theory Page_Alloc
  imports Prelude Bitops "HOL-Library.Signed_Division"
begin

text \<open>
  The page allocator of a zone, \<open>mm/page_alloc.c\<close>: the buddy system with its free lists, the lists of
  single pages in front of it, and the release of the boot memory to it (\<open>mm/bootmem.c\<close>).

  Pages are page frame numbers. \<open>mem_map\<close> is the array of \<open>struct page\<close>, \<open>free_list o\<close> and \<open>nr_free o\<close> are
  \<open>free_area[o]\<close>, and \<open>pageset\<close> has the processor's lists of hot (\<open>False\<close>) and cold (\<open>True\<close>) pages. The
  configuration has neither highmem nor compound pages, and no debugging of page mappings.
\<close>

subsection \<open>Pages and zones\<close>

datatype page_flag = PG_locked | PG_error | PG_referenced | PG_uptodate | PG_dirty | PG_lru | PG_active | PG_slab
  | PG_highmem | PG_checked | PG_arch_1 | PG_reserved | PG_private | PG_writeback | PG_nosave | PG_compound
  | PG_swapcache | PG_mappedtodisk | PG_reclaim | PG_nosave_free | PG_uncached

datatype page_mapping = No_mapping | Anon_mapping | File_mapping

record page =
  flags :: "page_flag set"
  page_count :: int
  page_private :: nat
  mapping :: page_mapping
  page_mapcount :: int

record per_cpu_pages =
  pcp_count :: int
  low :: int
  high :: int
  batch :: int
  pcp_list :: "nat list"

record zone =
  zone_start_pfn :: nat
  spanned_pages :: nat
  in_zone :: "nat \<Rightarrow> bool"
  free_pages :: u32
  free_list :: "nat \<Rightarrow> nat list"
  nr_free :: "nat \<Rightarrow> u32"
  pageset :: "bool \<Rightarrow> per_cpu_pages"
  mem_map :: "nat \<Rightarrow> page"
  lowmem_reserve :: u32
  all_unreclaimable :: bool
  pages_scanned :: u32
  tainted :: bool

abbreviation MAX_ORDER :: nat where "MAX_ORDER \<equiv> 11"

definition bad_range :: "zone \<Rightarrow> nat \<Rightarrow> bool" where
  "bad_range z p \<longleftrightarrow> zone_start_pfn z + spanned_pages z \<le> p \<or> p < zone_start_pfn z \<or> \<not> in_zone z p"

definition upd_page :: "nat \<Rightarrow> (page \<Rightarrow> page) \<Rightarrow> zone \<Rightarrow> zone" where
  "upd_page p f z = z\<lparr>mem_map := (mem_map z)(p := f (mem_map z p))\<rparr>"

text \<open>\<open>bad_page\<close> repairs the state of a page and marks the kernel as tainted.\<close>

definition bad_page :: "nat \<Rightarrow> zone \<Rightarrow> zone" where
  "bad_page p z = (upd_page p (\<lambda>pg. pg\<lparr>flags := flags pg - {PG_private, PG_locked, PG_lru, PG_active, PG_dirty, PG_swapcache, PG_writeback},
     page_count := 0, page_mapcount := 0, mapping := No_mapping\<rparr>) z)\<lparr>tainted := True\<rparr>"

definition set_page_order :: "nat \<Rightarrow> page \<Rightarrow> page" where
  "set_page_order order pg = pg\<lparr>page_private := order, flags := insert PG_private (flags pg)\<rparr>"

definition rmv_page_order :: "page \<Rightarrow> page" where
  "rmv_page_order pg = pg\<lparr>flags := flags pg - {PG_private}, page_private := 0\<rparr>"

definition page_find_buddy :: "nat \<Rightarrow> nat \<Rightarrow> nat \<Rightarrow> nat" where
  "page_find_buddy page page_idx order = page + (page_idx XOR 2 ^ order) - page_idx"

definition find_combined_index :: "nat \<Rightarrow> nat \<Rightarrow> nat" where
  "find_combined_index page_idx order = unset_bit order page_idx"

definition page_is_buddy :: "page \<Rightarrow> nat \<Rightarrow> bool" where
  "page_is_buddy pg order \<longleftrightarrow> PG_private \<in> flags pg \<and> page_private pg = order \<and> PG_reserved \<notin> flags pg \<and> page_count pg = 0"

text \<open>\<open>list_del(&page->lru)\<close> for a page on a free list, and \<open>list_add\<close> to one, with the count.\<close>

definition area_del :: "nat \<Rightarrow> nat \<Rightarrow> zone \<Rightarrow> zone" where
  "area_del p order z = z\<lparr>free_list := (\<lambda>o'. removeAll p (free_list z o')), nr_free := (nr_free z)(order := nr_free z order - 1)\<rparr>"

definition area_add :: "nat \<Rightarrow> nat \<Rightarrow> zone \<Rightarrow> zone" where
  "area_add p order z = z\<lparr>free_list := (free_list z)(order := p # free_list z order),
     nr_free := (nr_free z)(order := nr_free z order + 1)\<rparr>"

subsection \<open>Freeing\<close>

text \<open>The loop of \<open>__free_pages_bulk\<close>: as long as the buddy is free it is taken off its list and joined.\<close>

function free_merge :: "nat \<Rightarrow> nat \<Rightarrow> nat \<Rightarrow> zone \<Rightarrow> nat \<times> nat \<times> zone" where
  "free_merge page page_idx order z =
     (if order < MAX_ORDER - 1 then
        let combined_idx = find_combined_index page_idx order;
            buddy = page_find_buddy page page_idx order
        in if bad_range z buddy then (page, order, z)
           else if \<not> page_is_buddy (mem_map z buddy) order then (page, order, z)
           else free_merge (page + combined_idx - page_idx) combined_idx (Suc order)
                  (upd_page buddy rmv_page_order (area_del buddy order z))
      else (page, order, z))"
  by pat_completeness auto
termination by (relation "measure (\<lambda>(page, page_idx, order, z). MAX_ORDER - order)") auto

declare free_merge.simps [simp del]

definition u_free_pages_bulk :: "nat \<Rightarrow> nat \<Rightarrow> zone \<Rightarrow> zone res" where
  "u_free_pages_bulk page order z =
     (let page_idx = page AND mask MAX_ORDER in
      if page_idx AND mask order \<noteq> 0 then Inl BUG
      else if bad_range z page then Inl BUG
      else
        let z = z\<lparr>free_pages := free_pages z + 2 ^ order\<rparr>;
            (page, order, z) = free_merge page page_idx order z
        in Inr (area_add page order (upd_page page (set_page_order order) z)))"

definition free_pages_check :: "nat \<Rightarrow> zone \<Rightarrow> zone" where
  "free_pages_check p z =
     (let pg = mem_map z p;
          z = (if page_mapcount pg \<noteq> 0 \<or> mapping pg \<noteq> No_mapping \<or> page_count pg \<noteq> 0 \<or>
                  flags pg \<inter> {PG_lru, PG_private, PG_locked, PG_active, PG_reclaim, PG_slab, PG_swapcache, PG_writeback} \<noteq> {}
               then bad_page p z else z)
      in upd_page p (\<lambda>pg. pg\<lparr>flags := flags pg - {PG_dirty}\<rparr>) z)"

text \<open>The loop of \<open>free_pages_bulk\<close>, from the end of the list. The result is the number of blocks freed, and what is left
  of the list.\<close>

function free_bulk_loop :: "int \<Rightarrow> nat list \<Rightarrow> nat \<Rightarrow> zone \<Rightarrow> (int \<times> nat list \<times> zone) res" where
  "free_bulk_loop cnt list order z =
     (if list \<noteq> [] \<and> cnt \<noteq> 0 then
        bind_res (u_free_pages_bulk (last list) order z) (\<lambda>z.
          bind_res (free_bulk_loop (cnt - 1) (butlast list) order z) (\<lambda>(ret, list, z). Inr (ret + 1, list, z)))
      else Inr (0, list, z))"
  by pat_completeness auto
termination by (relation "measure (\<lambda>(cnt, list, order, z). length list)") auto

declare free_bulk_loop.simps [simp del]

definition free_pages_bulk :: "int \<Rightarrow> nat list \<Rightarrow> nat \<Rightarrow> zone \<Rightarrow> (int \<times> nat list \<times> zone) res" where
  "free_pages_bulk cnt list order z = free_bulk_loop cnt list order (z\<lparr>all_unreclaimable := False, pages_scanned := 0\<rparr>)"

definition u_free_pages_ok :: "nat \<Rightarrow> nat \<Rightarrow> zone \<Rightarrow> zone res" where
  "u_free_pages_ok p order z =
     map_sum id (\<lambda>(ret, list, z). z) (free_pages_bulk 1 [p] order (fold (\<lambda>i. free_pages_check (p + i)) [0..<2 ^ order] z))"

definition free_hot_cold_page :: "nat \<Rightarrow> bool \<Rightarrow> zone \<Rightarrow> zone res" where
  "free_hot_cold_page p cold z =
     (let z = upd_page p (\<lambda>pg. if mapping pg = Anon_mapping then pg\<lparr>mapping := No_mapping\<rparr> else pg) z;
          z = free_pages_check p z;
          pcp = pageset z cold
      in bind_res
           (if high pcp \<le> pcp_count pcp
            then map_sum id (\<lambda>(ret, list, z). (pcp\<lparr>pcp_count := pcp_count pcp - ret, pcp_list := list\<rparr>, z))
                   (free_pages_bulk (batch pcp) (pcp_list pcp) 0 z)
            else Inr (pcp, z))
           (\<lambda>(pcp, z). Inr (z\<lparr>pageset := (pageset z)(cold := pcp\<lparr>pcp_list := p # pcp_list pcp, pcp_count := pcp_count pcp + 1\<rparr>)\<rparr>)))"

text \<open>\<open>__free_pages\<close> drops a reference, and frees the block with the last one.\<close>

definition u_free_pages :: "nat \<Rightarrow> nat \<Rightarrow> zone \<Rightarrow> zone res" where
  "u_free_pages p order z =
     (if PG_reserved \<in> flags (mem_map z p) then Inr z
      else if page_count (mem_map z p) = 0 then Inl BUG
      else
        let z = upd_page p (\<lambda>pg. pg\<lparr>page_count := page_count pg - 1\<rparr>) z in
        if page_count (mem_map z p) = 0
        then (if order = 0 then free_hot_cold_page p False z else u_free_pages_ok p order z)
        else Inr z)"

subsection \<open>Allocating\<close>

text \<open>\<open>expand\<close> gives the upper halves of a block back until it has the wanted order.\<close>

fun expand :: "nat \<Rightarrow> nat \<Rightarrow> nat \<Rightarrow> zone \<Rightarrow> zone res" where
  "expand p lo 0 z = Inr z"
| "expand p lo (Suc hi) z =
     (if lo < Suc hi then
        let size = 2 ^ hi in
        if bad_range z (p + size) then Inl BUG
        else expand p lo hi (upd_page (p + size) (set_page_order hi) (area_add (p + size) hi z))
      else Inr z)"

function rmqueue_scan :: "nat \<Rightarrow> nat \<Rightarrow> zone \<Rightarrow> (nat option \<times> zone) res" where
  "rmqueue_scan order current_order z =
     (if current_order < MAX_ORDER then
        case free_list z current_order of
          [] \<Rightarrow> rmqueue_scan order (Suc current_order) z
        | p # _ \<Rightarrow>
            let z = upd_page p rmv_page_order (area_del p current_order z);
                z = z\<lparr>free_pages := free_pages z - 2 ^ order\<rparr>
            in map_sum id (\<lambda>z. (Some p, z)) (expand p order current_order z)
      else Inr (None, z))"
  by pat_completeness auto
termination by (relation "measure (\<lambda>(order, current_order, z). MAX_ORDER - current_order)") auto

declare rmqueue_scan.simps [simp del]

definition u_rmqueue :: "nat \<Rightarrow> zone \<Rightarrow> (nat option \<times> zone) res" where
  "u_rmqueue order z = rmqueue_scan order order z"

text \<open>\<open>rmqueue_bulk\<close> appends up to \<open>count\<close> blocks to a list.\<close>

fun rmqueue_bulk :: "nat \<Rightarrow> nat \<Rightarrow> nat list \<Rightarrow> zone \<Rightarrow> (int \<times> nat list \<times> zone) res" where
  "rmqueue_bulk order 0 list z = Inr (0, list, z)"
| "rmqueue_bulk order (Suc cnt) list z =
     bind_res (u_rmqueue order z) (\<lambda>(r, z).
       case r of
         None \<Rightarrow> Inr (0, list, z)
       | Some p \<Rightarrow> bind_res (rmqueue_bulk order cnt (list @ [p]) z) (\<lambda>(allocated, list, z). Inr (allocated + 1, list, z)))"

definition set_page_refs :: "nat \<Rightarrow> zone \<Rightarrow> zone" where
  "set_page_refs p z = upd_page p (\<lambda>pg. pg\<lparr>page_count := 1\<rparr>) z"

definition prep_new_page :: "nat \<Rightarrow> zone \<Rightarrow> zone" where
  "prep_new_page p z =
     (let pg = mem_map z p;
          z = (if mapping pg \<noteq> No_mapping \<or> page_mapcount pg \<noteq> 0 \<or>
                  flags pg \<inter> {PG_private, PG_locked, PG_lru, PG_active, PG_dirty, PG_reclaim, PG_swapcache, PG_writeback} \<noteq> {}
               then bad_page p z else z);
          z = upd_page p (\<lambda>pg. pg\<lparr>flags := flags pg - {PG_uptodate, PG_error, PG_referenced, PG_arch_1, PG_checked, PG_mappedtodisk},
                page_private := 0\<rparr>) z
      in set_page_refs p z)"

datatype gfp = GFP_WAIT | GFP_HIGHMEM | GFP_COLD | GFP_ZERO | GFP_COMP

text \<open>\<open>prep_zero_page\<close> clears the contents of the pages, which are not part of the model.\<close>

definition prep_zero_page :: "gfp set \<Rightarrow> zone \<Rightarrow> zone res" where
  "prep_zero_page gfp_flags z = (if gfp_flags \<inter> {GFP_WAIT, GFP_HIGHMEM} = {GFP_HIGHMEM} then Inl BUG else Inr z)"

definition buffered_rmqueue :: "nat \<Rightarrow> gfp set \<Rightarrow> zone \<Rightarrow> (nat option \<times> zone) res" where
  "buffered_rmqueue order gfp_flags z =
     (let cold = (GFP_COLD \<in> gfp_flags) in
      bind_res
        (if order = 0 then
           bind_res
             (if pcp_count (pageset z cold) \<le> low (pageset z cold)
              then map_sum id (\<lambda>(allocated, list, z). z\<lparr>pageset := (pageset z)(cold := (pageset z cold)
                       \<lparr>pcp_count := pcp_count (pageset z cold) + allocated, pcp_list := list\<rparr>)\<rparr>)
                     (rmqueue_bulk 0 (nat (batch (pageset z cold))) (pcp_list (pageset z cold)) z)
              else Inr z)
             (\<lambda>z. if pcp_count (pageset z cold) \<noteq> 0 then
                    case pcp_list (pageset z cold) of
                      [] \<Rightarrow> Inl NullPointer
                    | p # list \<Rightarrow> Inr (Some p, z\<lparr>pageset := (pageset z)(cold := (pageset z cold)
                        \<lparr>pcp_list := list, pcp_count := pcp_count (pageset z cold) - 1\<rparr>)\<rparr>)
                  else Inr (None, z))
         else Inr (None, z))
        (\<lambda>(page, z).
           bind_res (case page of None \<Rightarrow> u_rmqueue order z | Some p \<Rightarrow> Inr (Some p, z)) (\<lambda>(page, z).
             case page of
               None \<Rightarrow> Inr (None, z)
             | Some p \<Rightarrow>
                 if bad_range z p then Inl BUG
                 else
                   let z = prep_new_page p z in
                   map_sum id (\<lambda>z. (Some p, z)) (if GFP_ZERO \<in> gfp_flags then prep_zero_page gfp_flags z else Inr z))))"

text \<open>\<open>zone_watermark_ok\<close>: \<open>min\<close> and \<open>free_pages\<close> are signed, but \<open>lowmem_reserve\<close> is unsigned and makes the first
  comparison an unsigned one.\<close>

function watermark_loop :: "zone \<Rightarrow> nat \<Rightarrow> nat \<Rightarrow> int \<Rightarrow> u32 \<Rightarrow> bool" where
  "watermark_loop z order o' mn fp =
     (if o' < order then
        let fp = fp - push_bit o' (nr_free z o');
            mn = mn div 2
        in if sint fp \<le> mn then False else watermark_loop z order (Suc o') mn fp
      else True)"
  by pat_completeness auto
termination by (relation "measure (\<lambda>(z, order, o', mn, fp). order - o')") auto

declare watermark_loop.simps [simp del]

definition zone_watermark_ok :: "zone \<Rightarrow> nat \<Rightarrow> u32 \<Rightarrow> bool \<Rightarrow> bool \<Rightarrow> bool" where
  "zone_watermark_ok z order mark can_try_harder gfp_high =
     (let mn = sint mark;
          fp = free_pages z - 2 ^ order + 1;
          mn = (if gfp_high then mn - mn sdiv 2 else mn);
          mn = (if can_try_harder then mn - mn sdiv 4 else mn)
      in if fp \<le> word_of_int mn + lowmem_reserve z then False else watermark_loop z order 0 mn fp)"

subsection \<open>The start\<close>

definition pcp_batch :: "u32 \<Rightarrow> u32" where
  "pcp_batch present =
     (let batch = present div 1024;
          batch = (if batch * 4096 > 256 * 1024 then 256 * 1024 div 4096 else batch);
          batch = batch div 4;
          batch = (if batch < 1 then 1 else batch)
      in 2 ^ nat (generic_fls (batch + batch div 2)) - 1)"

text \<open>\<open>mem_map\<close> is zeroed memory before \<open>memmap_init_zone\<close>, which reserves every page.\<close>

definition memmap_init_zone :: "nat \<Rightarrow> page" where
  "memmap_init_zone p = \<lparr>flags = {PG_reserved}, page_count = 0, page_private = 0, mapping = No_mapping, page_mapcount = 0\<rparr>"

definition zone_init_free_lists :: "zone \<Rightarrow> zone" where
  "zone_init_free_lists z = z\<lparr>free_list := (\<lambda>order. []), nr_free := (\<lambda>order. 0)\<rparr>"

definition free_area_init :: "nat \<Rightarrow> nat \<Rightarrow> u32 \<Rightarrow> zone" where
  "free_area_init start pages reserve =
     (let b = uint (pcp_batch (of_nat pages)) in
      zone_init_free_lists
      \<lparr>zone_start_pfn = start, spanned_pages = pages, in_zone = (\<lambda>p. start \<le> p \<and> p < start + pages), free_pages = 0,
       free_list = (\<lambda>order. []), nr_free = (\<lambda>order. 0),
       pageset = (\<lambda>cold. if cold then \<lparr>pcp_count = 0, low = 0, high = 2 * b, batch = b, pcp_list = []\<rparr>
                         else \<lparr>pcp_count = 0, low = 2 * b, high = 6 * b, batch = b, pcp_list = []\<rparr>),
       mem_map = memmap_init_zone, lowmem_reserve = reserve, all_unreclaimable = False, pages_scanned = 0, tainted = False\<rparr>)"

lemmas init_defs = free_area_init_def zone_init_free_lists_def memmap_init_zone_def

text \<open>The release of a free block of the boot memory allocator, in \<open>free_all_bootmem_core\<close>.\<close>

definition release_bootmem :: "nat \<Rightarrow> nat \<Rightarrow> zone \<Rightarrow> zone res" where
  "release_bootmem p order z =
     u_free_pages p order (set_page_refs p
       (fold (\<lambda>i. upd_page (p + i) (\<lambda>pg. pg\<lparr>flags := flags pg - {PG_reserved}\<rparr>)) [0..<2 ^ order] z))"

subsection \<open>Blocks and buddies\<close>

text \<open>The pages of a block, and of all blocks on the free lists.\<close>

definition blk :: "nat \<Rightarrow> nat \<Rightarrow> nat multiset" where
  "blk p o' = mset_set {p..<p + 2 ^ o'}"

definition free_mset :: "zone \<Rightarrow> nat multiset" where
  "free_mset z = (\<Sum>o' < MAX_ORDER. \<Sum>p \<in># mset (free_list z o'). blk p o')"

abbreviation buddy :: "nat \<Rightarrow> nat \<Rightarrow> nat" where
  "buddy p o' \<equiv> p XOR 2 ^ o'"

lemma in_blk [simp]: "q \<in># blk p o' \<longleftrightarrow> p \<le> q \<and> q < p + 2 ^ o'"
  by (simp add: blk_def)

lemma count_blk: "count (blk p o') q = (if p \<le> q \<and> q < p + 2 ^ o' then 1 else 0)"
  by (simp add: blk_def count_mset_set')

lemma size_blk [simp]: "size (blk p o') = 2 ^ o'"
  by (simp add: blk_def)

lemma blk_split: "blk p (Suc o') = blk p o' + blk (p + 2 ^ o') o'"
  by (rule multiset_eqI) (auto simp: count_blk)

lemma bit_le: "bit p o' \<Longrightarrow> 2 ^ o' \<le> p" for p :: nat
  by (metis bit_iff_odd div_greater_zero_iff odd_pos)

lemma unset_bit_bit: "unset_bit o' p = (if bit p o' then p - 2 ^ o' else p)" for p :: nat
proof -
  have "int (unset_bit o' p) = int p - (if bit p o' then 2 ^ o' else 0)"
    by (simp add: of_nat_unset_bit_eq unset_bit_eq bit_of_nat_iff)
  also have "\<dots> = int (if bit p o' then p - 2 ^ o' else p)" using bit_le [of p o'] by (simp add: of_nat_diff)
  finally show ?thesis by (simp only: of_nat_eq_iff)
qed

lemma unset_bit_nat: "unset_bit o' p = (if even (p div 2 ^ o') then p else p - 2 ^ o')" for p :: nat
  by (simp add: unset_bit_bit bit_iff_odd)

lemma buddy_bit: "buddy p o' = (if bit p o' then p - 2 ^ o' else p + 2 ^ o')"
proof -
  have "buddy p o' = flip_bit o' p" by (simp add: flip_bit_eq_xor)
  then show ?thesis by (simp add: flip_bit_eq_if set_bit_eq unset_bit_bit)
qed

lemma buddy_eq: "buddy p o' = (if even (p div 2 ^ o') then p + 2 ^ o' else p - 2 ^ o')"
  by (simp add: buddy_bit bit_iff_odd)

lemma buddy_buddy [simp]: "buddy (buddy p o') o' = p"
  by (simp add: xor.assoc)

lemma buddy_neq [simp]: "buddy p o' \<noteq> p"
proof (cases "bit p o'")
  case True
  have "0 < p" using True by (cases p) simp_all
  then have "p - 2 ^ o' < p" by (intro diff_less) simp_all
  then show ?thesis using True by (simp add: buddy_bit)
qed (simp add: buddy_bit)

text \<open>The two halves of the block of the next order.\<close>

lemma buddy_pair:
  assumes "2 ^ o' dvd p"
  shows "blk p o' + blk (buddy p o') o' = blk (unset_bit o' p) (Suc o')" "2 ^ Suc o' dvd unset_bit o' p"
proof -
  obtain c where c: "p = 2 ^ o' * c" using assms by blast
  then have d: "p div 2 ^ o' = c" by simp
  have "p - 2 ^ o' + 2 ^ o' = p" if "odd c" using that c by (cases c) auto
  then show "blk p o' + blk (buddy p o') o' = blk (unset_bit o' p) (Suc o')"
    by (simp add: buddy_eq unset_bit_nat d blk_split add.commute)
  show "2 ^ Suc o' dvd unset_bit o' p"
  proof (cases "even c")
    case True
    then show ?thesis by (auto simp: unset_bit_nat d c elim!: evenE)
  next
    case False
    then obtain e where "c = Suc (2 * e)" by (auto elim: oddE)
    then show ?thesis by (simp add: unset_bit_nat d c)
  qed
qed

lemma find_buddy_eq:
  assumes "o' < MAX_ORDER" "2 ^ o' dvd p"
  shows "page_find_buddy p (p AND mask MAX_ORDER) o' = buddy p o'"
    "p + find_combined_index (p AND mask MAX_ORDER) o' - (p AND mask MAX_ORDER) = unset_bit o' p"
    "find_combined_index (p AND mask MAX_ORDER) o' = unset_bit o' p AND mask MAX_ORDER"
proof -
  let ?i = "p AND mask MAX_ORDER"
  have b: "bit ?i o' \<longleftrightarrow> bit p o'" using assms(1) by (simp add: bit_simps)
  have le: "?i \<le> p" by (simp add: take_bit_eq_mask [symmetric])
  show "page_find_buddy p ?i o' = buddy p o'"
    using le bit_le [of ?i o'] b unfolding page_find_buddy_def buddy_bit by auto
  show "p + find_combined_index ?i o' - ?i = unset_bit o' p"
    using le bit_le [of ?i o'] b unfolding find_combined_index_def unset_bit_bit by auto
  show "find_combined_index ?i o' = unset_bit o' p AND mask MAX_ORDER"
    unfolding find_combined_index_def by (rule bit_eqI) (auto simp: bit_simps)
qed

subsection \<open>The free lists\<close>

text \<open>The invariant of the free lists, while the pages \<open>B\<close> are neither on a list nor in use: a page is on the list of
  an order exactly when it is marked so in its \<open>struct page\<close>, no page is on two lists or in two blocks, and no two
  buddies of the same order are free.\<close>

definition lists_ok :: "zone \<Rightarrow> nat multiset \<Rightarrow> bool" where
  "lists_ok z B \<longleftrightarrow>
     (\<forall>o'. distinct (free_list z o') \<and> nr_free z o' = of_nat (length (free_list z o'))) \<and>
     (\<forall>o'. MAX_ORDER \<le> o' \<longrightarrow> free_list z o' = []) \<and>
     (\<forall>p o'. p \<in> set (free_list z o') \<longrightarrow> 2 ^ o' dvd p) \<and>
     (\<forall>q \<in># free_mset z + B. \<not> bad_range z q \<and> page_count (mem_map z q) = 0 \<and> PG_reserved \<notin> flags (mem_map z q)) \<and>
     (\<forall>p o'. o' < MAX_ORDER \<longrightarrow> \<not> bad_range z p \<longrightarrow> p \<in> set (free_list z o') \<longleftrightarrow> page_is_buddy (mem_map z p) o') \<and>
     (\<forall>q. count (free_mset z + B) q \<le> 1) \<and>
     (\<forall>p o'. o' < MAX_ORDER - 1 \<longrightarrow> p \<in> set (free_list z o') \<longrightarrow> buddy p o' \<notin> set (free_list z o'))"

lemma lists_okD:
  assumes "lists_ok z B"
  shows "distinct (free_list z o')" "nr_free z o' = of_nat (length (free_list z o'))"
    "MAX_ORDER \<le> o' \<Longrightarrow> free_list z o' = []" "p \<in> set (free_list z o') \<Longrightarrow> 2 ^ o' dvd p"
    "q \<in># free_mset z + B \<Longrightarrow> \<not> bad_range z q" "q \<in># free_mset z + B \<Longrightarrow> page_count (mem_map z q) = 0"
    "q \<in># free_mset z + B \<Longrightarrow> PG_reserved \<notin> flags (mem_map z q)"
    "o' < MAX_ORDER \<Longrightarrow> \<not> bad_range z p \<Longrightarrow> p \<in> set (free_list z o') \<longleftrightarrow> page_is_buddy (mem_map z p) o'"
    "count (free_mset z + B) q \<le> 1"
    "o' < MAX_ORDER - 1 \<Longrightarrow> p \<in> set (free_list z o') \<Longrightarrow> buddy p o' \<notin> set (free_list z o')"
  using assms unfolding lists_ok_def by blast+

lemma lists_okI:
  assumes "\<And>o'. distinct (free_list z o')" "\<And>o'. nr_free z o' = of_nat (length (free_list z o'))"
    "\<And>o'. MAX_ORDER \<le> o' \<Longrightarrow> free_list z o' = []" "\<And>p o'. p \<in> set (free_list z o') \<Longrightarrow> 2 ^ o' dvd p"
    "\<And>q. q \<in># free_mset z + B \<Longrightarrow> \<not> bad_range z q \<and> page_count (mem_map z q) = 0 \<and> PG_reserved \<notin> flags (mem_map z q)"
    "\<And>p o'. o' < MAX_ORDER \<Longrightarrow> \<not> bad_range z p \<Longrightarrow> p \<in> set (free_list z o') \<longleftrightarrow> page_is_buddy (mem_map z p) o'"
    "\<And>q. count (free_mset z + B) q \<le> 1"
    "\<And>p o'. o' < MAX_ORDER - 1 \<Longrightarrow> p \<in> set (free_list z o') \<Longrightarrow> buddy p o' \<notin> set (free_list z o')"
  shows "lists_ok z B"
  unfolding lists_ok_def using assms by blast

lemma upd_page_sel [simp]:
  "free_list (upd_page p f z) = free_list z" "nr_free (upd_page p f z) = nr_free z" "free_pages (upd_page p f z) = free_pages z"
  "pageset (upd_page p f z) = pageset z" "bad_range (upd_page p f z) = bad_range z" "free_mset (upd_page p f z) = free_mset z"
  "mem_map (upd_page p f z) = (mem_map z)(p := f (mem_map z p))"
  by (simp_all add: upd_page_def fun_eq_iff bad_range_def free_mset_def)

lemma area_add_sel [simp]:
  "free_list (area_add p o' z) = (free_list z)(o' := p # free_list z o')" "nr_free (area_add p o' z) = (nr_free z)(o' := nr_free z o' + 1)"
  "free_pages (area_add p o' z) = free_pages z" "pageset (area_add p o' z) = pageset z" "bad_range (area_add p o' z) = bad_range z"
  "mem_map (area_add p o' z) = mem_map z"
  by (simp_all add: area_add_def fun_eq_iff bad_range_def)

lemma area_del_sel [simp]:
  "free_list (area_del p o' z) o1 = removeAll p (free_list z o1)" "nr_free (area_del p o' z) = (nr_free z)(o' := nr_free z o' - 1)"
  "free_pages (area_del p o' z) = free_pages z" "pageset (area_del p o' z) = pageset z" "bad_range (area_del p o' z) = bad_range z"
  "mem_map (area_del p o' z) = mem_map z"
  by (simp_all add: area_del_def fun_eq_iff bad_range_def)

lemma free_mset_add: "o' < MAX_ORDER \<Longrightarrow> free_mset (area_add p o' z) = free_mset z + blk p o'"
  by (simp add: free_mset_def sum.remove [of _ o'] add_ac)

lemma free_mset_del:
  assumes "o' < MAX_ORDER" "p \<in> set (free_list z o')" "distinct (free_list z o')" "\<And>o1. o1 \<noteq> o' \<Longrightarrow> p \<notin> set (free_list z o1)"
  shows "free_mset (area_del p o' z) + blk p o' = free_mset z"
proof -
  have a: "removeAll p (free_list z o1) = free_list z o1" if "o1 \<noteq> o'" for o1 using assms(4) [OF that] by simp
  have b: "mset (free_list z o') = add_mset p (mset (removeAll p (free_list z o')))"
    using assms(2,3) by (simp add: distinct_remove1_removeAll [symmetric])
  have "(\<Sum>p \<in># mset (free_list z o'). blk p o') = blk p o' + (\<Sum>p \<in># mset (removeAll p (free_list z o')). blk p o')"
    by (subst b) simp
  then show ?thesis using assms(1) a by (simp add: free_mset_def sum.remove [of _ o'] add_ac)
qed

lemma in_free_mset: "q \<in># free_mset z \<longleftrightarrow> (\<exists>o' < MAX_ORDER. \<exists>p \<in> set (free_list z o'). p \<le> q \<and> q < p + 2 ^ o')"
  by (auto simp: free_mset_def set_mset_sum)

lemma head_free:
  assumes "lists_ok z B" "p \<in> set (free_list z o')"
  shows "o' < MAX_ORDER \<and> p \<in># free_mset z"
proof -
  have o': "o' < MAX_ORDER" using lists_okD(3) [OF assms(1), of o'] assms(2) by (metis empty_iff empty_set not_le)
  moreover have "p \<le> p \<and> p < p + 2 ^ o'" by simp
  ultimately show ?thesis using assms(2) unfolding in_free_mset by blast
qed

text \<open>A floating block is put on its list.\<close>

lemma area_put:
  assumes ok: "lists_ok z (blk p o' + B)" and o': "o' < MAX_ORDER" and al: "2 ^ o' dvd p"
    and nb: "o' < MAX_ORDER - 1 \<Longrightarrow> buddy p o' \<notin> set (free_list z o')"
  shows "lists_ok (area_add p o' (upd_page p (set_page_order o') z)) B"
proof -
  note I = lists_okD [OF ok]
  let ?z = "area_add p o' (upd_page p (set_page_order o') z)"
  have M: "free_mset ?z + B = free_mset z + (blk p o' + B)" using o' by (simp add: free_mset_add)
  have out: "p \<notin> set (free_list z o1)" for o1
  proof
    assume "p \<in> set (free_list z o1)"
    then have "p \<in># free_mset z" using head_free [OF ok] by blast
    moreover have "count (blk p o') p = 1" by (simp add: count_blk)
    ultimately show False using I(9) [of p] by (simp flip: count_greater_zero_iff)
  qed
  have pq: "p \<in># free_mset z + (blk p o' + B)" by simp
  show ?thesis
  proof (rule lists_okI)
    show "distinct (free_list ?z o1)" for o1 using I(1) out by simp
    show "nr_free ?z o1 = of_nat (length (free_list ?z o1))" for o1 using I(2) by (simp add: add.commute)
    show "free_list ?z o1 = []" if "MAX_ORDER \<le> o1" for o1 using I(3) that o' by auto
    show "2 ^ o1 dvd q" if "q \<in> set (free_list ?z o1)" for q o1 using I(4) that al by (auto split: if_splits)
    show "\<not> bad_range ?z q \<and> page_count (mem_map ?z q) = 0 \<and> PG_reserved \<notin> flags (mem_map ?z q)" if "q \<in># free_mset ?z + B" for q
      using I(5-7) [of q] that unfolding M by (auto simp: set_page_order_def)
    show "q \<in> set (free_list ?z o1) \<longleftrightarrow> page_is_buddy (mem_map ?z q) o1" if "o1 < MAX_ORDER" "\<not> bad_range ?z q" for q o1
    proof (cases "q = p")
      case True
      then show ?thesis using out I(6,7) [OF pq] by (auto simp: page_is_buddy_def set_page_order_def)
    next
      case False
      then show ?thesis using I(8) [OF that(1), of q] that(2) by auto
    qed
    show "count (free_mset ?z + B) q \<le> 1" for q unfolding M using I(9) .
    show "buddy q o1 \<notin> set (free_list ?z o1)" if "o1 < MAX_ORDER - 1" "q \<in> set (free_list ?z o1)" for q o1
    proof (cases "o1 = o' \<and> (q = p \<or> buddy q o1 = p)")
      case True
      then show ?thesis using nb that buddy_buddy [of q o1] out by auto
    next
      case False
      then show ?thesis using I(10) [of o1 q] that by (auto split: if_splits)
    qed
  qed
qed

text \<open>A block is taken off its list.\<close>

lemma area_take:
  assumes ok: "lists_ok z B" and p: "p \<in> set (free_list z o')"
  shows "lists_ok (upd_page p rmv_page_order (area_del p o' z)) (blk p o' + B)"
    "free_mset (area_del p o' z) + blk p o' = free_mset z"
proof -
  note I = lists_okD [OF ok]
  let ?z = "upd_page p rmv_page_order (area_del p o' z)"
  have o': "o' < MAX_ORDER" and pf: "p \<in># free_mset z" using head_free [OF ok p] by auto
  have pr: "page_is_buddy (mem_map z p) o1" if "p \<in> set (free_list z o1)" for o1
    using I(8) [of o1 p] head_free [OF ok that] I(5) [of p] that by auto
  then have only: "p \<notin> set (free_list z o1)" if "o1 \<noteq> o'" for o1 using that pr [OF p] by (auto simp: page_is_buddy_def)
  show D: "free_mset (area_del p o' z) + blk p o' = free_mset z"
    using o' p I(1) only by (rule free_mset_del)
  then have M: "free_mset ?z + (blk p o' + B) = free_mset z + B" by (simp add: add_ac)
  have len: "length (free_list z o') = Suc (length (removeAll p (free_list z o')))"
    using p I(1) [of o'] by (simp add: distinct_remove1_removeAll [symmetric] length_remove1) (metis Suc_pred length_pos_if_in_set)
  show "lists_ok ?z (blk p o' + B)"
  proof (rule lists_okI)
    show "distinct (free_list ?z o1)" for o1 using I(1) by (simp add: distinct_removeAll)
    show "nr_free ?z o1 = of_nat (length (free_list ?z o1))" for o1
      using I(2) [of o1] len only [of o1] by (cases "o1 = o'") simp_all
    show "free_list ?z o1 = []" if "MAX_ORDER \<le> o1" for o1 using I(3) that by simp
    show "2 ^ o1 dvd q" if "q \<in> set (free_list ?z o1)" for q o1 using I(4) that by simp
    show "\<not> bad_range ?z q \<and> page_count (mem_map ?z q) = 0 \<and> PG_reserved \<notin> flags (mem_map ?z q)" if "q \<in># free_mset ?z + (blk p o' + B)" for q
      using I(5-7) [of q] that unfolding M by (auto simp: rmv_page_order_def)
    show "q \<in> set (free_list ?z o1) \<longleftrightarrow> page_is_buddy (mem_map ?z q) o1" if "o1 < MAX_ORDER" "\<not> bad_range ?z q" for q o1
    proof (cases "q = p")
      case True
      then show ?thesis by (auto simp: page_is_buddy_def rmv_page_order_def)
    next
      case False
      then show ?thesis using I(8) [OF that(1), of q] that(2) by simp
    qed
    show "count (free_mset ?z + (blk p o' + B)) q \<le> 1" for q unfolding M using I(9) .
    show "buddy q o1 \<notin> set (free_list ?z o1)" if "o1 < MAX_ORDER - 1" "q \<in> set (free_list ?z o1)" for q o1
      using I(10) [of o1 q] that by simp
  qed
qed

text \<open>What an operation that changes the pages \<open>S\<close> keeps.\<close>

definition kept :: "nat set \<Rightarrow> zone \<Rightarrow> zone \<Rightarrow> bool" where
  "kept S z z' \<longleftrightarrow> zone_start_pfn z' = zone_start_pfn z \<and> spanned_pages z' = spanned_pages z \<and> in_zone z' = in_zone z \<and>
     lowmem_reserve z' = lowmem_reserve z \<and> pageset z' = pageset z \<and> (\<forall>q. q \<notin> S \<longrightarrow> mem_map z' q = mem_map z q)"

lemma kept_refl [simp]: "kept S z z"
  by (simp add: kept_def)

lemma kept_trans: "kept S z z1 \<Longrightarrow> kept T z1 z2 \<Longrightarrow> kept (S \<union> T) z z2"
  by (simp add: kept_def)

lemma kept_mono: "kept S z z' \<Longrightarrow> S \<subseteq> T \<Longrightarrow> kept T z z'"
  by (auto simp: kept_def)

lemma kept_sel: "kept S z z' \<Longrightarrow> bad_range z' = bad_range z" "kept S z z' \<Longrightarrow> pageset z' = pageset z"
    "kept S z z' \<Longrightarrow> q \<notin> S \<Longrightarrow> mem_map z' q = mem_map z q"
  by (simp_all add: kept_def bad_range_def fun_eq_iff)

lemma kept_upd: "kept {p} z (upd_page p f z)" "kept {p} z (upd_page p f (area_del p o' z))" "kept {p} z (upd_page p f (area_add p o' z))"
    "kept {p} z (area_add p o' (upd_page p f z))"
  by (simp_all add: kept_def upd_page_def area_del_def area_add_def)

lemma kept_then_upd: "kept S z z1 \<Longrightarrow> p \<in> S \<Longrightarrow> kept S z (upd_page p f z1)"
  by (auto simp: kept_def upd_page_def)

lemma free_merge_ok:
  assumes "lists_ok z (blk p o' + B)" "o' < MAX_ORDER" "2 ^ o' dvd p" "i = p AND mask MAX_ORDER"
  shows "\<exists>p' o1 z'. free_merge p i o' z = (p', o1, z') \<and> lists_ok z' (blk p' o1 + B) \<and> o1 < MAX_ORDER \<and> 2 ^ o1 dvd p' \<and>
    (o1 < MAX_ORDER - 1 \<longrightarrow> buddy p' o1 \<notin> set (free_list z' o1)) \<and> free_mset z' + blk p' o1 = free_mset z + blk p o' \<and>
    free_pages z' = free_pages z \<and> kept (set_mset (free_mset z)) z z'"
  using assms
proof (induction p i o' z rule: free_merge.induct)
  case (1 p i o' z)
  note ok = "1.prems"(1) and o' = "1.prems"(2) and al = "1.prems"(3) and i = "1.prems"(4)
  note F = find_buddy_eq [OF o' al, folded i]
  have F2: "p + (unset_bit o' p AND mask MAX_ORDER) - i = unset_bit o' p" using F(2,3) by simp
  let ?b = "buddy p o'"
  let ?z = "upd_page ?b rmv_page_order (area_del ?b o' z)"
  show ?case
  proof (cases "o' < MAX_ORDER - 1 \<and> \<not> bad_range z ?b \<and> page_is_buddy (mem_map z ?b) o'")
    case False
    have "buddy p o' \<notin> set (free_list z o')" if "o' < MAX_ORDER - 1"
      using False that lists_okD(8) [OF ok o', of ?b] head_free [OF ok, of ?b o'] lists_okD(5) [OF ok, of ?b] by auto
    moreover have "free_merge p i o' z = (p, o', z)"
      using False by (auto simp: free_merge.simps [of p i o' z] F Let_def)
    ultimately show ?thesis using ok o' al by auto
  next
    case True
    then have b: "?b \<in> set (free_list z o')" using lists_okD(8) [OF ok o', of ?b] by blast
    note T = area_take [OF ok b] and P = buddy_pair [OF al]
    have ok1: "lists_ok ?z (blk (unset_bit o' p) (Suc o') + B)" using T(1) by (simp add: P(1) [symmetric] add_ac)
    have M: "free_mset ?z + blk (unset_bit o' p) (Suc o') = free_mset z + blk p o'"
      using T(2) by (simp add: P(1) [symmetric] add_ac)
    have eq: "free_merge p i o' z = free_merge (unset_bit o' p) (unset_bit o' p AND mask MAX_ORDER) (Suc o') ?z"
      using True by (simp add: free_merge.simps [of p i o' z] F(1) F(2) Let_def) (simp add: F(3))
    have "?b \<in># free_mset z" using head_free [OF ok b] by simp
    then have K: "kept (set_mset (free_mset z)) z ?z" by (intro kept_mono [OF kept_upd(2)]) auto
    have sub: "set_mset (free_mset ?z) \<subseteq> set_mset (free_mset z)" using T(2) by (metis mset_subset_eq_add_left set_mset_mono upd_page_sel(6))
    obtain p' o1 z' where R: "free_merge (unset_bit o' p) (unset_bit o' p AND mask MAX_ORDER) (Suc o') ?z = (p', o1, z')"
        "lists_ok z' (blk p' o1 + B)" "o1 < MAX_ORDER" "2 ^ o1 dvd p'" "o1 < MAX_ORDER - 1 \<longrightarrow> buddy p' o1 \<notin> set (free_list z' o1)"
        "free_mset z' + blk p' o1 = free_mset ?z + blk (unset_bit o' p) (Suc o')" "free_pages z' = free_pages ?z"
        "kept (set_mset (free_mset ?z)) ?z z'"
      using "1.IH" [OF _ refl refl] True ok1 P(2) by (auto simp: F(1,3) F2)
    have "kept (set_mset (free_mset z)) z z'" using kept_trans [OF K R(8)] sub by (auto intro: kept_mono)
    then show ?thesis using R(1-7) M unfolding eq by auto
  qed
qed

subsection \<open>Freeing and allocating blocks\<close>

text \<open>The zone is in order: the free lists are, and the number of free pages is that of the pages on them.\<close>

definition zone_ok :: "zone \<Rightarrow> nat multiset \<Rightarrow> bool" where
  "zone_ok z B \<longleftrightarrow> lists_ok z B \<and> free_pages z = of_nat (size (free_mset z))"

lemma lists_ok_free_pages [simp]: "lists_ok (z\<lparr>free_pages := n\<rparr>) B = lists_ok z B"
  by (simp add: lists_ok_def free_mset_def bad_range_def)

lemma free_mset_free_pages [simp]: "free_mset (z\<lparr>free_pages := n\<rparr>) = free_mset z"
  by (simp add: free_mset_def)

lemma and_mask_aligned: "o' < MAX_ORDER \<Longrightarrow> (p AND mask MAX_ORDER) AND mask o' = 0 \<longleftrightarrow> 2 ^ o' dvd p" for p :: nat
  by (simp add: take_bit_eq_mask [symmetric] take_bit_eq_0_iff)

lemma u_free_pages_bulk_ok:
  assumes ok: "zone_ok z (blk p o' + B)" and o': "o' < MAX_ORDER" and al: "2 ^ o' dvd p"
  shows "\<exists>z'. u_free_pages_bulk p o' z = Inr z' \<and> zone_ok z' B \<and> free_mset z' = free_mset z + blk p o' \<and>
    kept (set_mset (free_mset z + blk p o')) z z'"
proof -
  let ?z = "z\<lparr>free_pages := free_pages z + 2 ^ o'\<rparr>"
  have l: "lists_ok ?z (blk p o' + B)" and fp: "free_pages z = of_nat (size (free_mset z))" using ok by (simp_all add: zone_ok_def)
  obtain p' o1 z' where R: "free_merge p (p AND mask MAX_ORDER) o' ?z = (p', o1, z')" "lists_ok z' (blk p' o1 + B)" "o1 < MAX_ORDER"
      "2 ^ o1 dvd p'" "o1 < MAX_ORDER - 1 \<longrightarrow> buddy p' o1 \<notin> set (free_list z' o1)"
      "free_mset z' + blk p' o1 = free_mset ?z + blk p o'" "free_pages z' = free_pages ?z" "kept (set_mset (free_mset ?z)) ?z z'"
    using free_merge_ok [OF l o' al refl] by blast
  let ?r = "area_add p' o1 (upd_page p' (set_page_order o1) z')"
  have "\<not> bad_range z p" using lists_okD(5) [OF l, of p] by (simp add: bad_range_def)
  then have "u_free_pages_bulk p o' z = Inr ?r" using R(1) al and_mask_aligned [OF o'] by (simp add: u_free_pages_bulk_def Let_def)
  moreover have M: "free_mset ?r = free_mset z + blk p o'" using R(3,6) by (simp add: free_mset_add)
  moreover have "zone_ok ?r B"
    using area_put [OF R(2-4)] R(5,7) fp unfolding zone_ok_def M by simp
  moreover have "kept (set_mset (free_mset z + blk p o')) z ?r"
  proof -
    have "p' \<in># free_mset z' + blk p' o1" by simp
    then have "p' \<in># free_mset z + blk p o'" unfolding R(6) by simp
    moreover have "kept (set_mset (free_mset z)) z z'" using R(8) by (simp add: kept_def)
    ultimately show ?thesis using kept_mono [OF kept_trans [OF _ kept_upd(4)]] by simp
  qed
  ultimately show ?thesis by blast
qed

lemma expand_ok:
  assumes "lists_ok z (blk p h + B)" "h < MAX_ORDER" "2 ^ h dvd p" "l \<le> h"
  shows "\<exists>z'. expand p l h z = Inr z' \<and> lists_ok z' (blk p l + B) \<and> free_mset z' + blk p l = free_mset z + blk p h \<and>
    free_pages z' = free_pages z \<and> kept (set_mset (blk p h)) z z'"
  using assms
proof (induction h arbitrary: z)
  case 0
  then show ?case by simp
next
  case (Suc h)
  show ?case
  proof (cases "l < Suc h")
    case False
    then have "l = Suc h" using Suc.prems(4) by simp
    then show ?thesis using Suc.prems(1) by simp
  next
    case True
    let ?q = "p + 2 ^ h"
    let ?z = "area_add ?q h (upd_page ?q (set_page_order h) z)"
    have com: "upd_page ?q (set_page_order h) (area_add ?q h z) = ?z" by (simp add: upd_page_def area_add_def)
    have ok: "lists_ok z (blk ?q h + (blk p h + B))" using Suc.prems(1) by (simp add: blk_split add_ac)
    have al: "2 ^ h dvd p" using Suc.prems(3) by (simp add: dvd_mult_right)
    have ev: "even (p div 2 ^ h)" using Suc.prems(3) by (auto elim!: dvdE)
    have "buddy p h = ?q" using ev by (simp add: buddy_eq)
    then have bq: "buddy ?q h = p" using buddy_buddy [of p h] by simp
    have "p \<notin> set (free_list z h)"
    proof
      assume "p \<in> set (free_list z h)"
      then have "p \<in># free_mset z" using head_free [OF ok] by blast
      moreover have "count (blk p h) p = 1" by (simp add: count_blk)
      ultimately show False using lists_okD(9) [OF ok, of p] by (simp flip: count_greater_zero_iff)
    qed
    then have ok1: "lists_ok ?z (blk p h + B)" using Suc.prems(2) al by (intro area_put [OF ok]) (simp_all add: bq)
    obtain z' where R: "expand p l h ?z = Inr z'" "lists_ok z' (blk p l + B)" "free_mset z' + blk p l = free_mset ?z + blk p h"
        "free_pages z' = free_pages ?z" "kept (set_mset (blk p h)) ?z z'"
      using Suc.IH [OF ok1] Suc.prems(2) al True by auto
    have "\<not> bad_range z ?q" using lists_okD(5) [OF ok, of ?q] by simp
    then have "expand p l (Suc h) z = Inr z'" using True R(1) by (simp add: com)
    moreover have "free_mset z' + blk p l = free_mset z + blk p (Suc h)"
      using R(3) Suc.prems(2) by (simp add: free_mset_add blk_split add_ac)
    moreover have "kept (set_mset (blk p (Suc h))) z z'"
      using kept_trans [OF kept_upd(4) R(5)] by (rule kept_mono) auto
    ultimately show ?thesis using R(2,4) by auto
  qed
qed

lemma rmqueue_scan_ok:
  assumes "zone_ok z B" "o' \<le> cur"
  shows "(\<exists>p z'. rmqueue_scan o' cur z = Inr (Some p, z') \<and> zone_ok z' (blk p o' + B) \<and> free_mset z' + blk p o' = free_mset z \<and>
      2 ^ o' dvd p \<and> kept (set_mset (free_mset z)) z z') \<or>
    rmqueue_scan o' cur z = Inr (None, z) \<and> (\<forall>o1 \<ge> cur. free_list z o1 = [])"
  using assms
proof (induction o' cur z rule: rmqueue_scan.induct)
  case (1 o' cur z)
  have l: "lists_ok z B" and fp: "free_pages z = of_nat (size (free_mset z))" using "1.prems"(1) by (simp_all add: zone_ok_def)
  show ?case
  proof (cases "cur < MAX_ORDER")
    case False
    then show ?thesis using lists_okD(3) [OF l] by (simp add: rmqueue_scan.simps [of o' cur z])
  next
    case cur: True
    show ?thesis
    proof (cases "free_list z cur")
      case Nil
      have "\<forall>o1 \<ge> cur. free_list z o1 = []" if "\<forall>o1 \<ge> Suc cur. free_list z o1 = []"
        using that Nil by (metis Suc_leI le_neq_implies_less)
      then show ?thesis using "1.IH" [OF cur Nil "1.prems"(1)] "1.prems"(2) cur Nil by (simp add: rmqueue_scan.simps [of o' cur z]) blast
    next
      case (Cons p ps)
      then have p: "p \<in> set (free_list z cur)" by simp
      let ?z1 = "upd_page p rmv_page_order (area_del p cur z)"
      let ?z = "?z1\<lparr>free_pages := free_pages ?z1 - 2 ^ o'\<rparr>"
      note T = area_take [OF l p]
      have al: "2 ^ cur dvd p" using lists_okD(4) [OF l p] .
      have "lists_ok ?z (blk p cur + B)" using T(1) by simp
      then obtain z' where R: "expand p o' cur ?z = Inr z'" "lists_ok z' (blk p o' + B)" "free_mset z' + blk p o' = free_mset ?z + blk p cur"
          "free_pages z' = free_pages ?z" "kept (set_mset (blk p cur)) ?z z'"
        using expand_ok [OF _ cur al "1.prems"(2)] by blast
      have M: "free_mset z' + blk p o' = free_mset z" using R(3) T(2) by simp
      have "size (free_mset z) = size (free_mset z') + 2 ^ o'" by (simp flip: M)
      then have "zone_ok z' (blk p o' + B)" using R(2,4) fp by (simp add: zone_ok_def)
      moreover have "rmqueue_scan o' cur z = Inr (Some p, z')"
        using cur Cons R(1) by (simp add: rmqueue_scan.simps [of o' cur z] Let_def)
      moreover have "2 ^ o' dvd p" using al "1.prems"(2) le_imp_power_dvd dvd_trans by blast
      moreover have "kept (set_mset (free_mset z)) z z'"
      proof -
        have "kept {p} z ?z" using kept_upd(2) by (simp add: kept_def)
        then have "kept ({p} \<union> set_mset (blk p cur)) z z'" using R(5) by (rule kept_trans)
        moreover have "p \<in># blk p cur" by simp
        ultimately show ?thesis by (rule_tac kept_mono) (auto simp flip: T(2))
      qed
      ultimately show ?thesis using M by blast
    qed
  qed
qed

lemma u_rmqueue_ok:
  assumes "zone_ok z B"
  obtains (some) p z' where "u_rmqueue o' z = Inr (Some p, z')" "zone_ok z' (blk p o' + B)" "free_mset z' + blk p o' = free_mset z"
      "2 ^ o' dvd p" "kept (set_mset (free_mset z)) z z'"
    | (none) "u_rmqueue o' z = Inr (None, z)" "\<And>o1. o' \<le> o1 \<Longrightarrow> free_list z o1 = []"
  using rmqueue_scan_ok [OF assms, of o' o'] unfolding u_rmqueue_def by blast

text \<open>Lists of single pages.\<close>

lemma blk_0 [simp]: "blk p 0 = {#p#}"
  by (simp add: blk_def)

lemma free_bulk_loop_ok:
  assumes "zone_ok z (mset list + B)"
  shows "\<exists>ret l z'. free_bulk_loop cnt list 0 z = Inr (ret, l, z') \<and> zone_ok z' (mset l + B) \<and>
    free_mset z' + mset l = free_mset z + mset list \<and> int (length list) = int (length l) + ret \<and>
    kept (set_mset (free_mset z + mset list)) z z'"
  using assms
proof (induction cnt list "0 :: nat" z rule: free_bulk_loop.induct)
  case (1 cnt list z)
  show ?case
  proof (cases "list \<noteq> [] \<and> cnt \<noteq> 0")
    case False
    then show ?thesis using "1.prems" by (auto simp: free_bulk_loop.simps [of cnt list])
  next
    case True
    then have ml: "mset list = add_mset (last list) (mset (butlast list))"
      by (metis append_butlast_last_id mset_append mset_single_iff_right union_mset_add_mset_right add.right_neutral mset.simps)
    have "zone_ok z (blk (last list) 0 + (mset (butlast list) + B))" using "1.prems" by (simp add: ml)
    from u_free_pages_bulk_ok [OF this] obtain z1 where z1: "u_free_pages_bulk (last list) 0 z = Inr z1"
        "zone_ok z1 (mset (butlast list) + B)" "free_mset z1 = add_mset (last list) (free_mset z)"
        "kept (set_mset (free_mset z + {#last list#})) z z1"
      by auto
    obtain ret l z' where R: "free_bulk_loop (cnt - 1) (butlast list) 0 z1 = Inr (ret, l, z')" "zone_ok z' (mset l + B)"
        "free_mset z' + mset l = free_mset z1 + mset (butlast list)" "int (length (butlast list)) = int (length l) + ret"
        "kept (set_mset (free_mset z1 + mset (butlast list))) z1 z'"
      using "1.hyps" [OF True z1(1,2)] by blast
    have "free_bulk_loop cnt list 0 z = Inr (ret + 1, l, z')" using True z1(1) R(1) by (simp add: free_bulk_loop.simps [of cnt list])
    moreover have "free_mset z' + mset l = free_mset z + mset list" using R(3) by (simp add: z1(3) ml)
    moreover have "int (length list) = int (length l) + (ret + 1)" using R(4) True by (cases list) (auto split: if_splits)
    moreover have "kept (set_mset (free_mset z + mset list)) z z'"
      using kept_trans [OF z1(4) R(5)] by (rule kept_mono) (auto simp: z1(3) ml)
    ultimately show ?thesis using R(2) by blast
  qed
qed

lemma rmqueue_bulk_ok:
  assumes "zone_ok z (mset list + B)"
  shows "\<exists>n l z'. rmqueue_bulk 0 cnt list z = Inr (n, l, z') \<and> zone_ok z' (mset l + B) \<and>
    free_mset z' + mset l = free_mset z + mset list \<and> int (length l) = int (length list) + n \<and>
    kept (set_mset (free_mset z)) z z'"
  using assms
proof (induction cnt arbitrary: list z)
  case 0
  then show ?case by simp
next
  case (Suc cnt)
  show ?case
  proof (cases rule: u_rmqueue_ok [OF Suc.prems, of 0, case_names some none])
    case (some p z1)
    have "zone_ok z1 (mset (list @ [p]) + B)" using some(2) by simp
    from Suc.IH [OF this] obtain n l z' where R: "rmqueue_bulk 0 cnt (list @ [p]) z1 = Inr (n, l, z')" "zone_ok z' (mset l + B)"
        "free_mset z' + mset l = free_mset z1 + mset (list @ [p])" "int (length l) = int (length (list @ [p])) + n"
        "kept (set_mset (free_mset z1)) z1 z'"
      by blast
    have "free_mset z' + mset l = free_mset z + mset list" using R(3) by (simp flip: some(3))
    moreover have "kept (set_mset (free_mset z)) z z'"
      using kept_trans [OF some(5) R(5)] by (rule kept_mono) (auto simp flip: some(3))
    ultimately show ?thesis using some(1) R(1,2,4) by (intro exI [of _ "n + 1"] exI [of _ l] exI [of _ z']) simp
  next
    case none
    then show ?thesis using Suc.prems by simp
  qed
qed

subsection \<open>Pages change hands\<close>

text \<open>Pages that are not free may change, and join or leave the floating pages \<open>B\<close>, as long as none of them looks
  like a free block.\<close>

definition same_lists :: "zone \<Rightarrow> zone \<Rightarrow> bool" where
  "same_lists z z' \<longleftrightarrow> free_list z' = free_list z \<and> nr_free z' = nr_free z \<and> free_pages z' = free_pages z \<and> bad_range z' = bad_range z"

lemma same_lists_refl [simp]: "same_lists z z"
  by (simp add: same_lists_def)

lemma same_lists_trans: "same_lists z z1 \<Longrightarrow> same_lists z1 z2 \<Longrightarrow> same_lists z z2"
  by (simp add: same_lists_def)

lemma zone_ok_change:
  assumes ok: "zone_ok z B" and same: "same_lists z z'"
    and free: "\<And>q. q \<in># free_mset z \<Longrightarrow> mem_map z' q = mem_map z q"
    and rest: "\<And>q. q \<notin># free_mset z \<Longrightarrow> mem_map z' q = mem_map z q \<or> PG_private \<notin> flags (mem_map z' q) \<or> page_count (mem_map z' q) \<noteq> 0"
    and B': "\<And>q. q \<in># B' \<Longrightarrow> \<not> bad_range z q \<and> page_count (mem_map z' q) = 0 \<and> PG_reserved \<notin> flags (mem_map z' q)"
    and cnt: "\<And>q. count (free_mset z + B') q \<le> 1"
  shows "zone_ok z' B'"
proof -
  have l: "lists_ok z B" and fp: "free_pages z = of_nat (size (free_mset z))" using ok by (simp_all add: zone_ok_def)
  note I = lists_okD [OF l]
  have S: "free_list z' = free_list z" "nr_free z' = nr_free z" "free_pages z' = free_pages z" "bad_range z' = bad_range z"
    using same by (simp_all add: same_lists_def)
  have M: "free_mset z' = free_mset z" by (simp add: free_mset_def S(1))
  have "lists_ok z' B'"
  proof (rule lists_okI)
    show "\<not> bad_range z' q \<and> page_count (mem_map z' q) = 0 \<and> PG_reserved \<notin> flags (mem_map z' q)" if "q \<in># free_mset z' + B'" for q
      using that free [of q] B' [of q] I(5-7) [of q] unfolding S M by auto
    show "p \<in> set (free_list z' o') \<longleftrightarrow> page_is_buddy (mem_map z' p) o'" if "o' < MAX_ORDER" "\<not> bad_range z' p" for p o'
    proof (cases "mem_map z' p = mem_map z p")
      case True
      then show ?thesis using I(8) [of o' p] that unfolding S by simp
    next
      case False
      then have "p \<notin> set (free_list z o')" "\<not> page_is_buddy (mem_map z' p) o'"
        using free [of p] rest [of p] head_free [OF l, of p o'] by (auto simp: page_is_buddy_def)
      then show ?thesis unfolding S by simp
    qed
  qed (use I cnt in \<open>simp_all add: S M\<close>)
  then show ?thesis using fp by (simp add: zone_ok_def S M)
qed

lemma bad_page_sel [simp]:
  "same_lists z (bad_page p z)" "pageset (bad_page p z) = pageset z" "zone_start_pfn (bad_page p z) = zone_start_pfn z"
  "spanned_pages (bad_page p z) = spanned_pages z" "in_zone (bad_page p z) = in_zone z" "lowmem_reserve (bad_page p z) = lowmem_reserve z" "q \<noteq> p \<Longrightarrow> mem_map (bad_page p z) q = mem_map z q"
  "flags (mem_map (bad_page p z) p) = flags (mem_map z p) - {PG_private, PG_locked, PG_lru, PG_active, PG_dirty, PG_swapcache, PG_writeback}"
  "page_count (mem_map (bad_page p z) p) = 0"
  by (simp_all add: bad_page_def upd_page_def same_lists_def bad_range_def fun_eq_iff)

lemma same_lists_upd [simp]: "same_lists z (upd_page p f z)"
  by (simp add: same_lists_def)

lemma kept_bad_page: "kept {p} z (bad_page p z)"
  by (simp add: kept_def)

text \<open>After \<open>free_pages_check\<close> a page is unused and looks so, whatever its state was.\<close>

lemma free_pages_check_ok:
  "same_lists z (free_pages_check p z)" "kept {p} z (free_pages_check p z)"
  "PG_private \<notin> flags (mem_map (free_pages_check p z) p)" "page_count (mem_map (free_pages_check p z) p) = 0"
  "PG_reserved \<in> flags (mem_map (free_pages_check p z) p) \<longleftrightarrow> PG_reserved \<in> flags (mem_map z p)"
proof -
  let ?b = "(if page_mapcount (mem_map z p) \<noteq> 0 \<or> mapping (mem_map z p) \<noteq> No_mapping \<or> page_count (mem_map z p) \<noteq> 0 \<or>
      flags (mem_map z p) \<inter> {PG_lru, PG_private, PG_locked, PG_active, PG_reclaim, PG_slab, PG_swapcache, PG_writeback} \<noteq> {}
      then bad_page p z else z)"
  have e: "free_pages_check p z = upd_page p (\<lambda>pg. pg\<lparr>flags := flags pg - {PG_dirty}\<rparr>) ?b" by (simp only: free_pages_check_def Let_def)
  show "same_lists z (free_pages_check p z)"
    unfolding e by (rule same_lists_trans [OF _ same_lists_upd]) simp
  have "kept {p} z ?b" using kept_bad_page by simp
  then show "kept {p} z (free_pages_check p z)" unfolding e by (rule kept_then_upd) simp
  show "PG_private \<notin> flags (mem_map (free_pages_check p z) p)" "page_count (mem_map (free_pages_check p z) p) = 0"
    "PG_reserved \<in> flags (mem_map (free_pages_check p z) p) \<longleftrightarrow> PG_reserved \<in> flags (mem_map z p)"
    unfolding e by auto
qed

text \<open>An operation on every page of a block.\<close>

lemma fold_pages:
  assumes "\<And>q z. same_lists z (f q z)" "\<And>q z. kept {q} z (f q z)" "\<And>q z. P (mem_map z q) \<Longrightarrow> Q (mem_map (f q z) q)"
    and "\<And>i. i < n \<Longrightarrow> P (mem_map z (p + i))"
  shows "same_lists z (fold (\<lambda>i. f (p + i)) [0..<n] z) \<and> kept {p..<p + n} z (fold (\<lambda>i. f (p + i)) [0..<n] z) \<and>
    (\<forall>i < n. Q (mem_map (fold (\<lambda>i. f (p + i)) [0..<n] z) (p + i)))"
  using assms(4)
proof (induction n)
  case 0
  then show ?case by simp
next
  case (Suc n)
  let ?y = "fold (\<lambda>i. f (p + i)) [0..<n] z"
  have IH: "same_lists z ?y" "kept {p..<p + n} z ?y" "\<forall>i < n. Q (mem_map ?y (p + i))" using Suc by auto
  have K: "kept {p + n} ?y (f (p + n) ?y)" using assms(2) .
  have m: "mem_map ?y (p + n) = mem_map z (p + n)" using kept_sel(3) [OF IH(2)] by simp
  have "Q (mem_map (f (p + n) ?y) (p + i))" if "i < Suc n" for i
    using IH(3) that kept_sel(3) [OF K, of "p + i"] assms(3) [of ?y "p + n"] m Suc.prems [of n] by (cases "i = n") auto
  moreover have "same_lists z (f (p + n) ?y)" using same_lists_trans [OF IH(1) assms(1)] .
  moreover have "kept {p..<p + Suc n} z (f (p + n) ?y)" using kept_trans [OF IH(2) K] by (rule kept_mono) auto
  ultimately show ?case by simp
qed

lemma prep_new_page_ok:
  "same_lists z (prep_new_page p z)" "kept {p} z (prep_new_page p z)"
  "PG_private \<notin> flags (mem_map (prep_new_page p z) p)" "page_count (mem_map (prep_new_page p z) p) = 1"
  "PG_reserved \<in> flags (mem_map (prep_new_page p z) p) \<longleftrightarrow> PG_reserved \<in> flags (mem_map z p)"
proof -
  let ?b = "(if mapping (mem_map z p) \<noteq> No_mapping \<or> page_mapcount (mem_map z p) \<noteq> 0 \<or>
      flags (mem_map z p) \<inter> {PG_private, PG_locked, PG_lru, PG_active, PG_dirty, PG_reclaim, PG_swapcache, PG_writeback} \<noteq> {}
      then bad_page p z else z)"
  let ?f = "\<lambda>pg. pg\<lparr>flags := flags pg - {PG_uptodate, PG_error, PG_referenced, PG_arch_1, PG_checked, PG_mappedtodisk}, page_private := 0\<rparr>"
  have e: "prep_new_page p z = upd_page p (\<lambda>pg. pg\<lparr>page_count := 1\<rparr>) (upd_page p ?f ?b)"
    by (simp only: prep_new_page_def set_page_refs_def Let_def)
  show "same_lists z (prep_new_page p z)"
    unfolding e by (intro same_lists_trans [OF _ same_lists_upd]) simp
  have "kept {p} z ?b" using kept_bad_page by simp
  then show "kept {p} z (prep_new_page p z)" unfolding e by (intro kept_then_upd) simp_all
  show "PG_private \<notin> flags (mem_map (prep_new_page p z) p)" "page_count (mem_map (prep_new_page p z) p) = 1"
    "PG_reserved \<in> flags (mem_map (prep_new_page p z) p) \<longleftrightarrow> PG_reserved \<in> flags (mem_map z p)"
    unfolding e by auto
qed

subsection \<open>The lists of single pages\<close>

definition pcps :: "zone \<Rightarrow> nat multiset" where
  "pcps z = mset (pcp_list (pageset z False)) + mset (pcp_list (pageset z True))"

definition pcp_ok :: "zone \<Rightarrow> bool" where
  "pcp_ok z \<longleftrightarrow> zone_ok z (pcps z) \<and> (\<forall>c. pcp_count (pageset z c) = int (length (pcp_list (pageset z c))))"

definition moved :: "nat multiset \<Rightarrow> zone \<Rightarrow> zone \<Rightarrow> bool" where
  "moved S z z' \<longleftrightarrow> zone_start_pfn z' = zone_start_pfn z \<and> spanned_pages z' = spanned_pages z \<and> in_zone z' = in_zone z \<and>
     lowmem_reserve z' = lowmem_reserve z \<and> (\<forall>q. q \<notin># S \<longrightarrow> mem_map z' q = mem_map z q)"

lemma kept_moved: "kept S z z' \<Longrightarrow> S \<subseteq> set_mset T \<Longrightarrow> moved T z z'"
  by (auto simp: kept_def moved_def)

lemma moved_trans: "moved S z z1 \<Longrightarrow> moved S z1 z2 \<Longrightarrow> moved S z z2"
  by (simp add: moved_def)

lemma moved_pageset [simp]: "moved S z (z1\<lparr>pageset := f\<rparr>) = moved S z z1"
  by (simp add: moved_def)

lemma zone_ok_simps [simp]:
  "zone_ok (z\<lparr>pageset := f\<rparr>) B = zone_ok z B" "zone_ok (z\<lparr>all_unreclaimable := a, pages_scanned := b\<rparr>) B = zone_ok z B"
  "free_mset (z\<lparr>pageset := f\<rparr>) = free_mset z" "free_mset (z\<lparr>all_unreclaimable := a, pages_scanned := b\<rparr>) = free_mset z"
  by (simp_all add: zone_ok_def lists_ok_def free_mset_def bad_range_def)

lemma pcps_split: "pcps z = mset (pcp_list (pageset z c)) + mset (pcp_list (pageset z (\<not> c)))"
  by (cases c) (simp_all add: pcps_def add.commute)

lemma pcps_upd: "pcps (z\<lparr>pageset := (pageset z)(c := x)\<rparr>) = mset (pcp_list x) + mset (pcp_list (pageset z (\<not> c)))"
  by (simp add: pcps_split [of _ c])

lemma free_pages_bulk_ok:
  assumes "zone_ok z (mset list + B)"
  shows "\<exists>ret l z'. free_pages_bulk cnt list 0 z = Inr (ret, l, z') \<and> zone_ok z' (mset l + B) \<and>
    free_mset z' + mset l = free_mset z + mset list \<and> int (length list) = int (length l) + ret \<and>
    kept (set_mset (free_mset z + mset list)) z z'"
  using free_bulk_loop_ok [of "z\<lparr>all_unreclaimable := False, pages_scanned := 0\<rparr>" list B cnt] assms
  by (simp add: free_pages_bulk_def kept_def)

text \<open>A page that belongs to nobody is put on a list of single pages.\<close>

lemma pcp_put_ok:
  assumes ok: "zone_ok z ({#p#} + pcps z)" and len: "\<forall>c. pcp_count (pageset z c) = int (length (pcp_list (pageset z c)))"
  shows "\<exists>pcp z1. (if high (pageset z c) \<le> pcp_count (pageset z c)
      then map_sum id (\<lambda>(ret, list, z1). ((pageset z c)\<lparr>pcp_count := pcp_count (pageset z c) - ret, pcp_list := list\<rparr>, z1))
             (free_pages_bulk (batch (pageset z c)) (pcp_list (pageset z c)) 0 z)
      else Inr (pageset z c, z)) = Inr (pcp, z1) \<and>
    zone_ok z1 ({#p#} + mset (pcp_list pcp) + mset (pcp_list (pageset z (\<not> c)))) \<and> pcp_count pcp = int (length (pcp_list pcp)) \<and>
    free_mset z1 + mset (pcp_list pcp) = free_mset z + mset (pcp_list (pageset z c)) \<and>
    kept (set_mset (free_mset z + pcps z)) z z1"
proof (cases "high (pageset z c) \<le> pcp_count (pageset z c)")
  case False
  then show ?thesis using ok len by (simp add: pcps_split [of z c])
next
  case True
  let ?l = "pcp_list (pageset z c)" and ?r = "pcp_list (pageset z (\<not> c))"
  have "zone_ok z (mset ?l + ({#p#} + mset ?r))" using ok by (simp add: pcps_split [of z c])
  from free_pages_bulk_ok [OF this, of "batch (pageset z c)"] obtain ret l z' where
    R: "free_pages_bulk (batch (pageset z c)) ?l 0 z = Inr (ret, l, z')" "zone_ok z' (mset l + ({#p#} + mset ?r))"
      "free_mset z' + mset l = free_mset z + mset ?l" "int (length ?l) = int (length l) + ret"
      "kept (set_mset (free_mset z + mset ?l)) z z'"
    by blast
  have "kept (set_mset (free_mset z + pcps z)) z z'" using R(5) by (rule kept_mono) (auto simp: pcps_split [of z c])
  then show ?thesis using True R(1-4) len by simp
qed

lemma free_hot_cold_page_ok:
  assumes ok: "zone_ok z (pcps z)" and len: "\<forall>c. pcp_count (pageset z c) = int (length (pcp_list (pageset z c)))"
    and same: "same_lists z z1" "kept {p} z z1"
    and p: "\<not> bad_range z p" "p \<notin># free_mset z + pcps z" "PG_reserved \<notin> flags (mem_map z1 p)"
  shows "\<exists>z'. free_hot_cold_page p c z1 = Inr z' \<and> pcp_ok z' \<and> free_mset z' + pcps z' = free_mset z + pcps z + {#p#} \<and>
    moved (free_mset z + pcps z + {#p#}) z z'"
proof -
  let ?a = "upd_page p (\<lambda>pg. if mapping pg = Anon_mapping then pg\<lparr>mapping := No_mapping\<rparr> else pg) z1"
  let ?z = "free_pages_check p ?a"
  note C = free_pages_check_ok [where p = p and z = ?a]
  have S: "same_lists z ?z" using same_lists_trans [OF same_lists_trans [OF same(1) same_lists_upd] C(1)] .
  have K: "kept {p} z ?z" using kept_trans [OF kept_then_upd [OF same(2)] C(2)] by simp
  have ps: "pageset ?z = pageset z" and pc: "pcps ?z = pcps z" using kept_sel(2) [OF K] by (simp_all add: pcps_def)
  have fm: "free_mset ?z = free_mset z" using S by (simp add: same_lists_def free_mset_def)
  have I: "lists_ok z (pcps z)" using ok by (simp add: zone_ok_def)
  have "zone_ok ?z ({#p#} + pcps ?z)"
  proof (rule zone_ok_change [OF ok S])
    show "mem_map ?z q = mem_map z q" if "q \<in># free_mset z" for q using that p(2) kept_sel(3) [OF K, of q] by auto
    show "mem_map ?z q = mem_map z q \<or> PG_private \<notin> flags (mem_map ?z q) \<or> page_count (mem_map ?z q) \<noteq> 0" if "q \<notin># free_mset z" for q
      using C(3) kept_sel(3) [OF K, of q] by (cases "q = p") auto
    show "\<not> bad_range z q \<and> page_count (mem_map ?z q) = 0 \<and> PG_reserved \<notin> flags (mem_map ?z q)" if "q \<in># {#p#} + pcps ?z" for q
      using that p C(4,5) kept_sel(3) [OF K, of q] lists_okD(5-7) [OF I, of q] by (cases "q = p") (auto simp: pc)
    show "count (free_mset z + ({#p#} + pcps ?z)) q \<le> 1" for q
      using lists_okD(9) [OF I, of q] p(2) by (cases "q = p") (simp_all add: pc not_in_iff)
  qed
  from pcp_put_ok [OF this, of c] len obtain pcp z2 where R:
      "(if high (pageset ?z c) \<le> pcp_count (pageset ?z c)
        then map_sum id (\<lambda>(ret, list, z1). ((pageset ?z c)\<lparr>pcp_count := pcp_count (pageset ?z c) - ret, pcp_list := list\<rparr>, z1))
               (free_pages_bulk (batch (pageset ?z c)) (pcp_list (pageset ?z c)) 0 ?z)
        else Inr (pageset ?z c, ?z)) = Inr (pcp, z2)"
      "zone_ok z2 ({#p#} + mset (pcp_list pcp) + mset (pcp_list (pageset ?z (\<not> c))))" "pcp_count pcp = int (length (pcp_list pcp))"
      "free_mset z2 + mset (pcp_list pcp) = free_mset ?z + mset (pcp_list (pageset ?z c))"
      "kept (set_mset (free_mset ?z + pcps ?z)) ?z z2"
    unfolding ps by blast
  have ps2: "pageset z2 = pageset z" using kept_sel(2) [OF R(5)] ps by simp
  let ?r = "z2\<lparr>pageset := (pageset z2)(c := pcp\<lparr>pcp_list := p # pcp_list pcp, pcp_count := pcp_count pcp + 1\<rparr>)\<rparr>"
  have P: "pcps ?r = {#p#} + mset (pcp_list pcp) + mset (pcp_list (pageset z (\<not> c)))" by (subst pcps_upd) (simp add: ps2)
  have "free_hot_cold_page p c z1 = Inr ?r" using R(1) by (simp add: free_hot_cold_page_def Let_def)
  moreover have "pcp_ok ?r" unfolding pcp_ok_def P using R(2,3) len by (simp add: ps ps2)
  moreover have "free_mset ?r + pcps ?r = free_mset z + pcps z + {#p#}"
    unfolding P using R(4) by (simp add: pcps_split [of z c] ps fm)
  moreover have "moved (free_mset z + pcps z + {#p#}) z ?r"
    using moved_trans [OF kept_moved [OF K] kept_moved [OF R(5)]] by (simp add: fm pc subset_iff)
  ultimately show ?thesis by blast
qed

lemma u_free_pages_ok_ok:
  assumes ok: "zone_ok z (pcps z)" and len: "\<forall>c. pcp_count (pageset z c) = int (length (pcp_list (pageset z c)))"
    and same: "same_lists z z1" "kept {p..<p + 2 ^ o'} z z1" and o': "o' < MAX_ORDER" "2 ^ o' dvd p"
    and p: "\<And>q. q \<in># blk p o' \<Longrightarrow> \<not> bad_range z q \<and> q \<notin># free_mset z + pcps z \<and> PG_reserved \<notin> flags (mem_map z1 q)"
  shows "\<exists>z'. u_free_pages_ok p o' z1 = Inr z' \<and> pageset z' = pageset z \<and> pcp_ok z' \<and> free_mset z' + pcps z' = free_mset z + pcps z + blk p o' \<and>
    moved (free_mset z + pcps z + blk p o') z z'"
proof -
  let ?z = "fold (\<lambda>i. free_pages_check (p + i)) [0..<2 ^ o'] z1"
  have "PG_reserved \<notin> flags (mem_map z1 (p + i))" if "i < 2 ^ o'" for i using p [of "p + i"] that by simp
  note C = fold_pages [OF free_pages_check_ok(1,2), where P = "\<lambda>pg. PG_reserved \<notin> flags pg" and z = z1 and p = p and n = "2 ^ o'"
      and Q = "\<lambda>pg. PG_private \<notin> flags pg \<and> page_count pg = 0 \<and> PG_reserved \<notin> flags pg", OF _ this]
  have F: "same_lists z1 ?z" "kept {p..<p + 2 ^ o'} z1 ?z"
      "\<And>i. i < 2 ^ o' \<Longrightarrow> PG_private \<notin> flags (mem_map ?z (p + i)) \<and> page_count (mem_map ?z (p + i)) = 0 \<and> PG_reserved \<notin> flags (mem_map ?z (p + i))"
    using C free_pages_check_ok(3-5) by blast+
  have Q: "PG_private \<notin> flags (mem_map ?z q) \<and> page_count (mem_map ?z q) = 0 \<and> PG_reserved \<notin> flags (mem_map ?z q)" if "q \<in># blk p o'" for q
    using F(3) that by (metis in_blk le_iff_add nat_add_left_cancel_less)
  have S: "same_lists z ?z" using same_lists_trans [OF same(1) F(1)] .
  have K: "kept {p..<p + 2 ^ o'} z ?z" using kept_trans [OF same(2) F(2)] by simp
  have pc: "pcps ?z = pcps z" using kept_sel(2) [OF K] by (simp add: pcps_def)
  have fm: "free_mset ?z = free_mset z" using S by (simp add: same_lists_def free_mset_def)
  have I: "lists_ok z (pcps z)" using ok by (simp add: zone_ok_def)
  have out: "mem_map ?z q = mem_map z q" if "q \<notin># blk p o'" for q using kept_sel(3) [OF K, of q] that by auto
  have "zone_ok ?z (blk p o' + pcps z)"
  proof (rule zone_ok_change [OF ok S])
    show "mem_map ?z q = mem_map z q" if "q \<in># free_mset z" for q using that p [of q] out by auto
    show "mem_map ?z q = mem_map z q \<or> PG_private \<notin> flags (mem_map ?z q) \<or> page_count (mem_map ?z q) \<noteq> 0" if "q \<notin># free_mset z" for q
      using Q out by blast
    show "\<not> bad_range z q \<and> page_count (mem_map ?z q) = 0 \<and> PG_reserved \<notin> flags (mem_map ?z q)" if "q \<in># blk p o' + pcps z" for q
    proof (cases "q \<in># blk p o'")
      case True
      then show ?thesis using Q p by blast
    next
      case False
      then have "q \<in># pcps z" using that by (metis union_iff)
      then show ?thesis using False out [of q] lists_okD(5-7) [OF I, of q] by simp
    qed
    show "count (free_mset z + (blk p o' + pcps z)) q \<le> 1" for q
      using lists_okD(9) [OF I, of q] p [of q] by (cases "q \<in># blk p o'") (auto simp: count_blk not_in_iff)
  qed
  then have "zone_ok (?z\<lparr>all_unreclaimable := False, pages_scanned := 0\<rparr>) (blk p o' + pcps z)" by simp
  from u_free_pages_bulk_ok [OF this o'] obtain z' where R:
      "u_free_pages_bulk p o' (?z\<lparr>all_unreclaimable := False, pages_scanned := 0\<rparr>) = Inr z'" "zone_ok z' (pcps z)"
      "free_mset z' = free_mset ?z + blk p o'" "kept (set_mset (free_mset ?z + blk p o')) ?z z'"
    by (auto simp: kept_def)
  have ps: "pageset z' = pageset z" using kept_sel(2) [OF R(4)] kept_sel(2) [OF K] by simp
  then have pc': "pcps z' = pcps z" by (simp add: pcps_def)
  have "free_pages_bulk 1 [p] o' ?z = Inr (1, [], z')"
    using R(1) by (simp add: free_pages_bulk_def free_bulk_loop.simps [of _ "[p]"] free_bulk_loop.simps [of _ "[]"])
  then have "u_free_pages_ok p o' z1 = Inr z'" by (simp add: u_free_pages_ok_def)
  moreover have "pcp_ok z'" using R(2) len by (simp add: pcp_ok_def pc' ps)
  moreover have "free_mset z' + pcps z' = free_mset z + pcps z + blk p o'" unfolding R(3) fm pc' by (simp add: add_ac)
  moreover have "moved (free_mset z + pcps z + blk p o') z z'"
    using moved_trans [OF kept_moved [OF K] kept_moved [OF R(4)]] by (simp add: fm subset_iff)
  ultimately show ?thesis using ps by blast
qed

text \<open>The last reference to a block is dropped.\<close>

lemma u_free_pages_last:
  assumes ok: "pcp_ok z" and same: "same_lists z z1" "kept {p..<p + 2 ^ o'} z z1" and o': "o' < MAX_ORDER" "2 ^ o' dvd p"
    and p: "\<And>q. q \<in># blk p o' \<Longrightarrow> \<not> bad_range z q \<and> q \<notin># free_mset z + pcps z \<and> PG_reserved \<notin> flags (mem_map z1 q)"
    and c: "page_count (mem_map z1 p) = 1"
  shows "\<exists>z'. u_free_pages p o' z1 = Inr z' \<and> (o' \<noteq> 0 \<longrightarrow> pageset z' = pageset z) \<and> pcp_ok z' \<and> free_mset z' + pcps z' = free_mset z + pcps z + blk p o' \<and>
    moved (free_mset z + pcps z + blk p o') z z'"
proof -
  let ?z = "upd_page p (\<lambda>pg. pg\<lparr>page_count := page_count pg - 1\<rparr>) z1"
  have ok': "zone_ok z (pcps z)" "\<forall>c. pcp_count (pageset z c) = int (length (pcp_list (pageset z c)))" using ok by (simp_all add: pcp_ok_def)
  have S: "same_lists z ?z" using same_lists_trans [OF same(1) same_lists_upd] .
  have K: "kept {p..<p + 2 ^ o'} z ?z" using same(2) by (rule kept_then_upd) simp
  have Q: "\<not> bad_range z q \<and> q \<notin># free_mset z + pcps z \<and> PG_reserved \<notin> flags (mem_map ?z q)" if "q \<in># blk p o'" for q
    using p [OF that] by auto
  have r: "PG_reserved \<notin> flags (mem_map z1 p)" using p [of p] by simp
  have e: "u_free_pages p o' z1 = (if o' = 0 then free_hot_cold_page p False ?z else u_free_pages_ok p o' ?z)"
    using r c by (simp add: u_free_pages_def Let_def)
  show ?thesis
  proof (cases "o' = 0")
    case True
    then show ?thesis using free_hot_cold_page_ok [OF ok' S, of p False] K Q [of p] e by simp
  next
    case False
    then show ?thesis using u_free_pages_ok_ok [OF ok' S K o' Q] e by simp
  qed
qed

subsection \<open>Allocation from the lists\<close>

text \<open>Block \<open>p\<close> has been taken: it belongs to nobody.\<close>

definition taken :: "zone \<Rightarrow> nat \<Rightarrow> nat \<Rightarrow> zone \<Rightarrow> bool" where
  "taken z p o' z' \<longleftrightarrow> zone_ok z' (blk p o' + pcps z') \<and> (\<forall>c. pcp_count (pageset z' c) = int (length (pcp_list (pageset z' c)))) \<and>
     free_mset z' + pcps z' + blk p o' = free_mset z + pcps z \<and> 2 ^ o' dvd p \<and> moved (free_mset z + pcps z) z z'"

lemma zone_ok_weaken: "zone_ok z (C + B) \<Longrightarrow> zone_ok z B"
proof -
  assume a: "zone_ok z (C + B)"
  then have l: "lists_ok z (C + B)" by (simp add: zone_ok_def)
  show ?thesis
  proof (rule zone_ok_change [OF a same_lists_refl])
    show "count (free_mset z + B) q \<le> 1" for q using lists_okD(9) [OF l, of q] by simp
    show "\<not> bad_range z q \<and> page_count (mem_map z q) = 0 \<and> PG_reserved \<notin> flags (mem_map z q)" if "q \<in># B" for q
      using lists_okD(5-7) [OF l, of q] that by simp
  qed simp_all
qed

lemma pcp_refill_ok:
  assumes ok: "pcp_ok z"
  shows "\<exists>z'. (if pcp_count (pageset z c) \<le> low (pageset z c)
      then map_sum id (\<lambda>(allocated, list, z). z\<lparr>pageset := (pageset z)(c := (pageset z c)
               \<lparr>pcp_count := pcp_count (pageset z c) + allocated, pcp_list := list\<rparr>)\<rparr>)
             (rmqueue_bulk 0 (nat (batch (pageset z c))) (pcp_list (pageset z c)) z)
      else Inr z) = Inr z' \<and> pcp_ok z' \<and> free_mset z' + pcps z' = free_mset z + pcps z \<and> moved (free_mset z + pcps z) z z'"
proof (cases "pcp_count (pageset z c) \<le> low (pageset z c)")
  case False
  then show ?thesis using ok by (simp add: moved_def)
next
  case True
  let ?l = "pcp_list (pageset z c)" and ?r = "pcp_list (pageset z (\<not> c))"
  have "zone_ok z (mset ?l + mset ?r)" using ok by (simp add: pcp_ok_def pcps_split [of z c])
  from rmqueue_bulk_ok [OF this, of "nat (batch (pageset z c))"] obtain n l z1 where
    R: "rmqueue_bulk 0 (nat (batch (pageset z c))) ?l z = Inr (n, l, z1)" "zone_ok z1 (mset l + mset ?r)"
      "free_mset z1 + mset l = free_mset z + mset ?l" "int (length l) = int (length ?l) + n" "kept (set_mset (free_mset z)) z z1"
    by blast
  have ps: "pageset z1 = pageset z" using kept_sel(2) [OF R(5)] .
  let ?z = "z1\<lparr>pageset := (pageset z1)(c := (pageset z1 c)\<lparr>pcp_count := pcp_count (pageset z1 c) + n, pcp_list := l\<rparr>)\<rparr>"
  have P: "pcps ?z = mset l + mset ?r" by (subst pcps_upd) (simp add: ps)
  have "pcp_ok ?z" unfolding pcp_ok_def P using R(2,4) ok by (simp add: ps pcp_ok_def)
  moreover have "free_mset ?z + pcps ?z = free_mset z + pcps z" unfolding P using R(3) by (simp add: pcps_split [of z c] flip: add.assoc)
  moreover have "moved (free_mset z + pcps z) z ?z" using kept_moved [OF R(5)] by simp
  ultimately show ?thesis using True R(1) by auto
qed

lemma pcp_take_ok:
  assumes ok: "pcp_ok z" and l: "pcp_list (pageset z c) = p # list"
  shows "taken z p 0 (z\<lparr>pageset := (pageset z)(c := (pageset z c)\<lparr>pcp_list := list, pcp_count := pcp_count (pageset z c) - 1\<rparr>)\<rparr>)"
proof -
  let ?z = "z\<lparr>pageset := (pageset z)(c := (pageset z c)\<lparr>pcp_list := list, pcp_count := pcp_count (pageset z c) - 1\<rparr>)\<rparr>"
  have P: "pcps z = blk p 0 + pcps ?z" by (simp add: pcps_upd) (simp add: pcps_split [of z c] l)
  have "zone_ok z (blk p 0 + pcps ?z)" using ok unfolding pcp_ok_def P by blast
  moreover have "\<forall>d. pcp_count (pageset ?z d) = int (length (pcp_list (pageset ?z d)))" using ok l by (simp add: pcp_ok_def)
  ultimately show ?thesis unfolding taken_def P by (simp add: moved_def add_ac)
qed

lemma taken_after:
  assumes "taken z1 p o' z2" "free_mset z1 + pcps z1 = free_mset z + pcps z" "moved (free_mset z + pcps z) z z1"
  shows "taken z p o' z2"
  using assms unfolding taken_def by (simp add: moved_trans [OF assms(3)])

lemma u_rmqueue_taken:
  assumes ok: "pcp_ok z"
  obtains (some) p z' where "u_rmqueue o' z = Inr (Some p, z')" "taken z p o' z'"
    | (none) "u_rmqueue o' z = Inr (None, z)" "\<And>o1. o' \<le> o1 \<Longrightarrow> free_list z o1 = []"
proof -
  have z: "zone_ok z (pcps z)" using ok by (simp add: pcp_ok_def)
  show thesis
  proof (cases rule: u_rmqueue_ok [OF z, of o', case_names some none])
    case (some p z')
    have "pageset z' = pageset z" "pcps z' = pcps z" using kept_sel(2) [OF some(5)] by (simp_all add: pcps_def)
    moreover have "moved (free_mset z + pcps z) z z'" using kept_moved [OF some(5)] by simp
    moreover have "free_mset z' + pcps z + blk p o' = free_mset z + pcps z" by (simp flip: some(3))
    ultimately have "taken z p o' z'" unfolding taken_def using some(2,4) ok by (simp add: pcp_ok_def)
    then show thesis using that(1) some(1) by blast
  next
    case none
    then show thesis using that(2) by blast
  qed
qed

lemma prep_taken:
  assumes t: "taken z p o' z1"
  shows "pcp_ok (prep_new_page p z1)" "free_mset (prep_new_page p z1) = free_mset z1" "pcps (prep_new_page p z1) = pcps z1"
    "moved (free_mset z + pcps z) z (prep_new_page p z1)" "\<not> bad_range z1 p"
    "q \<in># blk p o' \<Longrightarrow> PG_reserved \<notin> flags (mem_map (prep_new_page p z1) q)"
proof -
  have ok: "zone_ok z1 (blk p o' + pcps z1)" and len: "\<forall>c. pcp_count (pageset z1 c) = int (length (pcp_list (pageset z1 c)))"
    and M: "free_mset z1 + pcps z1 + blk p o' = free_mset z + pcps z" and mv: "moved (free_mset z + pcps z) z z1"
    using t by (simp_all add: taken_def)
  have l: "lists_ok z1 (blk p o' + pcps z1)" using ok by (simp add: zone_ok_def)
  note C = prep_new_page_ok [where p = p and z = z1]
  have same: "mem_map (prep_new_page p z1) q = mem_map z1 q" if "q \<noteq> p" for q using kept_sel(3) [OF C(2)] that by simp
  have p1: "p \<notin># free_mset z1 + pcps z1"
    using lists_okD(9) [OF l, of p] by (simp add: count_blk flip: count_eq_zero_iff)
  show fm: "free_mset (prep_new_page p z1) = free_mset z1" using C(1) by (simp add: same_lists_def free_mset_def)
  have ps: "pageset (prep_new_page p z1) = pageset z1" using kept_sel(2) [OF C(2)] .
  then show pc: "pcps (prep_new_page p z1) = pcps z1" by (simp add: pcps_def)
  have "zone_ok (prep_new_page p z1) (pcps z1)"
  proof (rule zone_ok_change [OF ok C(1)])
    show "mem_map (prep_new_page p z1) q = mem_map z1 q" if "q \<in># free_mset z1" for q using that p1 same [of q] by (cases "q = p") auto
    show "mem_map (prep_new_page p z1) q = mem_map z1 q \<or> PG_private \<notin> flags (mem_map (prep_new_page p z1) q) \<or>
        page_count (mem_map (prep_new_page p z1) q) \<noteq> 0" for q using C(3) same by (cases "q = p") auto
    show "\<not> bad_range z1 q \<and> page_count (mem_map (prep_new_page p z1) q) = 0 \<and> PG_reserved \<notin> flags (mem_map (prep_new_page p z1) q)"
      if "q \<in># pcps z1" for q using lists_okD(5-7) [OF l, of q] that same [of q] p1 by (cases "q = p") auto
    show "count (free_mset z1 + pcps z1) q \<le> 1" for q using lists_okD(9) [OF l, of q] by simp
  qed
  then show "pcp_ok (prep_new_page p z1)" using len by (simp add: pcp_ok_def pc ps)
  have "p \<in># free_mset z + pcps z" by (simp flip: M)
  then show "moved (free_mset z + pcps z) z (prep_new_page p z1)"
    using moved_trans [OF mv kept_moved [OF C(2)]] by simp
  show "\<not> bad_range z1 p" using lists_okD(5) [OF l, of p] by simp
  show "PG_reserved \<notin> flags (mem_map (prep_new_page p z1) q)" if "q \<in># blk p o'"
    using lists_okD(7) [OF l, of q] that C(5) same [of q] by (cases "q = p") auto
qed

text \<open>What \<open>buffered_rmqueue\<close> returns.\<close>

definition zeroable :: "gfp set \<Rightarrow> bool" where
  "zeroable g \<longleftrightarrow> \<not> (GFP_ZERO \<in> g \<and> g \<inter> {GFP_WAIT, GFP_HIGHMEM} = {GFP_HIGHMEM})"

lemma buffered_rmqueue_ok:
  assumes ok: "pcp_ok z" and g: "zeroable g"
  shows "(\<exists>p z1. buffered_rmqueue o' g z = Inr (Some p, prep_new_page p z1) \<and> taken z p o' z1) \<or>
    (\<exists>z1. buffered_rmqueue o' g z = Inr (None, z1) \<and> pcp_ok z1 \<and> free_mset z1 + pcps z1 = free_mset z + pcps z \<and>
      moved (free_mset z + pcps z) z z1 \<and> (\<forall>o1 \<ge> o'. free_list z1 o1 = []))"
proof -
  let ?c = "GFP_COLD \<in> g"
  have fin: "(if GFP_ZERO \<in> g then prep_zero_page g x else Inr x) = Inr x" for x
    using g by (auto simp: zeroable_def prep_zero_page_def)
  let ?last = "\<lambda>(page, z). case page of None \<Rightarrow> Inr (None, z) | Some p \<Rightarrow> if bad_range z p then Inl BUG else Inr (Some p, prep_new_page p z)"
  have last: ?thesis if z1: "pcp_ok z1" "free_mset z1 + pcps z1 = free_mset z + pcps z" "moved (free_mset z + pcps z) z z1"
      and e: "buffered_rmqueue o' g z = bind_res (u_rmqueue o' z1) ?last" for z1
  proof (cases rule: u_rmqueue_taken [OF z1(1), of o', case_names some none])
    case (some p z2)
    then have "buffered_rmqueue o' g z = Inr (Some p, prep_new_page p z2)" using e prep_taken(5) [OF some(2)] by simp
    then show ?thesis using taken_after [OF some(2) z1(2,3)] by blast
  next
    case none
    then have "buffered_rmqueue o' g z = Inr (None, z1)" using e by simp
    then show ?thesis using z1 none(2) by blast
  qed
  show ?thesis
  proof (cases "o' = 0")
    case False
    then have "buffered_rmqueue o' g z = bind_res (u_rmqueue o' z) ?last"
      unfolding buffered_rmqueue_def Let_def fin map_sum.simps by simp
    then show ?thesis using last [OF ok] by (simp add: moved_def)
  next
    case True
    obtain z1 where R: "(if pcp_count (pageset z ?c) \<le> low (pageset z ?c)
        then map_sum id (\<lambda>(allocated, list, z). z\<lparr>pageset := (pageset z)(?c := (pageset z ?c)
                 \<lparr>pcp_count := pcp_count (pageset z ?c) + allocated, pcp_list := list\<rparr>)\<rparr>)
               (rmqueue_bulk 0 (nat (batch (pageset z ?c))) (pcp_list (pageset z ?c)) z)
        else Inr z) = Inr z1" "pcp_ok z1" "free_mset z1 + pcps z1 = free_mset z + pcps z" "moved (free_mset z + pcps z) z z1"
      using pcp_refill_ok [OF ok, of ?c] by blast
    show ?thesis
    proof (cases "pcp_list (pageset z1 ?c)")
      case Nil
      then have "pcp_count (pageset z1 ?c) = 0" using R(2) by (simp add: pcp_ok_def)
      then have "buffered_rmqueue o' g z = bind_res (u_rmqueue o' z1) ?last"
        using True unfolding buffered_rmqueue_def Let_def fin map_sum.simps R(1) by simp
      then show ?thesis using last [OF R(2-4)] by blast
    next
      case (Cons p list)
      let ?z = "z1\<lparr>pageset := (pageset z1)(?c := (pageset z1 ?c)\<lparr>pcp_list := list, pcp_count := pcp_count (pageset z1 ?c) - 1\<rparr>)\<rparr>"
      have T: "taken z1 p 0 ?z" using pcp_take_ok [OF R(2) Cons] .
      have "pcp_count (pageset z1 ?c) \<noteq> 0" using R(2) Cons by (simp add: pcp_ok_def)
      then have "buffered_rmqueue o' g z = Inr (Some p, prep_new_page p ?z)"
        using True Cons prep_taken(5) [OF T] unfolding buffered_rmqueue_def Let_def fin map_sum.simps R(1) by simp
      then show ?thesis using taken_after [OF T R(3,4)] True by blast
    qed
  qed
qed

subsection \<open>The allocator and its users\<close>

text \<open>The zone with the blocks that are in use and the pages that the boot memory allocator still has.\<close>

record page_sys =
  zn :: zone
  used :: "(nat \<times> nat) multiset"
  boot :: "nat multiset"

definition used_pages :: "(nat \<times> nat) multiset \<Rightarrow> nat multiset" where
  "used_pages U = (\<Sum>(p, o') \<in># U. blk p o')"

definition zone_pages :: "zone \<Rightarrow> nat multiset" where
  "zone_pages z = mset_set {zone_start_pfn z..<zone_start_pfn z + spanned_pages z}"

text \<open>A step: the boot memory allocator releases a block, a block is allocated or the allocation fails, the owner of
  a block changes the state of one of its pages, or drops the last reference to the block. The owner may
  use \<open>PG_private\<close> only on a page that has a reference, and does not reserve pages.\<close>

inductive page_step :: "page_sys \<Rightarrow> page_sys \<Rightarrow> bool" where
  release: "o' < MAX_ORDER \<Longrightarrow> 2 ^ o' dvd p \<Longrightarrow> blk p o' \<subseteq># boot s \<Longrightarrow> release_bootmem p o' (zn s) = Inr z \<Longrightarrow>
    page_step s (s\<lparr>zn := z, boot := boot s - blk p o'\<rparr>)"
| get: "o' < MAX_ORDER \<Longrightarrow> zeroable g \<Longrightarrow> buffered_rmqueue o' g (zn s) = Inr (Some p, z) \<Longrightarrow>
    page_step s (s\<lparr>zn := z, used := add_mset (p, o') (used s)\<rparr>)"
| fail: "zeroable g \<Longrightarrow> buffered_rmqueue o' g (zn s) = Inr (None, z) \<Longrightarrow> page_step s (s\<lparr>zn := z\<rparr>)"
| touch: "(p, o') \<in># used s \<Longrightarrow> q \<in># blk p o' \<Longrightarrow> PG_reserved \<notin> flags pg \<Longrightarrow> (PG_private \<in> flags pg \<longrightarrow> page_count pg \<noteq> 0) \<Longrightarrow>
    page_step s (s\<lparr>zn := upd_page q (\<lambda>_. pg) (zn s)\<rparr>)"
| put: "(p, o') \<in># used s \<Longrightarrow> page_count (mem_map (zn s) p) = 1 \<Longrightarrow> u_free_pages p o' (zn s) = Inr z \<Longrightarrow>
    page_step s (s\<lparr>zn := z, used := used s - {#(p, o')#}\<rparr>)"

definition page_init :: "page_sys \<Rightarrow> bool" where
  "page_init s \<longleftrightarrow> (\<exists>start pages reserve. zn s = free_area_init start pages reserve) \<and> used s = {#} \<and> boot s = zone_pages (zn s)"

definition page_inv :: "page_sys \<Rightarrow> bool" where
  "page_inv s \<longleftrightarrow> pcp_ok (zn s) \<and> free_mset (zn s) + pcps (zn s) + used_pages (used s) + boot s = zone_pages (zn s) \<and>
     (\<forall>q \<in># zone_pages (zn s). \<not> bad_range (zn s) q) \<and>
     (\<forall>(p, o') \<in># used s. o' < MAX_ORDER \<and> 2 ^ o' dvd p) \<and>
     (\<forall>q \<in># used_pages (used s). PG_reserved \<notin> flags (mem_map (zn s) q))"

lemma page_invD:
  assumes "page_inv s"
  shows "pcp_ok (zn s)" "free_mset (zn s) + pcps (zn s) + used_pages (used s) + boot s = zone_pages (zn s)"
    "q \<in># zone_pages (zn s) \<Longrightarrow> \<not> bad_range (zn s) q" "(p, o') \<in># used s \<Longrightarrow> o' < MAX_ORDER \<and> 2 ^ o' dvd p"
    "q \<in># used_pages (used s) \<Longrightarrow> PG_reserved \<notin> flags (mem_map (zn s) q)"
  using assms by (auto simp: page_inv_def)

lemma used_pages_simps [simp]: "used_pages {#} = {#}" "used_pages (add_mset (p, o') U) = blk p o' + used_pages U"
  by (simp_all add: used_pages_def)

lemma used_pages_remove: "(p, o') \<in># U \<Longrightarrow> used_pages U = blk p o' + used_pages (U - {#(p, o')#})"
  by (metis insert_DiffM used_pages_simps(2))

lemma moved_sel: "moved S z z' \<Longrightarrow> bad_range z' = bad_range z" "moved S z z' \<Longrightarrow> zone_pages z' = zone_pages z"
    "moved S z z' \<Longrightarrow> q \<notin># S \<Longrightarrow> mem_map z' q = mem_map z q"
  by (simp_all add: moved_def bad_range_def zone_pages_def fun_eq_iff)

lemma zone_pages_once: "count (zone_pages z) q \<le> 1"
  by (simp add: zone_pages_def count_mset_set')

text \<open>A page has one place.\<close>

lemma one_place:
  assumes inv: "page_inv s" and q: "q \<in># used_pages (used s) + boot s"
  shows "q \<notin># free_mset (zn s) + pcps (zn s)" "\<not> bad_range (zn s) q"
proof -
  note E = page_invD(2) [OF inv]
  have "count (free_mset (zn s) + pcps (zn s)) q + count (used_pages (used s) + boot s) q \<le> 1"
    using zone_pages_once [of "zn s" q] by (simp flip: E)
  moreover have "count (used_pages (used s) + boot s) q > 0" using q by (simp only: count_greater_zero_iff)
  ultimately show "q \<notin># free_mset (zn s) + pcps (zn s)" by (simp only: not_in_iff)
  have "q \<in># zone_pages (zn s)" using q by (simp flip: E)
  then show "\<not> bad_range (zn s) q" using page_invD(3) [OF inv] by blast
qed

lemma used_boot_apart:
  assumes inv: "page_inv s" and q: "q \<in># used_pages (used s)"
  shows "q \<notin># boot s" "used_pages (used s) = B + C \<Longrightarrow> q \<in># B \<Longrightarrow> q \<notin># C"
proof -
  have c: "count (used_pages (used s)) q + count (boot s) q \<le> 1"
    using zone_pages_once [of "zn s" q] by (simp flip: page_invD(2) [OF inv])
  then show "q \<notin># boot s" using q by (simp add: not_in_iff flip: count_greater_zero_iff)
  show "q \<notin># C" if "used_pages (used s) = B + C" "q \<in># B"
    using c that by (simp add: not_in_iff flip: count_greater_zero_iff)
qed

text \<open>Blocks come back from the boot memory allocator and from their owners.\<close>

lemma page_inv_back:
  assumes inv: "page_inv s" and z: "pcp_ok z" "free_mset z + pcps z = free_mset (zn s) + pcps (zn s) + blk p o'"
      "moved (free_mset (zn s) + pcps (zn s) + blk p o') (zn s) z"
    and s': "zn s' = z" "used_pages (used s') + boot s' + blk p o' = used_pages (used s) + boot s" "used s' \<subseteq># used s"
      "used_pages (used s') \<subseteq># used_pages (used s)" "\<And>q. q \<in># used_pages (used s') \<Longrightarrow> q \<notin># blk p o'"
  shows "page_inv s'"
proof -
  note I = page_invD [OF inv] and M = moved_sel [OF z(3)]
  have "free_mset z + pcps z + used_pages (used s') + boot s' =
      free_mset (zn s) + pcps (zn s) + (used_pages (used s') + boot s' + blk p o')" by (simp only: z(2) add_ac)
  then have "free_mset z + pcps z + used_pages (used s') + boot s' = zone_pages (zn s)" unfolding s'(2) using I(2) by (simp only: add.assoc)
  moreover have "PG_reserved \<notin> flags (mem_map z q)" if "q \<in># used_pages (used s')" for q
  proof -
    have "q \<in># used_pages (used s)" using s'(4) that by (rule mset_subset_eqD)
    then show ?thesis using I(5) M(3) [of q] one_place(1) [OF inv, of q] s'(5) [OF that] by simp
  qed
  moreover have "o1 < MAX_ORDER \<and> 2 ^ o1 dvd r" if "(r, o1) \<in># used s'" for r o1 using I(4) mset_subset_eqD [OF s'(3) that] .
  ultimately show ?thesis using z(1) I(3) by (auto simp: page_inv_def s'(1) M(1,2))
qed

lemma release_bootmem_ok:
  assumes inv: "page_inv s" and o': "o' < MAX_ORDER" "2 ^ o' dvd p" and b: "blk p o' \<subseteq># boot s"
  shows "\<exists>z'. release_bootmem p o' (zn s) = Inr z' \<and> (o' \<noteq> 0 \<longrightarrow> pageset z' = pageset (zn s)) \<and> pcp_ok z' \<and> free_mset z' + pcps z' = free_mset (zn s) + pcps (zn s) + blk p o' \<and>
    moved (free_mset (zn s) + pcps (zn s) + blk p o') (zn s) z'"
proof -
  let ?f = "\<lambda>q. upd_page q (\<lambda>pg. pg\<lparr>flags := flags pg - {PG_reserved}\<rparr>)"
  let ?z = "fold (\<lambda>i. ?f (p + i)) [0..<2 ^ o'] (zn s)"
  have F: "same_lists (zn s) ?z \<and> kept {p..<p + 2 ^ o'} (zn s) ?z \<and> (\<forall>i < 2 ^ o'. PG_reserved \<notin> flags (mem_map ?z (p + i)))"
    by (rule fold_pages [where P = "\<lambda>_. True"]) (simp_all add: kept_upd)
  let ?r = "set_page_refs p ?z"
  have S: "same_lists (zn s) ?r" unfolding set_page_refs_def using F same_lists_trans same_lists_upd by blast
  have K: "kept {p..<p + 2 ^ o'} (zn s) ?r" unfolding set_page_refs_def by (rule kept_then_upd) (use F in auto)
  have c: "page_count (mem_map ?r p) = 1" by (simp add: set_page_refs_def)
  have "\<not> bad_range (zn s) q \<and> q \<notin># free_mset (zn s) + pcps (zn s) \<and> PG_reserved \<notin> flags (mem_map ?r q)" if q: "q \<in># blk p o'" for q
  proof -
    have "q \<in># used_pages (used s) + boot s" using mset_subset_eqD [OF b q] by simp
    moreover obtain i where "q = p + i" "i < 2 ^ o'" using q le_Suc_ex [of p q] by auto
    then have "PG_reserved \<notin> flags (mem_map ?z q)" using F by simp
    ultimately show ?thesis using one_place [OF inv] by (auto simp: set_page_refs_def)
  qed
  from u_free_pages_last [OF page_invD(1) [OF inv] S K o' this c] show ?thesis by (simp add: release_bootmem_def)
qed

lemma u_free_pages_used:
  assumes inv: "page_inv s" and u: "(p, o') \<in># used s" and c: "page_count (mem_map (zn s) p) = 1"
  shows "\<exists>z'. u_free_pages p o' (zn s) = Inr z' \<and> (o' \<noteq> 0 \<longrightarrow> pageset z' = pageset (zn s)) \<and> pcp_ok z' \<and> free_mset z' + pcps z' = free_mset (zn s) + pcps (zn s) + blk p o' \<and>
    moved (free_mset (zn s) + pcps (zn s) + blk p o') (zn s) z'"
proof -
  have "\<not> bad_range (zn s) q \<and> q \<notin># free_mset (zn s) + pcps (zn s) \<and> PG_reserved \<notin> flags (mem_map (zn s) q)" if q: "q \<in># blk p o'" for q
  proof -
    have "q \<in># used_pages (used s)" using q used_pages_remove [OF u] by simp
    then show ?thesis using one_place [OF inv, of q] page_invD(5) [OF inv, of q] by simp
  qed
  from u_free_pages_last [OF page_invD(1) [OF inv] same_lists_refl kept_refl _ _ this c] page_invD(4) [OF inv u]
  show ?thesis by blast
qed

lemma page_inv_get:
  assumes inv: "page_inv s" and t: "taken (zn s) p o' z1" and o': "o' < MAX_ORDER"
  shows "page_inv (s\<lparr>zn := prep_new_page p z1, used := add_mset (p, o') (used s)\<rparr>)"
proof -
  note I = page_invD [OF inv] and P = prep_taken [OF t]
  note M = moved_sel [OF P(4)]
  have t': "free_mset z1 + pcps z1 + blk p o' = free_mset (zn s) + pcps (zn s)" "2 ^ o' dvd p" using t by (simp_all add: taken_def)
  have "free_mset z1 + pcps z1 + (blk p o' + used_pages (used s)) + boot s = zone_pages (zn s)"
    using I(2) unfolding t'(1) [symmetric] by (simp only: add.assoc)
  moreover have "PG_reserved \<notin> flags (mem_map (prep_new_page p z1) q)" if "q \<in># blk p o' + used_pages (used s)" for q
  proof (cases "q \<in># blk p o'")
    case True
    then show ?thesis by (rule P(6))
  next
    case False
    then have "q \<in># used_pages (used s)" using that by (metis union_iff)
    then show ?thesis using I(5) M(3) [of q] one_place(1) [OF inv, of q] by simp
  qed
  ultimately show ?thesis using P(1) I(3,4) o' t'(2) unfolding page_inv_def by (auto simp: P(2,3) M(1,2))
qed

lemma page_inv_fail:
  assumes inv: "page_inv s" and z: "pcp_ok z" "free_mset z + pcps z = free_mset (zn s) + pcps (zn s)" "moved (free_mset (zn s) + pcps (zn s)) (zn s) z"
  shows "page_inv (s\<lparr>zn := z\<rparr>)"
proof -
  note I = page_invD [OF inv] and M = moved_sel [OF z(3)]
  have "PG_reserved \<notin> flags (mem_map z q)" if "q \<in># used_pages (used s)" for q
    using I(5) [OF that] M(3) [of q] one_place(1) [OF inv, of q] that by simp
  then show ?thesis using z(1,2) I(2-4) by (auto simp: page_inv_def M(1,2))
qed

lemma page_inv_touch:
  assumes inv: "page_inv s" and q: "(p, o') \<in># used s" "q \<in># blk p o'" and pg: "PG_reserved \<notin> flags pg" "PG_private \<in> flags pg \<longrightarrow> page_count pg \<noteq> 0"
  shows "page_inv (s\<lparr>zn := upd_page q (\<lambda>_. pg) (zn s)\<rparr>)"
proof -
  note I = page_invD [OF inv]
  let ?z = "upd_page q (\<lambda>_. pg) (zn s)"
  have "q \<in># used_pages (used s)" using q(2) used_pages_remove [OF q(1)] by simp
  then have out: "q \<notin># free_mset (zn s) + pcps (zn s)" using one_place(1) [OF inv, of q] by simp
  have ok: "zone_ok (zn s) (pcps (zn s))" using I(1) by (simp add: pcp_ok_def)
  then have l: "lists_ok (zn s) (pcps (zn s))" by (simp add: zone_ok_def)
  have "zone_ok ?z (pcps (zn s))"
  proof (rule zone_ok_change [OF ok same_lists_upd])
    show "\<not> bad_range (zn s) r \<and> page_count (mem_map ?z r) = 0 \<and> PG_reserved \<notin> flags (mem_map ?z r)" if "r \<in># pcps (zn s)" for r
      using lists_okD(5-7) [OF l, of r] that out by auto
    show "count (free_mset (zn s) + pcps (zn s)) r \<le> 1" for r using lists_okD(9) [OF l] .
  qed (use out pg in auto)
  moreover have "pcps ?z = pcps (zn s)" by (simp add: pcps_def)
  moreover have "zone_pages ?z = zone_pages (zn s)" by (simp add: zone_pages_def upd_page_def)
  ultimately show ?thesis using I pg(1) by (auto simp: page_inv_def pcp_ok_def)
qed

lemma page_step_inv:
  assumes inv: "page_inv s" and step: "page_step s s'"
  shows "page_inv s'"
  using step
proof cases
  case (release o' p z)
  then obtain z' where R: "release_bootmem p o' (zn s) = Inr z'" "pcp_ok z'"
      "free_mset z' + pcps z' = free_mset (zn s) + pcps (zn s) + blk p o'" "moved (free_mset (zn s) + pcps (zn s) + blk p o') (zn s) z'"
    using release_bootmem_ok [OF inv] by blast
  have "q \<notin># blk p o'" if "q \<in># used_pages (used s)" for q
    using used_boot_apart(1) [OF inv that] mset_subset_eqD [OF release(4)] by blast
  moreover have "used_pages (used s) + (boot s - blk p o') + blk p o' = used_pages (used s) + boot s"
    by (simp only: add.assoc subset_mset.diff_add [OF release(4)])
  ultimately show ?thesis using R(1) release(5) unfolding release(1) by (intro page_inv_back [OF inv R(2-4)]) simp_all
next
  case (get o' g p z)
  then show ?thesis using buffered_rmqueue_ok [OF page_invD(1) [OF inv] get(3), of o'] page_inv_get [OF inv] by auto
next
  case (fail g o' z)
  then show ?thesis using buffered_rmqueue_ok [OF page_invD(1) [OF inv] fail(2), of o'] page_inv_fail [OF inv] by auto
next
  case (touch p o' q pg)
  then show ?thesis using page_inv_touch [OF inv] by blast
next
  case (put p o' z)
  then obtain z' where R: "u_free_pages p o' (zn s) = Inr z'" "pcp_ok z'"
      "free_mset z' + pcps z' = free_mset (zn s) + pcps (zn s) + blk p o'" "moved (free_mset (zn s) + pcps (zn s) + blk p o') (zn s) z'"
    using u_free_pages_used [OF inv] by blast
  note U = used_pages_remove [OF put(2)]
  have "q \<notin># blk p o'" if "q \<in># used_pages (used s - {#(p, o')#})" for q
    using used_boot_apart(2) [OF inv _ U, of q] that U by auto
  then show ?thesis using R(1) put(4) U unfolding put(1) by (intro page_inv_back [OF inv R(2-4)]) (simp_all add: add_ac)
qed

lemma page_init_inv: "page_init s \<Longrightarrow> page_inv s"
proof -
  assume "page_init s"
  then obtain start pages reserve where z: "zn s = free_area_init start pages reserve" "used s = {#}" "boot s = zone_pages (zn s)"
    by (auto simp: page_init_def)
  have e: "free_list (zn s) = (\<lambda>o'. [])" "nr_free (zn s) = (\<lambda>o'. 0)" "free_pages (zn s) = 0" "pcps (zn s) = {#}"
    by (simp_all add: z init_defs Let_def pcps_def)
  then have f: "free_mset (zn s) = {#}" by (simp add: free_mset_def)
  have "lists_ok (zn s) {#}" unfolding lists_ok_def f
    by (simp add: e) (simp add: z init_defs Let_def page_is_buddy_def)
  moreover have "pcp_count (pageset (zn s) c) = int (length (pcp_list (pageset (zn s) c)))" for c
    by (simp add: z init_defs Let_def)
  ultimately have "pcp_ok (zn s)" by (simp add: pcp_ok_def zone_ok_def e f)
  moreover have "\<not> bad_range (zn s) q" if "q \<in># zone_pages (zn s)" for q
    using that by (simp add: z(1) init_defs Let_def zone_pages_def bad_range_def)
  ultimately show ?thesis by (simp add: page_inv_def e f z(2,3))
qed

interpretation page_allocator: transition_system page_init page_step page_inv
  by unfold_locales (rule page_init_inv, assumption, rule page_step_inv)

subsection \<open>Coalescing\<close>

lemma unique_block:
  assumes ok: "lists_ok z B" and p: "p \<in> set (free_list z o')" "q \<in># blk p o'" and r: "r \<in> set (free_list z o1)" "q \<in># blk r o1"
  shows "p = r \<and> o' = o1"
proof (cases "p = r")
  case True
  have "page_is_buddy (mem_map z p) o'" "page_is_buddy (mem_map z p) o1"
    using lists_okD(8) [OF ok] lists_okD(5) [OF ok, of p] head_free [OF ok p(1)] head_free [OF ok r(1)] p(1) r(1) True by auto
  then show ?thesis using True by (simp add: page_is_buddy_def)
next
  case False
  note D = area_take(2) [OF ok p(1)]
  have "r \<in> set (free_list (area_del p o' z) o1)" using r(1) False by simp
  moreover have "o1 < MAX_ORDER" using head_free [OF ok r(1)] by simp
  ultimately have "q \<in># free_mset (area_del p o' z)" using r(2) unfolding in_free_mset by auto
  then have "count (free_mset (area_del p o' z)) q + count (blk p o') q \<ge> 2" using p(2) by (simp add: Suc_le_eq count_blk)
  moreover have "count (free_mset z) q = count (free_mset (area_del p o' z)) q + count (blk p o') q" by (simp flip: D)
  ultimately show ?thesis using lists_okD(9) [OF ok, of q] by simp
qed

lemma aligned_eq:
  fixes a b n :: nat
  assumes "n dvd a" "n dvd b" "a \<le> b" "b < a + n"
  shows "a = b"
proof -
  have "n dvd b - a" using assms(1,2) by (rule dvd_diff_nat [rotated])
  then show ?thesis using assms(3,4) by (auto dest: dvd_imp_le)
qed

lemma aligned_inside:
  fixes x a c n m :: nat
  assumes "n dvd m" "n dvd x" "m dvd a" "m dvd c" "a \<le> x + d" "d < n" "x + d < a + c"
  shows "a \<le> x \<and> x + n \<le> a + c"
proof -
  have na: "n dvd a" and nc: "n dvd a + c" using assms by (auto intro: dvd_trans)
  obtain i j k where ijk: "a = n * i" "a + c = n * j" "x = n * k" using na nc assms(2) by (meson dvdE)
  have "0 < n" using assms(6) by simp
  have "n * i < n * Suc k" using assms(5,6) ijk by simp
  moreover have "n * k < n * j" using assms(7) unfolding ijk(2,3) by linarith
  ultimately have "i \<le> k" "Suc k \<le> j" using \<open>0 < n\<close> by (simp_all only: mult_less_cancel1 less_Suc_eq_le Suc_le_eq)
  then have "n * i \<le> n * k" "n * Suc k \<le> n * j" by (simp_all only: mult_le_mono2)
  then show ?thesis unfolding ijk(2) ijk(3) using ijk(1) by simp
qed

text \<open>An aligned block whose pages are all on the free lists is inside one block of the lists.\<close>

lemma coalesced:
  assumes ok: "lists_ok z B"
  shows "o' < MAX_ORDER \<Longrightarrow> 2 ^ o' dvd p \<Longrightarrow> (\<And>q. q \<in># blk p o' \<Longrightarrow> q \<in># free_mset z) \<Longrightarrow>
    \<exists>o1 r. o' \<le> o1 \<and> r \<in> set (free_list z o1) \<and> r \<le> p \<and> p + 2 ^ o' \<le> r + 2 ^ o1"
proof (induction o' arbitrary: p)
  case 0
  have "p \<in># free_mset z" using "0.prems"(3) by simp
  then show ?case unfolding in_free_mset by (auto simp: Suc_le_eq)
next
  case (Suc o')
  let ?n = "2 ^ o' :: nat"
  have al: "?n dvd p" "?n dvd p + ?n" using Suc.prems(2) by (auto intro: dvd_add dvd_mult_right)
  obtain o1 r1 where 1: "o' \<le> o1" "r1 \<in> set (free_list z o1)" "r1 \<le> p" "p + ?n \<le> r1 + 2 ^ o1"
    using Suc.IH [OF _ al(1)] Suc.prems(1,3) by auto
  obtain o2 r2 where 2: "o' \<le> o2" "r2 \<in> set (free_list z o2)" "r2 \<le> p + ?n" "p + ?n + ?n \<le> r2 + 2 ^ o2"
    using Suc.IH [OF _ al(2)] Suc.prems(1,3) by auto
  have whole: "\<exists>o1 r. Suc o' \<le> o1 \<and> r \<in> set (free_list z o1) \<and> r \<le> p \<and> p + 2 ^ Suc o' \<le> r + 2 ^ o1"
    if "Suc o' \<le> o1" "r \<in> set (free_list z o1)" "r \<le> p + d" "d < 2 ^ Suc o'" "p + d < r + 2 ^ o1" for o1 r d
    using aligned_inside [of "2 ^ Suc o'" "2 ^ o1" p r "2 ^ o1" d] Suc.prems(2) lists_okD(4) [OF ok that(2)] that le_imp_power_dvd by blast
  have n: "0 < ?n" "?n < 2 ^ Suc o'" by simp_all
  show ?case
  proof (cases "Suc o' \<le> o1 \<or> Suc o' \<le> o2")
    case True
    then show ?thesis using whole [of o1 r1 0] whole [of o2 r2 ?n] 1 2 n by auto
  next
    case False
    then have e: "o1 = o'" "o2 = o'" using 1(1) 2(1) by simp_all
    then have "r1 = p" "r2 = p + ?n" using 1(3,4) 2(3,4) by simp_all
    moreover have "buddy p o' = p + ?n"
      using Suc.prems(2) by (auto simp: buddy_eq elim!: dvdE)
    ultimately show ?thesis using lists_okD(10) [OF ok, of o' p] Suc.prems(1) 1(2) 2(2) e by simp
  qed
qed

text \<open>When every page of a zone is on the free lists, and the zone is a multiple of the largest block, then all blocks
  have the largest order.\<close>

lemma all_free_all_large:
  assumes ok: "lists_ok z B" and al: "2 ^ (MAX_ORDER - 1) dvd zone_start_pfn z" "2 ^ (MAX_ORDER - 1) dvd spanned_pages z"
    and all: "free_mset z = zone_pages z" and o': "o' < MAX_ORDER - 1"
  shows "free_list z o' = []"
proof (rule ccontr)
  assume "free_list z o' \<noteq> []"
  then obtain p where p: "p \<in> set (free_list z o')" by (cases "free_list z o'") auto
  let ?m = "2 ^ (MAX_ORDER - 1) :: nat"
  let ?u = "p div ?m * ?m"
  have pu: "p = ?u + p mod ?m" "p mod ?m < ?m" by simp_all
  have "p \<in># zone_pages z" using head_free [OF ok p] all by simp
  then have "zone_start_pfn z \<le> ?u \<and> ?u + ?m \<le> zone_start_pfn z + spanned_pages z"
    using al pu by (intro aligned_inside [of _ ?m _ _ _ "p mod ?m"]) (simp_all add: zone_pages_def)
  then have "\<exists>o1 r. MAX_ORDER - 1 \<le> o1 \<and> r \<in> set (free_list z o1) \<and> r \<le> ?u \<and> ?u + ?m \<le> r + 2 ^ o1"
    by (intro coalesced [OF ok]) (auto simp: all zone_pages_def)
  then obtain o1 r where r: "MAX_ORDER - 1 \<le> o1" "r \<in> set (free_list z o1)" "r \<le> ?u" "?u + ?m \<le> r + 2 ^ o1" by blast
  have "r \<le> p" "p < r + 2 ^ o1" using pu r(3,4) by linarith+
  have "o' = o1" using unique_block [OF ok p _ r(2), of p] \<open>r \<le> p\<close> \<open>p < r + 2 ^ o1\<close> by simp
  then show False using r(1) o' by simp
qed

subsection \<open>Watermarks\<close>

lemma size_free_mset: "size (free_mset z) = (\<Sum>o' < MAX_ORDER. 2 ^ o' * length (free_list z o'))"
proof -
  have "size (\<Sum>p \<in># M. blk p o') = 2 ^ o' * size M" for M o' by (induction M) simp_all
  then have "size (\<Sum>p \<in># mset (free_list z o'). blk p o') = 2 ^ o' * length (free_list z o')" for o' by simp
  moreover have "size (\<Sum>i \<in> I. f i) = (\<Sum>i \<in> I. size (f i))" if "finite I" for I and f :: "nat \<Rightarrow> nat multiset"
    using that by (induction I) simp_all
  ultimately show ?thesis unfolding free_mset_def by simp
qed

text \<open>The pages in the blocks of orders \<open>a\<close> to \<open>b - 1\<close>.\<close>

definition order_pages :: "zone \<Rightarrow> nat \<Rightarrow> nat \<Rightarrow> int" where
  "order_pages z a b = (\<Sum>o' \<in> {a..<b}. 2 ^ o' * int (length (free_list z o')))"

lemma order_pages_nonneg: "0 \<le> order_pages z a b"
  by (simp add: order_pages_def sum_nonneg)

lemma order_pages_Suc: "a < b \<Longrightarrow> order_pages z a b = 2 ^ a * int (length (free_list z a)) + order_pages z (Suc a) b"
  by (simp add: order_pages_def sum.atLeast_Suc_lessThan)

lemma sint_word_of_int:
  assumes "- (2 ^ 31) \<le> v" "v < 2 ^ 31"
  shows "sint (word_of_int v :: u32) = v"
  using assms by (simp add: sint_uint unsigned_of_int signed_take_bit_take_bit signed_take_bit_int_eq_self)

lemma watermark_loop_ok:
  assumes "watermark_loop z order o' mn (word_of_int v)" "o' < order" "0 \<le> mn" "v < 2 ^ 31" "- (2 ^ 31) \<le> v - order_pages z o' order"
    and nr: "\<And>o1. nr_free z o1 = of_nat (length (free_list z o1))"
  shows "0 < v - order_pages z o' order"
  using assms(1-5)
proof (induction "order - o'" arbitrary: o' mn v)
  case 0
  then show ?case by simp
next
  case (Suc m)
  let ?w = "v - 2 ^ o' * int (length (free_list z o'))"
  have op: "order_pages z o' order = 2 ^ o' * int (length (free_list z o')) + order_pages z (Suc o') order"
    using Suc.prems(2) by (rule order_pages_Suc)
  have pos: "0 \<le> 2 ^ o' * int (length (free_list z o'))" by simp
  have "word_of_int v - push_bit o' (nr_free z o') = (word_of_int ?w :: u32)" by (simp add: nr push_bit_eq_mult)
  moreover have "sint (word_of_int ?w :: u32) = ?w"
    using Suc.prems(4,5) pos order_pages_nonneg [of z "Suc o'" order] unfolding op by (intro sint_word_of_int) linarith+
  ultimately have L: "mn div 2 < ?w" "watermark_loop z order (Suc o') (mn div 2) (word_of_int ?w)"
    using Suc.prems(1,2) by (simp_all add: watermark_loop.simps [of z order o'] Let_def split: if_splits)
  show ?case
  proof (cases "Suc o' < order")
    case True
    have "0 < ?w - order_pages z (Suc o') order"
      using Suc.hyps(2) True Suc.prems(3-5) pos unfolding op by (intro Suc.hyps(1) [OF _ L(2)]) linarith+
    then show ?thesis unfolding op by simp
  next
    case False
    then have "order_pages z (Suc o') order = 0" by (simp add: order_pages_def)
    then show ?thesis using L(1) Suc.prems(3) unfolding op by simp
  qed
qed

lemma zone_watermark_block:
  assumes ok: "zone_ok z B" and w: "zone_watermark_ok z order mark h g" and o': "order < MAX_ORDER"
    and mark: "mark < 2 ^ 31" and small: "size (free_mset z) < 2 ^ 30"
  shows "\<exists>o1 \<ge> order. free_list z o1 \<noteq> []"
proof -
  have l: "lists_ok z B" and fp: "free_pages z = of_nat (size (free_mset z))" using ok by (simp_all add: zone_ok_def)
  let ?n = "int (size (free_mset z))"
  let ?v = "?n - 2 ^ order + 1"
  have n: "?n = order_pages z 0 order + order_pages z order MAX_ORDER"
  proof -
    have "?n = order_pages z 0 MAX_ORDER" by (simp add: size_free_mset order_pages_def atLeast0LessThan)
    then show ?thesis using o' by (simp add: order_pages_def sum.atLeastLessThan_concat)
  qed
  have v: "free_pages z - 2 ^ order + 1 = word_of_int ?v" by (simp add: fp)
  obtain mn where mn: "0 \<le> mn" "\<not> free_pages z - 2 ^ order + 1 \<le> word_of_int mn + lowmem_reserve z"
      "watermark_loop z order 0 mn (free_pages z - 2 ^ order + 1)"
  proof -
    have m0: "0 \<le> sint mark" using mark by (simp add: not_less [symmetric] sint_negative_iff word_less_nat_alt)
    have sd: "0 \<le> m - m sdiv k" if "0 \<le> m" "0 < k" for m k :: int
    proof -
      have "m sdiv k = m div k" using that by (cases "m = 0") (simp_all add: signed_divide_int_def)
      then show ?thesis using zdiv_mono2 [of m 1 k] that by simp
    qed
    have m1: "0 \<le> (if g then sint mark - sint mark sdiv 2 else sint mark)" (is "0 \<le> ?m") using m0 sd by simp
    define k where "k = (if h then ?m - ?m sdiv 4 else ?m)"
    have "0 \<le> k" using m1 sd [of ?m 4] by (simp add: k_def)
    moreover have "if free_pages z - 2 ^ order + 1 \<le> word_of_int k + lowmem_reserve z then False
        else watermark_loop z order 0 k (free_pages z - 2 ^ order + 1)"
      using w unfolding zone_watermark_ok_def Let_def k_def .
    ultimately show thesis using that [of k] by (simp split: if_splits)
  qed
  have "0 < order_pages z order MAX_ORDER"
  proof (cases "order = 0")
    case True
    then have "free_pages z \<noteq> 0" using mn(2) by auto
    then have "0 < ?n" by (cases "size (free_mset z) = 0") (auto simp: fp nonempty_has_size)
    then show ?thesis using n True by (simp add: order_pages_def)
  next
    case False
    have "(2 :: int) ^ order \<le> 2 ^ 11" using o' by (intro power_increasing) simp_all
    then have p1: "(2 :: int) ^ order \<le> 2048" by simp
    have p2: "0 < (2 :: int) ^ order" by simp
    have "int (size (free_mset z)) < int (2 ^ 30)" using small by (simp only: of_nat_less_iff)
    then have "?n < 1073741824" by simp
    then have "?v < 2147483648" "- 2147483648 \<le> ?v - order_pages z 0 order"
      using p1 p2 n order_pages_nonneg [of z order MAX_ORDER] by linarith+
    then have "0 < ?v - order_pages z 0 order"
      using False mn(3) unfolding v by (intro watermark_loop_ok [OF _ _ mn(1) _ _ lists_okD(2) [OF l]]) simp_all
    then show ?thesis using n p2 by linarith
  qed
  moreover have "order_pages z order MAX_ORDER = 0" if "\<forall>o1 \<ge> order. free_list z o1 = []"
    unfolding order_pages_def using that by (intro sum.neutral) simp
  ultimately show ?thesis by force
qed

subsection \<open>The properties\<close>

text \<open>A zone of 1024 pages that the boot memory allocator has released as one block.\<close>

definition ex_pg0 :: page_sys where
  "ex_pg0 = \<lparr>zn = free_area_init 0 1024 0, used = {#}, boot = zone_pages (free_area_init 0 1024 0)\<rparr>"

lemma ex_pg0_init: "page_init ex_pg0"
  by (auto simp: page_init_def ex_pg0_def)

lemma ex_pg1_reached:
  "\<exists>s. page_step\<^sup>*\<^sup>* ex_pg0 s \<and> used s = {#} \<and> boot s = {#} \<and> pcps (zn s) = {#} \<and>
     zone_start_pfn (zn s) = 0 \<and> spanned_pages (zn s) = 1024 \<and> lowmem_reserve (zn s) = 0"
proof -
  have b: "blk 0 10 = boot ex_pg0" by (simp add: blk_def ex_pg0_def zone_pages_def init_defs Let_def)
  then have "blk 0 10 \<subseteq># boot ex_pg0" by simp
  then obtain z where R: "release_bootmem 0 10 (zn ex_pg0) = Inr z" "pageset z = pageset (zn ex_pg0)"
      "moved (free_mset (zn ex_pg0) + pcps (zn ex_pg0) + blk 0 10) (zn ex_pg0) z"
    using release_bootmem_ok [OF page_init_inv [OF ex_pg0_init], of 10 0] by auto
  let ?s = "ex_pg0\<lparr>zn := z, boot := boot ex_pg0 - blk 0 10\<rparr>"
  have "page_step ex_pg0 ?s" using b R(1) by (intro page_step.release) simp_all
  moreover have "pcps z = {#}" using R(2) by (simp add: pcps_def ex_pg0_def init_defs Let_def)
  moreover have "zone_start_pfn z = 0 \<and> spanned_pages z = 1024 \<and> lowmem_reserve z = 0"
    using R(3) by (simp add: moved_def ex_pg0_def init_defs Let_def)
  moreover have "used ex_pg0 = {#}" by (simp add: ex_pg0_def)
  ultimately show ?thesis using b by (intro exI [of _ ?s]) auto
qed

text \<open>C8. No page is given to two owners: in every state that the allocator reaches, the pages on the free lists, the
  pages on the lists of single pages, the pages of the blocks in use and the pages of the boot memory allocator
  are together exactly the pages of the zone, each once. The blocks in use are aligned to their size, and the
  count of free pages is right.\<close>

theorem page_allocator_exclusive:
  assumes "page_init s0" "page_step\<^sup>*\<^sup>* s0 s"
  shows "free_mset (zn s) + pcps (zn s) + used_pages (used s) + boot s = zone_pages (zn s) \<and>
    (\<forall>p o'. (p, o') \<in># used s \<longrightarrow> 2 ^ o' dvd p) \<and> free_pages (zn s) = of_nat (size (free_mset (zn s)))"
proof -
  have "page_inv s" using assms by (rule page_allocator.reachable_inv)
  then show ?thesis using page_invD by (auto simp: pcp_ok_def zone_ok_def)
qed

theorem page_allocator_exclusive_witness:
  "\<exists>s :: page_sys. boot s = {#} \<and> used s = {#} \<and> spanned_pages (zn s) = 1024 \<and> size (free_mset (zn s)) = 1024 \<and> free_pages (zn s) = 1024"
proof -
  obtain s where s: "page_step\<^sup>*\<^sup>* ex_pg0 s" "used s = {#}" "boot s = {#}" "pcps (zn s) = {#}" "zone_start_pfn (zn s) = 0"
      "spanned_pages (zn s) = 1024" using ex_pg1_reached by blast
  have "free_mset (zn s) = zone_pages (zn s)" "free_pages (zn s) = of_nat (size (free_mset (zn s)))"
    using page_allocator_exclusive [OF ex_pg0_init s(1)] s(2-4) by simp_all
  moreover have "size (zone_pages (zn s)) = 1024" using s(6) by (simp add: zone_pages_def)
  ultimately show ?thesis using s(2,3,6) by (intro exI [of _ s]) simp
qed

text \<open>C18. Free memory becomes whole again: in every state that the allocator reaches, an aligned block of the zone, of any order,
  that has no page in use, on the lists of single pages of the processors or in boot memory is inside one block of the free lists,
  whatever the order of allocations and releases was. In particular, when everything has been given back, the free list of the largest
  order has exactly the aligned blocks of the zone that have no page on the lists of single pages. These lists are
  not emptied when a page comes back: what is on them is not merged.\<close>

theorem memory_whole_again:
  assumes "page_init s0" "page_step\<^sup>*\<^sup>* s0 s"
  shows "(\<forall>o' p. o' < MAX_ORDER \<and> 2 ^ o' dvd p \<and> (\<forall>q. q \<in># blk p o' \<longrightarrow> q \<in># zone_pages (zn s) \<and> q \<notin># pcps (zn s) + used_pages (used s) + boot s) \<longrightarrow>
      (\<exists>o1 r. o' \<le> o1 \<and> r \<in> set (free_list (zn s) o1) \<and> r \<le> p \<and> p + 2 ^ o' \<le> r + 2 ^ o1)) \<and>
    (used s = {#} \<and> boot s = {#} \<longrightarrow> set (free_list (zn s) 10) =
      {p. 2 ^ 10 dvd p \<and> (\<forall>q. q \<in># blk p 10 \<longrightarrow> q \<in># zone_pages (zn s) \<and> q \<notin># pcps (zn s))})" (is "?A \<and> (?B \<longrightarrow> _ = ?P)")
proof -
  have inv: "page_inv s" using assms(1,2) by (rule page_allocator.reachable_inv)
  then have ok: "lists_ok (zn s) (pcps (zn s))" by (simp add: page_inv_def pcp_ok_def zone_ok_def)
  have free: "q \<in># free_mset (zn s)" if "q \<in># zone_pages (zn s)" "q \<notin># pcps (zn s) + used_pages (used s) + boot s" for q
    using that page_invD(2) [OF inv] by (metis union_iff)
  have A: ?A using coalesced [OF ok] free by blast
  have "p \<in> ?P" if "p \<in> set (free_list (zn s) 10)" for p
  proof -
    have "q \<in># free_mset (zn s)" if "q \<in># blk p 10" for q
      using that \<open>p \<in> set (free_list (zn s) 10)\<close> unfolding in_free_mset by (intro exI [of _ 10]) auto
    moreover have "q \<in># zone_pages (zn s) \<and> q \<notin># pcps (zn s)" if "q \<in># free_mset (zn s)" for q
    proof
      show "q \<in># zone_pages (zn s)" using that page_invD(2) [OF inv] by (metis union_iff)
      have "0 < count (free_mset (zn s)) q" using that by simp
      then have "count (pcps (zn s)) q = 0" using lists_okD(9) [OF ok, of q] unfolding count_union by linarith
      then show "q \<notin># pcps (zn s)" by (simp add: not_in_iff)
    qed
    ultimately show ?thesis using lists_okD(4) [OF ok that] by blast
  qed
  moreover have "p \<in> set (free_list (zn s) 10)" if b: ?B "p \<in> ?P" for p
  proof -
    obtain o1 r where r: "10 \<le> o1" "r \<in> set (free_list (zn s) o1)" "r \<le> p" "p + 2 ^ 10 \<le> r + 2 ^ o1"
      using A [rule_format, of 10 p] b by auto
    have "o1 = 10" using head_free [OF ok r(2)] r(1) by simp
    then show ?thesis using r by simp
  qed
  ultimately show ?thesis using A by blast
qed

theorem memory_whole_again_witness:
  "\<exists>s. page_step\<^sup>*\<^sup>* ex_pg0 s \<and> set (free_list (zn s) 10) = {0}"
proof -
  obtain s where s: "page_step\<^sup>*\<^sup>* ex_pg0 s" "used s = {#}" "boot s = {#}" "pcps (zn s) = {#}" "zone_start_pfn (zn s) = 0"
      "spanned_pages (zn s) = 1024" using ex_pg1_reached by blast
  note W = memory_whole_again [OF ex_pg0_init s(1)]
  have "{p. 2 ^ 10 dvd p \<and> (\<forall>q. q \<in># blk p 10 \<longrightarrow> q \<in># zone_pages (zn s) \<and> q \<notin># pcps (zn s))} = {0}"
  proof (intro set_eqI iffI)
    fix p assume p: "p \<in> {p. 2 ^ 10 dvd p \<and> (\<forall>q. q \<in># blk p 10 \<longrightarrow> q \<in># zone_pages (zn s) \<and> q \<notin># pcps (zn s))}"
    then have "p \<in># zone_pages (zn s)" by simp
    then have "p < 1024" "1024 dvd p" using p s(5,6) by (simp_all add: zone_pages_def)
    then show "p \<in> {0}" by (auto dest: dvd_imp_le)
  qed (simp add: zone_pages_def s(4-6))
  then show ?thesis using W s(1-3) by auto
qed

text \<open>C31. A zone that is above a watermark can serve the request: when \<open>zone_watermark_ok\<close> answers yes for an order, then
  \<open>__rmqueue\<close> finds a block of that order, aligned to its size, although the first comparison there is unsigned.\<close>

theorem watermark_guarantees_block:
  assumes "page_init s0" "page_step\<^sup>*\<^sup>* s0 s" "zone_watermark_ok (zn s) o' mark can_try_harder gfp_high"
    and "o' < MAX_ORDER" "mark < 2 ^ 31" "spanned_pages (zn s) < 2 ^ 30"
  shows "\<exists>p z. u_rmqueue o' (zn s) = Inr (Some p, z) \<and> 2 ^ o' dvd p"
proof -
  have inv: "page_inv s" using assms(1,2) by (rule page_allocator.reachable_inv)
  have ok: "zone_ok (zn s) (pcps (zn s))" using page_invD(1) [OF inv] by (simp add: pcp_ok_def)
  have "size (free_mset (zn s)) \<le> size (zone_pages (zn s))"
    unfolding page_invD(2) [OF inv, symmetric] by simp
  then have "size (free_mset (zn s)) < 2 ^ 30" using assms(6) by (simp add: zone_pages_def)
  from zone_watermark_block [OF ok assms(3-5) this] obtain o1 where o1: "o' \<le> o1" "free_list (zn s) o1 \<noteq> []" by blast
  show ?thesis
  proof (cases rule: u_rmqueue_ok [OF ok, of o', case_names some none])
    case (some p z)
    then show ?thesis by blast
  next
    case none
    then show ?thesis using o1 by blast
  qed
qed

theorem watermark_guarantees_block_witness:
  "\<exists>s p z. page_step\<^sup>*\<^sup>* ex_pg0 s \<and> u_rmqueue 2 (zn s) = Inr (Some p, z) \<and> 2 ^ 2 dvd p"
proof -
  obtain s where s: "page_step\<^sup>*\<^sup>* ex_pg0 s" "used s = {#}" "boot s = {#}" "pcps (zn s) = {#}" "zone_start_pfn (zn s) = 0"
      "spanned_pages (zn s) = 1024" "lowmem_reserve (zn s) = 0" using ex_pg1_reached by blast
  have inv: "page_inv s" using ex_pg0_init s(1) by (rule page_allocator.reachable_inv)
  then have ok: "lists_ok (zn s) (pcps (zn s))" and fp: "free_pages (zn s) = of_nat (size (free_mset (zn s)))"
    by (simp_all add: page_inv_def pcp_ok_def zone_ok_def)
  have all: "free_mset (zn s) = zone_pages (zn s)" using page_invD(2) [OF inv] s(2-4) by simp
  have small: "nr_free (zn s) o' = 0" if "o' < 10" for o'
    using all_free_all_large [OF ok _ _ all, of o'] that s(5,6) lists_okD(2) [OF ok, of o'] by simp
  have "free_pages (zn s) = 1024" by (simp add: fp all zone_pages_def s(6))
  then have "zone_watermark_ok (zn s) 2 100 False False"
    by (simp add: zone_watermark_ok_def Let_def s(7) small watermark_loop.simps [of "zn s" 2])
  from watermark_guarantees_block [OF ex_pg0_init s(1) this] show ?thesis using s(1,6) by auto
qed

subsection \<open>\<open>free_pages_bulk\<close> and its description\<close>

text \<open>The comment there says that a count of 0 frees all blocks on the list. It frees none; a negative count frees all.\<close>

lemma free_pages_bulk_zero:
  "free_pages_bulk 0 list o' z = Inr (0, list, z\<lparr>all_unreclaimable := False, pages_scanned := 0\<rparr>)"
  by (simp add: free_pages_bulk_def free_bulk_loop.simps [of 0])

end
