(* ===== verification/Bootmem.thy ===== *)
theory Bootmem
  imports Page_Alloc
begin

text \<open>
  The boot memory allocator, \<open>mm/bootmem.c\<close>: a bitmap with a bit for each page of low memory, set when the page is reserved.
  Allocations are rounded to pages, but a small allocation continues in the last page of the one before when that page has
  room. At the end of the boot process all pages with a clear bit go to the page allocator.

  Numbers of pages and indices of bits are naturals (there are less than \<open>2 ^ 20\<close> pages); sizes and addresses in bytes are
  words, with the code's wrap-around. The code tests bits behind the bitmap: \<open>oob\<close> says what such a read yields, \<open>None\<close> for a
  trap.
\<close>

subsection \<open>The bitmap\<close>

record bootmem_data =
  node_boot_start :: u32
  node_low_pfn :: nat
  node_bootmem_map :: "bool list"
  bootmap_pfn :: nat
  last_offset :: u32
  last_pos :: nat
  last_success :: u32

abbreviation PAGE_SIZE :: nat where "PAGE_SIZE \<equiv> 4096"

text \<open>The size of the bitmap in pages.\<close>

definition bootmem_bootmap_pages :: "u32 \<Rightarrow> u32" where
  "bootmem_bootmap_pages pages = drop_bit 12 (((pages + 7) div 8 + 4095) AND NOT 4095)"

definition boot_idx :: "bootmem_data \<Rightarrow> nat" where
  "boot_idx bd = node_low_pfn bd - unat (drop_bit 12 (node_boot_start bd))"

definition init_bootmem_core :: "nat \<Rightarrow> nat \<Rightarrow> nat \<Rightarrow> bootmem_data" where
  "init_bootmem_core mapstart start fin =
     (let mapsize = (fin - start + 7) div 8;
          mapsize = (mapsize + 3) div 4 * 4
      in \<lparr>node_boot_start = of_nat start * 4096, node_low_pfn = fin, node_bootmem_map = replicate (8 * mapsize) True, bootmap_pfn = mapstart,
          last_offset = 0, last_pos = 0, last_success = 0\<rparr>)"

text \<open>The bits \<open>i\<close> to \<open>e - 1\<close> are set; with \<open>strict\<close>, one that is set already is a \<open>BUG()\<close>.\<close>

function set_bits :: "bool \<Rightarrow> nat \<Rightarrow> nat \<Rightarrow> bool list \<Rightarrow> bool list res" where
  "set_bits strict i e bits =
     (if i < e then
        if length bits \<le> i then Inl OutOfBounds
        else if strict \<and> bits ! i then Inl BUG
        else set_bits strict (Suc i) e (bits[i := True])
      else Inr bits)"
  by pat_completeness auto
termination by (relation "measure (\<lambda>(strict, i, e, bits). e - i)") auto

function clear_bits :: "nat \<Rightarrow> nat \<Rightarrow> bool list \<Rightarrow> bool list res" where
  "clear_bits i e bits =
     (if i < e then
        if length bits \<le> i then Inl OutOfBounds
        else if \<not> bits ! i then Inl BUG
        else clear_bits (Suc i) e (bits[i := False])
      else Inr bits)"
  by pat_completeness auto
termination by (relation "measure (\<lambda>(i, e, bits). e - i)") auto

declare set_bits.simps [simp del] clear_bits.simps [simp del]

definition reserve_bootmem_core :: "u32 \<Rightarrow> u32 \<Rightarrow> bootmem_data \<Rightarrow> bootmem_data res" where
  "reserve_bootmem_core addr size' bd =
     (let sidx = (addr - node_boot_start bd) div 4096;
          eidx = (addr + size' - node_boot_start bd + 4095) div 4096;
          fin = (addr + size' + 4095) div 4096
      in if size' = 0 then Inl BUG
         else if eidx \<le> sidx then Inl BUG
         else if node_low_pfn bd \<le> unat (drop_bit 12 addr) then Inl BUG
         else if node_low_pfn bd < unat fin then Inl BUG
         else map_sum id (\<lambda>bits. bd\<lparr>node_bootmem_map := bits\<rparr>) (set_bits False (unat sidx) (unat eidx) (node_bootmem_map bd)))"

definition free_bootmem_core :: "u32 \<Rightarrow> u32 \<Rightarrow> bootmem_data \<Rightarrow> bootmem_data res" where
  "free_bootmem_core addr size' bd =
     (let eidx = (addr + size' - node_boot_start bd) div 4096;
          fin = (addr + size') div 4096
      in if size' = 0 then Inl BUG
         else if node_low_pfn bd < unat fin then Inl BUG
         else
           let bd = (if addr < last_success bd then bd\<lparr>last_success := addr\<rparr> else bd);
               start = (addr + 4095) div 4096;
               sidx = start - node_boot_start bd div 4096
           in map_sum id (\<lambda>bits. bd\<lparr>node_bootmem_map := bits\<rparr>) (clear_bits (unat sidx) (unat eidx) (node_bootmem_map bd)))"

subsection \<open>Allocation\<close>

definition test_bit :: "(nat \<Rightarrow> bool option) \<Rightarrow> bool list \<Rightarrow> nat \<Rightarrow> bool res" where
  "test_bit oob bits i =
     (if i < length bits then Inr (bits ! i) else case oob i of None \<Rightarrow> Inl OutOfBounds | Some b \<Rightarrow> Inr b)"

text \<open>\<open>find_next_zero_bit\<close> of \<open>arch/arm/lib/findbit.S\<close>: the first clear bit from \<open>i\<close> on, or \<open>n\<close> when there is none. It works by
  bytes, and a clear bit of the byte with bit \<open>n - 1\<close> is found when it is behind \<open>n\<close>, too.\<close>

function find_next_zero_bit :: "bool list \<Rightarrow> nat \<Rightarrow> nat \<Rightarrow> nat" where
  "find_next_zero_bit bits n i =
     (if i < (n + 7) div 8 * 8 then
        if i < length bits \<and> \<not> bits ! i then i else find_next_zero_bit bits n (Suc i)
      else n)"
  by pat_completeness auto
termination by (relation "measure (\<lambda>(bits, n, i). (n + 7) div 8 * 8 - i)") auto

declare find_next_zero_bit.simps [simp del]

definition ALIGN :: "nat \<Rightarrow> nat \<Rightarrow> nat" where
  "ALIGN x a = (x + a - 1) div a * a"

text \<open>The inner loop, with the bit at which it fails.\<close>

function block_fails :: "bool list \<Rightarrow> nat \<Rightarrow> nat \<Rightarrow> nat \<Rightarrow> nat option" where
  "block_fails bits eidx j e =
     (if j < e then
        if eidx \<le> j then Some j
        else if length bits \<le> j \<or> bits ! j then Some j
        else block_fails bits eidx (Suc j) e
      else None)"
  by pat_completeness auto
termination by (relation "measure (\<lambda>(bits, eidx, j, e). e - j)") auto

declare block_fails.simps [simp del]

lemma find_next_zero_bit_ge: "min i n \<le> find_next_zero_bit bits n i"
proof (induction bits n i rule: find_next_zero_bit.induct)
  case (1 bits n i)
  then show ?case
    by (cases "i < (n + 7) div 8 * 8"; cases "i < length bits \<and> \<not> bits ! i"; subst find_next_zero_bit.simps) simp_all
qed

lemma block_fails_ge: "block_fails bits eidx j e = Some k \<Longrightarrow> j \<le> k"
proof (induction bits eidx j e rule: block_fails.induct)
  case (1 bits eidx j e)
  then show ?case by (fastforce simp: block_fails.simps [of bits eidx j e] split: if_splits)
qed

lemma ALIGN_ge: "0 < a \<Longrightarrow> x \<le> ALIGN x a"
proof -
  assume a: "0 < a"
  have "x + a - 1 < ((x + a - 1) div a + 1) * a" using a by (simp add: dividend_less_div_times)
  then show ?thesis using a by (simp add: ALIGN_def algebra_simps)
qed

function scan :: "(nat \<Rightarrow> bool option) \<Rightarrow> bool list \<Rightarrow> nat \<Rightarrow> nat \<Rightarrow> nat \<Rightarrow> nat \<Rightarrow> nat option res" where
  "scan oob bits eidx incr areasize i =
     (if i < eidx \<and> 0 < incr then
        let i = ALIGN (find_next_zero_bit bits eidx i) incr in
        bind_res (test_bit oob bits i) (\<lambda>b.
          if b then scan oob bits eidx incr areasize (i + incr)
          else case block_fails bits eidx (i + 1) (i + areasize) of
                 None \<Rightarrow> Inr (Some i)
               | Some j \<Rightarrow> scan oob bits eidx incr areasize (ALIGN j incr + incr))
      else Inr None)"
  by pat_completeness auto
termination
proof (relation "measure (\<lambda>(oob, bits, eidx, incr, areasize, i). eidx - i)", simp)
  fix oob :: "nat \<Rightarrow> bool option" and bits and eidx incr areasize i i' :: nat and b
  assume i: "i < eidx \<and> 0 < incr" and i': "i' = ALIGN (find_next_zero_bit bits eidx i) incr"
  have "i \<le> i'" using i i' ALIGN_ge [of incr "find_next_zero_bit bits eidx i"] find_next_zero_bit_ge [of i eidx bits] by simp
  then show "((oob, bits, eidx, incr, areasize, i' + incr), (oob, bits, eidx, incr, areasize, i)) \<in>
      measure (\<lambda>(oob, bits, eidx, incr, areasize, i). eidx - i)" using i by (simp add: diff_less_mono2)
  fix j assume "block_fails bits eidx (i' + 1) (i' + areasize) = Some j"
  then have "i' + 1 \<le> j" by (rule block_fails_ge)
  then have "i < ALIGN j incr + incr" using ALIGN_ge [of incr j] i \<open>i \<le> i'\<close> by linarith
  then show "((oob, bits, eidx, incr, areasize, ALIGN j incr + incr), (oob, bits, eidx, incr, areasize, i)) \<in>
      measure (\<lambda>(oob, bits, eidx, incr, areasize, i). eidx - i)" using i by (simp add: diff_less_mono2)
qed

declare scan.simps [simp del]

text \<open>\<open>x - 1\<close> for an index, which wraps at zero.\<close>

definition pred_idx :: "nat \<Rightarrow> nat" where
  "pred_idx x = (if x = 0 then 2 ^ 32 - 1 else x - 1)"

text \<open>The area has been found at page \<open>start\<close>. The result is the address, and the pages to reserve.\<close>

definition place :: "nat \<Rightarrow> nat \<Rightarrow> u32 \<Rightarrow> u32 \<Rightarrow> bootmem_data \<Rightarrow> (u32 \<times> nat \<times> bootmem_data) res" where
  "place start areasize size' align bd =
     (if align < 4096 \<and> last_offset bd \<noteq> 0 \<and> of_nat (last_pos bd) + 1 = (of_nat start :: u32) then
        let offset = (last_offset bd + align - 1) AND NOT (align - 1) in
        if 4096 < offset then Inl BUG
        else
          let remaining_size = 4096 - offset;
              ret = of_nat (last_pos bd) * 4096 + offset + node_boot_start bd;
              (areasize, bd) =
                (if size' < remaining_size then (0, bd\<lparr>last_offset := offset + size'\<rparr>)
                 else
                   let remaining_size = size' - remaining_size;
                       areasize = unat ((remaining_size + 4095) div 4096)
                   in (areasize, bd\<lparr>last_pos := pred_idx (start + areasize), last_offset := remaining_size\<rparr>))
          in Inr (ret, areasize, bd\<lparr>last_offset := last_offset bd AND 4095\<rparr>)
      else Inr (of_nat start * 4096 + node_boot_start bd, areasize, bd\<lparr>last_pos := pred_idx (start + areasize), last_offset := size' AND 4095\<rparr>))"

definition alloc_found :: "nat \<Rightarrow> nat \<Rightarrow> u32 \<Rightarrow> u32 \<Rightarrow> bootmem_data \<Rightarrow> (u32 option \<times> bootmem_data) res" where
  "alloc_found start areasize size' align bd =
     (let bd = bd\<lparr>last_success := of_nat start * 4096\<rparr> in
      if boot_idx bd \<le> start then Inl BUG
      else bind_res (place start areasize size' align bd) (\<lambda>(ret, areasize, bd).
        bind_res (set_bits True start (start + areasize) (node_bootmem_map bd)) (\<lambda>bits.
          Inr (Some ret, bd\<lparr>node_bootmem_map := bits\<rparr>))))"

definition alloc_bootmem_core :: "(nat \<Rightarrow> bool option) \<Rightarrow> u32 \<Rightarrow> u32 \<Rightarrow> u32 \<Rightarrow> bootmem_data \<Rightarrow> (u32 option \<times> bootmem_data) res" where
  "alloc_bootmem_core oob size' align goal bd =
     (if size' = 0 then Inl BUG
      else if align AND (align - 1) \<noteq> 0 then Inl BUG
      else
        let eidx = boot_idx bd;
            offset = (if align \<noteq> 0 \<and> node_boot_start bd AND (align - 1) \<noteq> 0
                      then align - (node_boot_start bd AND (align - 1)) else 0);
            offset = drop_bit 12 offset;
            preferred = (if goal \<noteq> 0 \<and> node_boot_start bd \<le> goal \<and> unat (drop_bit 12 goal) < node_low_pfn bd
                         then if goal - node_boot_start bd \<le> last_success bd then last_success bd else goal - node_boot_start bd
                         else 0);
            preferred = drop_bit 12 ((preferred + align - 1) AND NOT (align - 1)) + offset;
            areasize = unat ((size' + 4095) div 4096);
            incr = (if drop_bit 12 align \<noteq> 0 then unat (drop_bit 12 align) else 1)
        in bind_res (scan oob (node_bootmem_map bd) eidx incr areasize (unat preferred)) (\<lambda>r.
           bind_res (case r of
               Some start \<Rightarrow> Inr (Some start)
             | None \<Rightarrow> if offset < preferred then scan oob (node_bootmem_map bd) eidx incr areasize (unat offset) else Inr None) (\<lambda>r.
             case r of
               None \<Rightarrow> Inr (None, bd)
             | Some start \<Rightarrow> alloc_found start areasize size' align bd)))"

text \<open>\<open>__alloc_bootmem\<close> for one node: \<open>None\<close> is the \<open>panic()\<close>.\<close>

definition u_alloc_bootmem :: "(nat \<Rightarrow> bool option) \<Rightarrow> u32 \<Rightarrow> u32 \<Rightarrow> u32 \<Rightarrow> bootmem_data \<Rightarrow> (u32 \<times> bootmem_data) option res" where
  "u_alloc_bootmem oob size' align goal bd =
     map_sum id (\<lambda>(r, bd). case r of None \<Rightarrow> None | Some ret \<Rightarrow> Some (ret, bd)) (alloc_bootmem_core oob size' align goal bd)"

subsection \<open>The end of the boot process\<close>

text \<open>The pages of the word with the free pages \<open>v\<close>, from page \<open>i\<close> on.\<close>

fun free_word :: "nat \<Rightarrow> nat \<Rightarrow> bool list \<Rightarrow> nat \<Rightarrow> nat \<Rightarrow> zone \<Rightarrow> (nat \<times> nat \<times> zone) res" where
  "free_word base idx [] i cnt z = Inr (i, cnt, z)"
| "free_word base idx (f # v) i cnt z =
     (if i < idx then
        bind_res (if f then release_bootmem (base + i) 0 z else Inr z)
          (free_word base idx v (Suc i) (if f then Suc cnt else cnt))
      else Inr (i, cnt, z))"

lemma free_word_ge: "free_word base idx v i cnt z = Inr (i', cnt', z') \<Longrightarrow> i \<le> i' \<and> (v \<noteq> [] \<longrightarrow> i < idx \<longrightarrow> i < i')"
proof (induction base idx v i cnt z rule: free_word.induct)
  case (2 base idx f v i cnt z)
  then show ?case by (fastforce simp: bind_res_Inr split: if_splits)
qed simp

function free_all_loop :: "bool \<Rightarrow> bool list \<Rightarrow> nat \<Rightarrow> nat \<Rightarrow> nat \<Rightarrow> nat \<Rightarrow> zone \<Rightarrow> (nat \<times> zone) res" where
  "free_all_loop gofast bits base idx i cnt z =
     (if i < idx then
        let w = i div 32 * 32;
            v = map Not (take 32 (drop w bits))
        in if length bits < w + 32 then Inl OutOfBounds
           else if gofast \<and> list_all id v then
             bind_res (release_bootmem (base + i) 5 z) (free_all_loop gofast bits base idx (i + 32) (cnt + 32))
           else if list_ex id v then
             bind_res (free_word base idx v i cnt z) (\<lambda>(i, cnt, z). free_all_loop gofast bits base idx i cnt z)
           else free_all_loop gofast bits base idx (i + 32) cnt z
      else Inr (cnt, z))"
  by pat_completeness auto
termination
  by (relation "measure (\<lambda>(gofast, bits, base, idx, i, cnt, z). idx - i)") (auto dest!: free_word_ge)

declare free_all_loop.simps [simp del]

text \<open>The pages of the bitmap are freed, too.\<close>

fun free_map :: "nat \<Rightarrow> nat \<Rightarrow> zone \<Rightarrow> zone res" where
  "free_map p 0 z = Inr z"
| "free_map p (Suc n) z = bind_res (release_bootmem p 0 z) (free_map (Suc p) n)"

definition free_all_bootmem_core :: "bootmem_data \<Rightarrow> zone \<Rightarrow> (nat \<times> zone) res" where
  "free_all_bootmem_core bd z =
     (let base = unat (drop_bit 12 (node_boot_start bd));
          gofast = (node_boot_start bd = 0 \<or> ffs (node_boot_start bd) - 12 > ffs 32);
          pages = (boot_idx bd div 8 + 4095) div PAGE_SIZE
      in bind_res (free_all_loop gofast (node_bootmem_map bd) base (boot_idx bd) 0 0 z) (\<lambda>(cnt, z).
         bind_res (free_map (bootmap_pfn bd) pages z) (\<lambda>z. Inr (cnt + pages, z))))"

subsection \<open>The bits\<close>

lemma set_bits_Inr:
  "set_bits strict i e bits = Inr bits' \<Longrightarrow> length bits' = length bits \<and> (\<forall>k < length bits. bits' ! k \<longleftrightarrow> bits ! k \<or> i \<le> k \<and> k < e)"
proof (induction strict i e bits rule: set_bits.induct)
  case (1 strict i e bits)
  show ?case
  proof (cases "i < e")
    case True
    then have "length (bits[i := True]) = length bits' \<and> (\<forall>k < length (bits[i := True]). bits' ! k \<longleftrightarrow> bits[i := True] ! k \<or> Suc i \<le> k \<and> k < e)"
      using "1.IH" "1.prems" by (auto simp: set_bits.simps [of strict i e bits] split: if_splits)
    moreover have "i < length bits" using True "1.prems" by (auto simp: set_bits.simps [of strict i e bits] split: if_splits)
    ultimately show ?thesis using True by (auto simp: nth_list_update Suc_le_eq split: if_splits)
  next
    case False
    then show ?thesis using "1.prems" by (auto simp: set_bits.simps [of strict i e bits])
  qed
qed


lemma clear_bits_Inr:
  "clear_bits i e bits = Inr bits' \<Longrightarrow> length bits' = length bits \<and> (\<forall>k < length bits. bits' ! k \<longleftrightarrow> bits ! k \<and> \<not> (i \<le> k \<and> k < e))"
proof (induction i e bits rule: clear_bits.induct)
  case (1 i e bits)
  show ?case
  proof (cases "i < e")
    case True
    then have "length (bits[i := False]) = length bits' \<and> (\<forall>k < length (bits[i := False]). bits' ! k \<longleftrightarrow> bits[i := False] ! k \<and> \<not> (Suc i \<le> k \<and> k < e))"
      using "1.IH" "1.prems" by (auto simp: clear_bits.simps [of i e bits] split: if_splits)
    moreover have "i < length bits" using True "1.prems" by (auto simp: clear_bits.simps [of i e bits] split: if_splits)
    ultimately show ?thesis using True by (auto simp: nth_list_update Suc_le_eq split: if_splits)
  next
    case False
    then show ?thesis using "1.prems" by (auto simp: clear_bits.simps [of i e bits])
  qed
qed

lemma block_fails_None:
  "block_fails bits eidx j e = None \<Longrightarrow> j \<le> k \<Longrightarrow> k < e \<Longrightarrow> k < eidx \<and> k < length bits \<and> \<not> bits ! k"
proof (induction bits eidx j e rule: block_fails.induct)
  case (1 bits eidx j e)
  then have "j < eidx" "j < length bits" "\<not> bits ! j" "block_fails bits eidx (Suc j) e = None"
    by (auto simp: block_fails.simps [of bits eidx j e] split: if_splits)
  then show ?case using "1.IH" "1.prems" by (cases "k = j") auto
qed

text \<open>What the scan finds is free.\<close>

lemma scan_Some:
  assumes "scan oob bits eidx incr areasize i = Inr (Some start)" "start < eidx" "eidx \<le> length bits" "start \<le> k" "k < start + areasize"
  shows "k < eidx \<and> \<not> bits ! k"
  using assms
proof (induction oob bits eidx incr areasize i rule: scan.induct)
  case (1 oob bits eidx incr areasize i)
  let ?i = "ALIGN (find_next_zero_bit bits eidx i) incr"
  have i: "i < eidx \<and> 0 < incr" using "1.prems"(1) by (auto simp: scan.simps [of oob bits eidx incr areasize i] split: if_splits)
  then obtain b where b: "test_bit oob bits ?i = Inr b"
      "(if b then scan oob bits eidx incr areasize (?i + incr) else case block_fails bits eidx (?i + 1) (?i + areasize) of
         None \<Rightarrow> Inr (Some ?i) | Some j \<Rightarrow> scan oob bits eidx incr areasize (ALIGN j incr + incr)) = Inr (Some start)"
    using "1.prems"(1) by (auto simp: scan.simps [of oob bits eidx incr areasize i] Let_def bind_res_Inr)
  show ?case
  proof (cases b)
    case True
    then show ?thesis using "1.IH"(1) [OF i refl b(1) True] b(2) "1.prems"(2-5) by simp
  next
    case False
    show ?thesis
    proof (cases "block_fails bits eidx (?i + 1) (?i + areasize)")
      case None
      then have s: "start = ?i" using b(2) False by simp
      then have "\<not> bits ! start" using b(1) False "1.prems"(2,3) by (simp add: test_bit_def)
      then show ?thesis using block_fails_None [OF None, of k] s "1.prems"(2,4,5) by (cases "k = start") auto
    next
      case (Some j)
      then show ?thesis using "1.IH"(2) [OF i refl b(1) False Some] b(2) False "1.prems"(2-5) by simp
    qed
  qed
qed

subsection \<open>Free memory\<close>

text \<open>The bytes that an allocation may use: those of the pages with a clear bit, and the rest of the last page.\<close>

definition page_bytes :: "bootmem_data \<Rightarrow> nat \<Rightarrow> nat set" where
  "page_bytes bd i = {unat (node_boot_start bd) + PAGE_SIZE * i..<unat (node_boot_start bd) + PAGE_SIZE * Suc i}"

definition tail_bytes :: "bootmem_data \<Rightarrow> nat set" where
  "tail_bytes bd = (if last_offset bd = 0 then {}
     else {unat (node_boot_start bd) + PAGE_SIZE * last_pos bd + unat (last_offset bd)..<unat (node_boot_start bd) + PAGE_SIZE * Suc (last_pos bd)})"

definition clear_bytes :: "bootmem_data \<Rightarrow> nat set" where
  "clear_bytes bd = (\<Union>i \<in> {i. i < boot_idx bd \<and> \<not> node_bootmem_map bd ! i}. page_bytes bd i)"

definition free_bytes :: "bootmem_data \<Rightarrow> nat set" where
  "free_bytes bd = tail_bytes bd \<union> clear_bytes bd"

definition boot_bytes :: "bootmem_data \<Rightarrow> nat set" where
  "boot_bytes bd = {unat (node_boot_start bd)..<unat (node_boot_start bd) + PAGE_SIZE * boot_idx bd}"

text \<open>The bitmap is well formed: a bit for each page, and the bits behind the last page are set. When the last page of the last
  allocation has room left, it is reserved.\<close>

definition map_ok :: "bootmem_data \<Rightarrow> bool" where
  "map_ok bd \<longleftrightarrow> boot_idx bd \<le> length (node_bootmem_map bd) \<and> 32 dvd length (node_bootmem_map bd) \<and>
     (\<forall>i. boot_idx bd \<le> i \<longrightarrow> i < length (node_bootmem_map bd) \<longrightarrow> node_bootmem_map bd ! i) \<and>
     PAGE_SIZE dvd unat (node_boot_start bd) \<and> PAGE_SIZE * node_low_pfn bd \<le> 2 ^ 32 \<and>
     unat (node_boot_start bd) \<le> PAGE_SIZE * node_low_pfn bd \<and> unat (last_offset bd) < PAGE_SIZE"

definition bd_ok :: "bootmem_data \<Rightarrow> bool" where
  "bd_ok bd \<longleftrightarrow> map_ok bd \<and> (last_offset bd \<noteq> 0 \<longrightarrow> last_pos bd < boot_idx bd \<and> node_bootmem_map bd ! last_pos bd)"

lemma map_okD:
  assumes "map_ok bd"
  shows "boot_idx bd \<le> length (node_bootmem_map bd)" "boot_idx bd \<le> i \<Longrightarrow> i < length (node_bootmem_map bd) \<Longrightarrow> node_bootmem_map bd ! i"
    "PAGE_SIZE dvd unat (node_boot_start bd)" "PAGE_SIZE * node_low_pfn bd \<le> 2 ^ 32" "unat (last_offset bd) < PAGE_SIZE"
    "unat (node_boot_start bd) + PAGE_SIZE * boot_idx bd = PAGE_SIZE * node_low_pfn bd" "32 dvd length (node_bootmem_map bd)"
proof -
  obtain c where c: "unat (node_boot_start bd) = PAGE_SIZE * c" using assms by (auto simp: map_ok_def elim: dvdE)
  have "unat (drop_bit 12 (node_boot_start bd)) = c" using c by (simp add: unat_drop_bit)
  then show "unat (node_boot_start bd) + PAGE_SIZE * boot_idx bd = PAGE_SIZE * node_low_pfn bd"
    using assms c by (auto simp: map_ok_def boot_idx_def)
qed (use assms in \<open>auto simp: map_ok_def\<close>)

lemma bd_ok_map: "bd_ok bd \<Longrightarrow> map_ok bd"
  by (simp add: bd_ok_def)

lemma bd_okD:
  assumes "bd_ok bd"
  shows "boot_idx bd \<le> length (node_bootmem_map bd)" "boot_idx bd \<le> i \<Longrightarrow> i < length (node_bootmem_map bd) \<Longrightarrow> node_bootmem_map bd ! i"
    "PAGE_SIZE dvd unat (node_boot_start bd)" "PAGE_SIZE * node_low_pfn bd \<le> 2 ^ 32" "unat (last_offset bd) < PAGE_SIZE"
    "last_offset bd \<noteq> 0 \<Longrightarrow> last_pos bd < boot_idx bd" "last_offset bd \<noteq> 0 \<Longrightarrow> node_bootmem_map bd ! last_pos bd"
    "unat (node_boot_start bd) + PAGE_SIZE * boot_idx bd = PAGE_SIZE * node_low_pfn bd" "32 dvd length (node_bootmem_map bd)"
  using assms map_okD [OF bd_ok_map [OF assms]] by (auto simp: bd_ok_def)

lemma map_ok_set:
  assumes ok: "map_ok bd" and b: "set_bits strict s e (node_bootmem_map bd) = Inr bits"
    and same: "node_boot_start bd' = node_boot_start bd" "node_low_pfn bd' = node_low_pfn bd" "node_bootmem_map bd' = bits"
    and lo: "unat (last_offset bd') < PAGE_SIZE"
  shows "map_ok bd'"
proof -
  have "boot_idx bd' = boot_idx bd" by (simp add: boot_idx_def same)
  then show ?thesis using ok lo set_bits_Inr [OF b] unfolding map_ok_def same by auto
qed

lemma in_page: "b \<in> page_bytes bd i \<longleftrightarrow> unat (node_boot_start bd) \<le> b \<and> i = (b - unat (node_boot_start bd)) div PAGE_SIZE"
proof (cases "unat (node_boot_start bd) \<le> b")
  case True
  then obtain c where c: "b = unat (node_boot_start bd) + c" using le_Suc_ex by blast
  have "PAGE_SIZE * i \<le> c \<and> c < PAGE_SIZE * Suc i \<longleftrightarrow> i = c div PAGE_SIZE"
    using times_div_less_eq_dividend [of PAGE_SIZE c] dividend_less_times_div [of PAGE_SIZE c]
    by (auto intro!: div_nat_eqI [symmetric])
  then show ?thesis by (simp add: page_bytes_def c)
qed (simp add: page_bytes_def)

lemma free_inside:
  assumes "bd_ok bd"
  shows "free_bytes bd \<subseteq> boot_bytes bd"
proof -
  have "page_bytes bd i \<subseteq> boot_bytes bd" if "i < boot_idx bd" for i
  proof -
    have "PAGE_SIZE * Suc i \<le> PAGE_SIZE * boot_idx bd" using that by (simp only: mult_le_mono2 Suc_leI)
    then show ?thesis by (auto simp: page_bytes_def boot_bytes_def)
  qed
  moreover have "tail_bytes bd \<subseteq> page_bytes bd (last_pos bd)" by (auto simp: tail_bytes_def page_bytes_def)
  ultimately show ?thesis using bd_okD(6) [OF assms] unfolding free_bytes_def clear_bytes_def tail_bytes_def by (auto split: if_splits)
qed

text \<open>The pages \<open>s\<close> to \<open>s + n - 1\<close> are reserved.\<close>

definition run_bytes :: "bootmem_data \<Rightarrow> nat \<Rightarrow> nat \<Rightarrow> nat set" where
  "run_bytes bd s n = {unat (node_boot_start bd) + PAGE_SIZE * s..<unat (node_boot_start bd) + PAGE_SIZE * (s + n)}"

lemma run_bytes_pages: "run_bytes bd s n = (\<Union>i \<in> {s..<s + n}. page_bytes bd i)"
proof (induction n)
  case 0
  then show ?case by (simp add: run_bytes_def)
next
  case (Suc n)
  have "run_bytes bd s (Suc n) = run_bytes bd s n \<union> page_bytes bd (s + n)" by (auto simp: run_bytes_def page_bytes_def)
  then show ?case using Suc by (auto simp: atLeastLessThanSuc)
qed

lemma clear_bytes_set:
  assumes ok: "map_ok bd" and b: "set_bits strict s (s + n) (node_bootmem_map bd) = Inr bits"
    and same: "node_boot_start bd' = node_boot_start bd" "node_low_pfn bd' = node_low_pfn bd" "node_bootmem_map bd' = bits"
  shows "clear_bytes bd' = clear_bytes bd - run_bytes bd s n"
proof -
  have "boot_idx bd' = boot_idx bd" "page_bytes bd' = page_bytes bd" by (simp_all add: boot_idx_def page_bytes_def same fun_eq_iff)
  moreover have "bits ! i \<longleftrightarrow> node_bootmem_map bd ! i \<or> s \<le> i \<and> i < s + n" if "i < boot_idx bd" for i
    using set_bits_Inr [OF b] map_okD(1) [OF ok] that by simp
  ultimately show ?thesis unfolding clear_bytes_def run_bytes_pages same by (auto simp: in_page)
qed

lemma clear_run:
  assumes "\<And>k. s \<le> k \<Longrightarrow> k < s + n \<Longrightarrow> k < boot_idx bd \<and> \<not> node_bootmem_map bd ! k"
  shows "run_bytes bd s n \<subseteq> clear_bytes bd"
  unfolding run_bytes_pages clear_bytes_def by (intro UN_mono) (use assms in auto)

lemma tail_not_clear:
  assumes "bd_ok bd"
  shows "tail_bytes bd \<inter> clear_bytes bd = {}"
proof -
  have "tail_bytes bd \<subseteq> page_bytes bd (last_pos bd)" by (auto simp: tail_bytes_def page_bytes_def)
  moreover have "page_bytes bd (last_pos bd) \<inter> clear_bytes bd = {}" if "last_offset bd \<noteq> 0"
    using bd_okD(7) [OF assms that] by (auto simp: clear_bytes_def in_page)
  ultimately show ?thesis by (auto simp: tail_bytes_def split: if_splits)
qed

lemma unat_pages:
  fixes sz :: u32
  assumes "unat sz + 4095 < 2 ^ 32"
  shows "unat ((sz + 4095) div 4096) = (unat sz + 4095) div PAGE_SIZE"
proof -
  have "unat (sz + 4095) = unat sz + 4095" using assms by (subst unat_add_nowrap) simp_all
  then show ?thesis by (simp add: unat_div)
qed

lemma pages_needed:
  shows "r \<le> PAGE_SIZE * ((r + 4095) div PAGE_SIZE)"
    "r mod PAGE_SIZE \<noteq> 0 \<Longrightarrow> (r + 4095) div PAGE_SIZE \<noteq> 0 \<and> r = PAGE_SIZE * ((r + 4095) div PAGE_SIZE - 1) + r mod PAGE_SIZE"
proof -
  obtain q m where qm: "r = PAGE_SIZE * q + m" "m < PAGE_SIZE"
    using mult_div_mod_eq [of PAGE_SIZE r] mod_less_divisor [of PAGE_SIZE r] by (metis zero_less_numeral)
  have c: "(r + 4095) div PAGE_SIZE = (if m = 0 then q else Suc q)"
    using qm(2) by (auto simp: qm(1) intro!: div_nat_eqI)
  show "r \<le> PAGE_SIZE * ((r + 4095) div PAGE_SIZE)" using qm by (simp add: c)
  show "(r + 4095) div PAGE_SIZE \<noteq> 0 \<and> r = PAGE_SIZE * ((r + 4095) div PAGE_SIZE - 1) + r mod PAGE_SIZE" if "r mod PAGE_SIZE \<noteq> 0"
    unfolding c using that qm by simp
qed

lemma unat_and_4095: "unat ((w :: u32) AND 4095) = unat w mod PAGE_SIZE"
  using and_pow2_minus_1 [of "4096 :: u32" 12 w] by simp

text \<open>An allocation uses free bytes, and what is free afterwards was free before.\<close>

definition takes :: "bootmem_data \<Rightarrow> nat set \<Rightarrow> bootmem_data \<Rightarrow> bool" where
  "takes bd R bd' \<longleftrightarrow> bd_ok bd' \<and> R \<subseteq> free_bytes bd \<and> free_bytes bd' \<subseteq> free_bytes bd - R \<and> boot_bytes bd' = boot_bytes bd"

lemma takes_run:
  assumes ok: "bd_ok bd" and run: "\<And>k. s \<le> k \<Longrightarrow> k < s + n \<Longrightarrow> k < boot_idx bd \<and> \<not> node_bootmem_map bd ! k"
    and b: "set_bits True s (s + n) (node_bootmem_map bd) = Inr bits"
    and same: "node_boot_start bd' = node_boot_start bd" "node_low_pfn bd' = node_low_pfn bd" "node_bootmem_map bd' = bits"
    and R: "R \<subseteq> tail_bytes bd \<union> run_bytes bd s n" and tl: "tail_bytes bd' \<subseteq> tail_bytes bd \<union> run_bytes bd s n - R"
    and last: "unat (last_offset bd') < PAGE_SIZE" "last_offset bd' \<noteq> 0 \<Longrightarrow> last_pos bd' < boot_idx bd \<and> bits ! last_pos bd'"
  shows "takes bd R bd'"
proof -
  have i: "boot_idx bd' = boot_idx bd" by (simp add: boot_idx_def same)
  have "bd_ok bd'" using map_ok_set [OF bd_ok_map [OF ok] b same last(1)] last(2) unfolding bd_ok_def i same by auto
  moreover have cl: "clear_bytes bd' = clear_bytes bd - run_bytes bd s n" using clear_bytes_set [OF bd_ok_map [OF ok] b same] .
  moreover have "R \<inter> (clear_bytes bd - run_bytes bd s n) = {}" using R tail_not_clear [OF ok] by blast
  moreover have "run_bytes bd s n \<subseteq> clear_bytes bd" using run by (rule clear_run)
  moreover have "boot_bytes bd' = boot_bytes bd" by (simp add: boot_bytes_def i same)
  ultimately show ?thesis using R tl unfolding takes_def free_bytes_def by blast
qed

lemma tail_of_run:
  assumes "last_pos bd' = s + n - 1" "unat (last_offset bd') = r mod PAGE_SIZE" "n = (r + 4095) div PAGE_SIZE" "node_boot_start bd' = node_boot_start bd"
  shows "tail_bytes bd' = {} \<or> n \<noteq> 0 \<and>
    tail_bytes bd' = {unat (node_boot_start bd) + PAGE_SIZE * s + r..<unat (node_boot_start bd) + PAGE_SIZE * (s + n)}"
proof (cases "r mod PAGE_SIZE = 0")
  case True
  then have "last_offset bd' = 0" using assms(2) by (simp add: unat_eq_0)
  then show ?thesis by (simp add: tail_bytes_def)
next
  case False
  then have ne: "last_offset bd' \<noteq> 0" using assms(2) by auto
  have n: "n \<noteq> 0" "r = PAGE_SIZE * (n - 1) + r mod PAGE_SIZE" using pages_needed(2) [OF False] unfolding assms(3) by blast+
  have "PAGE_SIZE * (s + n - 1) + r mod PAGE_SIZE = PAGE_SIZE * s + r" using n by (cases n) (simp_all add: distrib_left)
  moreover have "Suc (s + n - 1) = s + n" using n(1) by simp
  ultimately show ?thesis using n(1) ne unfolding tail_bytes_def assms(1,2,4) by (simp add: add.assoc del: mult_Suc_right)
qed

text \<open>A whole new area.\<close>

lemma place_new:
  assumes ok: "bd_ok bd" and run: "\<And>k. s \<le> k \<Longrightarrow> k < s + n \<Longrightarrow> k < boot_idx bd \<and> \<not> node_bootmem_map bd ! k"
    and n: "n = (unat sz + 4095) div PAGE_SIZE" and b: "set_bits True s (s + n) (node_bootmem_map bd) = Inr bits"
    and bd': "bd' = bd\<lparr>last_success := ls, last_pos := s + n - 1, last_offset := sz AND 4095, node_bootmem_map := bits\<rparr>"
  shows "takes bd {unat (node_boot_start bd) + PAGE_SIZE * s..<unat (node_boot_start bd) + PAGE_SIZE * s + unat sz} bd'" (is "takes bd ?R bd'")
proof (rule takes_run [OF ok run b])
  have sz: "unat sz \<le> PAGE_SIZE * n" using pages_needed(1) unfolding n .
  then show "?R \<subseteq> tail_bytes bd \<union> run_bytes bd s n" by (auto simp: run_bytes_def distrib_left)
  have lo: "unat (last_offset bd') = unat sz mod PAGE_SIZE" by (simp add: bd' unat_and_4095)
  then show "unat (last_offset bd') < PAGE_SIZE" by simp
  have T: "tail_bytes bd' = {} \<or> n \<noteq> 0 \<and> tail_bytes bd' =
      {unat (node_boot_start bd) + PAGE_SIZE * s + unat sz..<unat (node_boot_start bd) + PAGE_SIZE * (s + n)}"
    using lo n by (intro tail_of_run) (simp_all add: bd')
  then show "tail_bytes bd' \<subseteq> tail_bytes bd \<union> run_bytes bd s n - ?R" by (auto simp: run_bytes_def)
  show "last_pos bd' < boot_idx bd \<and> bits ! last_pos bd'" if "last_offset bd' \<noteq> 0"
  proof -
    have "unat sz mod PAGE_SIZE \<noteq> 0" using that lo by (metis unat_eq_0)
    then have "n \<noteq> 0" using pages_needed(2) unfolding n by blast
    then have k: "s \<le> s + n - 1" "s + n - 1 < s + n" by simp_all
    then show ?thesis using run [OF k] set_bits_Inr [OF b] bd_okD(1) [OF ok] by (auto simp: bd' simp del: add_diff_assoc)
  qed
qed (simp_all add: bd')

text \<open>The allocation continues in the last page.\<close>

lemma round_in_page:
  fixes lo align :: u32
  assumes "unat lo < PAGE_SIZE" "align \<noteq> 0" "align AND (align - 1) = 0" "align < 4096"
  shows "unat lo \<le> unat ((lo + align - 1) AND NOT (align - 1))" "unat ((lo + align - 1) AND NOT (align - 1)) \<le> PAGE_SIZE"
proof -
  obtain k where k: "k \<le> 31" "unat align = 2 ^ k" using and_pred_zero_pow2 [OF assms(2,3)] by blast
  have "(2 :: nat) ^ k < 2 ^ 12" using assms(4) k by (simp add: word_less_nat_alt)
  then have k12: "k < 12" by (rule power_less_imp_less_exp [rotated]) simp
  have "lo + align - 1 = lo + (align - 1)" by simp
  moreover have a1: "unat (align - 1) = 2 ^ k - 1" using k assms(2) by (subst unat_sub_nowrap) simp_all
  ultimately have u: "unat (lo + align - 1) = unat lo + (2 ^ k - 1)"
    using assms(1) \<open>2 ^ k < 2 ^ 12\<close> by (simp only: unat_add_nowrap) (subst unat_add_nowrap, simp_all)
  have e: "unat ((lo + align - 1) AND NOT (align - 1)) = (unat lo + (2 ^ k - 1)) div 2 ^ k * 2 ^ k"
    using align_down [OF k(2)] k(1) u by simp
  have "unat lo + (2 ^ k - 1) < (unat lo + (2 ^ k - 1)) div 2 ^ k * 2 ^ k + 2 ^ k" 
    using dividend_less_div_times [of "2 ^ k" "unat lo + (2 ^ k - 1)"] by (simp add: add.commute)
  then show "unat lo \<le> unat ((lo + align - 1) AND NOT (align - 1))" unfolding e by simp
  have p: "PAGE_SIZE = 2 ^ (12 - k) * 2 ^ k" using k12 by (simp flip: power_add)
  have "unat lo + (2 ^ k - 1) < PAGE_SIZE + 2 ^ k" using assms(1) by simp
  also have "\<dots> = (2 ^ (12 - k) + 1) * 2 ^ k" unfolding p by simp
  finally have "(unat lo + (2 ^ k - 1)) div 2 ^ k < 2 ^ (12 - k) + 1" by (simp only: less_mult_imp_div_less)
  then have "(unat lo + (2 ^ k - 1)) div 2 ^ k * 2 ^ k \<le> 2 ^ (12 - k) * 2 ^ k" by (intro mult_le_mono1) simp
  then show "unat ((lo + align - 1) AND NOT (align - 1)) \<le> PAGE_SIZE" unfolding e p .
qed

lemma place_small:
  assumes ok: "bd_ok bd" and lo: "last_offset bd \<noteq> 0" "unat (last_offset bd) \<le> unat offset" "unat offset + unat sz < PAGE_SIZE"
    and bd': "bd' = bd\<lparr>last_success := ls, last_offset := (offset + sz) AND 4095\<rparr>"
  shows "takes bd {unat (node_boot_start bd) + PAGE_SIZE * last_pos bd + unat offset..<
    unat (node_boot_start bd) + PAGE_SIZE * last_pos bd + unat offset + unat sz} bd'" (is "takes bd ?R bd'")
proof (rule takes_run [OF ok, where s = 0 and n = 0 and bits = "node_bootmem_map bd"])
  have u: "unat (last_offset bd') = unat offset + unat sz"
    using lo(3) by (simp add: bd' unat_and_4095) (subst unat_add_nowrap, simp_all)
  then show "unat (last_offset bd') < PAGE_SIZE" using lo(3) by simp
  show "?R \<subseteq> tail_bytes bd \<union> run_bytes bd 0 0" using lo by (auto simp: tail_bytes_def)
  show "tail_bytes bd' \<subseteq> tail_bytes bd \<union> run_bytes bd 0 0 - ?R" using lo u by (auto simp: tail_bytes_def bd' split: if_splits)
  show "last_pos bd' < boot_idx bd \<and> node_bootmem_map bd ! last_pos bd'" using bd_okD(6,7) [OF ok lo(1)] by (simp add: bd')
qed (simp_all add: bd' set_bits.simps)

lemma place_merged:
  assumes ok: "bd_ok bd" and lo: "last_offset bd \<noteq> 0" "unat (last_offset bd) \<le> o'" "o' \<le> PAGE_SIZE" "s = last_pos bd + 1"
    and run: "\<And>k. s \<le> k \<Longrightarrow> k < s + n \<Longrightarrow> k < boot_idx bd \<and> \<not> node_bootmem_map bd ! k"
    and n: "n = (unat rem + 4095) div PAGE_SIZE" and b: "set_bits True s (s + n) (node_bootmem_map bd) = Inr bits"
    and bd': "bd' = bd\<lparr>last_success := ls, last_pos := s + n - 1, last_offset := rem AND 4095, node_bootmem_map := bits\<rparr>"
  shows "takes bd {unat (node_boot_start bd) + PAGE_SIZE * last_pos bd + o'..<
    unat (node_boot_start bd) + PAGE_SIZE * last_pos bd + PAGE_SIZE + unat rem} bd'" (is "takes bd ?R bd'")
proof (rule takes_run [OF ok run b])
  have r: "unat rem \<le> PAGE_SIZE * n" using pages_needed(1) unfolding n .
  have s: "PAGE_SIZE * last_pos bd + PAGE_SIZE = PAGE_SIZE * s" using lo(4) by simp
  show "?R \<subseteq> tail_bytes bd \<union> run_bytes bd s n" using lo(1-3) r s by (auto simp: tail_bytes_def run_bytes_def distrib_left)
  have l: "unat (last_offset bd') = unat rem mod PAGE_SIZE" by (simp add: bd' unat_and_4095)
  then show "unat (last_offset bd') < PAGE_SIZE" by simp
  have T: "tail_bytes bd' = {} \<or> n \<noteq> 0 \<and> tail_bytes bd' =
      {unat (node_boot_start bd) + PAGE_SIZE * s + unat rem..<unat (node_boot_start bd) + PAGE_SIZE * (s + n)}"
    using l n by (intro tail_of_run) (simp_all add: bd')
  then show "tail_bytes bd' \<subseteq> tail_bytes bd \<union> run_bytes bd s n - ?R" using s by (auto simp: run_bytes_def)
  show "last_pos bd' < boot_idx bd \<and> bits ! last_pos bd'" if "last_offset bd' \<noteq> 0"
  proof -
    have "unat rem mod PAGE_SIZE \<noteq> 0" using that l by (metis unat_eq_0)
    then have "n \<noteq> 0" using pages_needed(2) unfolding n by blast
    then have k: "s \<le> s + n - 1" "s + n - 1 < s + n" by simp_all
    then show ?thesis using run [OF k] set_bits_Inr [OF b] bd_okD(1) [OF ok] by (auto simp: bd' simp del: add_diff_assoc)
  qed
qed (simp_all add: bd')

text \<open>The numbers and addresses of the pages.\<close>

lemma unat_of_nat_small: "n < 2 ^ 32 \<Longrightarrow> unat (of_nat n :: u32) = n"
  by (simp add: unat_of_nat take_bit_nat_eq_self)

lemma of_nat_small_eq:
  assumes "(of_nat m :: u32) = of_nat n" "m < 2 ^ 32" "n < 2 ^ 32"
  shows "m = n"
  using assms by (metis unat_of_nat_small)

lemma boot_addr:
  assumes ok: "bd_ok bd" and p: "PAGE_SIZE * p + unat off < PAGE_SIZE * boot_idx bd"
  shows "unat (of_nat p * 4096 + off + node_boot_start bd) = unat (node_boot_start bd) + PAGE_SIZE * p + unat off"
proof -
  have b: "unat (node_boot_start bd) + (PAGE_SIZE * p + unat off) < 2 ^ 32" using p bd_okD(4,8) [OF ok] by linarith
  have "unat (of_nat p :: u32) = p" using b by (simp add: unat_of_nat_small)
  then have "unat (of_nat p * 4096 :: u32) = p * PAGE_SIZE" using b by (subst unat_mult_nowrap) simp_all
  then have "unat (of_nat p * 4096 + off) = p * PAGE_SIZE + unat off" using b by (subst unat_add_nowrap) simp_all
  then show ?thesis using b by (subst unat_add_nowrap) simp_all
qed

lemma place_takes_merged:
  assumes ok: "bd_ok bd" and start: "start < boot_idx bd" and sz: "unat sz + 4095 < 2 ^ 32" "n0 = (unat sz + 4095) div PAGE_SIZE"
    and run: "\<And>k. start \<le> k \<Longrightarrow> k < start + n0 \<Longrightarrow> k < boot_idx bd \<and> \<not> node_bootmem_map bd ! k"
    and al: "align \<noteq> 0" "align AND (align - 1) = 0"
    and p: "place start n0 sz align (bd\<lparr>last_success := ls\<rparr>) = Inr (ret, n, bd1)"
    and m: "align < 4096 \<and> last_offset bd \<noteq> 0 \<and> of_nat (last_pos bd) + 1 = (of_nat start :: u32)"
    and b: "set_bits True start (start + n) (node_bootmem_map bd1) = Inr bits"
  shows "takes bd {unat ret..<unat ret + unat sz} (bd1\<lparr>node_bootmem_map := bits\<rparr>)"
proof -
  let ?o = "(last_offset bd + align - 1) AND NOT (align - 1)"
  have o: "unat (last_offset bd) \<le> unat ?o" "unat ?o \<le> PAGE_SIZE"
    using round_in_page [OF bd_okD(5) [OF ok] al] m by blast+
  have "last_offset bd \<noteq> 0" "(of_nat (last_pos bd + 1) :: u32) = of_nat start" using m by (simp_all add: add.commute)
  then have lo: "last_offset bd \<noteq> 0" "start = last_pos bd + 1"
    using start bd_okD(4,6,8) [OF ok] by (auto simp del: of_nat_add of_nat_Suc dest!: of_nat_small_eq)
  have o': "\<not> 4096 < ?o" using o(2) by (simp add: word_less_nat_alt)
  have rem: "unat (4096 - ?o) = PAGE_SIZE - unat ?o" using o(2) by (subst unat_sub_nowrap) (simp_all add: word_le_nat_alt)
  have ret: "ret = of_nat (last_pos bd) * 4096 + ?o + node_boot_start bd"
    using p m o' by (auto simp: place_def Let_def split: if_splits)
  have "PAGE_SIZE * (last_pos bd + 1) < PAGE_SIZE * boot_idx bd" using start lo(2) by simp
  then have u: "unat ret = unat (node_boot_start bd) + PAGE_SIZE * last_pos bd + unat ?o"
    unfolding ret using o(2) by (subst boot_addr [OF ok]) simp_all
  show ?thesis
  proof (cases "sz < 4096 - ?o")
    case True
    then have s: "unat ?o + unat sz < PAGE_SIZE" using rem o(2) by (simp add: word_less_nat_alt)
    have bd1: "n = 0" "bd1 = bd\<lparr>last_success := ls, last_offset := (?o + sz) AND 4095\<rparr>"
      using p m o' True by (auto simp: place_def Let_def)
    then have "bits = node_bootmem_map bd" using b by (simp add: set_bits.simps)
    then show ?thesis using place_small [OF ok lo(1) o(1) s refl, where ls = ls] unfolding u by (simp add: bd1 add.assoc)
  next
    case False
    let ?r = "sz - (4096 - ?o)"
    have r: "unat ?r + (PAGE_SIZE - unat ?o) = unat sz" using False rem by (subst unat_sub_nowrap) (auto simp: word_le_nat_alt not_less)
    have "n = unat ((?r + 4095) div 4096)" using p m o' False by (auto simp: place_def Let_def)
    then have n: "n = (unat ?r + 4095) div PAGE_SIZE" using unat_pages [of ?r] r sz(1) by linarith
    have bd1: "bd1 = bd\<lparr>last_success := ls, last_pos := start + n - 1, last_offset := ?r AND 4095\<rparr>"
      using p m o' False lo(2) by (auto simp: place_def Let_def pred_idx_def)
    have le: "n \<le> n0" unfolding n sz(2) using r by (intro div_le_mono) linarith
    have "takes bd {unat (node_boot_start bd) + PAGE_SIZE * last_pos bd + unat ?o..<
        unat (node_boot_start bd) + PAGE_SIZE * last_pos bd + PAGE_SIZE + unat ?r} (bd1\<lparr>node_bootmem_map := bits\<rparr>)"
      by (rule place_merged [OF ok lo(1) o lo(2) _ n]) (use run le b in \<open>auto simp: bd1\<close>)
    moreover have "unat (node_boot_start bd) + PAGE_SIZE * last_pos bd + PAGE_SIZE + unat ?r = unat ret + unat sz"
      using r o(2) unfolding u by linarith
    ultimately show ?thesis unfolding u by simp
  qed
qed

lemma place_takes:
  assumes ok: "bd_ok bd" and start: "start < boot_idx bd" and sz: "unat sz + 4095 < 2 ^ 32" "n0 = (unat sz + 4095) div PAGE_SIZE" "sz \<noteq> 0"
    and run: "\<And>k. start \<le> k \<Longrightarrow> k < start + n0 \<Longrightarrow> k < boot_idx bd \<and> \<not> node_bootmem_map bd ! k"
    and al: "align \<noteq> 0" "align AND (align - 1) = 0"
    and p: "place start n0 sz align (bd\<lparr>last_success := ls\<rparr>) = Inr (ret, n, bd1)"
    and b: "set_bits True start (start + n) (node_bootmem_map bd1) = Inr bits"
  shows "takes bd {unat ret..<unat ret + unat sz} (bd1\<lparr>node_bootmem_map := bits\<rparr>)"
proof (cases "align < 4096 \<and> last_offset bd \<noteq> 0 \<and> of_nat (last_pos bd) + 1 = (of_nat start :: u32)")
  case False
  then have r: "ret = of_nat start * 4096 + 0 + node_boot_start bd" "n = n0"
      "bd1 = bd\<lparr>last_success := ls, last_pos := pred_idx (start + n0), last_offset := sz AND 4095\<rparr>"
    using p by (auto simp: place_def)
  have "unat sz \<le> PAGE_SIZE * n0" unfolding sz(2) by (rule pages_needed(1))
  then have "n0 \<noteq> 0" using sz(3) by (cases n0) (simp_all add: unat_eq_0)
  have "unat ret = unat (node_boot_start bd) + PAGE_SIZE * start" unfolding r(1) using start by (subst boot_addr [OF ok]) simp_all
  then show ?thesis using \<open>n0 \<noteq> 0\<close> b place_new [OF ok run sz(2), where bits = bits and bd' = "bd1\<lparr>node_bootmem_map := bits\<rparr>" and ls = ls]
    by (simp add: r pred_idx_def)
next
  case True
  then show ?thesis using place_takes_merged [OF ok start sz(1,2) run al p _ b] by blast
qed

text \<open>A successful allocation takes free memory, a failing one changes nothing.\<close>

lemma boot_idx_success [simp]: "boot_idx (bd\<lparr>last_success := ls\<rparr>) = boot_idx bd"
  by (simp add: boot_idx_def)

lemma alloc_found_Some:
  assumes "alloc_found start n0 sz align bd = Inr (r, bd')"
  obtains ret n bd1 bits where "r = Some ret" "start < boot_idx bd"
    "place start n0 sz align (bd\<lparr>last_success := of_nat start * 4096\<rparr>) = Inr (ret, n, bd1)"
    "set_bits True start (start + n) (node_bootmem_map bd1) = Inr bits" "bd' = bd1\<lparr>node_bootmem_map := bits\<rparr>"
  using assms by (auto simp: alloc_found_def Let_def bind_res_Inr not_le split: if_splits)

lemma alloc_takes:
  assumes ok: "bd_ok bd" and sz: "unat sz + 4095 < 2 ^ 32" and al: "align \<noteq> 0"
    and a: "alloc_bootmem_core oob sz align goal bd = Inr (Some ret, bd')"
  shows "takes bd {unat ret..<unat ret + unat sz} bd'"
proof -
  let ?n = "unat ((sz + 4095) div 4096)"
  have z: "sz \<noteq> 0" "align AND (align - 1) = 0" using a by (auto simp: alloc_bootmem_core_def split: if_splits)
  obtain incr i start where sc: "scan oob (node_bootmem_map bd) (boot_idx bd) incr ?n i = Inr (Some start)"
      and f: "alloc_found start ?n sz align bd = Inr (Some ret, bd')"
    using a z by (auto simp: alloc_bootmem_core_def Let_def bind_res_Inr split: if_splits option.splits)
  from f obtain n bd1 bits where lt: "start < boot_idx bd"
      and p: "place start ?n sz align (bd\<lparr>last_success := of_nat start * 4096\<rparr>) = Inr (ret, n, bd1)"
      and b: "set_bits True start (start + n) (node_bootmem_map bd1) = Inr bits" and bd': "bd' = bd1\<lparr>node_bootmem_map := bits\<rparr>"
    by (rule alloc_found_Some) simp
  have "k < boot_idx bd \<and> \<not> node_bootmem_map bd ! k" if "start \<le> k" "k < start + ?n" for k
    using scan_Some [OF sc lt bd_okD(1) [OF ok] that] .
  from place_takes [OF ok lt sz unat_pages [OF sz] z(1) this al z(2) p b] show ?thesis unfolding bd' .
qed

lemma place_same:
  assumes "place start n0 sz align bd = Inr (ret, n, bd')"
  shows "node_boot_start bd' = node_boot_start bd \<and> node_low_pfn bd' = node_low_pfn bd \<and> node_bootmem_map bd' = node_bootmem_map bd \<and>
    unat (last_offset bd') < PAGE_SIZE"
  using assms by (auto simp: place_def Let_def unat_and_4095 split: if_splits)

lemma alloc_map_ok:
  assumes ok: "map_ok bd" and a: "alloc_bootmem_core oob sz align goal bd = Inr (Some ret, bd')"
  shows "map_ok bd'"
proof -
  obtain start n0 where "alloc_found start n0 sz align bd = Inr (Some ret, bd')"
    using a by (auto simp: alloc_bootmem_core_def Let_def bind_res_Inr split: if_splits option.splits)
  then obtain n bd1 bits where p: "place start n0 sz align (bd\<lparr>last_success := of_nat start * 4096\<rparr>) = Inr (ret, n, bd1)"
      and b: "set_bits True start (start + n) (node_bootmem_map bd1) = Inr bits" and bd': "bd' = bd1\<lparr>node_bootmem_map := bits\<rparr>"
    by (auto elim: alloc_found_Some)
  show ?thesis using place_same [OF p] b by (intro map_ok_set [OF ok, of True start "start + n" bits]) (simp_all add: bd')
qed


subsection \<open>When an allocation succeeds\<close>





lemma ALIGN_1 [simp]: "ALIGN j (Suc 0) = j"
  by (simp add: ALIGN_def)










subsection \<open>Reserving and freeing\<close>

lemma init_bootmem_ok:
  assumes "start < fin" "PAGE_SIZE * fin \<le> 2 ^ 32"
  shows "bd_ok (init_bootmem_core mapstart start fin)"
proof -
  let ?bd = "init_bootmem_core mapstart start fin"
  have b: "start < 2 ^ 20" using assms by simp
  then have "unat (of_nat start :: u32) = start" by (simp add: unat_of_nat_small)
  then have u: "unat (node_boot_start ?bd) = start * PAGE_SIZE"
    using b by (simp add: init_bootmem_core_def Let_def) (subst unat_mult_nowrap, simp_all)
  then have "boot_idx ?bd = fin - start" by (simp add: boot_idx_def unat_drop_bit) (simp add: init_bootmem_core_def Let_def)
  moreover have "fin - start \<le> 8 * (((fin - start + 7) div 8 + 3) div 4 * 4)" by linarith
  ultimately show ?thesis using assms u by (simp add: bd_ok_def map_ok_def) (simp add: init_bootmem_core_def Let_def)
qed

text \<open>The memory from an address on, and an argument of the operations that is inside the node.\<close>

definition span :: "u32 \<times> u32 \<Rightarrow> nat set" where
  "span r = {unat (fst r)..<unat (fst r) + unat (snd r)}"

definition boot_range :: "bootmem_data \<Rightarrow> u32 \<times> u32 \<Rightarrow> bool" where
  "boot_range bd r \<longleftrightarrow> node_boot_start bd \<le> fst r \<and> unat (fst r) + unat (snd r) \<le> PAGE_SIZE * node_low_pfn bd \<and>
     unat (fst r) + unat (snd r) + 4095 < 2 ^ 32"

lemma boot_range_words:
  assumes ok: "map_ok bd" and r: "boot_range bd (a, sz)"
  obtains p q where "unat (node_boot_start bd) = PAGE_SIZE * p" "unat a = PAGE_SIZE * p + q"
    "unat ((a - node_boot_start bd) div 4096) = q div PAGE_SIZE"
    "unat ((a + sz - node_boot_start bd + 4095) div 4096) = (q + unat sz + 4095) div PAGE_SIZE"
    "unat ((a + sz - node_boot_start bd) div 4096) = (q + unat sz) div PAGE_SIZE"
    "unat ((a + 4095) div 4096 - node_boot_start bd div 4096) = (q + 4095) div PAGE_SIZE"
    "(q + unat sz) div PAGE_SIZE \<le> boot_idx bd"
proof -
  obtain p where p: "unat (node_boot_start bd) = PAGE_SIZE * p" using map_okD(3) [OF ok] by (auto elim: dvdE)
  have "unat (node_boot_start bd) \<le> unat a" using r by (simp add: boot_range_def word_le_nat_alt)
  then obtain q where q: "unat a = PAGE_SIZE * p + q" using p le_Suc_ex by metis
  have b: "unat a + unat sz + 4095 < 2 ^ 32" using r by (simp add: boot_range_def)
  have as: "unat (a + sz) = unat a + unat sz" using b by (subst unat_add_nowrap) simp_all
  have s: "unat (a - node_boot_start bd) = q" "unat (a + sz - node_boot_start bd) = q + unat sz"
    using p q as by (simp_all add: unat_sub_nowrap)
  have e: "unat (a + sz - node_boot_start bd + 4095) = q + unat sz + 4095" using s(2) b q by (subst unat_add_nowrap) simp_all
  have "unat (a + 4095) = PAGE_SIZE * p + (q + 4095)" using b q by (subst unat_add_nowrap) simp_all
  then have "unat ((a + 4095) div 4096) = p + (q + 4095) div PAGE_SIZE" by (simp add: unat_div)
  moreover have "unat (node_boot_start bd div 4096) = p" using p by (simp add: unat_div)
  ultimately have c: "unat ((a + 4095) div 4096 - node_boot_start bd div 4096) = (q + 4095) div PAGE_SIZE" by (simp add: unat_sub_nowrap)
  have "q + unat sz \<le> PAGE_SIZE * boot_idx bd" using r map_okD(6) [OF ok] p q by (simp add: boot_range_def)
  then have "(q + unat sz) div PAGE_SIZE \<le> boot_idx bd" using div_le_mono [of "q + unat sz" "PAGE_SIZE * boot_idx bd" PAGE_SIZE] by simp
  then show ?thesis using that p q s e c by (simp add: unat_div)
qed

lemma map_sum_Inr: "map_sum id f x = Inr y \<longleftrightarrow> (\<exists>z. x = Inr z \<and> y = f z)"
  by (cases x) auto

lemma reserve_bootmem_ok:
  assumes ok: "map_ok bd" and r: "boot_range bd (a, sz)" and f: "reserve_bootmem_core a sz bd = Inr bd'"
  shows "map_ok bd' \<and> (bd_ok bd \<longrightarrow> bd_ok bd') \<and> tail_bytes bd' = tail_bytes bd \<and> clear_bytes bd' \<subseteq> clear_bytes bd - span (a, sz) \<and> boot_bytes bd' = boot_bytes bd"
proof -
  obtain p q where w: "unat (node_boot_start bd) = PAGE_SIZE * p" "unat a = PAGE_SIZE * p + q"
      "unat ((a - node_boot_start bd) div 4096) = q div PAGE_SIZE"
      "unat ((a + sz - node_boot_start bd + 4095) div 4096) = (q + unat sz + 4095) div PAGE_SIZE"
    using boot_range_words [OF ok r] by metis
  let ?s = "q div PAGE_SIZE" and ?e = "(q + unat sz + 4095) div PAGE_SIZE"
  obtain bits where b: "set_bits False ?s ?e (node_bootmem_map bd) = Inr bits" and bd': "bd' = bd\<lparr>node_bootmem_map := bits\<rparr>"
    using f by (auto simp: reserve_bootmem_core_def Let_def w map_sum_Inr split: if_splits)
  have "?s \<le> ?e" by (intro div_le_mono) simp
  then have e: "?s + (?e - ?s) = ?e" by simp
  have "q + unat sz \<le> PAGE_SIZE * ?e" by (rule pages_needed(1))
  then have "span (a, sz) \<subseteq> run_bytes bd ?s (?e - ?s)" unfolding run_bytes_def e
    using times_div_less_eq_dividend [of PAGE_SIZE q] by (auto simp: span_def w)
  moreover have "clear_bytes bd' = clear_bytes bd - run_bytes bd ?s (?e - ?s)"
    by (rule clear_bytes_set [OF ok, where strict = False and bits = bits]) (simp_all add: e b bd')
  moreover have "map_ok bd'" using map_okD(5) [OF ok] by (intro map_ok_set [OF ok b]) (simp_all add: bd')
  moreover from this have "bd_ok bd'" if "bd_ok bd" using that set_bits_Inr [OF b] map_okD(1) [OF ok] by (auto simp: bd_ok_def bd' boot_idx_def)
  ultimately show ?thesis by (auto simp: tail_bytes_def boot_bytes_def boot_idx_def bd')
qed

lemma free_bootmem_ok:
  assumes ok: "map_ok bd" and r: "boot_range bd (a, sz)" and f: "free_bootmem_core a sz bd = Inr bd'"
  shows "map_ok bd' \<and> (bd_ok bd \<longrightarrow> (last_offset bd' \<noteq> 0 \<longrightarrow> node_bootmem_map bd' ! last_pos bd') \<longrightarrow> bd_ok bd') \<and> tail_bytes bd' = tail_bytes bd \<and> clear_bytes bd' \<subseteq> clear_bytes bd \<union> span (a, sz) \<and> boot_bytes bd' = boot_bytes bd"
proof -
  obtain p q where w: "unat (node_boot_start bd) = PAGE_SIZE * p" "unat a = PAGE_SIZE * p + q"
      "unat ((a + sz - node_boot_start bd) div 4096) = (q + unat sz) div PAGE_SIZE"
      "unat ((a + 4095) div 4096 - node_boot_start bd div 4096) = (q + 4095) div PAGE_SIZE" "(q + unat sz) div PAGE_SIZE \<le> boot_idx bd"
    using boot_range_words [OF ok r] by metis
  let ?s = "(q + 4095) div PAGE_SIZE" and ?e = "(q + unat sz) div PAGE_SIZE"
  obtain bits where b: "clear_bits ?s ?e (node_bootmem_map bd) = Inr bits" and bd': "node_bootmem_map bd' = bits"
      "node_boot_start bd' = node_boot_start bd" "node_low_pfn bd' = node_low_pfn bd" "last_offset bd' = last_offset bd" "last_pos bd' = last_pos bd"
    using f by (auto simp: free_bootmem_core_def Let_def w map_sum_Inr split: if_splits)
  note B = clear_bits_Inr [OF b]
  have sub: "page_bytes bd i \<subseteq> span (a, sz)" if "?s \<le> i" "i < ?e" for i
  proof -
    have "PAGE_SIZE * ?s \<le> PAGE_SIZE * i" "PAGE_SIZE * Suc i \<le> PAGE_SIZE * ?e" using that by (simp_all only: mult_le_mono2 Suc_leI)
    then have "q \<le> PAGE_SIZE * i" "PAGE_SIZE * Suc i \<le> q + unat sz"
      using pages_needed(1) [of q] times_div_less_eq_dividend [of PAGE_SIZE "q + unat sz"] by linarith+
    then show ?thesis by (auto simp: page_bytes_def span_def w(1,2))
  qed
  have "map_ok bd'" using ok B w(5) by (auto simp: map_ok_def bd' boot_idx_def)
  moreover from this have "bd_ok bd'" if "bd_ok bd" "last_offset bd' \<noteq> 0 \<longrightarrow> node_bootmem_map bd' ! last_pos bd'"
    using that by (auto simp: bd_ok_def bd' boot_idx_def)
  moreover have "clear_bytes bd' \<subseteq> clear_bytes bd \<union> span (a, sz)"
  proof -
    have "\<not> bits ! i \<Longrightarrow> i < boot_idx bd \<Longrightarrow> \<not> node_bootmem_map bd ! i \<or> ?s \<le> i \<and> i < ?e" for i
      using B map_okD(1) [OF ok] by auto
    then show ?thesis using sub unfolding clear_bytes_def by (fastforce simp: bd' page_bytes_def boot_idx_def)
  qed
  ultimately show ?thesis by (auto simp: tail_bytes_def boot_bytes_def boot_idx_def bd')
qed

subsection \<open>Who owns which memory\<close>

text \<open>The allocator with the memory that has been allocated and the memory that has been reserved. \<open>misused\<close> records that a caller
  has done what the code accepts without a test, and what spoils the allocator's account of its memory.\<close>

record boot_sys =
  bdata :: bootmem_data
  given :: "(u32 \<times> u32) list"
  held :: "(u32 \<times> u32) list"
  misused :: bool

definition boot_init :: "boot_sys \<Rightarrow> bool" where
  "boot_init s \<longleftrightarrow> (\<exists>mapstart start fin. start < fin \<and> PAGE_SIZE * fin \<le> 2 ^ 32 \<and> bdata s = init_bootmem_core mapstart start fin) \<and>
     given s = [] \<and> held s = [] \<and> \<not> misused s"

text \<open>A step: an allocation, a reservation of memory that is not allocated, the owner of allocated or reserved memory gives it
  up, memory without an owner is freed. What is reserved or freed is inside the node. The allocator is misused by an allocation
  with alignment 0 or with a size that is less than a page from \<open>2 ^ 32\<close>, and by freeing the page, or by reserving a part of the rest
  of the page, that the next allocation may continue in.\<close>

inductive boot_step :: "boot_sys \<Rightarrow> boot_sys \<Rightarrow> bool" where
  alloc: "alloc_bootmem_core oob sz align goal (bdata s) = Inr (Some a, bd) \<Longrightarrow>
    boot_step s (s\<lparr>bdata := bd, given := (a, sz) # given s, misused := misused s \<or> align = 0 \<or> 2 ^ 32 \<le> unat sz + 4095\<rparr>)"
| reserve: "boot_range (bdata s) (a, sz) \<Longrightarrow> list_all (\<lambda>r. span (a, sz) \<inter> span r = {}) (given s) \<Longrightarrow>
    reserve_bootmem_core a sz (bdata s) = Inr bd \<Longrightarrow>
    boot_step s (s\<lparr>bdata := bd, held := (a, sz) # held s, misused := misused s \<or> span (a, sz) \<inter> tail_bytes (bdata s) \<noteq> {}\<rparr>)"
| drop: "given s = xs @ r # ys \<Longrightarrow> boot_step s (s\<lparr>given := xs @ ys\<rparr>)"
| unreserve: "held s = xs @ r # ys \<Longrightarrow> boot_step s (s\<lparr>held := xs @ ys\<rparr>)"
| free: "boot_range (bdata s) (a, sz) \<Longrightarrow> list_all (\<lambda>r. span (a, sz) \<inter> span r = {}) (given s @ held s) \<Longrightarrow>
    free_bootmem_core a sz (bdata s) = Inr bd \<Longrightarrow>
    boot_step s (s\<lparr>bdata := bd, misused := misused s \<or> last_offset bd \<noteq> 0 \<and> \<not> node_bootmem_map bd ! last_pos bd\<rparr>)"

definition apart :: "(u32 \<times> u32) list \<Rightarrow> bool" where
  "apart rs \<longleftrightarrow> sorted_wrt (\<lambda>r r'. span r \<inter> span r' = {}) rs"

definition owned_ok :: "boot_sys \<Rightarrow> bool" where
  "owned_ok s \<longleftrightarrow> bd_ok (bdata s) \<and> apart (given s) \<and> (\<forall>r \<in> set (given s). span r \<subseteq> boot_bytes (bdata s)) \<and>
     (\<forall>r \<in> set (given s @ held s). span r \<inter> free_bytes (bdata s) = {}) \<and>
     (\<forall>r \<in> set (given s). \<forall>r' \<in> set (held s). span r \<inter> span r' = {})"

definition boot_inv :: "boot_sys \<Rightarrow> bool" where
  "boot_inv s \<longleftrightarrow> map_ok (bdata s) \<and> (\<not> misused s \<longrightarrow> owned_ok s)"

lemma owned_okD:
  assumes "owned_ok s"
  shows "bd_ok (bdata s)" "apart (given s)" "r \<in> set (given s) \<Longrightarrow> span r \<subseteq> boot_bytes (bdata s)"
    "r \<in> set (given s) \<or> r \<in> set (held s) \<Longrightarrow> span r \<inter> free_bytes (bdata s) = {}"
    "r \<in> set (given s) \<Longrightarrow> r' \<in> set (held s) \<Longrightarrow> span r \<inter> span r' = {}"
  using assms by (auto simp: owned_ok_def)

lemma boot_init_inv: "boot_init s \<Longrightarrow> boot_inv s"
  using init_bootmem_ok bd_ok_map by (auto simp: boot_init_def boot_inv_def owned_ok_def apart_def)

lemma alloc_keeps:
  assumes inv: "owned_ok s" and t: "takes (bdata s) (span r) bd"
  shows "owned_ok (s\<lparr>bdata := bd, given := r # given s, misused := m\<rparr>)"
proof -
  note I = owned_okD [OF inv]
  have T: "bd_ok bd" "span r \<subseteq> free_bytes (bdata s)" "free_bytes bd \<subseteq> free_bytes (bdata s) - span r" "boot_bytes bd = boot_bytes (bdata s)"
    using t by (simp_all add: takes_def)
  have in': "span r \<subseteq> boot_bytes (bdata s)" using T(2) free_inside [OF I(1)] by blast
  have "span r \<inter> span r' = {}" if "r' \<in> set (given s) \<or> r' \<in> set (held s)" for r' using I(4) [OF that] T(2) by blast
  moreover have "span r' \<inter> free_bytes bd = {}" if "r' \<in> set (given s) \<or> r' \<in> set (held s)" for r' using I(4) [OF that] T(3) by blast
  moreover have "span r \<inter> free_bytes bd = {}" using T(3) by blast
  ultimately show ?thesis using T(1,4) in' I(2,3,5) by (auto simp: owned_ok_def apart_def)
qed

lemma boot_step_map:
  assumes "map_ok (bdata s)" "boot_step s t"
  shows "map_ok (bdata t)"
  using assms(2,1) by cases (auto intro: alloc_map_ok dest: reserve_bootmem_ok free_bootmem_ok)

lemma boot_step_misused: "boot_step s t \<Longrightarrow> misused s \<Longrightarrow> misused t"
  by (auto elim: boot_step.cases)

lemma boot_step_owned:
  assumes inv: "owned_ok s" and st: "boot_step s t" and m: "\<not> misused t"
  shows "owned_ok t"
  using st
proof cases
  case (alloc oob sz align goal a bd)
  have "takes (bdata s) (span (a, sz)) bd" using alloc(2) m alloc_takes [OF owned_okD(1) [OF inv], of sz align oob goal a bd] unfolding alloc(1) by (simp add: span_def not_le)
  then show ?thesis unfolding alloc(1) by (rule alloc_keeps [OF inv])
next
  case (reserve a sz bd)
  note I = owned_okD [OF inv] and R = reserve_bootmem_ok [OF bd_ok_map [OF owned_okD(1) [OF inv]] reserve(2,4)]
  have "free_bytes bd \<subseteq> free_bytes (bdata s) - span (a, sz)" using R m unfolding reserve(1) by (auto simp: free_bytes_def)
  moreover have "span r \<inter> span (a, sz) = {}" if "r \<in> set (given s)" for r using reserve(3) that by (auto simp: list_all_iff)
  ultimately show ?thesis using R I inv unfolding reserve(1) owned_ok_def by fastforce
next
  case (free a sz bd)
  note I = owned_okD [OF inv] and R = free_bootmem_ok [OF bd_ok_map [OF owned_okD(1) [OF inv]] free(2,4)]
  have ok: "bd_ok bd" using R I(1) m unfolding free(1) by auto
  have "free_bytes bd \<subseteq> free_bytes (bdata s) \<union> span (a, sz)" using R by (auto simp: free_bytes_def)
  moreover have "span r \<inter> span (a, sz) = {}" if "r \<in> set (given s) \<or> r \<in> set (held s)" for r
    using free(3) that by (auto simp: list_all_iff)
  ultimately have "span r \<inter> free_bytes bd = {}" if "r \<in> set (given s) \<or> r \<in> set (held s)" for r using I(4) [OF that] that by blast
  then show ?thesis using R I ok unfolding free(1) owned_ok_def by auto
qed (use inv in \<open>auto simp: owned_ok_def apart_def sorted_wrt_append\<close>)

lemma boot_step_inv: "boot_inv s \<Longrightarrow> boot_step s t \<Longrightarrow> boot_inv t"
  using boot_step_map boot_step_owned boot_step_misused unfolding boot_inv_def by blast

interpretation bootmem: transition_system boot_init boot_step boot_inv
  by unfold_locales (auto intro: boot_init_inv boot_step_inv)

subsection \<open>All free pages go to the page allocator\<close>

lemma release_step:
  assumes inv: "page_inv s" and o': "o' < MAX_ORDER" "2 ^ o' dvd p" and b: "blk p o' \<subseteq># boot s"
  obtains z where "release_bootmem p o' (zn s) = Inr z" "page_step s (s\<lparr>zn := z, boot := boot s - blk p o'\<rparr>)"
    "page_inv (s\<lparr>zn := z, boot := boot s - blk p o'\<rparr>)"
proof -
  obtain z where z: "release_bootmem p o' (zn s) = Inr z" using release_bootmem_ok [OF inv o' b] by blast
  have st: "page_step s (s\<lparr>zn := z, boot := boot s - blk p o'\<rparr>)" using o' b z by (rule page_step.release)
  show ?thesis using that z st page_step_inv [OF inv st] by blast
qed

text \<open>The system \<open>s\<close> after the release of the pages \<open>A\<close>.\<close>

definition released :: "page_sys \<Rightarrow> nat set \<Rightarrow> zone \<Rightarrow> bool" where
  "released s A z \<longleftrightarrow> page_step\<^sup>*\<^sup>* s (s\<lparr>zn := z, boot := boot s - mset_set A\<rparr>) \<and> page_inv (s\<lparr>zn := z, boot := boot s - mset_set A\<rparr>)"

lemma released_none: "page_inv s \<Longrightarrow> released s {} (zn s)"
  by (simp add: released_def)

lemma released_Un:
  assumes r: "released s A z" and r': "released (s\<lparr>zn := z, boot := boot s - mset_set A\<rparr>) B z'"
    and f: "finite A" "finite B" "A \<inter> B = {}"
  shows "released s (A \<union> B) z'"
proof -
  have "boot s - mset_set A - mset_set B = boot s - mset_set (A \<union> B)" using f by (simp add: mset_set_Union)
  then show ?thesis using r r' unfolding released_def by (auto intro: rtranclp_trans)
qed

lemma subset_Un_rest:
  assumes "mset_set (A \<union> B) \<subseteq># M" "finite A" "finite B" "A \<inter> B = {}"
  shows "mset_set A \<subseteq># M" "mset_set B \<subseteq># M - mset_set A"
  using assms by (simp_all add: mset_set_Union) (metis mset_subset_eq_add_left subset_mset.trans, metis add.commute subset_mset.le_diff_conv2 mset_subset_eq_add_left subset_mset.trans)

lemma release_one:
  assumes inv: "page_inv s" and o': "o' < MAX_ORDER" "2 ^ o' dvd p" and A: "A = {p..<p + 2 ^ o'}" and b: "mset_set A \<subseteq># boot s"
  shows "\<exists>z. release_bootmem p o' (zn s) = Inr z \<and> released s A z"
  using release_step [OF inv o'] b unfolding released_def A blk_def [symmetric] by blast

definition clear_pages :: "bool list \<Rightarrow> nat \<Rightarrow> nat \<Rightarrow> nat \<Rightarrow> nat set" where
  "clear_pages bits base i j = (\<lambda>k. base + k) ` {k. i \<le> k \<and> k < j \<and> \<not> bits ! k}"

lemma clear_pages_finite [simp]: "finite (clear_pages bits base i j)"
  by (simp add: clear_pages_def)

lemma clear_pages_split:
  assumes "i \<le> j" "j \<le> n"
  shows "clear_pages bits base i n = clear_pages bits base i j \<union> clear_pages bits base j n" "clear_pages bits base i j \<inter> clear_pages bits base j n = {}"
proof -
  have "{k. i \<le> k \<and> k < n \<and> \<not> bits ! k} = {k. i \<le> k \<and> k < j \<and> \<not> bits ! k} \<union> {k. j \<le> k \<and> k < n \<and> \<not> bits ! k}"
    using assms by auto
  then show "clear_pages bits base i n = clear_pages bits base i j \<union> clear_pages bits base j n" by (simp only: clear_pages_def image_Un)
qed (auto simp: clear_pages_def)

lemma clear_pages_card:
  assumes "i \<le> j" "j \<le> n"
  shows "card (clear_pages bits base i n) = card (clear_pages bits base i j) + card (clear_pages bits base j n)"
  using clear_pages_split [OF assms] by (simp add: card_Un_disjoint)

lemma clear_pages_one: "clear_pages bits base i (Suc i) = (if bits ! i then {} else {base + i})"
  by (auto simp: clear_pages_def less_Suc_eq)

lemma clear_pages_all:
  assumes "\<And>k. i \<le> k \<Longrightarrow> k < i + n \<Longrightarrow> \<not> bits ! k"
  shows "clear_pages bits base i (i + n) = {base + i..<base + i + n}"
proof -
  have "{k. i \<le> k \<and> k < i + n \<and> \<not> bits ! k} = {i..<i + n}" using assms by auto
  then show ?thesis by (simp add: clear_pages_def ac_simps)
qed

lemma free_map_releases:
  "page_inv s \<Longrightarrow> mset_set {p..<p + n} \<subseteq># boot s \<Longrightarrow> \<exists>z. free_map p n (zn s) = Inr z \<and> released s {p..<p + n} z"
proof (induction n arbitrary: p s)
  case 0
  then show ?case by (simp add: released_none)
next
  case (Suc n)
  have e: "{p..<p + Suc n} = {p} \<union> {Suc p..<Suc p + n}" by auto
  note S = subset_Un_rest [OF Suc.prems(2) [unfolded e]]
  obtain z where z: "release_bootmem p 0 (zn s) = Inr z" "released s {p} z"
    using release_one [OF Suc.prems(1), of 0 p "{p}"] S(1) by auto
  let ?s = "s\<lparr>zn := z, boot := boot s - mset_set {p}\<rparr>"
  have "mset_set {Suc p..<Suc p + n} \<subseteq># boot ?s" using S(2) by simp
  then obtain z' where z': "free_map (Suc p) n z = Inr z'" "released ?s {Suc p..<Suc p + n} z'"
    using Suc.IH [of ?s "Suc p"] z(2) by (auto simp: released_def)
  then show ?case unfolding e using z released_Un [OF z(2) z'(2)] by simp
qed

text \<open>A part of the pages is released by \<open>f\<close>, the rest by \<open>g\<close>.\<close>

lemma released_then:
  assumes ij: "i \<le> j" "j \<le> n" and b: "mset_set (clear_pages bits base i n) \<subseteq># boot s"
    and f: "mset_set (clear_pages bits base i j) \<subseteq># boot s \<Longrightarrow> \<exists>z. P z \<and> released s (clear_pages bits base i j) z"
    and g: "\<And>z s'. P z \<Longrightarrow> page_inv s' \<Longrightarrow> zn s' = z \<Longrightarrow> mset_set (clear_pages bits base j n) \<subseteq># boot s' \<Longrightarrow>
      \<exists>z'. Q z' \<and> released s' (clear_pages bits base j n) z'"
  shows "\<exists>z'. Q z' \<and> released s (clear_pages bits base i n) z'"
proof -
  note e = clear_pages_split [OF ij, of bits base]
  note S = subset_Un_rest [OF b [unfolded e(1)] clear_pages_finite clear_pages_finite e(2)]
  obtain z where z: "P z" "released s (clear_pages bits base i j) z" using f [OF S(1)] by blast
  let ?s = "s\<lparr>zn := z, boot := boot s - mset_set (clear_pages bits base i j)\<rparr>"
  obtain z' where "Q z'" "released ?s (clear_pages bits base j n) z'"
    using g [OF z(1), of ?s] z(2) S(2) by (auto simp: released_def)
  then show ?thesis unfolding e(1) using released_Un [OF z(2) _ clear_pages_finite clear_pages_finite e(2)] by blast
qed

lemma free_word_releases:
  assumes "page_inv s" "\<And>m. m < length v \<Longrightarrow> v ! m \<longleftrightarrow> \<not> bits ! (i + m)" "j = min idx (i + length v)" "i \<le> idx"
    "mset_set (clear_pages bits base i j) \<subseteq># boot s"
  shows "\<exists>z. free_word base idx v i cnt (zn s) = Inr (j, cnt + card (clear_pages bits base i j), z) \<and> released s (clear_pages bits base i j) z"
  using assms
proof (induction v arbitrary: i cnt s)
  case Nil
  then have "clear_pages bits base i j = {}" "j = i" by (auto simp: clear_pages_def)
  then show ?case using Nil.prems(1) by (simp add: released_none)
next
  case (Cons f v)
  show ?case
  proof (cases "i < idx")
    case False
    then have "clear_pages bits base i j = {}" "j = i" using Cons.prems(3,4) by (auto simp: clear_pages_def)
    then show ?thesis using Cons.prems(1) False by (simp add: released_none)
  next
    case True
    have f: "f \<longleftrightarrow> \<not> bits ! i" using Cons.prems(2) [of 0] by simp
    let ?c = "if f then Suc cnt else cnt"
    have j: "Suc i \<le> j" "j = min idx (Suc i + length v)" using Cons.prems(3) True by auto
    have c: "cnt + card (clear_pages bits base i j) = ?c + card (clear_pages bits base (Suc i) j)"
      using clear_pages_card [of i "Suc i" j] j(1) f by (simp add: clear_pages_one)
    show ?thesis
    proof (rule released_then [OF _ j(1) Cons.prems(5), where P = "\<lambda>z. (if f then release_bootmem (base + i) 0 (zn s) else Inr (zn s)) = Inr z"])
      assume "mset_set (clear_pages bits base i (Suc i)) \<subseteq># boot s"
      then show "\<exists>z. (if f then release_bootmem (base + i) 0 (zn s) else Inr (zn s)) = Inr z \<and> released s (clear_pages bits base i (Suc i)) z"
        using release_one [OF Cons.prems(1), of 0 "base + i" "{base + i}"] released_none [OF Cons.prems(1)] f by (auto simp: clear_pages_one)
    next
      fix z s' assume z: "(if f then release_bootmem (base + i) 0 (zn s) else Inr (zn s)) = Inr z" and s': "page_inv s'" "zn s' = z"
        "mset_set (clear_pages bits base (Suc i) j) \<subseteq># boot s'"
      have "v ! m \<longleftrightarrow> \<not> bits ! (Suc i + m)" if "m < length v" for m using Cons.prems(2) [of "Suc m"] that by simp
      from Cons.IH [OF s'(1) this j(2) _ s'(3), of ?c]
      show "\<exists>z'. free_word base idx (f # v) i cnt (zn s) = Inr (j, cnt + card (clear_pages bits base i j), z') \<and>
          released s' (clear_pages bits base (Suc i) j) z'"
        using z True unfolding c s'(2) by simp
    qed simp
  qed
qed

text \<open>What the loop does with a word of the bitmap.\<close>

lemma free_all_loop_word:
  assumes i: "i < idx" "32 dvd i" and L: "idx \<le> length bits" "32 dvd length bits"
  obtains
    (fast) "gofast" "i + 32 \<le> length bits" "\<And>k. i \<le> k \<Longrightarrow> k < i + 32 \<Longrightarrow> \<not> bits ! k"
      "\<And>cnt z. free_all_loop gofast bits base idx i cnt z =
        bind_res (release_bootmem (base + i) 5 z) (free_all_loop gofast bits base idx (i + 32) (cnt + 32))"
  | (pages) v where "length v = 32" "\<And>m. m < 32 \<Longrightarrow> v ! m \<longleftrightarrow> \<not> bits ! (i + m)"
      "\<And>cnt z. free_all_loop gofast bits base idx i cnt z =
        bind_res (free_word base idx v i cnt z) (\<lambda>(i, cnt, z). free_all_loop gofast bits base idx i cnt z)"
  | (none) "\<And>k. i \<le> k \<Longrightarrow> k < i + 32 \<Longrightarrow> bits ! k"
      "\<And>cnt z. free_all_loop gofast bits base idx i cnt z = free_all_loop gofast bits base idx (i + 32) cnt z"
proof -
  let ?v = "map Not (take 32 (drop i bits))"
  obtain a b where ab: "i = 32 * a" "length bits = 32 * b" using i(2) L(2) by (auto elim!: dvdE)
  then have "a < b" using i(1) L(1) by simp
  then have w: "i div 32 * 32 = i" "i + 32 \<le> length bits" using ab by simp_all
  have v: "length ?v = 32" "\<And>m. m < 32 \<Longrightarrow> ?v ! m \<longleftrightarrow> \<not> bits ! (i + m)" using w(2) by (simp_all add: add.commute)
  have all: "list_all id ?v \<longleftrightarrow> (\<forall>m < 32. \<not> bits ! (i + m))" "list_ex id ?v \<longleftrightarrow> (\<exists>m < 32. \<not> bits ! (i + m))"
    using w(2) by (auto simp: list_all_length list_ex_length add.commute)
  have shift: "(\<forall>m < 32. P (i + m)) \<longleftrightarrow> (\<forall>k. i \<le> k \<longrightarrow> k < i + 32 \<longrightarrow> P k)" for P
    by (metis le_add1 le_add_diff_inverse nat_add_left_cancel_less)
  note unf = free_all_loop.simps [of gofast bits base idx i, unfolded w Let_def]
  consider "gofast \<and> list_all id ?v" | "\<not> (gofast \<and> list_all id ?v)" "list_ex id ?v" | "\<not> (gofast \<and> list_all id ?v)" "\<not> list_ex id ?v"
    by blast
  then show ?thesis
  proof cases
    case 1
    then show ?thesis using fast all(1) shift [of "\<lambda>k. \<not> bits ! k"] i(1) w(2) unf by simp
  next
    case 2
    then have "free_all_loop gofast bits base idx i cnt z =
        bind_res (free_word base idx ?v i cnt z) (\<lambda>(i, cnt, z). free_all_loop gofast bits base idx i cnt z)" for cnt z
      using i(1) w(2) by (subst unf) auto
    then show ?thesis using pages [OF v] by blast
  next
    case 3
    then have "free_all_loop gofast bits base idx i cnt z = free_all_loop gofast bits base idx (i + 32) cnt z" for cnt z
      using i(1) w(2) by (subst unf) auto
    then show ?thesis using none 3(2) all(2) shift [of "\<lambda>k. bits ! k"] by blast
  qed
qed

lemma free_all_loop_releases:
  assumes "page_inv s" "32 dvd i \<or> idx \<le> i" "mset_set (clear_pages bits base i idx) \<subseteq># boot s"
    and L: "idx \<le> length bits" "32 dvd length bits" "\<And>k. idx \<le> k \<Longrightarrow> k < length bits \<Longrightarrow> bits ! k" "gofast \<Longrightarrow> 32 dvd base"
  shows "\<exists>z. free_all_loop gofast bits base idx i cnt (zn s) = Inr (cnt + card (clear_pages bits base i idx), z) \<and>
    released s (clear_pages bits base i idx) z"
  using assms(1-3)
proof (induction "idx - i" arbitrary: i cnt s rule: less_induct)
  case less
  show ?case
  proof (cases "i < idx")
    case False
    then have "clear_pages bits base i idx = {}" by (auto simp: clear_pages_def)
    then show ?thesis using less.prems(1) False by (simp add: released_none free_all_loop.simps [of gofast bits base idx i])
  next
    case True
    then have d: "32 dvd i" using less.prems(2) by simp
    from True d L(1,2) show ?thesis
    proof (cases rule: free_all_loop_word [where gofast = gofast and base = base, case_names fast pages none])
      case fast
      have n: "i + 32 \<le> idx" using fast(3) [of idx] L(3) [of idx] fast(2) True by linarith
      have A: "clear_pages bits base i (i + 32) = {base + i..<base + i + 2 ^ 5}" using clear_pages_all [of i 32 bits base] fast(3) by simp
      have "2 ^ 5 dvd base + i" using d L(4) fast(1) by simp
      note rel = release_one [OF less.prems(1) _ this A]
      have c: "cnt + card (clear_pages bits base i idx) = cnt + 32 + card (clear_pages bits base (i + 32) idx)"
        using clear_pages_card [of i "i + 32" idx bits base] n A by simp
      show ?thesis unfolding c
        by (rule released_then [OF _ n less.prems(3), where P = "\<lambda>z. release_bootmem (base + i) 5 (zn s) = Inr z"])
          (use rel less.hyps [of "i + 32" _ "cnt + 32"] True d n in \<open>auto simp: fast(4)\<close>)
    next
      case (pages v)
      let ?j = "min idx (i + 32)"
      have j: "i \<le> ?j" "?j \<le> idx" "32 dvd ?j \<or> idx \<le> ?j" "idx - ?j < idx - i" using True d by auto
      have c: "cnt + card (clear_pages bits base i idx) = cnt + card (clear_pages bits base i ?j) + card (clear_pages bits base ?j idx)"
        using clear_pages_card [OF j(1,2)] by simp
      note word = free_word_releases [OF less.prems(1), of v bits i ?j idx base cnt]
      show ?thesis unfolding c
        by (rule released_then [OF j(1,2) less.prems(3), where P =
            "\<lambda>z. free_word base idx v i cnt (zn s) = Inr (?j, cnt + card (clear_pages bits base i ?j), z)"])
          (use word less.hyps [OF j(4) _ j(3)] True pages(1,2) in \<open>auto simp: pages(3)\<close>)
    next
      case none
      then have "clear_pages bits base i idx = clear_pages bits base (i + 32) idx" by (force simp: clear_pages_def)
      then show ?thesis using less.hyps [of "i + 32" s cnt] less.prems True d by (simp add: none(2))
    qed
  qed
qed

lemma ffs_aligned:
  assumes "18 < ffs x"
  shows "2 ^ 18 dvd unat x"
proof (rule ccontr)
  assume n: "\<not> 2 ^ 18 dvd unat x"
  then have x: "x \<noteq> 0" by auto
  have "(unat x - 1) div 2 ^ 18 = unat x div 2 ^ 18"
  proof -
    have "Suc (unat x - 1) = unat x" using x by (simp add: unat_gt_0)
    moreover have "\<not> 2 ^ 18 dvd Suc (unat x - 1)" using n calculation by simp
    ultimately show ?thesis by (metis div_Suc mod_eq_0_iff_dvd)
  qed
  then have "unat (drop_bit 18 (x - 1)) = unat (drop_bit 18 x)" using x by (simp add: unat_drop_bit unat_minus_one)
  then have d: "drop_bit 18 (x - 1) = drop_bit 18 x" by (simp only: word_unat_eq_iff)
  have "drop_bit 18 (x AND - x) = drop_bit 18 x AND drop_bit 18 (NOT (x - 1))" by (simp add: minus_eq_not_minus_1)
  also have "\<dots> = 0"
  proof (rule bit_eqI)
    fix m
    have "bit (drop_bit 18 (x - 1)) m \<longleftrightarrow> bit (drop_bit 18 x) m" unfolding d ..
    then show "bit (drop_bit 18 x AND drop_bit 18 (NOT (x - 1))) m \<longleftrightarrow> bit (0 :: u32) m"
      by (auto simp: bit_simps)
  qed
  finally have "unat (x AND - x) div 2 ^ 18 = 0" using unat_drop_bit [of 18 "x AND - x"] by simp
  then have lt: "unat (x AND - x) < 2 ^ 18" by (simp add: div_eq_0_iff)
  have "x AND - x \<noteq> 0" using assms by (auto simp: ffs_def generic_fls_def)
  then obtain r where r: "generic_fls (x AND - x) = int r" "2 ^ (r - 1) \<le> unat (x AND - x)" using generic_fls_bounds by blast
  have "(2 :: nat) ^ 18 \<le> 2 ^ (r - 1)" using assms r(1) by (intro power_increasing) (simp_all add: ffs_def)
  then show False using r(2) lt by linarith
qed

lemma ffs_32: "ffs 32 = 6"
  using generic_fls_pow2 [of 5 32] and_minus_pow2 [of 32 5] by (simp add: ffs_def)

text \<open>The pages that are released.\<close>

abbreviation boot_base :: "bootmem_data \<Rightarrow> nat" where
  "boot_base bd \<equiv> unat (drop_bit 12 (node_boot_start bd))"

definition boot_free_pages :: "bootmem_data \<Rightarrow> nat set" where
  "boot_free_pages bd = clear_pages (node_bootmem_map bd) (boot_base bd) 0 (boot_idx bd)"

definition bootmap_pages :: "bootmem_data \<Rightarrow> nat set" where
  "bootmap_pages bd = {bootmap_pfn bd..<bootmap_pfn bd + (boot_idx bd div 8 + 4095) div PAGE_SIZE}"

lemma gofast_aligned:
  assumes "w = 0 \<or> ffs w - 12 > ffs 32"
  shows "32 dvd unat (drop_bit 12 (w :: u32))"
proof -
  have "w = 0 \<or> 18 < ffs w" using assms by (auto simp: ffs_32)
  then have "2 ^ 18 dvd unat w" using ffs_aligned by auto
  then show ?thesis by (auto simp: unat_drop_bit elim!: dvdE)
qed

lemma free_all_bootmem_ok:
  assumes ok: "map_ok bd" and inv: "page_inv s"
    and b: "mset_set (boot_free_pages bd \<union> bootmap_pages bd) \<subseteq># boot s" "boot_free_pages bd \<inter> bootmap_pages bd = {}"
  shows "\<exists>z. free_all_bootmem_core bd (zn s) = Inr (card (boot_free_pages bd) + card (bootmap_pages bd), z) \<and>
    released s (boot_free_pages bd \<union> bootmap_pages bd) z"
proof -
  let ?fast = "node_boot_start bd = 0 \<or> ffs (node_boot_start bd) - 12 > ffs 32"
  let ?n = "(boot_idx bd div 8 + 4095) div PAGE_SIZE"
  have fin: "finite (boot_free_pages bd)" "finite (bootmap_pages bd)" by (simp_all add: boot_free_pages_def bootmap_pages_def)
  note S = subset_Un_rest [OF b(1) fin b(2)]
  obtain z where z: "free_all_loop ?fast (node_bootmem_map bd) (boot_base bd) (boot_idx bd) 0 0 (zn s) = Inr (card (boot_free_pages bd), z)"
      "released s (boot_free_pages bd) z"
    using free_all_loop_releases [OF inv, of 0 "boot_idx bd" "node_bootmem_map bd" "boot_base bd" ?fast 0] S(1) map_okD(1,2,7) [OF ok] gofast_aligned
    unfolding boot_free_pages_def by auto
  let ?s = "s\<lparr>zn := z, boot := boot s - mset_set (boot_free_pages bd)\<rparr>"
  obtain z' where z': "free_map (bootmap_pfn bd) ?n z = Inr z'" "released ?s (bootmap_pages bd) z'"
    using free_map_releases [of ?s "bootmap_pfn bd" ?n] z(2) S(2) unfolding bootmap_pages_def by (auto simp: released_def)
  have "card (bootmap_pages bd) = ?n" by (simp add: bootmap_pages_def)
  then have "free_all_bootmem_core bd (zn s) = Inr (card (boot_free_pages bd) + card (bootmap_pages bd), z')"
    using z(1) z'(1) by (simp add: free_all_bootmem_core_def Let_def)
  then show ?thesis using released_Un [OF z(2) z'(2) fin b(2)] by blast
qed

lemma owned_not_released:
  assumes ok: "map_ok bd" and r: "R \<inter> free_bytes bd = {}" and x: "x \<in> R"
  shows "x div PAGE_SIZE \<notin> boot_free_pages bd"
proof
  assume "x div PAGE_SIZE \<in> boot_free_pages bd"
  then obtain k where k: "x div PAGE_SIZE = boot_base bd + k" "k < boot_idx bd" "\<not> node_bootmem_map bd ! k"
    by (auto simp: boot_free_pages_def clear_pages_def)
  have "PAGE_SIZE * boot_base bd = unat (node_boot_start bd)" using map_okD(3) [OF ok] by (simp add: unat_drop_bit)
  then have "unat (node_boot_start bd) + PAGE_SIZE * k = PAGE_SIZE * (x div PAGE_SIZE)" using k(1) by simp
  then have "x \<in> page_bytes bd k"
    using times_div_less_eq_dividend [of PAGE_SIZE x] dividend_less_times_div [of PAGE_SIZE x] by (simp add: page_bytes_def)
  then have "x \<in> free_bytes bd" using k(2,3) by (auto simp: free_bytes_def clear_bytes_def)
  then show False using r x by blast
qed

subsection \<open>Properties\<close>

text \<open>A node of 32 pages with the bitmap in page 1, the pages \<open>A\<close> free.\<close>

definition ex_bd :: "nat list \<Rightarrow> u32 \<Rightarrow> nat \<Rightarrow> u32 \<Rightarrow> bootmem_data" where
  "ex_bd A lo lp ls = \<lparr>node_boot_start = 0, node_low_pfn = 32, node_bootmem_map = map (\<lambda>i. i \<notin> set A) [0..<32], bootmap_pfn = 1,
     last_offset = lo, last_pos = lp, last_success = ls\<rparr>"

definition ex_bs :: boot_sys where
  "ex_bs = \<lparr>bdata = ex_bd [3] 138 2 12288, given = [(8320, 10), (8192, 100)], held = [], misused = False\<rparr>"

lemma ex_bs_reached: "\<exists>s0. boot_init s0 \<and> boot_step\<^sup>*\<^sup>* s0 ex_bs"
proof -
  let ?s = "\<lambda>bd gs. \<lparr>bdata = bd, given = gs, held = [], misused = False\<rparr>"
  have "ex_bd [] 0 0 0 = init_bootmem_core 1 0 32" by code_simp
  then have "0 < (32 :: nat) \<and> PAGE_SIZE * 32 \<le> 2 ^ 32 \<and> ex_bd [] 0 0 0 = init_bootmem_core 1 0 32" by simp
  then have i: "boot_init (?s (ex_bd [] 0 0 0) [])" unfolding boot_init_def boot_sys.select_convs by blast
  have r: "boot_range (ex_bd [] 0 0 0) (8192, 8192)" by (simp add: boot_range_def ex_bd_def)
  have "free_bootmem_core 8192 8192 (ex_bd [] 0 0 0) = Inr (ex_bd [2, 3] 0 0 0)" by code_simp
  then have "boot_step (?s (ex_bd [] 0 0 0) []) (?s (ex_bd [2, 3] 0 0 0) [])"
    using boot_step.free [of "?s (ex_bd [] 0 0 0) []" 8192 8192 "ex_bd [2, 3] 0 0 0"] r by (simp add: ex_bd_def)
  moreover have "alloc_bootmem_core (\<lambda>_. None) 100 64 0 (ex_bd [2, 3] 0 0 0) = Inr (Some 8192, ex_bd [3] 100 2 8192)" by code_simp
  then have "boot_step (?s (ex_bd [2, 3] 0 0 0) []) (?s (ex_bd [3] 100 2 8192) [(8192, 100)])"
    using boot_step.alloc [of "\<lambda>_. None" 100 64 0 "?s (ex_bd [2, 3] 0 0 0) []" 8192 "ex_bd [3] 100 2 8192"] by simp
  moreover have "alloc_bootmem_core (\<lambda>_. None) 10 64 0 (ex_bd [3] 100 2 8192) = Inr (Some 8320, ex_bd [3] 138 2 12288)" by code_simp
  then have "boot_step (?s (ex_bd [3] 100 2 8192) [(8192, 100)]) ex_bs"
    using boot_step.alloc [of "\<lambda>_. None" 10 64 0 "?s (ex_bd [3] 100 2 8192) [(8192, 100)]" 8320 "ex_bd [3] 138 2 12288"] by (simp add: ex_bs_def)
  ultimately have "boot_step\<^sup>*\<^sup>* (?s (ex_bd [] 0 0 0) []) ex_bs" by (meson converse_rtranclp_into_rtranclp rtranclp.rtrancl_refl)
  then show ?thesis using i by blast
qed

text \<open>C9. As long as the boot memory allocator is not misused (an allocation with alignment 0 or of almost \<open>2 ^ 32\<close> bytes; the page
  that the next allocation may continue in is freed, or its rest is reserved), no two allocations overlap, all are inside the node's memory,
  and none overlaps a page that counts as free or memory that is reserved. Callers reserve memory of the node that is not
  allocated, and free memory of the node that nobody owns.\<close>

theorem bootmem_allocations_disjoint:
  assumes "boot_init s0" "boot_step\<^sup>*\<^sup>* s0 s" "\<not> misused s"
  shows "apart (given s) \<and> (\<forall>r \<in> set (given s). span r \<subseteq> boot_bytes (bdata s) \<and> span r \<inter> clear_bytes (bdata s) = {} \<and>
    (\<forall>r' \<in> set (held s). span r \<inter> span r' = {}))"
proof -
  have "owned_ok s" using bootmem.reachable_inv [OF assms(1,2)] assms(3) by (simp add: boot_inv_def)
  note I = owned_okD [OF this]
  have "span r \<inter> clear_bytes (bdata s) = {}" if "r \<in> set (given s)" for r using I(4) [of r] that by (auto simp: free_bytes_def)
  then show ?thesis using I(2,3,5) by blast
qed

theorem bootmem_allocations_disjoint_witness:
  "\<exists>s :: boot_sys. \<not> misused s \<and> given s = [(8320, 10), (8192, 100)] \<and> apart (given s)"
proof -
  obtain s0 where "boot_init s0" "boot_step\<^sup>*\<^sup>* s0 ex_bs" using ex_bs_reached by blast
  from bootmem_allocations_disjoint [OF this] show ?thesis by (intro exI [of _ ex_bs]) (simp add: ex_bs_def)
qed



text \<open>C19. At the end of the boot process exactly the free pages and the pages of the bitmap go to the page allocator, by steps
  of the page allocator that all succeed, and their number is returned; the pages of the bitmap are those that the code counts,
  with the number of bytes rounded down. If the allocator has not been misused, no page with allocated or reserved memory is among
  the free ones.\<close>

theorem free_all_bootmem_hands_over:
  assumes "boot_init b0" "boot_step\<^sup>*\<^sup>* b0 b" "page_init s0" "page_step\<^sup>*\<^sup>* s0 s"
    "mset_set (boot_free_pages (bdata b) \<union> bootmap_pages (bdata b)) \<subseteq># boot s" "boot_free_pages (bdata b) \<inter> bootmap_pages (bdata b) = {}"
  shows "\<exists>z. free_all_bootmem_core (bdata b) (zn s) = Inr (card (boot_free_pages (bdata b)) + card (bootmap_pages (bdata b)), z) \<and>
    page_step\<^sup>*\<^sup>* s (s\<lparr>zn := z, boot := boot s - mset_set (boot_free_pages (bdata b) \<union> bootmap_pages (bdata b))\<rparr>) \<and>
    (\<not> misused b \<longrightarrow> (\<forall>r \<in> set (given b @ held b). \<forall>x \<in> span r. x div PAGE_SIZE \<notin> boot_free_pages (bdata b)))"
proof -
  have I: "map_ok (bdata b)" "\<not> misused b \<Longrightarrow> owned_ok b" using bootmem.reachable_inv [OF assms(1,2)] by (simp_all add: boot_inv_def)
  note J = page_allocator.reachable_inv [OF assms(3,4)]
  have "x div PAGE_SIZE \<notin> boot_free_pages (bdata b)" if "\<not> misused b" "r \<in> set (given b @ held b)" "x \<in> span r" for r x
    using owned_not_released [OF I(1) owned_okD(4) [OF I(2) [OF that(1)]] that(3)] that(2) by simp
  then show ?thesis using free_all_bootmem_ok [OF I(1) J assms(5,6)] unfolding released_def by blast
qed

theorem free_all_bootmem_hands_over_witness:
  "\<exists>z. free_all_bootmem_core (bdata ex_bs) (zn ex_pg0) = Inr (2, z) \<and>
    page_step\<^sup>*\<^sup>* ex_pg0 (ex_pg0\<lparr>zn := z, boot := boot ex_pg0 - mset_set {1, 3}\<rparr>)"
proof -
  have idx: "boot_idx (bdata ex_bs) = 32" by (simp add: ex_bs_def ex_bd_def boot_idx_def)
  have "{k. k < 32 \<and> \<not> map (\<lambda>i. i \<notin> set [3 :: nat]) [0..<32] ! k} = {3}" by auto
  then have f: "boot_free_pages (bdata ex_bs) = {3}" unfolding boot_free_pages_def clear_pages_def idx by (simp add: ex_bs_def ex_bd_def)
  have m: "bootmap_pages (bdata ex_bs) = {1}" by (simp add: bootmap_pages_def idx) (simp add: ex_bs_def ex_bd_def)
  have "mset_set {1, 3} \<subseteq># mset_set {0..<1024 :: nat}" by (rule subset_imp_msubset_mset_set) simp_all
  then have b: "mset_set {1, 3} \<subseteq># boot ex_pg0" by (simp add: ex_pg0_def zone_pages_def init_defs Let_def)
  obtain b0 where "boot_init b0" "boot_step\<^sup>*\<^sup>* b0 ex_bs" using ex_bs_reached by blast
  from free_all_bootmem_hands_over [OF this ex_pg0_init rtranclp.rtrancl_refl] show ?thesis unfolding f m using b by (auto simp: insert_commute numeral_2_eq_2)
qed

subsection \<open>Divergences\<close>

text \<open>An alignment of 0 is accepted, but an allocation that continues in the last page then starts at the beginning of that
  page, over the allocation before.\<close>

lemma zero_align_overlaps:
  "alloc_bootmem_core (\<lambda>_. None) 10 0 0 (ex_bd [3] 100 2 8192) = Inr (Some 8192, ex_bd [3] 10 2 12288)"
  by code_simp

text \<open>For alignments above a page the scan advances twice after a failure, and misses the free area in pages 4 and 5.\<close>

lemma large_align_misses:
  "alloc_bootmem_core (\<lambda>_. Some True) 8192 8192 0 (ex_bd [2, 4, 5] 0 0 0) = Inr (None, ex_bd [2, 4, 5] 0 0 0)"
  by code_simp

text \<open>When no page is free, a bit behind the bitmap is read; when it is clear, the allocation ends in \<open>BUG()\<close>.\<close>

lemma full_bitmap_overread:
  "alloc_bootmem_core (\<lambda>_. None) 10 64 0 (ex_bd [] 0 0 0) = Inl OutOfBounds"
  "alloc_bootmem_core (\<lambda>_. Some False) 10 64 0 (ex_bd [] 0 0 0) = Inl BUG"
  by code_simp+

text \<open>The number of pages wraps for a size near \<open>2 ^ 32\<close>: the allocation succeeds, and reserves nothing.\<close>

lemma huge_size_granted:
  "alloc_bootmem_core (\<lambda>_. None) 0xffffffff 64 0 (ex_bd [3] 0 0 0) = Inr (Some 12288, ex_bd [3] 4095 2 12288)"
  by code_simp

text \<open>The page of the last allocation is freed, the next allocation continues in it, and the third one gets it, too.\<close>

lemma freed_last_page_shared:
  "free_bootmem_core 8192 4096 (ex_bd [3] 100 2 8192) = Inr (ex_bd [2, 3] 100 2 8192)"
  "alloc_bootmem_core (\<lambda>_. None) 10 64 12288 (ex_bd [2, 3] 100 2 8192) = Inr (Some 8320, ex_bd [2, 3] 138 2 12288)"
  "alloc_bootmem_core (\<lambda>_. None) 4096 4096 0 (ex_bd [2, 3] 138 2 12288) = Inr (Some 8192, ex_bd [3] 0 2 8192)"
  by code_simp+

text \<open>The rest of the page of the last allocation is reserved, and the next allocation gets a part of it.\<close>

lemma reserved_tail_allocated:
  "reserve_bootmem_core 8300 96 (ex_bd [3] 100 2 8192) = Inr (ex_bd [3] 100 2 8192)"
  "alloc_bootmem_core (\<lambda>_. None) 10 64 0 (ex_bd [3] 100 2 8192) = Inr (Some 8320, ex_bd [3] 138 2 12288)"
  by code_simp+

text \<open>Not all pages of the bitmap are freed when the number of pages is just above a multiple of 32768.\<close>

lemma bootmap_page_lost:
  "bootmem_bootmap_pages 32769 = 2" "boot_idx bd = 32769 \<Longrightarrow> card (bootmap_pages bd) = 1"
  by code_simp (simp add: bootmap_pages_def)

end
