(* ===== verification/Spec2Isabelle.thy ===== *)
theory Spec2Isabelle
  imports Prelude Bitops Kfifo Block Md_Linear Md_Raid0 Md_Raid1 Md_Raid1_Control Md_Raid1_Data Md_Raid1_Array Cred Rwsem Resource Mtd Mtd_Part Mtd_Block Timer Page_Alloc Bootmem
begin

text \<open>
  \<^bold>\<open>Verification of the kernel of the DNS-323 firmware.\<close>

  The repository builds the firmware of the D-Link DNS-323, a network storage box with two disks and 8 MB of
  flash: make rules around Linux 2.6.12.6 for ARM, \<open>src/src/linux-2.6.12.6-arm1\<close>, with the configuration
  \<open>src/src/kernel.config\<close>. The development models those parts of the kernel that keep the box's data and
  decide who may touch it: the flash stack, the mirroring, striping and concatenation of disks, the user's credentials, and the
  kernel services under them (boot memory and page allocator, timers, semaphores, resource tree, byte FIFO). Paths below are relative to
  the kernel's directory.

  \<^bold>\<open>The target.\<close> One ARM926 core without preemption (neither \<open>CONFIG_SMP\<close> nor \<open>CONFIG_PREEMPT\<close>): code under a
  spinlock is one atomic step, and what may happen between two steps is a nondeterministic choice of a step
  relation. \<open>int\<close>, \<open>unsigned long\<close> and pointers have 32 bits, \<open>sector_t\<close> has 64 (\<open>CONFIG_LBD\<close>). Machine integers are
  words wherever they can wrap; counts that the number of pages, tasks or list elements bounds are integers or
  naturals. A \<open>BUG()\<close>, an access outside an object, a null pointer call and a division by zero are values of the type \<open>fault\<close>, beside
  the error numbers: a theorem that says that a call returns \<open>Inr\<close> says that none of them happens.

  \<^bold>\<open>The theories.\<close>
  \<^item> \<open>Prelude\<close>: machine integers, errors, \<open>memcpy\<close>, and the locale \<open>transition_system\<close> (an invariant that the initial states
    have and every step keeps holds in every reachable state), which seven components interpret.
  \<^item> \<open>Bitops\<close>: \<open>generic_fls\<close>, \<open>ffs\<close>, \<open>ffz\<close>, \<open>roundup_pow_of_two\<close> (\<open>include/linux/bitops.h\<close>, \<open>kernel.h\<close>).
  \<^item> \<open>Kfifo\<close>: \<open>kernel/kfifo.c\<close>. The ring buffer with free-running counters refines a bounded queue; the contract is the locale
    \<open>fifo_channel\<close>, interpreted on the ring buffer, and holds across the wrap-around of the counters.
  \<^item> \<open>Block\<close>: what md uses of the block layer (\<open>bio_split\<close>, \<open>sector_div\<close>, queue limits), and the locales \<open>array_map\<close> (an
    injective map of an array's sectors to places on members makes the array a disk) and \<open>splitting_driver\<close> (a request
    that crosses extents is split until it is served).
  \<^item> \<open>Md_Linear\<close>, \<open>Md_Raid0\<close>: \<open>drivers/md/linear.c\<close>, \<open>raid0.c\<close>. Assembly of an array from its members, its tables, and the mapping of
    requests; both interpret \<open>splitting_driver\<close>. The array returns what was last written to a sector.
  \<^item> \<open>Md_Raid1\<close>, \<open>Md_Raid1_Control\<close>, \<open>Md_Raid1_Data\<close>, \<open>Md_Raid1_Array\<close>: \<open>drivers/md/raid1.c\<close> and the parts of \<open>md.c\<close> that rebuild a
    disk. The first is the model: one function per atomic section of the code, and an event for each section that may run next, for
    each way in which a disk may end a part of a request, and for disks that fail, leave and come. \<open>Control\<close> has the invariant of
    the code's counts and states, \<open>Data\<close> that of the contents of disks and requests, \<open>Array\<close> the properties, for arrays below 1 TiB: reads
    return the last write, a write that no disk in sync fails is on all of them, disks in sync mirror each other (each with the exceptions
    that the state beside the code records, see below), resync and requests exclude each other, and no section fails.
  \<^item> \<open>Cred\<close>: the identity calls of \<open>kernel/sys.c\<close>, \<open>security/commoncap.c\<close>, \<open>kernel/capability.c\<close>, \<open>user.c\<close>. No
    sequence of calls leads out of a task's identities without a capability, and a dropped root stays dropped.
  \<^item> \<open>Rwsem\<close>: \<open>lib/rwsem-spinlock.c\<close>. Mutual exclusion, no lost wakeup, first in first out.
  \<^item> \<open>Resource\<close>: \<open>kernel/resource.c\<close>. The tree stays ordered and nested, busy regions exclude others, and what is
    allocated is always inside its root and apart from the other regions.
  \<^item> \<open>Mtd\<close>, \<open>Mtd_Part\<close>, \<open>Mtd_Block\<close>: \<open>drivers/mtd/mtdcore.c\<close>, \<open>devices/mtdram.c\<close>, \<open>mtdpart.c\<close>, \<open>maps/physmap.c\<close>,
    \<open>mtdblock.c\<close>, \<open>mtd_blkdevs.c\<close>. The contract of a flash device is the locale \<open>mtd_device\<close>. A partition of a device is a device (a
    \<open>sublocale\<close> of \<open>mtd_partitioned\<close>), and the block driver with its cache of one erase block is, on a device with the contract, an
    array of sectors (locales \<open>flash_block\<close> and \<open>reliable_flash\<close>). The interpretations are the memory device, and a partition of
    the DNS-323's flash with the block device on it.
  \<^item> \<open>Timer\<close>: the timing wheel of \<open>kernel/timer.c\<close>. Every timer's function is called at the tick at which it is due, and
    \<open>__run_timers\<close> ends.
  \<^item> \<open>Page_Alloc\<close>: the buddy system of \<open>mm/page_alloc.c\<close> with its lists of single pages and watermarks. Every
    page has one owner, and free buddies are always joined, except those on the lists of single pages.
  \<^item> \<open>Bootmem\<close>: the boot memory allocator, \<open>mm/bootmem.c\<close>. Allocations do not overlap although small ones share pages, as long as no caller
    misuses the allocator (the flag \<open>misused\<close> of \<open>boot_sys\<close>), an
    allocation with ordinary alignment fails only when there is no room, whatever is behind the bitmap, and at the end of the boot process exactly the free
    pages become pages of the page allocator.

  \<^bold>\<open>How the parts meet.\<close> md maps requests to its members through \<open>Block\<close>; \<open>Bitops\<close> serves kfifo, raid0 and the page
  allocator; the block driver runs on a partition, which runs on a flash device, and each step uses only the contract
  of the next. The boot memory allocator hands its pages over by steps of the page
  allocator's transition system. The components otherwise share no state in the code, and their theories share none.

  \<^bold>\<open>State.\<close> A \<open>struct\<close> is a record, a list head the list of the objects on it, a pointer to an object of an array
  its index. A list whose links lie in its elements (timers, free pages) is a list of numbers; that an element is on one
  list at most, which \<open>list_del\<close> needs, is part of the invariants (\<open>wheel_inv\<close>, \<open>lists_distinct\<close>, \<open>lists_ok\<close>).

  In \<open>Md_Raid1\<close> the contents of the array that a client expects are beside the state of the code (\<open>r1_sys\<close>), on which they have no influence:
  \<open>spec\<close>, changed when a write is answered; \<open>bad\<close>, the sectors that a disk failed to write and stays in use, or to which the resync wrote pages
  that it could not read; \<open>synced\<close>, the sectors copied in this rebuild; \<open>flawed\<close>, that this rebuild was skipped or began behind the first
  sector although a spare is a member; \<open>uncopied\<close>, that such a rebuild has activated a disk. The step relation has all these ways of the
  code, and the lemmas at the end of \<open>Md_Raid1_Array\<close> show that each occurs. In the same way \<open>boot_sys\<close> has the memory that was given out
  and reserved, and whether a caller did what \<open>bootmem.c\<close> accepts but cannot account for.

  \<^bold>\<open>Loops.\<close> Loops are recursive functions with a termination proof; four functions take
  fuel. \<open>linear_make_request\<close> and \<open>raid0_make_request\<close> call themselves for the halves of a request that they split, and the theorems
  show that as much fuel as the request has sectors is enough; the inner loop of \<open>raid0_hash\<close> may run past the zones, and more fuel than
  the array has members is enough; \<open>while_each_thread\<close> walks a ring of threads, for which as many turns as there are tasks are enough. For \<open>__run_timers\<close> that is
  a theorem about the code: the time test uses the wrapping difference of two counters, and the functions of the timers may start
  timers. The hash loop of \<open>raid0_run\<close> reads past its array, and the value read is a parameter of the model; so is what \<open>bootmem.c\<close>
  reads behind its bitmap. The theorems hold for every such value, and say for which ones the call returns.

  \<^bold>\<open>Parameters.\<close> What lies outside: the members of an md array (lists of sectors, in raid1 their contents and the result of every request), the flash chip driver (the
  record of functions of \<open>struct mtd_info\<close>, with the contract \<open>mtd_device\<close>), what timer functions do (a list of timer
  operations that may depend on the state), what the owner of a page does with its \<open>struct page\<close>, memory allocation that may fail.

  \<^bold>\<open>Findings.\<close> Theorems and lemmas whose names say so show where the code errs: member numbers one too large in
  \<open>linear_run\<close>, the read past the zones in \<open>raid0_run\<close>, writes that raid1 answers with success and loses, reads that it repeats without end,
  rebuilds that take a disk for a copy or never end, group ids more than \<open>2 ^ 31\<close> apart, \<open>capset\<close> on a process group, the
  wrap-around of an alignment in \<open>find_resource\<close>, erasures that leave a partition, an
  alignment of 0 or above a page, a full bitmap, a huge size and a freed or reserved last page in \<open>bootmem.c\<close>, and comments at \<open>mod_timer\<close> and
  \<open>free_pages_bulk\<close> that say something else.

  \<^bold>\<open>Not modelled.\<close> The rest of the kernel (scheduler, virtual memory, file systems, network, the other
  drivers, the board support of Marvell), md's superblocks, raid1's reshaping and resizing, the RAID levels other than linear, 0 and 1, the choice of zones and
  reclaim in \<open>__alloc_pages\<close>, the time of day in \<open>kernel/timer.c\<close>, and the build of the image: they are much larger than what is here,
  drive hardware, or only print. Locks have no definitions of their own, because one processor without preemption makes a
  locked section atomic.
\<close>

end
